(* ===== verification/Prelude.thy ===== *)
theory Prelude
  imports Main "HOL-Library.List_Lexorder" "HOL-Library.Char_ord" "HOL-Library.Product_Lexorder"
begin

text \<open>
  What every component shares: results that may be an error, loops over lists that stop at
  the first error, Python's string operations on code-point lists, and the collections of
  facts the component proofs draw on. A Python string is a list of \<^typ>\<open>char\<close>, one per
  code point below 256; case mappings are those of the ASCII letters.
\<close>

named_theorems py_simps \<open>evaluation of the Python primitives on concrete values\<close>
named_theorems err_simps \<open>reasoning through error results\<close>

section \<open>Results that may be errors\<close>

text \<open>A raised exception is \<^term>\<open>Inl\<close>; a returned value is \<^term>\<open>Inr\<close>.\<close>

definition bind_err :: "'e + 'a \<Rightarrow> ('a \<Rightarrow> 'e + 'b) \<Rightarrow> 'e + 'b" where
  "bind_err m f = (case m of Inl e \<Rightarrow> Inl e | Inr x \<Rightarrow> f x)"

lemma bind_err_simps [simp]:
  "bind_err (Inl e) f = Inl e"
  "bind_err (Inr x) f = f x"
  by (simp_all add: bind_err_def)

lemma bind_err_Inr_iff [err_simps]:
  "bind_err m f = Inr y \<longleftrightarrow> (\<exists>x. m = Inr x \<and> f x = Inr y)"
  by (cases m) simp_all

lemma bind_err_Inl_iff [err_simps]:
  "bind_err m f = Inl e \<longleftrightarrow> m = Inl e \<or> (\<exists>x. m = Inr x \<and> f x = Inl e)"
  by (cases m) simp_all

lemma bind_err_cong [fundef_cong]:
  "m = m' \<Longrightarrow> (\<And>x. m' = Inr x \<Longrightarrow> f x = f' x) \<Longrightarrow> bind_err m f = bind_err m' f'"
  by (cases m') simp_all

definition is_err :: "'e + 'a \<Rightarrow> bool" where
  "is_err m = (case m of Inl _ \<Rightarrow> True | Inr _ \<Rightarrow> False)"

text \<open>A comprehension whose body may raise: the first error ends the loop.\<close>

fun map_err :: "('a \<Rightarrow> 'e + 'b) \<Rightarrow> 'a list \<Rightarrow> 'e + 'b list" where
  "map_err f [] = Inr []"
| "map_err f (x # xs) = bind_err (f x) (\<lambda>y. bind_err (map_err f xs) (\<lambda>ys. Inr (y # ys)))"

fun filter_err :: "('a \<Rightarrow> 'e + bool) \<Rightarrow> 'a list \<Rightarrow> 'e + 'a list" where
  "filter_err f [] = Inr []"
| "filter_err f (x # xs) =
     bind_err (f x) (\<lambda>keep. bind_err (filter_err f xs) (\<lambda>ys. Inr (if keep then x # ys else ys)))"

fun fold_err :: "('a \<Rightarrow> 's \<Rightarrow> 'e + 's) \<Rightarrow> 'a list \<Rightarrow> 's \<Rightarrow> 'e + 's" where
  "fold_err f [] s = Inr s"
| "fold_err f (x # xs) s = bind_err (f x s) (fold_err f xs)"

text \<open>A guard that raises: the first violation of a list of checks.\<close>

fun check_all :: "('a \<Rightarrow> 'e option) \<Rightarrow> 'a list \<Rightarrow> 'e option" where
  "check_all f [] = None"
| "check_all f (x # xs) = (case f x of Some e \<Rightarrow> Some e | None \<Rightarrow> check_all f xs)"

lemma map_err_cong [fundef_cong]:
  "xs = ys \<Longrightarrow> (\<And>x. x \<in> set ys \<Longrightarrow> f x = g x) \<Longrightarrow> map_err f xs = map_err g ys"
  by (induction ys arbitrary: xs) auto

lemma filter_err_cong [fundef_cong]:
  "xs = ys \<Longrightarrow> (\<And>x. x \<in> set ys \<Longrightarrow> f x = g x) \<Longrightarrow> filter_err f xs = filter_err g ys"
  by (induction ys arbitrary: xs) auto

lemma map_err_pure: "(\<And>x. x \<in> set xs \<Longrightarrow> f x = Inr (g x)) \<Longrightarrow> map_err f xs = Inr (map g xs)"
  by (induction xs) auto

lemma filter_err_pure:
  "(\<And>x. x \<in> set xs \<Longrightarrow> f x = Inr (p x)) \<Longrightarrow> filter_err f xs = Inr (filter p xs)"
  by (induction xs) auto

lemma map_err_Inr_length: "map_err f xs = Inr ys \<Longrightarrow> length ys = length xs"
  by (induction xs arbitrary: ys) (auto simp: err_simps)

lemma filter_err_subset: "filter_err f xs = Inr ys \<Longrightarrow> set ys \<subseteq> set xs"
  by (induction xs arbitrary: ys) (fastforce simp: err_simps split: if_splits)+

lemma filter_err_Inr_set:
  "filter_err f xs = Inr ys \<Longrightarrow> x \<in> set ys \<Longrightarrow> x \<in> set xs \<and> f x = Inr True"
  by (induction xs arbitrary: ys) (auto simp: err_simps split: if_splits)

lemma fold_err_append:
  "fold_err f (xs @ ys) s = bind_err (fold_err f xs s) (fold_err f ys)"
proof (induction xs arbitrary: s)
  case (Cons x xs)
  then show ?case by (cases "f x s") simp_all
qed simp

lemma fold_err_Inl: "fold_err f xs s = Inl e \<Longrightarrow> \<exists>x \<in> set xs. \<exists>s'. f x s' = Inl e"
  by (induction xs arbitrary: s) (auto simp: err_simps)

text \<open>An invariant of every iteration is an invariant of the loop.\<close>

lemma fold_err_invariant:
  assumes "fold_err f xs s = Inr t" and "P s"
    and "\<And>x s s'. x \<in> set xs \<Longrightarrow> P s \<Longrightarrow> f x s = Inr s' \<Longrightarrow> P s'"
  shows "P t"
  using assms
proof (induction xs arbitrary: s)
  case (Cons x xs)
  then show ?case by (auto simp: err_simps)
qed simp

lemma check_all_None_iff [err_simps]: "check_all f xs = None \<longleftrightarrow> (\<forall>x \<in> set xs. f x = None)"
  by (induction xs) (auto split: option.splits)

lemma check_all_Some:
  "check_all f xs = Some e \<Longrightarrow> \<exists>x \<in> set xs. f x = Some e"
  by (induction xs) (auto split: option.splits)

section \<open>Lists\<close>

text \<open>Loops as \<open>fold\<close>: what every iteration keeps, and what one of them establishes.\<close>

lemma fold_invariant_on:
  assumes "P s" and "\<And>x s. x \<in> set xs \<Longrightarrow> P s \<Longrightarrow> P (f x s)"
  shows "P (fold f xs s)"
  using assms by (induction xs arbitrary: s) auto

lemma fold_reaches:
  assumes "x \<in> set xs" and "\<And>s. P s \<Longrightarrow> Q (f x s)" and "P s"
    and "\<And>y s. y \<in> set xs \<Longrightarrow> P s \<Longrightarrow> P (f y s)" and "\<And>y s. Q s \<Longrightarrow> Q (f y s)"
  shows "Q (fold f xs s)"
  using assms(1,3,4)
proof (induction xs arbitrary: s)
  case (Cons y ys)
  have "Q (fold f ys s')" if "Q s'" for s'
    using that assms(5) by (induction ys arbitrary: s') auto
  with Cons assms(2) show ?case by auto
qed simp

text \<open>\<open>xs.index(x)\<close> for an element that is there, and \<open>xs[xs.index(x):]\<close>.\<close>

definition from_elem :: "'a \<Rightarrow> 'a list \<Rightarrow> 'a list" where
  "from_elem x xs = dropWhile (\<lambda>y. y \<noteq> x) xs"

lemma from_elem_split:
  assumes "x \<in> set xs"
  obtains ys zs where "xs = ys @ x # zs" and "x \<notin> set ys" and "from_elem x xs = x # zs"
proof -
  from assms obtain ys zs where split: "xs = ys @ x # zs" "x \<notin> set ys"
    by (meson split_list_first)
  then have "from_elem x xs = x # zs"
    unfolding from_elem_def by (subst split(1), subst dropWhile_append2) auto
  with split show ?thesis by (rule that)
qed

text \<open>\<open>sorted(set(xs))\<close>.\<close>

definition sorted_set :: "'a::linorder list \<Rightarrow> 'a list" where
  "sorted_set xs = sort (remdups xs)"

lemma sorted_set_simps [simp]:
  "set (sorted_set xs) = set xs"
  "distinct (sorted_set xs)"
  "sorted (sorted_set xs)"
  by (simp_all add: sorted_set_def)

lemma length_filter_strict:
  assumes "\<And>x. x \<in> set xs \<Longrightarrow> p x \<Longrightarrow> q x" and "y \<in> set xs" and "q y" and "\<not> p y"
  shows "length (filter p xs) < length (filter q xs)"
proof -
  have "filter p xs = filter p (filter q xs)"
    using assms(1) by (induction xs) auto
  moreover have "length (filter p (filter q xs)) < length (filter q xs)"
    using assms(2-4) by (intro length_filter_less[of y]) auto
  ultimately show ?thesis by simp
qed

lemma length_filter_mono:
  assumes "\<And>x. x \<in> set xs \<Longrightarrow> p x \<Longrightarrow> q x"
  shows "length (filter p xs) \<le> length (filter q xs)"
  using assms by (induction xs) auto

text \<open>Consecutive elements of a list are related.\<close>

fun linked :: "('a \<Rightarrow> 'a \<Rightarrow> bool) \<Rightarrow> 'a list \<Rightarrow> bool" where
  "linked r [] = True"
| "linked r [x] = True"
| "linked r (x # y # zs) = (r x y \<and> linked r (y # zs))"

lemma linked_append_iff:
  "xs \<noteq> [] \<Longrightarrow> ys \<noteq> [] \<Longrightarrow>
    linked r (xs @ ys) \<longleftrightarrow> linked r xs \<and> linked r ys \<and> r (last xs) (hd ys)"
proof (induction r xs rule: linked.induct)
  case (2 r x)
  then show ?case by (cases ys) auto
qed auto

lemma linked_appendD: "linked r (xs @ ys) \<Longrightarrow> linked r ys"
proof (induction xs)
  case (Cons x xs)
  then show ?case by (cases "xs @ ys") auto
qed simp

lemma linked_Cons: "linked r (x # xs) \<longleftrightarrow> xs = [] \<or> (r x (hd xs) \<and> linked r xs)"
  by (cases xs) auto

lemma linked_rtrancl: "linked r (x # xs) \<Longrightarrow> r\<^sup>*\<^sup>* x (last (x # xs))"
proof (induction xs arbitrary: x)
  case (Cons y ys)
  then have "r x y" and "r\<^sup>*\<^sup>* y (last (y # ys))" by auto
  then show ?case by (metis converse_rtranclp_into_rtranclp last_ConsR list.distinct(1))
qed simp

lemma find_SomeD: "find p xs = Some x \<Longrightarrow> x \<in> set xs \<and> p x"
  by (induction xs) (auto split: if_splits)

text \<open>A dict filled in a loop over rows with distinct keys, some of which are left out.\<close>

lemma fold_dict_other:
  "k \<notin> key ` set xs \<Longrightarrow>
    fold (\<lambda>x m. case f x of None \<Rightarrow> m | Some v \<Rightarrow> m(key x \<mapsto> v)) xs m k = m k"
  by (induction xs arbitrary: m) (auto split: option.splits)

lemma fold_dict:
  assumes "distinct (map key xs)" and "x \<in> set xs"
  shows "fold (\<lambda>x m. case f x of None \<Rightarrow> m | Some v \<Rightarrow> m(key x \<mapsto> v)) xs m (key x)
     = (case f x of None \<Rightarrow> m (key x) | Some v \<Rightarrow> Some v)"
  using assms
proof (induction xs arbitrary: m)
  case (Cons y ys)
  show ?case
  proof (cases "x = y")
    case True
    with Cons.prems show ?thesis by (auto simp: fold_dict_other split: option.splits)
  next
    case False
    with Cons.prems have "x \<in> set ys" "key x \<noteq> key y" by (auto simp: image_iff)
    with Cons.prems Cons.IH show ?thesis by (auto split: option.splits)
  qed
qed simp

section \<open>Transition systems\<close>

text \<open>
  The contract between the operations of a component and its clients: every step keeps the
  invariant. A client then has it in every state its steps can reach.
\<close>

locale safe_system =
  fixes step :: "'s \<Rightarrow> 's \<Rightarrow> bool" and inv :: "'s \<Rightarrow> bool"
  assumes step_keeps: "inv s \<Longrightarrow> step s t \<Longrightarrow> inv t"
begin

lemma reachable_inv: "step\<^sup>*\<^sup>* s t \<Longrightarrow> inv s \<Longrightarrow> inv t"
  by (induction rule: rtranclp_induct) (auto intro: step_keeps)

text \<open>What every step preserves from safe states is preserved along every execution.\<close>

lemma reachable_trans:
  assumes "step\<^sup>*\<^sup>* s t" and "inv s" and "\<And>x. R x x" and "\<And>x y z. R x y \<Longrightarrow> R y z \<Longrightarrow> R x z"
    and "\<And>x y. inv x \<Longrightarrow> step x y \<Longrightarrow> R x y"
  shows "R s t"
  using assms(1,2)
proof (induction rule: rtranclp_induct)
  case (step y z)
  with assms(4,5) reachable_inv show ?case by blast
qed (rule assms(3))

end

end
