(* ===== verification/Enums.thy ===== *)
theory Enums
  imports Prelude
begin

text \<open>
  The closed values of \<^verbatim>\<open>core/enums.py\<close> that the modelled components use, the stored text
  of each, and the frozen sets of statuses. A member compares equal to its text in the code;
  here \<open>*_value\<close> gives that text. Python's string primitives used to read such values are
  defined first.
\<close>

section \<open>Python string primitives\<close>

text \<open>\<open>str.isspace\<close> on code points below 256.\<close>

definition is_space :: "char \<Rightarrow> bool" where
  "is_space c \<longleftrightarrow> (let n = of_char c :: nat in
     (9 \<le> n \<and> n \<le> 13) \<or> (28 \<le> n \<and> n \<le> 32) \<or> n = 133 \<or> n = 160)"

definition lstrip :: "string \<Rightarrow> string" where
  "lstrip s = dropWhile is_space s"

definition rstrip :: "string \<Rightarrow> string" where
  "rstrip s = rev (dropWhile is_space (rev s))"

definition strip :: "string \<Rightarrow> string" where
  "strip s = rstrip (lstrip s)"

definition upper_char :: "char \<Rightarrow> char" where
  "upper_char c = (let n = of_char c :: nat in if 97 \<le> n \<and> n \<le> 122 then char_of (n - 32) else c)"

definition lower_char :: "char \<Rightarrow> char" where
  "lower_char c = (let n = of_char c :: nat in if 65 \<le> n \<and> n \<le> 90 then char_of (n + 32) else c)"

definition upper :: "string \<Rightarrow> string" where
  "upper s = map upper_char s"

definition lower :: "string \<Rightarrow> string" where
  "lower s = map lower_char s"

text \<open>\<open>s.startswith(p)\<close> and \<open>s.split(c)\<close> for a one-character separator: never empty.\<close>

definition starts_with :: "'a list \<Rightarrow> 'a list \<Rightarrow> bool" where
  "starts_with p s \<longleftrightarrow> take (length p) s = p"

fun split_on :: "'a \<Rightarrow> 'a list \<Rightarrow> 'a list list" where
  "split_on c [] = [[]]"
| "split_on c (x # xs) =
     (if x = c then [] # split_on c xs
      else (case split_on c xs of [] \<Rightarrow> [[x]] | p # ps \<Rightarrow> (x # p) # ps))"

text \<open>\<open>sep.join(parts)\<close>.\<close>

fun join :: "'a list \<Rightarrow> 'a list list \<Rightarrow> 'a list" where
  "join sep [] = []"
| "join sep [p] = p"
| "join sep (p # q # ps) = p @ sep @ join sep (q # ps)"

lemma starts_with_iff: "starts_with p s \<longleftrightarrow> (\<exists>t. s = p @ t)"
  unfolding starts_with_def by (metis append_eq_conv_conj append_take_drop_id)

lemma split_on_not_Nil [simp]: "split_on c s \<noteq> []"
  by (induction s) (auto split: list.splits)

lemma join_Cons: "ps \<noteq> [] \<Longrightarrow> join sep (p # ps) = p @ sep @ join sep ps"
  by (cases ps) simp_all

text \<open>Joining what was split gives the text back, and no piece holds the separator.\<close>

lemma join_split_on: "join [c] (split_on c s) = s"
proof (induction s)
  case (Cons x xs)
  obtain p ps where pp: "split_on c xs = p # ps"
    by (cases "split_on c xs") auto
  with Cons show ?case by (cases ps) auto
qed simp

lemma split_on_no_sep: "p \<in> set (split_on c s) \<Longrightarrow> c \<notin> set p"
proof (induction s arbitrary: p)
  case (Cons x xs)
  obtain q qs where "split_on c xs = q # qs"
    by (cases "split_on c xs") auto
  with Cons show ?case by (auto split: if_splits)
qed simp

lemma split_on_no_sep_id: "c \<notin> set s \<Longrightarrow> split_on c s = [s]"
  by (induction s) auto

lemma split_on_append: "c \<notin> set s \<Longrightarrow> split_on c (s @ c # t) = s # split_on c t"
  by (induction s) auto

lemma split_on_join:
  "ps \<noteq> [] \<Longrightarrow> (\<And>p. p \<in> set ps \<Longrightarrow> c \<notin> set p) \<Longrightarrow> split_on c (join [c] ps) = ps"
proof (induction ps rule: induct_list012)
  case (3 p q ps)
  then have "split_on c (join [c] (q # ps)) = q # ps" by auto
  then show ?case using 3 split_on_append[of c p "join [c] (q # ps)"] by simp
qed (auto simp: split_on_no_sep_id)

section \<open>Statuses\<close>

datatype run_status =
    RunQueued | RunInProgress | RunSuccess | RunFailed | RunSkipped | RunCancelled

fun run_status_value :: "run_status \<Rightarrow> string" where
  "run_status_value RunQueued = ''QUEUED''"
| "run_status_value RunInProgress = ''IN-PROGRESS''"
| "run_status_value RunSuccess = ''SUCCESS''"
| "run_status_value RunFailed = ''FAILED''"
| "run_status_value RunSkipped = ''SKIPPED''"
| "run_status_value RunCancelled = ''CANCELLED''"

definition terminal_statuses :: "run_status list" where
  "terminal_statuses = [RunSuccess, RunFailed, RunSkipped, RunCancelled]"

definition settled_statuses :: "run_status list" where
  "settled_statuses = [RunSuccess, RunSkipped]"

definition not_retryable_statuses :: "run_status list" where
  "not_retryable_statuses = [RunSuccess, RunSkipped, RunInProgress]"

definition finished_run_statuses :: "run_status list" where
  "finished_run_statuses = terminal_statuses"

definition markable_statuses :: "run_status list" where
  "markable_statuses = [RunSuccess, RunFailed, RunSkipped]"

datatype attempt_status =
    AttQueued | AttClaimed | AttRunning | AttSuccess | AttFailed | AttTimedOut
  | AttCancelled | AttLost | AttHandedOff

fun attempt_status_value :: "attempt_status \<Rightarrow> string" where
  "attempt_status_value AttQueued = ''QUEUED''"
| "attempt_status_value AttClaimed = ''CLAIMED''"
| "attempt_status_value AttRunning = ''RUNNING''"
| "attempt_status_value AttSuccess = ''SUCCESS''"
| "attempt_status_value AttFailed = ''FAILED''"
| "attempt_status_value AttTimedOut = ''TIMED_OUT''"
| "attempt_status_value AttCancelled = ''CANCELLED''"
| "attempt_status_value AttLost = ''LOST''"
| "attempt_status_value AttHandedOff = ''HANDED_OFF''"

definition attempt_statuses :: "attempt_status list" where
  "attempt_statuses = [AttQueued, AttClaimed, AttRunning, AttSuccess, AttFailed, AttTimedOut,
     AttCancelled, AttLost, AttHandedOff]"

definition run_statuses :: "run_status list" where
  "run_statuses = [RunQueued, RunInProgress, RunSuccess, RunFailed, RunSkipped, RunCancelled]"

datatype dependency_kind = DepSuccess | DepFailure | DepAlways | DepHasData

fun dependency_value :: "dependency_kind \<Rightarrow> string" where
  "dependency_value DepSuccess = ''SUCCESS''"
| "dependency_value DepFailure = ''FAILURE''"
| "dependency_value DepAlways = ''ALWAYS''"
| "dependency_value DepHasData = ''HAS_DATA''"

definition dependency_kinds :: "dependency_kind list" where
  "dependency_kinds = [DepSuccess, DepFailure, DepAlways, DepHasData]"

datatype gate_outcome = GateSatisfied | GateUnsatisfied | GateBypassed | GateWait

definition admitted_outcomes :: "gate_outcome list" where
  "admitted_outcomes = [GateSatisfied, GateBypassed]"

datatype gate_policy = PolicyEnforce | PolicyWarn | PolicyOff

datatype failure_class = FailTransient | FailPermanent | FailUnknown

datatype retry_on = RetryNone | RetryTransient | RetryTransientAndUnknown | RetryAny

definition permits :: "retry_on \<Rightarrow> failure_class \<Rightarrow> bool" where
  "permits r failure \<longleftrightarrow>
     r = RetryAny
     \<or> (r \<noteq> RetryNone \<and> failure = FailTransient)
     \<or> (r = RetryTransientAndUnknown \<and> failure = FailUnknown)"

fun retry_on_value :: "retry_on \<Rightarrow> string" where
  "retry_on_value RetryNone = ''NONE''"
| "retry_on_value RetryTransient = ''TRANSIENT''"
| "retry_on_value RetryTransientAndUnknown = ''TRANSIENT_AND_UNKNOWN''"
| "retry_on_value RetryAny = ''ANY''"

definition retry_ons :: "retry_on list" where
  "retry_ons = [RetryNone, RetryTransient, RetryTransientAndUnknown, RetryAny]"

text \<open>\<open>enum_value\<close>: the member whose text the value is, blanks around it aside, or the error.\<close>

definition enum_value :: "('m \<Rightarrow> string) \<Rightarrow> 'm list \<Rightarrow> string \<Rightarrow> 'e \<Rightarrow> 'e + 'm" where
  "enum_value value_of members v err =
     (case find (\<lambda>m. value_of m = strip v) members of Some m \<Rightarrow> Inr m | None \<Rightarrow> Inl err)"

lemma status_sets:
  "set settled_statuses = {RunSuccess, RunSkipped}"
  "set terminal_statuses = {RunSuccess, RunFailed, RunSkipped, RunCancelled}"
  "set not_retryable_statuses = {RunSuccess, RunSkipped, RunInProgress}"
  by (simp_all add: settled_statuses_def terminal_statuses_def not_retryable_statuses_def)

lemmas status_defs =
  terminal_statuses_def settled_statuses_def not_retryable_statuses_def
  finished_run_statuses_def markable_statuses_def

lemma permits_mono:
  "permits RetryTransient f \<Longrightarrow> permits RetryTransientAndUnknown f"
  "permits RetryTransientAndUnknown f \<Longrightarrow> permits RetryAny f"
  "\<not> permits RetryNone f"
  by (auto simp: permits_def)

lemma enum_value_sound:
  "enum_value value_of members v err = Inr m \<Longrightarrow> m \<in> set members \<and> value_of m = strip v"
  by (auto simp: enum_value_def find_Some_iff split: option.splits)

end
