(* ===== verification/Graph.thy ===== *)
theory Graph
  imports Prelude Enums
begin

text \<open>
  \<^verbatim>\<open>core/graph.py\<close>: the same-pipeline task dependency graph. The records are the frozen
  dataclasses; the three dictionaries of \<^verbatim>\<open>DependencyGraph\<close> are maps. Every operation that may
  raise returns a sum whose left side is a \<open>graph_error\<close>; a constructor carries the values its
  message interpolates. A subscript of a missing key is \<open>MissingKey\<close>.
\<close>

section \<open>Rows, states and errors\<close>

record task_node =
  node_id :: int
  run_condition :: "string option"
  run_condition_count :: "int option"
  cross_pipeline_edge_count :: int
  task_code :: "string option"

record task_edge =
  edge_task_id :: int
  depends_on_task_id :: int
  dependency_type :: string

record task_run_state =
  status :: "run_status option"
  target_count :: "int option"
  rows_written :: "int option"

type_synonym run_state = "int \<rightharpoonup> task_run_state"

datatype task_label = LabelCode string | LabelId int

datatype graph_error =
    DuplicateTask
  | UnknownDependencyType string
  | UnknownTask int
  | UnknownDependsOn int
  | SelfDependency task_label
  | CountWithoutCondition task_label
  | UnknownRunCondition task_label string
  | CountIgnored task_label string
  | BadCount task_label "int option"
  | CountTooLarge task_label int int
  | CycleFound "int list"
  | MissingKey int
  | NoSuchLabel

definition node_label :: "task_node \<Rightarrow> task_label" where
  "node_label n = (case task_code n of
     Some c \<Rightarrow> if c \<noteq> [] then LabelCode c else LabelId (node_id n)
   | None \<Rightarrow> LabelId (node_id n))"

definition wrote_rows :: "task_run_state \<Rightarrow> bool" where
  "wrote_rows s =
     (let count = (if rows_written s = None then target_count s else rows_written s)
      in case count of None \<Rightarrow> False | Some c \<Rightarrow> c > 0)"

definition not_run :: task_run_state where
  "not_run = \<lparr>status = None, target_count = None, rows_written = None\<rparr>"

text \<open>\<open>run_state.get(task_id, TaskRunState())\<close>.\<close>

definition state_of :: "run_state \<Rightarrow> int \<Rightarrow> task_run_state" where
  "state_of rs t = (case rs t of None \<Rightarrow> not_run | Some s \<Rightarrow> s)"

definition status_in :: "run_status option \<Rightarrow> run_status list \<Rightarrow> bool" where
  "status_in s ss = (case s of None \<Rightarrow> False | Some x \<Rightarrow> x \<in> set ss)"

section \<open>The graph and its indexes\<close>

record dependency_graph =
  g_task_ids :: "int list"
  g_nodes_by_id :: "int \<rightharpoonup> task_node"
  g_dependencies_of :: "int \<rightharpoonup> task_edge list"

definition index_edge ::
  "task_edge \<Rightarrow> (int \<rightharpoonup> task_edge list) \<Rightarrow> graph_error + (int \<rightharpoonup> task_edge list)" where
  "index_edge e deps = (case deps (edge_task_id e) of
     None \<Rightarrow> Inl (MissingKey (edge_task_id e))
   | Some es \<Rightarrow> Inr (deps(edge_task_id e \<mapsto> es @ [e])))"

definition make_graph :: "task_node list \<Rightarrow> task_edge list \<Rightarrow> graph_error + dependency_graph" where
  "make_graph nodes edges =
     bind_err (fold_err index_edge edges (map_of (map (\<lambda>n. (node_id n, [])) nodes)))
       (\<lambda>deps. Inr \<lparr>g_task_ids = map node_id nodes,
                     g_nodes_by_id = map_of (rev (map (\<lambda>n. (node_id n, n)) nodes)),
                     g_dependencies_of = deps\<rparr>)"

definition dependencies_of :: "dependency_graph \<Rightarrow> int \<Rightarrow> graph_error + task_edge list" where
  "dependencies_of g t = (case g_dependencies_of g t of
     None \<Rightarrow> Inl (MissingKey t) | Some es \<Rightarrow> Inr es)"

definition node_of :: "dependency_graph \<Rightarrow> int \<Rightarrow> graph_error + task_node" where
  "node_of g t = (case g_nodes_by_id g t of None \<Rightarrow> Inl (MissingKey t) | Some n \<Rightarrow> Inr n)"

section \<open>Counting edges\<close>

definition edge_satisfied :: "task_edge \<Rightarrow> task_run_state \<Rightarrow> graph_error + bool" where
  "edge_satisfied e up =
     (let d = dependency_type e in
      if d = dependency_value DepSuccess then Inr (status up = Some RunSuccess)
      else if d = dependency_value DepFailure then Inr (status up = Some RunFailed)
      else if d = dependency_value DepAlways then Inr (status_in (status up) terminal_statuses)
      else if d = dependency_value DepHasData
        then Inr (status up = Some RunSuccess \<and> wrote_rows up)
      else Inl (UnknownDependencyType d))"

definition total_edge_count :: "dependency_graph \<Rightarrow> int \<Rightarrow> graph_error + int" where
  "total_edge_count g t =
     bind_err (dependencies_of g t) (\<lambda>es.
     bind_err (node_of g t) (\<lambda>n.
       Inr (int (length es) + cross_pipeline_edge_count n)))"

definition required_edge_count :: "dependency_graph \<Rightarrow> int \<Rightarrow> graph_error + int" where
  "required_edge_count g t =
     bind_err (total_edge_count g t) (\<lambda>total.
     bind_err (node_of g t) (\<lambda>n.
       (let condition = (case run_condition n of
              None \<Rightarrow> ''ALL'' | Some c \<Rightarrow> if c = [] then ''ALL'' else c)
        in if condition = ''ANY'' then Inr (if total \<noteq> 0 then 1 else 0)
           else if condition = ''N''
             then Inr (case run_condition_count n of
                     None \<Rightarrow> 1 | Some k \<Rightarrow> if k = 0 then 1 else k)
           else Inr total)))"

definition satisfied_edge_count ::
  "dependency_graph \<Rightarrow> int \<Rightarrow> run_state \<Rightarrow> int option \<Rightarrow> graph_error + int" where
  "satisfied_edge_count g t rs supplied =
     bind_err (node_of g t) (\<lambda>n.
     bind_err (dependencies_of g t) (\<lambda>es.
     bind_err (filter_err (\<lambda>e. edge_satisfied e (state_of rs (depends_on_task_id e))) es) (\<lambda>sat.
       Inr (int (length sat) +
            (case supplied of None \<Rightarrow> cross_pipeline_edge_count n | Some c \<Rightarrow> c)))))"

section \<open>Which tasks can start\<close>

definition waits_on_unfinished_upstream ::
  "dependency_graph \<Rightarrow> int \<Rightarrow> run_state \<Rightarrow> int \<Rightarrow> graph_error + bool" where
  "waits_on_unfinished_upstream g t rs required =
     bind_err (satisfied_edge_count g t rs (Some 0)) (\<lambda>k.
       if k \<ge> required then Inr False
       else bind_err (dependencies_of g t) (\<lambda>es.
         Inr (\<exists>e \<in> set es.
                \<not> status_in (status (state_of rs (depends_on_task_id e))) terminal_statuses)))"

definition is_ready ::
  "dependency_graph \<Rightarrow> run_state \<Rightarrow> (int \<rightharpoonup> int) \<Rightarrow> int \<Rightarrow> graph_error + bool" where
  "is_ready g rs cross t =
     (if status_in (status (state_of rs t)) not_retryable_statuses then Inr False
      else bind_err (required_edge_count g t) (\<lambda>required.
           bind_err (satisfied_edge_count g t rs (cross t)) (\<lambda>k.
             if k < required then Inr False
             else if cross t = None
               then bind_err (waits_on_unfinished_upstream g t rs required) (\<lambda>w. Inr (\<not> w))
             else Inr True)))"

definition ready ::
  "dependency_graph \<Rightarrow> run_state \<Rightarrow> (int \<rightharpoonup> int) \<Rightarrow> graph_error + int list" where
  "ready g rs cross =
     bind_err (filter_err (is_ready g rs cross) (g_task_ids g)) (\<lambda>ts. Inr (sort ts))"

section \<open>Which tasks can never start\<close>

definition edge_permanently_unsatisfiable ::
  "task_edge \<Rightarrow> task_run_state \<Rightarrow> bool \<Rightarrow> graph_error + bool" where
  "edge_permanently_unsatisfiable e up failures_final =
     (if \<not> (status_in (status up) settled_statuses
             \<or> (failures_final \<and> status up = Some RunFailed))
      then Inr False
      else bind_err (edge_satisfied e up) (\<lambda>b. Inr (\<not> b)))"

definition is_unsatisfiable ::
  "dependency_graph \<Rightarrow> int \<Rightarrow> run_state \<Rightarrow> bool \<Rightarrow> graph_error + bool" where
  "is_unsatisfiable g t rs failures_final =
     bind_err (total_edge_count g t) (\<lambda>total.
       if total = 0 then Inr False
       else bind_err (node_of g t) (\<lambda>n.
            bind_err (dependencies_of g t) (\<lambda>es.
            bind_err (filter_err (\<lambda>e. bind_err
                 (edge_permanently_unsatisfiable e (state_of rs (depends_on_task_id e))
                    failures_final) (\<lambda>b. Inr (\<not> b))) es) (\<lambda>possible.
            bind_err (required_edge_count g t) (\<lambda>required.
              Inr (cross_pipeline_edge_count n + int (length possible) < required))))))"

definition skipped_state :: task_run_state where
  "skipped_state = not_run\<lparr>status := Some RunSkipped\<rparr>"

definition newly_unsatisfiable ::
  "dependency_graph \<Rightarrow> bool \<Rightarrow> run_state \<Rightarrow> int list \<Rightarrow> graph_error + int list" where
  "newly_unsatisfiable g failures_final known found =
     filter_err (\<lambda>t. if t \<in> set found \<or> status (state_of known t) \<noteq> None then Inr False
                      else is_unsatisfiable g t known failures_final) (g_task_ids g)"

text \<open>The \<open>while True\<close>: \<open>found\<close> is the result set in the order the loop added it.\<close>

function unsatisfiable_loop ::
  "dependency_graph \<Rightarrow> bool \<Rightarrow> run_state \<Rightarrow> int list \<Rightarrow> graph_error + int list" where
  "unsatisfiable_loop g failures_final known found =
     (case newly_unsatisfiable g failures_final known found of
        Inl e \<Rightarrow> Inl e
      | Inr [] \<Rightarrow> Inr (sorted_set found)
      | Inr (t # ts) \<Rightarrow> unsatisfiable_loop g failures_final
            (fold (\<lambda>u k. k(u \<mapsto> skipped_state)) (t # ts) known) (found @ t # ts))"
  by pat_completeness auto
termination
proof (relation "measure (\<lambda>(g, _, _, found). length (filter (\<lambda>t. t \<notin> set found) (g_task_ids g)))")
  fix g failures_final known found new t ts
  assume "newly_unsatisfiable g failures_final known found = Inr new" and "new = t # ts"
  then have "t \<in> set (g_task_ids g)" and "t \<notin> set found"
    unfolding newly_unsatisfiable_def
    by (auto dest!: filter_err_Inr_set[where x = t] split: if_splits)
  then have "length (filter (\<lambda>x. x \<notin> set (found @ t # ts)) (g_task_ids g))
      < length (filter (\<lambda>x. x \<notin> set found) (g_task_ids g))"
    by (intro length_filter_strict[of _ _ _ t]) auto
  then show "((g, failures_final, fold (\<lambda>u k. k(u \<mapsto> skipped_state)) (t # ts) known,
      found @ t # ts), (g, failures_final, known, found))
    \<in> measure (\<lambda>(g, _, _, found). length (filter (\<lambda>t. t \<notin> set found) (g_task_ids g)))"
    by simp
qed simp

definition unsatisfiable ::
  "dependency_graph \<Rightarrow> run_state \<Rightarrow> bool \<Rightarrow> graph_error + int list" where
  "unsatisfiable g rs failures_final = unsatisfiable_loop g failures_final rs []"

declare unsatisfiable_loop.simps [simp del]

section \<open>Walks over the edges\<close>

text \<open>
  \<open>downstream_of\<close>: the frontier as a list; the comprehension over every edge is a filter. The
  constructor gives every task id an entry of the index, possibly empty (\<open>edges_of\<close>).
\<close>

definition edges_of :: "dependency_graph \<Rightarrow> int \<Rightarrow> task_edge list" where
  "edges_of g t = (case g_dependencies_of g t of None \<Rightarrow> [] | Some es \<Rightarrow> es)"

definition all_edges :: "dependency_graph \<Rightarrow> task_edge list" where
  "all_edges g = concat (map (edges_of g) (g_task_ids g))"

definition next_frontier :: "dependency_graph \<Rightarrow> int list \<Rightarrow> int list \<Rightarrow> int list" where
  "next_frontier g frontier found =
     remdups (map edge_task_id (filter (\<lambda>e. depends_on_task_id e \<in> set frontier
                                          \<and> edge_task_id e \<notin> set found) (all_edges g)))"

function downstream_loop :: "dependency_graph \<Rightarrow> int list \<Rightarrow> int list \<Rightarrow> int list" where
  "downstream_loop g frontier found =
     (if frontier = [] then found
      else (let frontier' = next_frontier g frontier found
            in downstream_loop g frontier' (found @ frontier')))"
  by pat_completeness auto
termination
proof (relation "measures [\<lambda>(g, _, found).
    length (filter (\<lambda>e. edge_task_id e \<notin> set found) (all_edges g)),
    \<lambda>(_, frontier, _). length (take 1 frontier)]")
  fix g :: dependency_graph and frontier found x :: "int list"
  assume "frontier \<noteq> []" and x: "x = next_frontier g frontier found"
  show "((g, x, found @ x), (g, frontier, found)) \<in> measures [\<lambda>(g, _, found).
      length (filter (\<lambda>e. edge_task_id e \<notin> set found) (all_edges g)),
      \<lambda>(_, frontier, _). length (take 1 frontier)]"
  proof (cases "x = []")
    case False
    then obtain t where "t \<in> set x" using list.set_intros(1) by (metis neq_Nil_conv)
    then obtain e where "e \<in> set (all_edges g)" "edge_task_id e \<notin> set found"
        "edge_task_id e \<in> set x"
      unfolding x next_frontier_def by auto
    then have "length (filter (\<lambda>e. edge_task_id e \<notin> set (found @ x)) (all_edges g))
        < length (filter (\<lambda>e. edge_task_id e \<notin> set found) (all_edges g))"
      by (intro length_filter_strict[of _ _ _ e]) auto
    then show ?thesis by simp
  qed (use \<open>frontier \<noteq> []\<close> in \<open>cases frontier; simp\<close>)
qed simp

declare downstream_loop.simps [simp del]

definition downstream_of :: "dependency_graph \<Rightarrow> int \<Rightarrow> int list" where
  "downstream_of g t = downstream_loop g [t] []"

text \<open>
  \<open>waves\<close>: on a cyclic graph the loop of the code never ends, so the model is a partial
  function; \<open>None\<close> is non-termination. Only a graph \<open>build_graph\<close> accepted is ever asked.
\<close>

definition wave_of :: "dependency_graph \<Rightarrow> int list \<Rightarrow> int list \<Rightarrow> int list" where
  "wave_of g remaining resolved =
     sort (filter (\<lambda>t. \<forall>e \<in> set (edges_of g t). depends_on_task_id e \<in> set resolved) remaining)"

partial_function (option) waves_loop ::
  "dependency_graph \<Rightarrow> int list \<Rightarrow> int list \<Rightarrow> int list list option" where
  "waves_loop g remaining resolved =
     (if remaining = [] then Some []
      else (let wave = wave_of g remaining resolved
            in Option.bind
                 (waves_loop g (filter (\<lambda>t. t \<notin> set wave) remaining) (resolved @ wave))
                 (\<lambda>rest. Some (wave # rest))))"

definition waves :: "dependency_graph \<Rightarrow> int list list option" where
  "waves g = waves_loop g (remdups (g_task_ids g)) []"

section \<open>The cycle check\<close>

text \<open>
  \<open>_check_acyclic\<close>: a depth-first search with an explicit stack. A frame is a task and the
  upstreams its iterator has still to yield; the top of the stack is the head of the list.
  The colours are a dictionary whose keys are the task ids.
\<close>

datatype color = White | Gray | Black

definition upstreams_of :: "dependency_graph \<Rightarrow> int \<Rightarrow> graph_error + int list" where
  "upstreams_of g t = bind_err (dependencies_of g t) (\<lambda>es. Inr (map depends_on_task_id es))"

function dfs ::
  "dependency_graph \<Rightarrow> (int \<Rightarrow> color) \<Rightarrow> int list \<Rightarrow> (int \<times> int list) list
     \<Rightarrow> graph_error + (int \<Rightarrow> color)" where
  "dfs g color path [] = Inr color"
| "dfs g color path ((t, []) # stack) = dfs g (color(t := Black)) (butlast path) stack"
| "dfs g color path ((t, u # us) # stack) =
     (if u \<notin> set (g_task_ids g) then Inl (MissingKey u)
      else case color u of
        Gray \<Rightarrow> Inl (CycleFound (from_elem u path @ [u]))
      | White \<Rightarrow> bind_err (upstreams_of g u)
          (\<lambda>ps. dfs g (color(u := Gray)) (path @ [u]) ((u, ps) # (t, us) # stack))
      | Black \<Rightarrow> dfs g color path ((t, us) # stack))"
  by pat_completeness auto
termination
proof (relation "measures [\<lambda>(g, color, _, _). length (filter (\<lambda>t. color t = White) (g_task_ids g)),
    \<lambda>(_, _, _, stack). sum_list (map (\<lambda>(_, ps). Suc (length ps)) stack)]", goal_cases)
  case (2 g color path t stack)
  have "length (filter (\<lambda>x. (color(t := Black)) x = White) (g_task_ids g))
      \<le> length (filter (\<lambda>x. color x = White) (g_task_ids g))"
    by (intro length_filter_mono) (simp split: if_splits)
  then show ?case by (auto simp: le_less)
next
  case (3 g color path t u us stack ps)
  then have "length (filter (\<lambda>x. (color(u := Gray)) x = White) (g_task_ids g))
      < length (filter (\<lambda>x. color x = White) (g_task_ids g))"
    by (intro length_filter_strict[of _ _ _ u]) (auto split: if_splits)
  then show ?case by simp
qed auto

definition check_root ::
  "dependency_graph \<Rightarrow> int \<Rightarrow> (int \<Rightarrow> color) \<Rightarrow> graph_error + (int \<Rightarrow> color)" where
  "check_root g root color =
     (if color root \<noteq> White then Inr color
      else bind_err (upstreams_of g root)
             (\<lambda>ps. dfs g (color(root := Gray)) [root] [(root, ps)]))"

definition check_acyclic :: "dependency_graph \<Rightarrow> graph_error + unit" where
  "check_acyclic g =
     bind_err (fold_err (check_root g) (g_task_ids g) (\<lambda>_. White)) (\<lambda>_. Inr ())"

section \<open>Validation\<close>

definition dependency_types :: "string list" where
  "dependency_types = map dependency_value dependency_kinds"

definition run_conditions :: "string list" where
  "run_conditions = [''ALL'', ''ANY'', ''N'']"

definition check_edge ::
  "task_node list \<Rightarrow> task_edge \<Rightarrow> (int \<rightharpoonup> int) \<Rightarrow> graph_error + (int \<rightharpoonup> int)" where
  "check_edge tasks e counts =
     (let ids = map node_id tasks in
      if dependency_type e \<notin> set dependency_types
        then Inl (UnknownDependencyType (dependency_type e))
      else if edge_task_id e \<notin> set ids then Inl (UnknownTask (edge_task_id e))
      else if depends_on_task_id e \<notin> set ids then Inl (UnknownDependsOn (depends_on_task_id e))
      else if edge_task_id e = depends_on_task_id e
        then (case find (\<lambda>n. node_id n = edge_task_id e) tasks of
                None \<Rightarrow> Inl NoSuchLabel | Some n \<Rightarrow> Inl (SelfDependency (node_label n)))
      else (case counts (edge_task_id e) of
              None \<Rightarrow> Inl (MissingKey (edge_task_id e))
            | Some k \<Rightarrow> Inr (counts(edge_task_id e \<mapsto> k + 1))))"

definition check_run_condition :: "task_node \<Rightarrow> int \<Rightarrow> graph_error + unit" where
  "check_run_condition n n_edges =
     (case run_condition n of
        None \<Rightarrow> if run_condition_count n \<noteq> None then Inl (CountWithoutCondition (node_label n))
                else Inr ()
      | Some c \<Rightarrow>
          if c \<notin> set run_conditions then Inl (UnknownRunCondition (node_label n) c)
          else if c \<noteq> ''N''
            then (if run_condition_count n \<noteq> None then Inl (CountIgnored (node_label n) c)
                  else Inr ())
          else (case run_condition_count n of
                  None \<Rightarrow> Inl (BadCount (node_label n) None)
                | Some k \<Rightarrow>
                    if k < 1 then Inl (BadCount (node_label n) (Some k))
                    else if k > n_edges then Inl (CountTooLarge (node_label n) k n_edges)
                    else Inr ()))"

definition check_task :: "(int \<rightharpoonup> int) \<Rightarrow> task_node \<Rightarrow> unit \<Rightarrow> graph_error + unit" where
  "check_task counts n _ = (case counts (node_id n) of
     None \<Rightarrow> Inl (MissingKey (node_id n))
   | Some k \<Rightarrow> check_run_condition n (k + cross_pipeline_edge_count n))"

text \<open>\<open>build_graph\<close> up to its last check, and then that check.\<close>

definition validated_graph ::
  "task_node list \<Rightarrow> task_edge list \<Rightarrow> graph_error + dependency_graph" where
  "validated_graph tasks edges =
     (let ids = map node_id tasks in
      if length (remdups ids) \<noteq> length ids then Inl DuplicateTask
      else bind_err (fold_err (check_edge tasks) edges (map_of (map (\<lambda>t. (t, 0)) ids))) (\<lambda>counts.
           bind_err (fold_err (check_task counts) tasks ()) (\<lambda>_. make_graph tasks edges)))"

definition build_graph ::
  "task_node list \<Rightarrow> task_edge list \<Rightarrow> graph_error + dependency_graph" where
  "build_graph tasks edges =
     bind_err (validated_graph tasks edges) (\<lambda>g. bind_err (check_acyclic g) (\<lambda>_. Inr g))"

end
