(* ===== verification/Graph_Build.thy ===== *)
theory Graph_Build
  imports Graph
begin

text \<open>
  What \<open>build_graph\<close> promises: an accepted graph is \<open>well_formed\<close>, so none of the operations
  of \<^verbatim>\<open>DependencyGraph\<close> raises on it, and its indexes hold exactly the given rows.
\<close>

definition well_formed_task :: "dependency_graph \<Rightarrow> int \<Rightarrow> bool" where
  "well_formed_task g t \<longleftrightarrow> (case (g_nodes_by_id g t, g_dependencies_of g t) of
     (Some n, Some es) \<Rightarrow>
        node_id n = t
        \<and> list_all (\<lambda>e. edge_task_id e = t \<and> depends_on_task_id e \<in> set (g_task_ids g)
                        \<and> depends_on_task_id e \<noteq> t
                        \<and> dependency_type e \<in> set dependency_types) es
        \<and> check_run_condition n (int (length es) + cross_pipeline_edge_count n) = Inr ()
   | _ \<Rightarrow> False)"

definition well_formed :: "dependency_graph \<Rightarrow> bool" where
  "well_formed g \<longleftrightarrow> distinct (g_task_ids g) \<and> list_all (well_formed_task g) (g_task_ids g)"

section \<open>The loops of the constructor and of the validation\<close>

lemma index_edge_Inr:
  "index_edge e deps = Inr deps' \<longleftrightarrow>
     (\<exists>es. deps (edge_task_id e) = Some es \<and> deps' = deps(edge_task_id e \<mapsto> es @ [e]))"
  by (auto simp: index_edge_def split: option.splits)

lemma index_edge_fold:
  "fold_err index_edge edges deps = Inr deps' \<Longrightarrow>
     deps' t = map_option (\<lambda>es. es @ filter (\<lambda>e. edge_task_id e = t) edges) (deps t)"
proof (induction edges arbitrary: deps)
  case Nil
  then show ?case by (cases "deps t") auto
next
  case (Cons e edges)
  then obtain es where es: "deps (edge_task_id e) = Some es"
      and "fold_err index_edge edges (deps(edge_task_id e \<mapsto> es @ [e])) = Inr deps'"
    by (auto simp: index_edge_Inr err_simps)
  from Cons.IH[OF this(2)] es show ?case by (cases "deps t") auto
qed

lemma index_edge_fold_total:
  "(\<And>e. e \<in> set edges \<Longrightarrow> deps (edge_task_id e) \<noteq> None) \<Longrightarrow>
     \<exists>deps'. fold_err index_edge edges deps = Inr deps'"
proof (induction edges arbitrary: deps)
  case (Cons e edges)
  then obtain es where es: "deps (edge_task_id e) = Some es" by (metis list.set_intros(1) not_None_eq)
  have "\<exists>deps'. fold_err index_edge edges (deps(edge_task_id e \<mapsto> es @ [e])) = Inr deps'"
    using Cons.prems by (intro Cons.IH) auto
  with es show ?case by (auto simp: index_edge_Inr err_simps)
qed simp

definition edge_ok :: "int list \<Rightarrow> task_edge \<Rightarrow> bool" where
  "edge_ok ids e \<longleftrightarrow> dependency_type e \<in> set dependency_types \<and> edge_task_id e \<in> set ids
     \<and> depends_on_task_id e \<in> set ids \<and> edge_task_id e \<noteq> depends_on_task_id e"

lemma check_edge_Inr:
  "check_edge tasks e counts = Inr counts' \<longleftrightarrow>
     edge_ok (map node_id tasks) e
     \<and> (\<exists>k. counts (edge_task_id e) = Some k \<and> counts' = counts(edge_task_id e \<mapsto> k + 1))"
  by (auto simp: check_edge_def edge_ok_def Let_def split: option.splits if_splits)

lemma check_edge_fold:
  "fold_err (check_edge tasks) edges counts = Inr counts' \<Longrightarrow>
     list_all (edge_ok (map node_id tasks)) edges
     \<and> counts' t = map_option (\<lambda>k. k + int (length (filter (\<lambda>e. edge_task_id e = t) edges)))
                       (counts t)"
proof (induction edges arbitrary: counts)
  case Nil
  then show ?case by (cases "counts t") auto
next
  case (Cons e edges)
  then obtain k where ok: "edge_ok (map node_id tasks) e" and k: "counts (edge_task_id e) = Some k"
      and "fold_err (check_edge tasks) edges (counts(edge_task_id e \<mapsto> k + 1)) = Inr counts'"
    by (auto simp: check_edge_Inr err_simps)
  from Cons.IH[OF this(3)] ok k show ?case by (cases "counts t") auto
qed

lemma check_edge_fold_total:
  "list_all (edge_ok (map node_id tasks)) edges \<Longrightarrow>
     (\<And>e. e \<in> set edges \<Longrightarrow> counts (edge_task_id e) \<noteq> None) \<Longrightarrow>
     \<exists>counts'. fold_err (check_edge tasks) edges counts = Inr counts'"
proof (induction edges arbitrary: counts)
  case (Cons e edges)
  then obtain k where k: "counts (edge_task_id e) = Some k" by (metis list.set_intros(1) not_None_eq)
  have "\<exists>counts'. fold_err (check_edge tasks) edges (counts(edge_task_id e \<mapsto> k + 1)) = Inr counts'"
    using Cons.prems by (intro Cons.IH) auto
  with k Cons.prems(1) show ?case by (auto simp: check_edge_Inr err_simps)
qed simp

lemma check_task_fold:
  "fold_err (check_task counts) tasks () = Inr () \<longleftrightarrow>
     (\<forall>n \<in> set tasks. \<exists>k. counts (node_id n) = Some k
        \<and> check_run_condition n (k + cross_pipeline_edge_count n) = Inr ())"
proof (induction tasks)
  case (Cons n tasks)
  then show ?case by (auto simp: check_task_def err_simps split: option.splits)
qed simp

lemma map_of_const: "map_of (map (\<lambda>x. (f x, c)) xs) t = (if t \<in> f ` set xs then Some c else None)"
  by (induction xs) auto

lemma map_of_rev_distinct:
  "distinct (map f xs) \<Longrightarrow> map_of (rev (map (\<lambda>x. (f x, x)) xs)) t = Some x \<longleftrightarrow> x \<in> set xs \<and> f x = t"
proof -
  assume d: "distinct (map f xs)"
  then have "distinct (map fst (rev (map (\<lambda>x. (f x, x)) xs)))" by (simp add: o_def flip: rev_map)
  then show ?thesis by (auto simp: map_of_eq_Some_iff)
qed

section \<open>An accepted graph\<close>

lemma validatedD:
  assumes "validated_graph tasks edges = Inr g"
  shows validated_ids: "g_task_ids g = map node_id tasks"
    and validated_distinct: "distinct (g_task_ids g)"
    and validated_node: "g_nodes_by_id g t = Some n \<longleftrightarrow> n \<in> set tasks \<and> node_id n = t"
    and validated_deps: "g_dependencies_of g t =
          (if t \<in> set (g_task_ids g) then Some (filter (\<lambda>e. edge_task_id e = t) edges) else None)"
    and validated_edges: "list_all (edge_ok (g_task_ids g)) edges"
    and validated_conditions: "n \<in> set tasks \<Longrightarrow> check_run_condition n
          (int (length (filter (\<lambda>e. edge_task_id e = node_id n) edges)) + cross_pipeline_edge_count n)
          = Inr ()"
proof -
  from assms obtain counts deps where
    d: "distinct (map node_id tasks)" and
    counts: "fold_err (check_edge tasks) edges (map_of (map (\<lambda>n. (node_id n, 0)) tasks)) = Inr counts"
    and tasks: "fold_err (check_task counts) tasks () = Inr ()" and
    deps: "fold_err index_edge edges (map_of (map (\<lambda>n. (node_id n, [])) tasks)) = Inr deps" and
    g: "g = \<lparr>g_task_ids = map node_id tasks,
             g_nodes_by_id = map_of (rev (map (\<lambda>n. (node_id n, n)) tasks)),
             g_dependencies_of = deps\<rparr>"
    by (auto simp: validated_graph_def make_graph_def Let_def err_simps o_def split: if_splits)
  show "g_task_ids g = map node_id tasks" by (simp add: g)
  from d show "distinct (g_task_ids g)" by (simp add: g)
  show "g_nodes_by_id g t = Some n \<longleftrightarrow> n \<in> set tasks \<and> node_id n = t"
    using map_of_rev_distinct[OF d] by (simp add: g)
  show "g_dependencies_of g t =
      (if t \<in> set (g_task_ids g) then Some (filter (\<lambda>e. edge_task_id e = t) edges) else None)"
    using index_edge_fold[OF deps, of t] by (simp add: g map_of_const)
  show "list_all (edge_ok (g_task_ids g)) edges"
    using check_edge_fold[OF counts] by (simp add: g)
  show "check_run_condition n
        (int (length (filter (\<lambda>e. edge_task_id e = node_id n) edges)) + cross_pipeline_edge_count n)
        = Inr ()" if n: "n \<in> set tasks"
  proof -
    from n tasks obtain k where "counts (node_id n) = Some k"
        and "check_run_condition n (k + cross_pipeline_edge_count n) = Inr ()"
      by (auto simp: check_task_fold)
    with n check_edge_fold[OF counts, of "node_id n"] show ?thesis
      by (auto simp: map_of_const o_def)
  qed
qed

lemma validated_well_formed:
  assumes "validated_graph tasks edges = Inr g"
  shows "well_formed g"
proof -
  have "well_formed_task g t" if t: "t \<in> set (g_task_ids g)" for t
  proof -
    from t obtain n where n: "n \<in> set tasks" "node_id n = t" by (auto simp: validated_ids[OF assms])
    then have "g_nodes_by_id g t = Some n" by (simp add: validated_node[OF assms])
    with n t validated_edges[OF assms] validated_conditions[OF assms n(1)] show ?thesis
      by (auto simp: well_formed_task_def validated_deps[OF assms] list_all_iff edge_ok_def)
  qed
  then show ?thesis by (simp add: well_formed_def list_all_iff validated_distinct[OF assms])
qed

text \<open>The rows that pass every check but the last.\<close>

lemma validated_iff:
  "(\<exists>g. validated_graph tasks edges = Inr g) \<longleftrightarrow>
     distinct (map node_id tasks) \<and> list_all (edge_ok (map node_id tasks)) edges
     \<and> (\<forall>n \<in> set tasks. check_run_condition n
          (int (length (filter (\<lambda>e. edge_task_id e = node_id n) edges)) + cross_pipeline_edge_count n)
          = Inr ())"
  (is "?l \<longleftrightarrow> ?r")
proof
  assume ?l
  then obtain g where g: "validated_graph tasks edges = Inr g" ..
  from validated_distinct[OF g] validated_edges[OF g] validated_conditions[OF g] show ?r
    by (simp add: validated_ids[OF g])
next
  assume r: ?r
  then have known: "edge_task_id e \<in> node_id ` set tasks" if "e \<in> set edges" for e
    using that by (auto simp: list_all_iff edge_ok_def)
  from r known obtain counts where counts:
      "fold_err (check_edge tasks) edges (map_of (map (\<lambda>n. (node_id n, 0)) tasks)) = Inr counts"
    using check_edge_fold_total[of tasks edges "map_of (map (\<lambda>n. (node_id n, 0)) tasks)"]
    by (fastforce simp: map_of_const)
  have "fold_err (check_task counts) tasks () = Inr ()"
    using r check_edge_fold[OF counts] by (auto simp: check_task_fold map_of_const)
  moreover obtain deps where
      "fold_err index_edge edges (map_of (map (\<lambda>n. (node_id n, [])) tasks)) = Inr deps"
    using index_edge_fold_total[of edges "map_of (map (\<lambda>n. (node_id n, [])) tasks)"] known
    by (fastforce simp: map_of_const)
  ultimately show ?l using r counts by (simp add: validated_graph_def make_graph_def o_def)
qed

text \<open>The node and the edges of a task of a well-formed graph.\<close>

lemma well_formedE:
  assumes "well_formed g" and "t \<in> set (g_task_ids g)"
  obtains n es where "g_nodes_by_id g t = Some n" and "g_dependencies_of g t = Some es"
    and "node_id n = t"
    and "\<And>e. e \<in> set es \<Longrightarrow> edge_task_id e = t \<and> depends_on_task_id e \<in> set (g_task_ids g)
            \<and> depends_on_task_id e \<noteq> t \<and> dependency_type e \<in> set dependency_types"
    and "check_run_condition n (int (length es) + cross_pipeline_edge_count n) = Inr ()"
proof -
  from assms have "well_formed_task g t" by (simp add: well_formed_def list_all_iff)
  then show ?thesis
    by (auto simp: well_formed_task_def list_all_iff split: option.splits intro!: that)
qed

end
