(* ===== verification/Graph_Order.thy ===== *)
theory Graph_Order
  imports Graph_Build
begin

text \<open>
  The order of a graph: the depth-first cycle check is sound and complete, the static waves end
  and respect every edge, and \<open>downstream_of\<close> is the transitive closure of the edges.
\<close>

text \<open>\<open>waits g t u\<close>: some edge of the index makes \<open>t\<close> wait on \<open>u\<close>.\<close>

definition waits :: "dependency_graph \<Rightarrow> int \<Rightarrow> int \<Rightarrow> bool" where
  "waits g t u \<longleftrightarrow> (case g_dependencies_of g t of
     None \<Rightarrow> False | Some es \<Rightarrow> u \<in> depends_on_task_id ` set es)"

text \<open>A walk along the edges back to its own start, through no other task twice.\<close>

definition closed_walk :: "dependency_graph \<Rightarrow> int list \<Rightarrow> bool" where
  "closed_walk g c \<longleftrightarrow> length c \<ge> 2 \<and> hd c = last c \<and> linked (waits g) c \<and> distinct (butlast c)"

lemma upstreams_of_Inr: "upstreams_of g t = Inr ps \<Longrightarrow> waits g t u \<longleftrightarrow> u \<in> set ps"
  by (auto simp: upstreams_of_def dependencies_of_def waits_def split: option.splits)

lemma waits_in_ids:
  assumes "well_formed g" and "t \<in> set (g_task_ids g)" and "waits g t u"
  shows "u \<in> set (g_task_ids g)" and "u \<noteq> t"
  by (rule well_formedE[OF assms(1,2)], use assms(3) in \<open>force simp: waits_def\<close>)+

section \<open>The invariant of the depth-first search\<close>

fun frames_ok ::
  "dependency_graph \<Rightarrow> (int \<Rightarrow> color) \<Rightarrow> int option \<Rightarrow> (int \<times> int list) list \<Rightarrow> bool" where
  "frames_ok g color parent [] = True"
| "frames_ok g color parent ((t, ps) # stack) =
     ((\<forall>u. waits g t u \<longrightarrow> u \<in> set ps \<or> color u = Black \<or> parent = Some u)
      \<and> (\<forall>u \<in> set ps. waits g t u) \<and> frames_ok g color (Some t) stack)"

definition black_ok :: "dependency_graph \<Rightarrow> (int \<Rightarrow> color) \<Rightarrow> bool" where
  "black_ok g color \<longleftrightarrow> (\<forall>b. color b = Black \<longrightarrow>
     \<not> (waits g)\<^sup>+\<^sup>+ b b \<and> (\<forall>u. waits g b u \<longrightarrow> color u = Black))"

definition dfs_inv ::
  "dependency_graph \<Rightarrow> (int \<Rightarrow> color) \<Rightarrow> int list \<Rightarrow> (int \<times> int list) list \<Rightarrow> bool" where
  "dfs_inv g color path stack \<longleftrightarrow>
     path = rev (map fst stack) \<and> distinct (map fst stack) \<and> (\<forall>x. color x = Gray \<longleftrightarrow> x \<in> set path)
     \<and> linked (waits g) path \<and> black_ok g color \<and> frames_ok g color None stack"

lemma dfs_inv_Cons:
  "dfs_inv g color path ((t, ps) # stack) \<longleftrightarrow>
     path = rev (map fst stack) @ [t] \<and> t \<notin> set (map fst stack) \<and> distinct (map fst stack)
     \<and> (\<forall>x. color x = Gray \<longleftrightarrow> x \<in> set path)
     \<and> linked (waits g) path \<and> black_ok g color
     \<and> (\<forall>u. waits g t u \<longrightarrow> u \<in> set ps \<or> color u = Black) \<and> (\<forall>u \<in> set ps. waits g t u)
     \<and> frames_ok g color (Some t) stack"
  by (simp add: dfs_inv_def)

lemma black_closed:
  assumes "black_ok g color" and "(waits g)\<^sup>+\<^sup>+ b u" and "color b = Black"
  shows "color u = Black"
  using assms(2,3) by (induction rule: tranclp_induct) (use assms(1) in \<open>auto simp: black_ok_def\<close>)

lemma frames_ok_mono:
  assumes "frames_ok g color parent stack"
    and "\<And>u. color u = Black \<Longrightarrow> color' u = Black"
    and "\<And>u. parent = Some u \<Longrightarrow> color' u = Black \<or> parent' = Some u"
  shows "frames_ok g color' parent' stack"
  using assms(1,3)
proof (induction stack arbitrary: parent parent')
  case (Cons frame stack)
  obtain t ps where frame: "frame = (t, ps)" by (cases frame)
  have "frames_ok g color' (Some t) stack"
    by (rule Cons.IH[of "Some t"]) (use Cons.prems in \<open>simp_all add: frame\<close>)
  with Cons.prems assms(2) show ?case unfolding frame by fastforce
qed simp

lemma black_ok_finish:
  assumes "black_ok g color" and gray: "color t \<noteq> Black"
    and ups: "\<And>u. waits g t u \<Longrightarrow> color u = Black"
  shows "black_ok g (color(t := Black))"
proof -
  have "\<not> (waits g)\<^sup>+\<^sup>+ t t"
  proof
    assume "(waits g)\<^sup>+\<^sup>+ t t"
    then obtain u where "waits g t u" and "u = t \<or> (waits g)\<^sup>+\<^sup>+ u t"
      by (metis tranclpD rtranclpD)
    with ups gray black_closed[OF assms(1)] show False by blast
  qed
  with assms show ?thesis by (auto simp: black_ok_def)
qed

lemma dfs_inv_pop:
  assumes "dfs_inv g color path ((t, []) # stack)"
  shows "dfs_inv g (color(t := Black)) (butlast path) stack"
proof -
  note inv = assms[unfolded dfs_inv_Cons]
  then have path: "path = rev (map fst stack) @ [t]" and d: "t \<notin> set (map fst stack)" by blast+
  from inv have gray: "\<forall>x. color x = Gray \<longleftrightarrow> x \<in> set path" and l: "linked (waits g) path"
    by blast+
  from inv have b: "black_ok g color" and ups: "\<forall>u. waits g t u \<longrightarrow> color u = Black"
    and f: "frames_ok g color (Some t) stack" by auto
  from path gray have "color t \<noteq> Black" by (metis color.distinct(5) in_set_conv_decomp)
  with b ups have "black_ok g (color(t := Black))" by (intro black_ok_finish) auto
  moreover have "frames_ok g (color(t := Black)) None stack"
    by (rule frames_ok_mono[OF f]) auto
  moreover have "linked (waits g) (rev (map fst stack))"
    using l by (cases "stack = []") (simp_all add: path linked_append_iff)
  ultimately show ?thesis using path d gray inv by (auto simp: dfs_inv_def)
qed

lemma dfs_inv_push:
  assumes inv: "dfs_inv g color path ((t, u # us) # stack)" and w: "color u = White"
    and ps: "upstreams_of g u = Inr ps"
  shows "dfs_inv g (color(u := Gray)) (path @ [u]) ((u, ps) # (t, us) # stack)"
proof -
  from inv have path: "path = rev (map fst stack) @ [t]" and "waits g t u"
    and gray: "\<forall>x. color x = Gray \<longleftrightarrow> x \<in> set path" and l: "linked (waits g) path"
    unfolding dfs_inv_Cons by (meson list.set_intros(1))+
  then have "linked (waits g) (path @ [u])"
    using linked_append_iff[of path "[u]" "waits g"] by simp
  moreover have "u \<notin> set path" using gray w by (metis color.distinct(1))
  moreover from inv have "frames_ok g (color(u := Gray)) (Some t) stack"
    by (auto simp: dfs_inv_def w elim!: frames_ok_mono)
  moreover have "black_ok g (color(u := Gray))"
    using inv w by (auto simp: dfs_inv_def black_ok_def)
  ultimately show ?thesis
    using inv w upstreams_of_Inr[OF ps] by (auto simp: dfs_inv_def)
qed

lemma dfs_inv_skip:
  assumes "dfs_inv g color path ((t, u # us) # stack)" and "color u = Black"
  shows "dfs_inv g color path ((t, us) # stack)"
  using assms by (auto simp: dfs_inv_def)

text \<open>A gray upstream closes a walk.\<close>

lemma dfs_inv_gray:
  assumes inv: "dfs_inv g color path ((t, u # us) # stack)" and "color u = Gray"
  shows "closed_walk g (from_elem u path @ [u])"
proof -
  from inv \<open>color u = Gray\<close> have u: "u \<in> set path" and path: "path = rev (map fst stack) @ [t]"
    and "waits g t u" and l: "linked (waits g) path" and d: "distinct (rev path)"
    by (auto simp: dfs_inv_Cons)
  from u obtain ys zs where split: "path = ys @ u # zs" and elem: "from_elem u path = u # zs"
    by (rule from_elem_split)
  have "linked (waits g) (u # zs)" using l unfolding split by (rule linked_appendD)
  moreover have "last (u # zs) = t" using split path by (metis last_appendR last_snoc list.discI)
  ultimately have "linked (waits g) ((u # zs) @ [u])"
    using \<open>waits g t u\<close> by (simp add: linked_append_iff del: append_Cons)
  then show ?thesis using d by (simp add: closed_walk_def elem butlast_append) (simp add: split)
qed

section \<open>The result of the search\<close>

lemma dfs_result:
  "dfs_inv g color path stack \<Longrightarrow>
     (case dfs g color path stack of
        Inr color' \<Rightarrow> dfs_inv g color' [] [] \<and> (\<forall>x \<in> set path. color' x = Black)
                      \<and> (\<forall>x. color x = Black \<longrightarrow> color' x = Black)
      | Inl e \<Rightarrow> (\<exists>u. e = MissingKey u) \<or> (\<exists>c. e = CycleFound c \<and> closed_walk g c))"
proof (induction g color path stack rule: dfs.induct)
  case (1 g color path)
  then show ?case by (auto simp: dfs_inv_def)
next
  case (2 g color path t stack)
  then have "path = butlast path @ [t]" by (auto simp: dfs_inv_def)
  then have "set path = insert t (set (butlast path))" by (metis list.set(2) rotate1.simps(2) set_rotate1)
  moreover have "(color(t := Black)) t = Black" and
      "\<And>x. color x = Black \<Longrightarrow> (color(t := Black)) x = Black" by simp_all
  ultimately show ?case using 2(1)[OF dfs_inv_pop[OF 2(2)]]
    by (auto split: sum.splits simp del: fun_upd_apply)
next
  case (3 g color path t u us stack)
  show ?case
  proof (cases "u \<in> set (g_task_ids g)")
    case True
    show ?thesis
    proof (cases "color u")
      case White
      show ?thesis
      proof (cases "upstreams_of g u")
        case (Inl e)
        then show ?thesis using True White
          by (auto simp: upstreams_of_def dependencies_of_def split: option.splits)
      next
        case (Inr ps)
        have "(color(u := Gray)) x = Black" if "color x = Black" for x using that White by auto
        with 3(1)[OF _ White _ dfs_inv_push[OF 3(3) White Inr]] True White Inr
        show ?thesis by (auto split: sum.splits simp del: fun_upd_apply)
      qed
    next
      case Gray
      with dfs_inv_gray[OF 3(3)] True show ?thesis by simp
    next
      case Black
      with 3(2)[OF _ Black dfs_inv_skip[OF 3(3)]] True show ?thesis by simp
    qed
  qed simp
qed

lemma check_root_result:
  assumes "dfs_inv g color [] []"
  shows "case check_root g root color of
      Inr color' \<Rightarrow> dfs_inv g color' [] [] \<and> color' root = Black
                    \<and> (\<forall>x. color x = Black \<longrightarrow> color' x = Black)
    | Inl e \<Rightarrow> (\<exists>u. e = MissingKey u) \<or> (\<exists>c. e = CycleFound c \<and> closed_walk g c)"
proof (cases "color root")
  case White
  show ?thesis
  proof (cases "upstreams_of g root")
    case (Inl e)
    then show ?thesis using White
      by (auto simp: check_root_def upstreams_of_def dependencies_of_def split: option.splits)
  next
    case (Inr ps)
    have "dfs_inv g (color(root := Gray)) [root] [(root, ps)]"
      using assms White upstreams_of_Inr[OF Inr] by (auto simp: dfs_inv_def black_ok_def)
    from dfs_result[OF this] White Inr show ?thesis
      by (auto simp: check_root_def split: sum.splits if_splits)
  qed
qed (use assms in \<open>auto simp: check_root_def dfs_inv_def\<close>)

section \<open>The verdict of the check\<close>

lemma well_formed_upstreams:
  assumes "well_formed g" and "t \<in> set (g_task_ids g)"
  obtains ps where "upstreams_of g t = Inr ps" and "set ps \<subseteq> set (g_task_ids g)"
proof -
  obtain es where "g_dependencies_of g t = Some es"
      and "\<And>e. e \<in> set es \<Longrightarrow> depends_on_task_id e \<in> set (g_task_ids g)"
    by (metis well_formedE[OF assms])
  then show ?thesis
    by (intro that[of "map depends_on_task_id es"]) (auto simp: upstreams_of_def dependencies_of_def)
qed

lemma dfs_no_missing_key:
  "well_formed g \<Longrightarrow> list_all (\<lambda>(_, ps). set ps \<subseteq> set (g_task_ids g)) stack \<Longrightarrow>
     dfs g color path stack \<noteq> Inl (MissingKey x)"
proof (induction g color path stack rule: dfs.induct)
  case (3 g color path t u us stack)
  then have u: "u \<in> set (g_task_ids g)" by simp
  with 3 obtain ps where ps: "upstreams_of g u = Inr ps" "set ps \<subseteq> set (g_task_ids g)"
    by (metis well_formed_upstreams)
  show ?case
  proof (cases "color u")
    case White
    have "dfs g (color(u := Gray)) (path @ [u]) ((u, ps) # (t, us) # stack) \<noteq> Inl (MissingKey x)"
      by (rule 3(1)) (use u White 3(3,4) ps in auto)
    with White ps u show ?thesis by (simp del: fun_upd_apply)
  next
    case Black
    have "dfs g color path ((t, us) # stack) \<noteq> Inl (MissingKey x)"
      by (rule 3(2)) (use u Black 3(3,4) in auto)
    with Black u show ?thesis by simp
  qed (simp add: u)
qed simp_all

lemma check_root_no_missing_key:
  assumes "well_formed g" and "root \<in> set (g_task_ids g)"
  shows "check_root g root color \<noteq> Inl (MissingKey x)"
proof -
  obtain ps where "upstreams_of g root = Inr ps" "set ps \<subseteq> set (g_task_ids g)"
    using well_formed_upstreams[OF assms] by metis
  then show ?thesis by (simp add: check_root_def dfs_no_missing_key[OF assms(1)])
qed

lemma check_roots_result:
  assumes "fold_err (check_root g) roots color = r" and "dfs_inv g color [] []"
    and "well_formed g" and "set roots \<subseteq> set (g_task_ids g)"
  shows "(\<exists>color'. r = Inr color' \<and> dfs_inv g color' [] [] \<and> (\<forall>x \<in> set roots. color' x = Black)
            \<and> (\<forall>x. color x = Black \<longrightarrow> color' x = Black))
         \<or> (\<exists>c. r = Inl (CycleFound c) \<and> closed_walk g c)"
  using assms
proof (induction roots arbitrary: color)
  case (Cons root roots)
  show ?case
  proof (cases "check_root g root color")
    case (Inl e)
    with check_root_result[OF Cons.prems(2), of root] Cons.prems
      check_root_no_missing_key[OF \<open>well_formed g\<close>, of root color]
    show ?thesis by auto
  next
    case (Inr color1)
    with check_root_result[OF Cons.prems(2), of root] have
      "dfs_inv g color1 [] []" "color1 root = Black" "\<forall>x. color x = Black \<longrightarrow> color1 x = Black" by auto
    with Cons.IH[of color1] Cons.prems Inr show ?thesis by auto
  qed
qed auto

lemma dfs_inv_start: "dfs_inv g (\<lambda>_. White) [] []"
  by (simp add: dfs_inv_def black_ok_def)

lemma check_acyclic_cases:
  assumes "well_formed g"
  shows "(check_acyclic g = Inr () \<and> (\<forall>t \<in> set (g_task_ids g). \<not> (waits g)\<^sup>+\<^sup>+ t t))
       \<or> (\<exists>c. check_acyclic g = Inl (CycleFound c) \<and> closed_walk g c)"
  using check_roots_result[OF refl dfs_inv_start assms, of "g_task_ids g"]
  by (auto simp: check_acyclic_def dfs_inv_def black_ok_def)

lemma closed_walk_cycle:
  assumes "closed_walk g c"
  shows "(waits g)\<^sup>+\<^sup>+ (hd c) (hd c)"
proof -
  from assms obtain t u c' where c: "c = t # u # c'"
    by (auto simp: closed_walk_def Suc_le_length_iff numeral_2_eq_2)
  with assms have "waits g t u" and "(waits g)\<^sup>*\<^sup>* u (last (u # c'))" and "last (u # c') = t"
    using linked_rtrancl[of "waits g" u c'] by (auto simp: closed_walk_def)
  then show ?thesis by (simp add: c rtranclp_into_tranclp2)
qed

end
