(* ===== verification/Graph_Waves.thy ===== *)
theory Graph_Waves
  imports Graph_Order
begin

text \<open>
  What the cycle check buys its clients. The contract between \<open>build_graph\<close> and the operations
  that loop over the order is the locale \<open>acyclicity_check\<close>; its clients are \<open>waves\<close>, whose
  loop ends only because every non-empty set of unresolved tasks has one whose upstreams are
  all resolved, and the scheduler's progress argument. \<open>downstream_of\<close> is characterised here too.
\<close>

section \<open>The contract of the cycle check\<close>

locale acyclicity_check =
  fixes ok :: "'g \<Rightarrow> bool"
    and tasks :: "'g \<Rightarrow> 'n list"
    and dep :: "'g \<Rightarrow> 'n \<Rightarrow> 'n \<Rightarrow> bool"
    and passed :: "'g \<Rightarrow> bool"
  assumes dep_closed: "ok g \<Longrightarrow> t \<in> set (tasks g) \<Longrightarrow> dep g t u \<Longrightarrow> u \<in> set (tasks g)"
    and passed_acyclic: "ok g \<Longrightarrow> passed g \<Longrightarrow> t \<in> set (tasks g) \<Longrightarrow> \<not> (dep g)\<^sup>+\<^sup>+ t t"
begin

definition dep_rel :: "'g \<Rightarrow> ('n \<times> 'n) set" where
  "dep_rel g = {(u, t). t \<in> set (tasks g) \<and> dep g t u}"

lemma dep_rel_trancl: "(u, t) \<in> (dep_rel g)\<^sup>+ \<Longrightarrow> t \<in> set (tasks g) \<and> (dep g)\<^sup>+\<^sup>+ t u"
  by (induction rule: trancl_induct)
    (auto simp: dep_rel_def intro: tranclp_into_tranclp2)

lemma wf_dep_rel:
  assumes "ok g" and "passed g"
  shows "wf (dep_rel g)"
proof (rule finite_acyclic_wf)
  have "dep_rel g \<subseteq> set (tasks g) \<times> set (tasks g)"
    using dep_closed[OF assms(1)] by (auto simp: dep_rel_def)
  then show "finite (dep_rel g)" by (rule finite_subset) simp
  show "acyclic (dep_rel g)"
    using dep_rel_trancl passed_acyclic[OF assms] by (fastforce simp: acyclic_def)
qed

text \<open>Every non-empty set of tasks has one that depends on none of them.\<close>

lemma first_of:
  assumes "ok g" and "passed g" and "A \<subseteq> set (tasks g)" and "A \<noteq> {}"
  obtains t where "t \<in> A" and "\<And>u. dep g t u \<Longrightarrow> u \<notin> A \<and> u \<in> set (tasks g)"
proof -
  from assms(4) obtain a where "a \<in> A" by auto
  then obtain t where t: "t \<in> A" and min: "\<And>u. (u, t) \<in> dep_rel g \<Longrightarrow> u \<notin> A"
    using wfE_min[OF wf_dep_rel[OF assms(1,2)]] by metis
  show ?thesis
  proof (rule that[OF t])
    fix u assume "dep g t u"
    with t assms(3) min dep_closed[OF assms(1)] show "u \<notin> A \<and> u \<in> set (tasks g)"
      by (auto simp: dep_rel_def)
  qed
qed

end

interpretation graph_check: acyclicity_check well_formed g_task_ids waits
  "\<lambda>g. check_acyclic g = Inr ()"
proof unfold_locales
  fix g t assume "well_formed g" "check_acyclic g = Inr ()" "t \<in> set (g_task_ids g)"
  with check_acyclic_cases[of g] show "\<not> (waits g)\<^sup>+\<^sup>+ t t" by auto
qed (rule waits_in_ids(1))

section \<open>Static waves\<close>

text \<open>Every wave is sorted, not empty, and waits only on what was resolved before it.\<close>

fun layered :: "dependency_graph \<Rightarrow> int list \<Rightarrow> int list list \<Rightarrow> bool" where
  "layered g resolved [] = True"
| "layered g resolved (w # ws) =
     (w \<noteq> [] \<and> sorted w \<and> (\<forall>t \<in> set w. \<forall>u. waits g t u \<longrightarrow> u \<in> set resolved)
      \<and> layered g (resolved @ w) ws)"

lemma waits_edges_of: "waits g t u \<longleftrightarrow> (\<exists>e \<in> set (edges_of g t). depends_on_task_id e = u)"
  by (cases "g_dependencies_of g t") (auto simp: waits_def edges_of_def)

lemma set_wave_of:
  "set (wave_of g remaining resolved) =
     {t \<in> set remaining. \<forall>u. waits g t u \<longrightarrow> u \<in> set resolved}"
  by (auto simp: wave_of_def waits_edges_of)

lemma wave_of_props:
  "sorted (wave_of g remaining resolved)"
  "distinct remaining \<Longrightarrow> distinct (wave_of g remaining resolved)"
  by (simp_all add: wave_of_def)

lemma wave_of_not_Nil:
  assumes "well_formed g" and "check_acyclic g = Inr ()" and "remaining \<noteq> []"
    and "set remaining \<union> set resolved = set (g_task_ids g)"
  shows "wave_of g remaining resolved \<noteq> []"
proof -
  obtain t where "t \<in> set remaining"
      and "\<And>u. waits g t u \<Longrightarrow> u \<notin> set remaining \<and> u \<in> set (g_task_ids g)"
    using graph_check.first_of[OF assms(1,2), of "set remaining"] assms(3,4) by auto
  with assms(4) have "t \<in> set (wave_of g remaining resolved)" by (auto simp: set_wave_of)
  then show ?thesis by auto
qed

lemma waves_loop_ends:
  assumes "well_formed g" and "check_acyclic g = Inr ()"
    and "set remaining \<union> set resolved = set (g_task_ids g)" and "distinct remaining"
  shows "\<exists>ws. waves_loop g remaining resolved = Some ws \<and> set (concat ws) = set remaining
     \<and> distinct (concat ws) \<and> layered g resolved ws"
  using assms(3,4)
proof (induction "length remaining" arbitrary: remaining resolved rule: less_induct)
  case less
  let ?w = "wave_of g remaining resolved"
  let ?rest = "filter (\<lambda>t. t \<notin> set ?w) remaining"
  show ?case
  proof (cases "remaining = []")
    case False
    then have ne: "?w \<noteq> []" using wave_of_not_Nil[OF assms(1,2) False less.prems(1)] by simp
    then obtain t where "t \<in> set ?w" by (metis list.set_intros(1) neq_Nil_conv)
    then have "length ?rest < length remaining"
      by (intro length_filter_less[of t]) (auto simp: set_wave_of)
    moreover have "set ?rest \<union> set (resolved @ ?w) = set (g_task_ids g)"
      using less.prems(1) by (auto simp: set_wave_of)
    ultimately obtain ws where "waves_loop g ?rest (resolved @ ?w) = Some ws"
        "set (concat ws) = set ?rest" "distinct (concat ws)" "layered g (resolved @ ?w) ws"
      using less.hyps[of ?rest "resolved @ ?w"] less.prems(2) by auto
    then show ?thesis using False ne wave_of_props less.prems(2)
      by (subst waves_loop.simps) (auto simp: Let_def set_wave_of)
  qed (simp add: waves_loop.simps)
qed

lemma layered_order:
  assumes "layered g resolved ws" and "i < length ws" and "t \<in> set (ws ! i)" and "waits g t u"
  shows "u \<in> set resolved \<or> (\<exists>j < i. u \<in> set (ws ! j))"
  using assms
proof (induction g resolved ws arbitrary: i rule: layered.induct)
  case (2 g resolved w ws)
  show ?case
  proof (cases i)
    case (Suc k)
    with 2 have "u \<in> set (resolved @ w) \<or> (\<exists>j < k. u \<in> set (ws ! j))" by auto
    with Suc show ?thesis by (auto intro: exI[of _ 0])
  qed (use 2 in auto)
qed simp

lemma layered_members:
  "layered g resolved ws \<Longrightarrow> w \<in> set ws \<Longrightarrow> w \<noteq> [] \<and> sorted w"
  by (induction g resolved ws rule: layered.induct) auto

section \<open>Downstream tasks\<close>

lemma next_frontier_set:
  assumes "well_formed g" 
  shows "set (next_frontier g frontier found) =
     {t \<in> set (g_task_ids g). t \<notin> set found \<and> (\<exists>u \<in> set frontier. waits g t u)}"
proof -
  have "edge_task_id e = t" if "t \<in> set (g_task_ids g)" "e \<in> set (edges_of g t)" for t e
    using assms that(1) by (rule well_formedE) (use that in \<open>auto simp: edges_of_def\<close>)
  then have "(\<exists>e \<in> set (all_edges g). edge_task_id e = t \<and> depends_on_task_id e = u)
      \<longleftrightarrow> t \<in> set (g_task_ids g) \<and> waits g t u" for t u
    unfolding waits_edges_of all_edges_def by auto
  note edge = this
  have "t \<in> set (next_frontier g frontier found) \<longleftrightarrow> t \<notin> set found
      \<and> (\<exists>u \<in> set frontier. \<exists>e \<in> set (all_edges g). edge_task_id e = t \<and> depends_on_task_id e = u)"
    for t by (auto simp: next_frontier_def)
  then show ?thesis unfolding edge by blast
qed

lemma downstream_loop_result:
  assumes "well_formed g"
    and "\<And>x. x \<in> set found \<Longrightarrow> (waits g)\<^sup>+\<^sup>+ x t" and "set frontier \<subseteq> insert t (set found)"
    and "\<And>u x. u \<in> set (g_task_ids g) \<Longrightarrow> waits g u x \<Longrightarrow> x \<in> insert t (set found) - set frontier
           \<Longrightarrow> u \<in> set found"
    and "set found \<subseteq> set (g_task_ids g)"
  shows "set (downstream_loop g frontier found) = {u \<in> set (g_task_ids g). (waits g)\<^sup>+\<^sup>+ u t}"
  using assms
proof (induction g frontier found rule: downstream_loop.induct)
  case (1 g frontier found)
  show ?case
  proof (cases "frontier = []")
    case True
    have "u \<in> set found" if "(waits g)\<^sup>+\<^sup>+ u t" "u \<in> set (g_task_ids g)" for u
      using that
    proof (induction rule: converse_tranclp_induct)
      case (base u)
      then show ?case using 1 True by auto
    next
      case (step u x)
      then have "x \<in> set (g_task_ids g)"
        using waits_in_ids(1)[OF 1(2) step.prems step.hyps(1)] by simp
      with step 1 True show ?case by auto
    qed
    moreover have "downstream_loop g frontier found = found"
      by (subst downstream_loop.simps) (simp add: True)
    ultimately show ?thesis using 1(3,6) by auto
  next
    case False
    let ?next = "next_frontier g frontier found"
    have next_set: "set ?next = {u \<in> set (g_task_ids g). u \<notin> set found \<and> (\<exists>x \<in> set frontier. waits g u x)}"
      by (rule next_frontier_set[OF 1(2)])
    have reach: "(waits g)\<^sup>+\<^sup>+ u t" if "u \<in> set ?next" for u
      using that 1(3,4) by (auto simp: next_set intro: tranclp_into_tranclp2)
    have "set (downstream_loop g ?next (found @ ?next)) = {u \<in> set (g_task_ids g). (waits g)\<^sup>+\<^sup>+ u t}"
    proof (rule 1(1)[OF False refl 1(2)])
      fix u x assume "u \<in> set (g_task_ids g)" and "waits g u x"
        and "x \<in> insert t (set (found @ ?next)) - set ?next"
      then show "u \<in> set (found @ ?next)"
        using 1(5)[of u x] next_set by (cases "x \<in> set frontier") auto
    qed (use 1(3,6) reach next_set in auto)
    then show ?thesis using False by (subst downstream_loop.simps) (simp add: Let_def)
  qed
qed

section \<open>Acceptance\<close>

definition edge_pairs :: "task_edge list \<Rightarrow> (int \<times> int) set" where
  "edge_pairs edges = (\<lambda>e. (edge_task_id e, depends_on_task_id e)) ` set edges"

definition condition_ok :: "task_node \<Rightarrow> int \<Rightarrow> bool" where
  "condition_ok n n_edges \<longleftrightarrow>
     (run_condition n = None \<and> run_condition_count n = None)
     \<or> (run_condition n \<in> {Some ''ALL'', Some ''ANY''} \<and> run_condition_count n = None)
     \<or> (run_condition n = Some ''N''
         \<and> (\<exists>k. run_condition_count n = Some k \<and> 1 \<le> k \<and> k \<le> n_edges))"

lemma check_run_condition_iff: "check_run_condition n k = Inr () \<longleftrightarrow> condition_ok n k"
  by (auto simp: check_run_condition_def condition_ok_def run_conditions_def
      split: option.splits if_splits)

definition own_edges :: "task_edge list \<Rightarrow> task_node \<Rightarrow> int" where
  "own_edges edges n = int (length (filter (\<lambda>e. edge_task_id e = node_id n) edges))"

lemma build_graph_Inr:
  "build_graph tasks edges = Inr g \<longleftrightarrow>
     validated_graph tasks edges = Inr g \<and> check_acyclic g = Inr ()"
  by (auto simp: build_graph_def err_simps)

lemma validated_waits:
  assumes "validated_graph tasks edges = Inr g"
  shows "waits g t u \<longleftrightarrow> (t, u) \<in> edge_pairs edges"
proof -
  have "t \<in> set (g_task_ids g)" if "e \<in> set edges" "edge_task_id e = t" for e
    using validated_edges[OF assms] that by (auto simp: list_all_iff edge_ok_def)
  then show ?thesis by (auto simp: waits_def validated_deps[OF assms] edge_pairs_def)
qed

lemma validated_trancl:
  assumes "validated_graph tasks edges = Inr g"
  shows "(waits g)\<^sup>+\<^sup>+ t u \<longleftrightarrow> (t, u) \<in> (edge_pairs edges)\<^sup>+"
  using validated_waits[OF assms] by (simp add: tranclp_unfold)

lemma validated_acyclic:
  assumes "validated_graph tasks edges = Inr g"
  shows "check_acyclic g = Inr () \<longleftrightarrow> acyclic (edge_pairs edges)"
proof -
  have "t \<in> set (g_task_ids g)" if "(waits g)\<^sup>+\<^sup>+ t t" for t
  proof -
    from that obtain u where "waits g t u" by (meson tranclpD)
    then show ?thesis
      by (auto simp: waits_def validated_deps[OF assms] split: if_splits)
  qed
  then show ?thesis
    using check_acyclic_cases[OF validated_well_formed[OF assms]] closed_walk_cycle[of g]
    unfolding acyclic_def validated_trancl[OF assms, symmetric] by fastforce
qed

lemma validated_no_cycle: "validated_graph tasks edges \<noteq> Inl (CycleFound c)"
proof -
  have "check_edge tasks e counts \<noteq> Inl (CycleFound c)" for e counts
    by (auto simp: check_edge_def Let_def split: option.splits)
  moreover have "check_task counts n u \<noteq> Inl (CycleFound c)" for counts n u
    by (auto simp: check_task_def check_run_condition_def split: option.splits)
  moreover have "index_edge e deps \<noteq> Inl (CycleFound c)" for e deps
    by (auto simp: index_edge_def split: option.splits)
  ultimately show ?thesis
    by (auto simp: validated_graph_def make_graph_def Let_def err_simps dest!: fold_err_Inl)
qed

text \<open>An accepted graph is everything its operations ask for.\<close>

definition accepted :: "dependency_graph \<Rightarrow> bool" where
  "accepted g \<longleftrightarrow> well_formed g \<and> check_acyclic g = Inr ()"

lemma build_graph_accepted: "build_graph tasks edges = Inr g \<Longrightarrow> accepted g"
  by (auto simp: build_graph_Inr accepted_def intro: validated_well_formed)

section \<open>Properties\<close>

text \<open>Concrete rows: a diamond of four tasks.\<close>

definition diamond_tasks :: "task_node list" where
  "diamond_tasks = map (\<lambda>i. \<lparr>node_id = i, run_condition = None, run_condition_count = None,
     cross_pipeline_edge_count = 0, task_code = None\<rparr>) [1, 2, 3, 4]"

definition success_edge :: "int \<Rightarrow> int \<Rightarrow> task_edge" where
  "success_edge t u = \<lparr>edge_task_id = t, depends_on_task_id = u, dependency_type = ''SUCCESS''\<rparr>"

definition diamond_edges :: "task_edge list" where
  "diamond_edges = [success_edge 2 1, success_edge 3 1, success_edge 4 2, success_edge 4 3]"

text \<open>
  C1. \<open>build_graph\<close> accepts exactly the right rows: distinct task ids, edges between two
  different known tasks with a known dependency type, run conditions that fit their counts
  and the number of dependencies, and no cycle of edges.
\<close>

theorem build_graph_accepts_iff:
  "(\<exists>g. build_graph tasks edges = Inr g) \<longleftrightarrow>
     distinct (map node_id tasks)
     \<and> list_all (edge_ok (map node_id tasks)) edges
     \<and> list_all (\<lambda>n. condition_ok n (own_edges edges n + cross_pipeline_edge_count n)) tasks
     \<and> acyclic (edge_pairs edges)"
  using validated_iff[of tasks edges] validated_acyclic[of tasks edges]
  by (auto simp: build_graph_Inr list_all_iff check_run_condition_iff own_edges_def)

text \<open>
  A \<open>CycleError\<close> names a cycle that is there: consecutive tasks of the reported list are
  joined by edges of the input, the last task is the first again, and no other repeats.
\<close>

theorem reported_cycle_is_a_cycle:
  "case build_graph tasks edges of
     Inl (CycleFound c) \<Rightarrow> length c \<ge> 2 \<and> hd c = last c \<and> distinct (butlast c)
        \<and> linked (\<lambda>t u. (t, u) \<in> edge_pairs edges) c
   | _ \<Rightarrow> True"
proof (cases "validated_graph tasks edges")
  case (Inl e)
  then have "e \<noteq> CycleFound c" for c
    by (auto simp: validated_no_cycle)
  with Inl show ?thesis by (auto simp: build_graph_def split: graph_error.splits)
next
  case (Inr g)
  then have w: "waits g = (\<lambda>t u. (t, u) \<in> edge_pairs edges)"
    by (intro ext) (rule validated_waits)
  from check_acyclic_cases[OF validated_well_formed[OF Inr]] Inr show ?thesis
    by (auto simp: build_graph_def closed_walk_def w)
qed

text \<open>
  C2. \<open>waves\<close> ends on every accepted graph, with every task in exactly one wave; waves are
  sorted and not empty, and every upstream of a task is in an earlier wave.
\<close>

theorem waves_topological:
  assumes "build_graph tasks edges = Inr g"
  shows "\<exists>ws. waves g = Some ws \<and> set (concat ws) = node_id ` set tasks \<and> distinct (concat ws)
     \<and> (\<forall>w \<in> set ws. w \<noteq> [] \<and> sorted w)
     \<and> (\<forall>i < length ws. \<forall>t \<in> set (ws ! i). \<forall>u. (t, u) \<in> edge_pairs edges \<longrightarrow>
           (\<exists>j < i. u \<in> set (ws ! j)))"
proof -
  from assms have v: "validated_graph tasks edges = Inr g" and "accepted g"
    by (simp_all add: build_graph_Inr build_graph_accepted[OF assms])
  then obtain ws where ws: "waves g = Some ws" "set (concat ws) = set (g_task_ids g)"
      "distinct (concat ws)" and lay: "layered g [] ws"
    using waves_loop_ends[of g "remdups (g_task_ids g)" "[]"] by (auto simp: waves_def accepted_def)
  have "\<exists>j < i. u \<in> set (ws ! j)"
    if "i < length ws" "t \<in> set (ws ! i)" "(t, u) \<in> edge_pairs edges" for i t u
    using layered_order[OF lay that(1,2)] that(3) by (simp add: validated_waits[OF v])
  with ws layered_members[OF lay] show ?thesis by (auto simp: validated_ids[OF v])
qed

lemma diamond_accepted: "\<exists>g. build_graph diamond_tasks diamond_edges = Inr g"
proof -
  have "is_err (build_graph diamond_tasks diamond_edges) = False" by code_simp
  then show ?thesis by (cases "build_graph diamond_tasks diamond_edges") (auto simp: is_err_def)
qed

theorem waves_topological_witness:
  "\<exists>g ws. build_graph diamond_tasks diamond_edges = Inr g \<and> waves g = Some ws
     \<and> distinct (concat ws)"
proof -
  obtain g where "build_graph diamond_tasks diamond_edges = Inr g" using diamond_accepted ..
  with waves_topological[OF this] show ?thesis by auto
qed

text \<open>
  \<open>downstream_of\<close> returns exactly the tasks that wait on the given one, directly or through
  others.
\<close>

theorem downstream_is_closure:
  assumes "build_graph tasks edges = Inr g"
  shows "set (downstream_of g t) = {u. (u, t) \<in> (edge_pairs edges)\<^sup>+}"
proof -
  from assms have v: "validated_graph tasks edges = Inr g" and wf: "well_formed g"
    using build_graph_accepted[OF assms] by (simp_all add: build_graph_Inr accepted_def)
  have "set (downstream_of g t) = {u \<in> set (g_task_ids g). (waits g)\<^sup>+\<^sup>+ u t}"
    unfolding downstream_of_def by (rule downstream_loop_result[OF wf]) auto
  moreover have "u \<in> set (g_task_ids g)" if "(waits g)\<^sup>+\<^sup>+ u t" for u
  proof -
    from that obtain x where "waits g u x" by (meson tranclpD)
    then show ?thesis by (auto simp: waits_def validated_deps[OF v] split: if_splits)
  qed
  ultimately show ?thesis by (auto simp: validated_trancl[OF v])
qed

end
