(* ===== verification/Graph_Ready.thy ===== *)
theory Graph_Ready
  imports Graph_Waves
begin

text \<open>
  Readiness and dead ends. On an accepted graph no count raises (the contract of the edge rule,
  \<open>edge_rule\<close>), so \<open>ready\<close> and \<open>unsatisfiable\<close> are compared with what they mean for the rows:
  a task can start, or can never start in any later state of the run.
\<close>

section \<open>The contract of an edge rule\<close>

locale edge_rule =
  fixes satisfied :: "'e \<Rightarrow> 's \<Rightarrow> 'err + bool" and valid :: "'e \<Rightarrow> bool"
  assumes decided: "valid e \<Longrightarrow> \<exists>b. satisfied e s = Inr b"
begin

definition holds :: "'e \<Rightarrow> 's \<Rightarrow> bool" where
  "holds e s \<longleftrightarrow> satisfied e s = Inr True"

lemma satisfied_holds: "valid e \<Longrightarrow> satisfied e s = Inr (holds e s)"
  using decided[of e s] by (auto simp: holds_def)

lemma filter_satisfied:
  "list_all valid es \<Longrightarrow>
     filter_err (\<lambda>e. satisfied e (st e)) es = Inr (filter (\<lambda>e. holds e (st e)) es)"
  by (rule filter_err_pure) (auto simp: list_all_iff intro: satisfied_holds)

end

definition edge_typed :: "task_edge \<Rightarrow> bool" where
  "edge_typed e \<longleftrightarrow> dependency_type e \<in> set dependency_types"

interpretation edge: edge_rule edge_satisfied edge_typed
  by unfold_locales
    (auto simp: edge_typed_def edge_satisfied_def dependency_types_def dependency_kinds_def Let_def)

lemma holds_iff:
  "edge.holds e up \<longleftrightarrow>
     (dependency_type e = ''SUCCESS'' \<and> status up = Some RunSuccess)
     \<or> (dependency_type e = ''FAILURE'' \<and> status up = Some RunFailed)
     \<or> (dependency_type e = ''ALWAYS'' \<and> status up \<in> Some ` set terminal_statuses)
     \<or> (dependency_type e = ''HAS_DATA'' \<and> status up = Some RunSuccess \<and> wrote_rows up)"
  by (auto simp: edge.holds_def edge_satisfied_def status_in_def Let_def split: option.splits)

lemma edge_permanently_unsatisfiable_pure:
  "edge_typed e \<Longrightarrow> edge_permanently_unsatisfiable e up ff = Inr
     ((status_in (status up) settled_statuses \<or> ff \<and> status up = Some RunFailed)
        \<and> \<not> edge.holds e up)"
  by (auto simp: edge_permanently_unsatisfiable_def edge.satisfied_holds)

section \<open>Counts over the rows\<close>

definition own :: "task_edge list \<Rightarrow> task_node \<Rightarrow> task_edge list" where
  "own edges n = filter (\<lambda>e. edge_task_id e = node_id n) edges"

definition holding :: "task_edge list \<Rightarrow> run_state \<Rightarrow> task_node \<Rightarrow> int" where
  "holding edges rs n =
     int (length (filter (\<lambda>e. edge.holds e (state_of rs (depends_on_task_id e))) (own edges n)))"

definition lost :: "task_edge list \<Rightarrow> run_state \<Rightarrow> bool \<Rightarrow> task_edge \<Rightarrow> bool" where
  "lost edges rs ff e \<longleftrightarrow> (let up = state_of rs (depends_on_task_id e) in
     (status_in (status up) settled_statuses \<or> ff \<and> status up = Some RunFailed)
     \<and> \<not> edge.holds e up)"

definition possible :: "task_edge list \<Rightarrow> run_state \<Rightarrow> bool \<Rightarrow> task_node \<Rightarrow> int" where
  "possible edges rs ff n = int (length (filter (\<lambda>e. \<not> lost edges rs ff e) (own edges n)))"

definition all_edge_count :: "task_edge list \<Rightarrow> task_node \<Rightarrow> int" where
  "all_edge_count edges n = own_edges edges n + cross_pipeline_edge_count n"

definition needed :: "task_edge list \<Rightarrow> task_node \<Rightarrow> int" where
  "needed edges n =
     (if run_condition n = Some ''ANY'' then (if all_edge_count edges n \<noteq> 0 then 1 else 0)
      else if run_condition n = Some ''N'' then the (run_condition_count n)
      else all_edge_count edges n)"

lemma validated_typed:
  assumes "validated_graph tasks edges = Inr g"
  shows "list_all edge_typed (own edges n)"
  using validated_edges[OF assms] by (auto simp: list_all_iff edge_ok_def edge_typed_def own_def)

lemma validated_lookups:
  assumes "validated_graph tasks edges = Inr g" and "n \<in> set tasks"
  shows "node_of g (node_id n) = Inr n" and "dependencies_of g (node_id n) = Inr (own edges n)"
  using assms(2) validated_node[OF assms(1), of "node_id n" n]
  by (auto simp: node_of_def dependencies_of_def validated_deps[OF assms(1)] own_def
      validated_ids[OF assms(1)])

lemma validated_total:
  assumes "validated_graph tasks edges = Inr g" and "n \<in> set tasks"
  shows "total_edge_count g (node_id n) = Inr (all_edge_count edges n)"
  by (simp add: total_edge_count_def validated_lookups[OF assms] all_edge_count_def own_edges_def
      own_def)

lemma validated_required:
  assumes "validated_graph tasks edges = Inr g" and "n \<in> set tasks"
  shows "required_edge_count g (node_id n) = Inr (needed edges n)"
  using validated_conditions[OF assms]
  by (auto simp: required_edge_count_def validated_total[OF assms] validated_lookups[OF assms]
      needed_def check_run_condition_iff condition_ok_def Let_def)

lemma validated_satisfied:
  assumes "validated_graph tasks edges = Inr g" and "n \<in> set tasks"
  shows "satisfied_edge_count g (node_id n) rs c =
     Inr (holding edges rs n + (case c of None \<Rightarrow> cross_pipeline_edge_count n | Some k \<Rightarrow> k))"
  by (simp add: satisfied_edge_count_def validated_lookups[OF assms] holding_def
      edge.filter_satisfied[OF validated_typed[OF assms(1)]])

lemma validated_unsatisfiable:
  assumes "validated_graph tasks edges = Inr g" and "n \<in> set tasks"
  shows "is_unsatisfiable g (node_id n) rs ff = Inr (all_edge_count edges n \<noteq> 0
     \<and> cross_pipeline_edge_count n + possible edges rs ff n < needed edges n)"
proof -
  have "filter_err (\<lambda>e. bind_err (edge_permanently_unsatisfiable e
        (state_of rs (depends_on_task_id e)) ff) (\<lambda>b. Inr (\<not> b))) (own edges n)
      = Inr (filter (\<lambda>e. \<not> lost edges rs ff e) (own edges n))"
    using validated_typed[OF assms(1), of n]
    by (intro filter_err_pure)
      (simp add: list_all_iff edge_permanently_unsatisfiable_pure lost_def Let_def)
  then show ?thesis
    by (simp add: is_unsatisfiable_def validated_total[OF assms] validated_required[OF assms]
        validated_lookups[OF assms] possible_def)
qed

section \<open>Which tasks can start\<close>

definition unfinished_upstream :: "task_edge list \<Rightarrow> run_state \<Rightarrow> task_node \<Rightarrow> bool" where
  "unfinished_upstream edges rs n \<longleftrightarrow> (\<exists>e \<in> set (own edges n).
     \<not> status_in (status (state_of rs (depends_on_task_id e))) terminal_statuses)"

definition can_start ::
  "task_edge list \<Rightarrow> run_state \<Rightarrow> (int \<rightharpoonup> int) \<Rightarrow> task_node \<Rightarrow> bool" where
  "can_start edges rs cross n \<longleftrightarrow>
     status (state_of rs (node_id n)) \<notin> Some ` {RunSuccess, RunSkipped, RunInProgress}
     \<and> (case cross (node_id n) of
          Some k \<Rightarrow> needed edges n \<le> holding edges rs n + k
        | None \<Rightarrow> needed edges n \<le> holding edges rs n + cross_pipeline_edge_count n
            \<and> (needed edges n \<le> holding edges rs n \<or> \<not> unfinished_upstream edges rs n))"

lemma validated_is_ready:
  assumes "validated_graph tasks edges = Inr g" and "n \<in> set tasks"
  shows "is_ready g rs cross (node_id n) = Inr (can_start edges rs cross n)"
proof -
  have "status_in s not_retryable_statuses \<longleftrightarrow> s \<in> Some ` {RunSuccess, RunSkipped, RunInProgress}" for s
    by (auto simp: status_in_def status_sets split: option.splits)
  then show ?thesis
    by (auto simp: is_ready_def can_start_def validated_required[OF assms]
        validated_satisfied[OF assms] waits_on_unfinished_upstream_def validated_lookups[OF assms]
        unfinished_upstream_def split: option.splits)
qed

lemma validated_ready:
  assumes v: "validated_graph tasks edges = Inr g"
  shows "ready g rs cross = Inr (sort (map node_id (filter (can_start edges rs cross) tasks)))"
proof -
  have "\<exists>n \<in> set tasks. t = node_id n \<and> is_ready g rs cross t = Inr (can_start edges rs cross n)"
    if "t \<in> set (g_task_ids g)" for t
    using that validated_is_ready[OF v] by (auto simp: validated_ids[OF v])
  then have "filter_err (is_ready g rs cross) (g_task_ids g) =
      Inr (filter (\<lambda>t. is_ready g rs cross t = Inr True) (g_task_ids g))"
    by (intro filter_err_pure) force
  also have "filter (\<lambda>t. is_ready g rs cross t = Inr True) (g_task_ids g)
      = map node_id (filter (can_start edges rs cross) tasks)"
    unfolding validated_ids[OF v] filter_map
    by (intro arg_cong[where f = "map node_id"] filter_cong) (simp_all add: validated_is_ready[OF v])
  finally show ?thesis by (simp add: ready_def)
qed

section \<open>The fixed point of the dead ends\<close>

definition skip_all :: "int set \<Rightarrow> run_state \<Rightarrow> run_state" where
  "skip_all R rs = (\<lambda>t. if t \<in> R then Some skipped_state else rs t)"

definition doomed :: "task_edge list \<Rightarrow> run_state \<Rightarrow> bool \<Rightarrow> task_node \<Rightarrow> bool" where
  "doomed edges rs ff n \<longleftrightarrow> all_edge_count edges n \<noteq> 0
     \<and> cross_pipeline_edge_count n + possible edges rs ff n < needed edges n"

lemma fold_skip: "fold (\<lambda>u k. k(u \<mapsto> skipped_state)) ts (skip_all R rs) = skip_all (set ts \<union> R) rs"
proof (induction ts arbitrary: R)
  case (Cons t ts)
  have "(skip_all R rs)(t \<mapsto> skipped_state) = skip_all (insert t R) rs"
    by (auto simp: skip_all_def)
  with Cons show ?case by (simp del: fun_upd_apply)
qed simp

lemma status_skip_all:
  "status (state_of (skip_all R rs) t) = (if t \<in> R then Some RunSkipped else status (state_of rs t))"
  by (simp add: skip_all_def state_of_def skipped_state_def)

text \<open>Settling never-run tasks as skipped only loses edges.\<close>

lemma doomed_mono:
  assumes "doomed edges (skip_all R rs) ff n" and "R \<subseteq> S"
    and "\<And>t. t \<in> S \<Longrightarrow> status (state_of rs t) = None"
  shows "doomed edges (skip_all S rs) ff n"
proof -
  have "lost edges (skip_all S rs) ff e" if "lost edges (skip_all R rs) ff e" for e
  proof (cases "depends_on_task_id e \<in> S - R")
    case True
    then have "status (state_of (skip_all R rs) (depends_on_task_id e)) = None"
      using assms(3) by (simp add: status_skip_all)
    with that show ?thesis by (simp add: lost_def Let_def status_in_def)
  next
    case False
    with assms(2) have "state_of (skip_all S rs) (depends_on_task_id e)
        = state_of (skip_all R rs) (depends_on_task_id e)"
      by (auto simp: state_of_def skip_all_def)
    with that show ?thesis by (simp add: lost_def)
  qed
  then have "possible edges (skip_all S rs) ff n \<le> possible edges (skip_all R rs) ff n"
    unfolding possible_def by (auto intro!: length_filter_mono)
  with assms(1) show ?thesis by (simp add: doomed_def)
qed

text \<open>A set of dead ends: never run, lost once the whole set is skipped, and complete.\<close>

definition dead_set ::
  "task_node list \<Rightarrow> task_edge list \<Rightarrow> run_state \<Rightarrow> bool \<Rightarrow> int set \<Rightarrow> bool" where
  "dead_set tasks edges rs ff R \<longleftrightarrow>
     R \<subseteq> node_id ` set tasks \<and> (\<forall>t \<in> R. status (state_of rs t) = None)
     \<and> (\<forall>n \<in> set tasks. node_id n \<in> R \<longrightarrow> doomed edges (skip_all R rs) ff n)"

lemma newly_pure:
  assumes v: "validated_graph tasks edges = Inr g"
  shows "newly_unsatisfiable g ff known found = Inr (map node_id (filter (\<lambda>n.
     node_id n \<notin> set found \<and> status (state_of known (node_id n)) = None \<and> doomed edges known ff n)
     tasks))"
proof -
  let ?f = "\<lambda>t. if t \<in> set found \<or> status (state_of known t) \<noteq> None then Inr False
                else is_unsatisfiable g t known ff"
  have f: "?f (node_id n) = Inr (node_id n \<notin> set found
      \<and> status (state_of known (node_id n)) = None \<and> doomed edges known ff n)" if "n \<in> set tasks" for n
    using validated_unsatisfiable[OF v that] by (auto simp: doomed_def)
  have "filter_err ?f (g_task_ids g) = Inr (filter (\<lambda>t. ?f t = Inr True) (g_task_ids g))"
    using f by (intro filter_err_pure) (force simp: validated_ids[OF v])
  also have "filter (\<lambda>t. ?f t = Inr True) (g_task_ids g) = map node_id (filter (\<lambda>n.
     node_id n \<notin> set found \<and> status (state_of known (node_id n)) = None \<and> doomed edges known ff n)
     tasks)"
    unfolding validated_ids[OF v] filter_map
    by (intro arg_cong[where f = "map node_id"] filter_cong refl) (simp only: o_def f sum.inject eq_True)
  finally show ?thesis by (simp add: newly_unsatisfiable_def)
qed

lemma dead_set_grow:
  assumes "dead_set tasks edges rs ff R" and "distinct (map node_id tasks)"
    and "\<And>n. n \<in> N \<Longrightarrow> n \<in> set tasks \<and> node_id n \<notin> R
           \<and> status (state_of (skip_all R rs) (node_id n)) = None \<and> doomed edges (skip_all R rs) ff n"
  shows "dead_set tasks edges rs ff (node_id ` N \<union> R)"
proof -
  have none: "status (state_of rs t) = None" if "t \<in> node_id ` N \<union> R" for t
    using that assms(1,3) by (fastforce simp: dead_set_def status_skip_all split: if_splits)
  have "doomed edges (skip_all R rs) ff n" if "n \<in> set tasks" "node_id n \<in> node_id ` N \<union> R" for n
    using that assms by (auto simp: dead_set_def distinct_map dest: inj_onD)
  with none show ?thesis
    using assms(1,3) by (auto simp: dead_set_def intro: doomed_mono[of edges R])
qed

lemma unsatisfiable_loop_result:
  assumes v: "validated_graph tasks edges = Inr g"
  shows "known = skip_all (set found) rs \<Longrightarrow> dead_set tasks edges rs ff (set found) \<Longrightarrow>
    \<exists>us. unsatisfiable_loop g ff known found = Inr us \<and> sorted us \<and> distinct us
       \<and> dead_set tasks edges rs ff (set us)
       \<and> (\<forall>n \<in> set tasks. node_id n \<notin> set us \<longrightarrow> status (state_of rs (node_id n)) = None \<longrightarrow>
            \<not> doomed edges (skip_all (set us) rs) ff n)"
proof (induction "length (filter (\<lambda>t. t \<notin> set found) (g_task_ids g))"
    arbitrary: known found rule: less_induct)
  case less
  let ?N = "filter (\<lambda>n. node_id n \<notin> set found \<and> status (state_of known (node_id n)) = None
                        \<and> doomed edges known ff n) tasks"
  note new = newly_pure[OF v, of ff known found]
  show ?case
  proof (cases "?N")
    case Nil
    then have "unsatisfiable_loop g ff known found = Inr (sorted_set found)"
      by (subst unsatisfiable_loop.simps) (simp add: new)
    then show ?thesis using less.prems Nil
      by (auto simp: filter_empty_conv status_skip_all split: if_splits)
  next
    case (Cons n ns)
    let ?known = "fold (\<lambda>u k. k(u \<mapsto> skipped_state)) (map node_id ?N) known"
    let ?found = "found @ map node_id ?N"
    have "unsatisfiable_loop g ff known found = unsatisfiable_loop g ff ?known ?found"
      by (subst unsatisfiable_loop.simps) (simp add: new Cons)
    moreover have "?known = skip_all (set ?found) rs"
      unfolding less.prems(1) fold_skip by (simp add: Un_commute)
    moreover have "dead_set tasks edges rs ff (set ?found)"
      using dead_set_grow[OF less.prems(2), of "set ?N"] validated_distinct[OF v]
      by (simp add: validated_ids[OF v] less.prems(1) Un_commute)
    moreover have "length (filter (\<lambda>t. t \<notin> set ?found) (g_task_ids g))
        < length (filter (\<lambda>t. t \<notin> set found) (g_task_ids g))"
    proof -
      have "n \<in> set ?N" using Cons by (metis list.set_intros(1))
      then show ?thesis
        by (intro length_filter_strict[of _ _ _ "node_id n"]) (auto simp: validated_ids[OF v])
    qed
    ultimately show ?thesis using less.hyps[of ?found ?known] by simp
  qed
qed

lemma unsatisfiable_result:
  assumes v: "validated_graph tasks edges = Inr g"
  obtains us where "unsatisfiable g rs ff = Inr us" and "sorted us" and "distinct us"
    and "dead_set tasks edges rs ff (set us)"
    and "\<And>n. n \<in> set tasks \<Longrightarrow> node_id n \<notin> set us \<Longrightarrow> status (state_of rs (node_id n)) = None
           \<Longrightarrow> \<not> doomed edges (skip_all (set us) rs) ff n"
proof -
  have "rs = skip_all (set []) rs" and "dead_set tasks edges rs ff (set [])"
    by (simp_all add: skip_all_def dead_set_def)
  from unsatisfiable_loop_result[OF v this] show ?thesis
    by (auto simp: unsatisfiable_def intro: that)
qed

section \<open>What a run does to the statuses\<close>

text \<open>
  The moves of a run that the graph is asked about: a task that can start begins an attempt (its
  gate has confirmed at most its own cross-pipeline dependencies; a failed task only while
  failures are not final), an attempt ends, and a task that never ran is recorded as skipped.
\<close>

inductive run_step ::
  "task_node list \<Rightarrow> task_edge list \<Rightarrow> bool \<Rightarrow> run_state \<Rightarrow> run_state \<Rightarrow> bool"
  for tasks edges ff where
  start: "n \<in> set tasks \<Longrightarrow> can_start edges rs cross n \<Longrightarrow>
     pred_option (\<lambda>k. k \<le> cross_pipeline_edge_count n) (cross (node_id n)) \<Longrightarrow>
     \<not> (ff \<and> status (state_of rs (node_id n)) = Some RunFailed) \<Longrightarrow>
     status s = Some RunInProgress \<Longrightarrow> run_step tasks edges ff rs (rs(node_id n \<mapsto> s))"
| finish: "status (state_of rs t) = Some RunInProgress \<Longrightarrow>
     status s \<in> Some ` set terminal_statuses \<Longrightarrow> run_step tasks edges ff rs (rs(t \<mapsto> s))"
| skip: "status (state_of rs t) = None \<Longrightarrow> run_step tasks edges ff rs (rs(t \<mapsto> skipped_state))"

inductive_cases run_stepE: "run_step tasks edges ff rs rs'"

text \<open>What a dead set keeps true of every later state.\<close>

definition keeps_dead :: "run_state \<Rightarrow> bool \<Rightarrow> int set \<Rightarrow> run_state \<Rightarrow> bool" where
  "keeps_dead rs ff R rs' \<longleftrightarrow>
     (\<forall>t \<in> R. status (state_of rs' t) \<in> {None, Some RunSkipped})
     \<and> (\<forall>t. status (state_of rs t) \<in> Some ` set settled_statuses
              \<or> (ff \<and> status (state_of rs t) = Some RunFailed) \<longrightarrow> state_of rs' t = state_of rs t)"

lemma lost_stays_lost:
  assumes "lost edges (skip_all R rs) ff e" and "keeps_dead rs ff R rs'"
  shows "\<not> edge.holds e (state_of rs' (depends_on_task_id e))"
proof (cases "depends_on_task_id e \<in> R")
  case True
  with assms have "\<not> edge.holds e (skipped_state)"
    by (simp add: lost_def Let_def state_of_def skip_all_def)
  moreover have "status (state_of rs' (depends_on_task_id e)) \<in> {None, Some RunSkipped}"
    using assms(2) True by (simp add: keeps_dead_def)
  ultimately show ?thesis by (auto simp: holds_iff skipped_state_def status_sets)
next
  case False
  then have "state_of (skip_all R rs) (depends_on_task_id e) = state_of rs (depends_on_task_id e)"
    by (simp add: state_of_def skip_all_def)
  with assms have "state_of rs' (depends_on_task_id e) = state_of rs (depends_on_task_id e)"
    by (auto simp: lost_def keeps_dead_def Let_def status_in_def split: option.splits)
  with assms(1) \<open>state_of (skip_all R rs) _ = _\<close> show ?thesis by (simp add: lost_def Let_def)
qed

lemma dead_cannot_start:
  assumes "dead_set tasks edges rs ff R" and "keeps_dead rs ff R rs'"
    and "n \<in> set tasks" and "node_id n \<in> R"
    and "pred_option (\<lambda>k. k \<le> cross_pipeline_edge_count n) (cross (node_id n))"
  shows "\<not> can_start edges rs' cross n"
proof -
  have "holding edges rs' n \<le> possible edges (skip_all R rs) ff n"
    unfolding holding_def possible_def
    using lost_stays_lost[OF _ assms(2)] by (auto intro!: length_filter_mono)
  moreover have "cross_pipeline_edge_count n + possible edges (skip_all R rs) ff n < needed edges n"
    using assms(1,3,4) by (simp add: dead_set_def doomed_def)
  ultimately show ?thesis using assms(5) by (auto simp: can_start_def split: option.splits)
qed

lemma state_of_update [simp]:
  "state_of (rs(t \<mapsto> s)) u = (if u = t then s else state_of rs u)"
  by (simp add: state_of_def)

lemma keeps_dead_step:
  assumes "dead_set tasks edges rs ff R" and "keeps_dead rs ff R rs1"
    and "run_step tasks edges ff rs1 rs2"
  shows "keeps_dead rs ff R rs2"
  using assms(3)
proof cases
  case (start n cross s)
  then have "node_id n \<notin> R" using dead_cannot_start[OF assms(1,2)] by blast
  moreover have "status (state_of rs (node_id n)) \<notin> Some ` set settled_statuses
      \<and> \<not> (ff \<and> status (state_of rs (node_id n)) = Some RunFailed)"
    using start assms(2) by (auto simp: keeps_dead_def can_start_def status_sets)
  ultimately show ?thesis using start assms(2) by (auto simp: keeps_dead_def)
next
  case (finish t s)
  then show ?thesis using assms(2) by (fastforce simp: keeps_dead_def status_sets)
next
  case (skip t)
  then show ?thesis using assms(2)
    by (fastforce simp: keeps_dead_def status_sets skipped_state_def)
qed

lemma keeps_dead_reachable:
  assumes "(run_step tasks edges ff)\<^sup>*\<^sup>* rs rs'" and "dead_set tasks edges rs ff R"
  shows "keeps_dead rs ff R rs'"
  using assms(1)
proof (induction rule: rtranclp_induct)
  case base
  then show ?case using assms(2) by (auto simp: keeps_dead_def dead_set_def)
qed (rule keeps_dead_step[OF assms(2)])

section \<open>Properties\<close>

definition with_status :: "run_status \<Rightarrow> task_run_state" where
  "with_status s = not_run\<lparr>status := Some s\<rparr>"


lemmas diamond_simps = diamond_tasks_def diamond_edges_def success_edge_def own_def holding_def
  needed_def all_edge_count_def own_edges_def state_of_def with_status_def not_run_def can_start_def
  unfinished_upstream_def holds_iff status_in_def






end
