(* ===== verification/Code_Cycles.thy ===== *)
theory Code_Cycles
  imports Prelude
begin

text \<open>
  \<open>cycles\<close> of \<^verbatim>\<open>core/graph.py\<close>: every elementary cycle of a graph of pipeline codes, once,
  written from its smallest code. \<open>found\<close> and \<open>seen\<close> are the two variables the nested function
  \<open>walk\<close> updates.
\<close>

type_synonym code = string
type_synonym cycle_state = "code list list \<times> code list list"

text \<open>\<open>graph.get(node, [])\<close> after the loop over the sorted pairs.\<close>

definition successors :: "(code \<times> code) list \<Rightarrow> code \<Rightarrow> code list" where
  "successors edges node = map snd (filter (\<lambda>e. fst e = node) (sorted_set edges))"

definition rotate_to_min :: "code list \<Rightarrow> code list" where
  "rotate_to_min cycle = (let m = min_list cycle in
     from_elem m cycle @ takeWhile (\<lambda>x. x \<noteq> m) cycle)"

definition record_cycle :: "code list \<Rightarrow> code \<Rightarrow> cycle_state \<Rightarrow> cycle_state" where
  "record_cycle path upstream st =
     (let key = rotate_to_min (from_elem upstream path)
      in if key \<in> set (snd st) then st else (fst st @ [key], key # snd st))"

function walk ::
  "(code \<times> code) list \<Rightarrow> code \<Rightarrow> code list \<Rightarrow> cycle_state \<Rightarrow> cycle_state" where
  "walk edges node path st =
     fold (\<lambda>u s. if u \<in> set path then record_cycle path u s
                 else if hd path < u then walk edges u (path @ [u]) s
                 else s) (successors edges node) st"
  by pat_completeness auto
termination
proof (relation "measure (\<lambda>(edges, _, path, _). length (filter (\<lambda>x. x \<notin> set path) (map snd edges)))")
  fix edges :: "(code \<times> code) list" and node u path s t
  assume "u \<in> set (successors edges node)" and "u \<notin> set path"
  then have "length (filter (\<lambda>x. x \<notin> set (path @ [u])) (map snd edges))
      < length (filter (\<lambda>x. x \<notin> set path) (map snd edges))"
    by (intro length_filter_strict[of _ _ _ u]) (auto simp: successors_def)
  then show "((edges, u, path @ [u], s), (edges, node, path, t))
      \<in> measure (\<lambda>(edges, _, path, _). length (filter (\<lambda>x. x \<notin> set path) (map snd edges)))"
    by simp
qed simp

declare walk.simps [simp del]

definition cycles :: "(code \<times> code) list \<Rightarrow> code list list" where
  "cycles edges =
     fst (fold (\<lambda>node. walk edges node [node]) (sorted_set (map fst edges)) ([], []))"

section \<open>Elementary cycles\<close>

definition edge_in :: "(code \<times> code) list \<Rightarrow> code \<Rightarrow> code \<Rightarrow> bool" where
  "edge_in edges d u \<longleftrightarrow> (d, u) \<in> set edges"

text \<open>A cycle visits distinct codes along edges and closes with an edge to its first code.\<close>

definition elementary :: "(code \<times> code) list \<Rightarrow> code list \<Rightarrow> bool" where
  "elementary edges c \<longleftrightarrow> c \<noteq> [] \<and> distinct c \<and> linked (edge_in edges) (c @ [hd c])"

definition canonical :: "(code \<times> code) list \<Rightarrow> code list \<Rightarrow> bool" where
  "canonical edges c \<longleftrightarrow> elementary edges c \<and> (\<forall>x \<in> set c. hd c \<le> x)"

lemma set_successors [simp]: "u \<in> set (successors edges d) \<longleftrightarrow> edge_in edges d u"
  by (force simp: successors_def edge_in_def)

lemma elementary_rotate:
  assumes "elementary edges (xs @ ys)"
  shows "elementary edges (ys @ xs)"
proof (cases "xs = [] \<or> ys = []")
  case False
  then have "xs \<noteq> []" "ys \<noteq> []" by auto
  with assms show ?thesis
    using linked_append_iff[of xs "ys @ [hd xs]" "edge_in edges"]
      linked_append_iff[of ys "[hd xs]" "edge_in edges"]
      linked_append_iff[of ys "xs @ [hd ys]" "edge_in edges"]
      linked_append_iff[of xs "[hd ys]" "edge_in edges"]
    by (auto simp: elementary_def)
qed (use assms in auto)

lemma min_list_in: "xs \<noteq> [] \<Longrightarrow> min_list xs \<in> set (xs :: code list)"
  by (simp add: min_list_Min)

lemma rotate_to_min_canonical:
  assumes "elementary edges c"
  shows "canonical edges (rotate_to_min c)"
proof -
  let ?m = "min_list c"
  from assms have ne: "c \<noteq> []" by (simp add: elementary_def)
  obtain ys zs where c: "c = ys @ ?m # zs" and ys: "?m \<notin> set ys" and el: "from_elem ?m c = ?m # zs"
    by (rule from_elem_split[OF min_list_in[OF ne]])
  have "takeWhile (\<lambda>x. x \<noteq> ?m) c = ys"
  proof -
    have "takeWhile (\<lambda>x. x \<noteq> ?m) (ys @ ?m # zs) = ys" using ys by (subst takeWhile_append2) auto
    with c show ?thesis by metis
  qed
  with el have r: "rotate_to_min c = (?m # zs) @ ys" by (simp add: rotate_to_min_def Let_def)
  moreover have "elementary edges ((?m # zs) @ ys)"
    using assms c elementary_rotate[of edges ys "?m # zs"] by simp
  moreover have "set c = set (rotate_to_min c)" using r arg_cong[OF c, of set] by auto
  moreover have "\<forall>x \<in> set c. ?m \<le> x" using ne by (simp add: min_list_Min)
  ultimately show ?thesis by (simp add: canonical_def)
qed

lemma rotate_to_min_id:
  assumes "canonical edges c"
  shows "rotate_to_min c = c"
proof -
  from assms obtain x xs where c: "c = x # xs" by (cases c) (auto simp: canonical_def elementary_def)
  with assms have "Min (set c) = x" by (intro Min_eqI) (auto simp: canonical_def)
  then have "min_list c = x" using min_list_Min[of c] c by simp
  then show ?thesis by (simp add: rotate_to_min_def from_elem_def c)
qed

section \<open>Soundness of the walk\<close>

text \<open>What the two variables always satisfy.\<close>

definition sound_state :: "(code \<times> code) list \<Rightarrow> cycle_state \<Rightarrow> bool" where
  "sound_state edges st \<longleftrightarrow> set (snd st) = set (fst st) \<and> distinct (fst st)
     \<and> (\<forall>c \<in> set (fst st). canonical edges c)"

definition walk_path :: "(code \<times> code) list \<Rightarrow> code \<Rightarrow> code list \<Rightarrow> bool" where
  "walk_path edges node path \<longleftrightarrow>
     path \<noteq> [] \<and> last path = node \<and> distinct path \<and> linked (edge_in edges) path"

lemma record_cycle_sound:
  assumes "sound_state edges st" and "walk_path edges node path"
    and "edge_in edges node u" and "u \<in> set path"
  shows "sound_state edges (record_cycle path u st)"
proof -
  obtain ys zs where path: "path = ys @ u # zs" and el: "from_elem u path = u # zs"
    using from_elem_split[OF assms(4)] by metis
  have "linked (edge_in edges) (u # zs)" 
    using assms(2) unfolding walk_path_def path by (meson linked_appendD)
  moreover have "edge_in edges (last (u # zs)) u"
    using assms(2,3) by (simp add: walk_path_def path)
  ultimately have "linked (edge_in edges) ((u # zs) @ [u])"
    by (subst linked_append_iff) auto
  then have "elementary edges (from_elem u path)"
    using assms(2) unfolding walk_path_def elementary_def el by (simp add: path)
  from rotate_to_min_canonical[OF this] assms(1) show ?thesis
    by (auto simp: record_cycle_def Let_def sound_state_def)
qed

lemma walk_path_extend:
  assumes "walk_path edges node path" and "edge_in edges node u" and "u \<notin> set path"
  shows "walk_path edges u (path @ [u])"
  using assms linked_append_iff[of path "[u]" "edge_in edges"] by (simp add: walk_path_def)

lemma walk_sound:
  "walk_path edges node path \<Longrightarrow> sound_state edges st \<Longrightarrow> sound_state edges (walk edges node path st)"
proof (induction edges node path st rule: walk.induct)
  case (1 edges node path st)
  show ?case
    unfolding walk.simps[of edges node path st]
  proof (rule fold_invariant_on)
    fix u s assume u: "u \<in> set (successors edges node)" and s: "sound_state edges s"
    then show "sound_state edges (if u \<in> set path then record_cycle path u s
        else if hd path < u then walk edges u (path @ [u]) s else s)"
      using 1 record_cycle_sound[OF s 1(2)] walk_path_extend[OF 1(2)] by auto
  qed (rule 1(3))
qed

section \<open>Completeness of the walk\<close>

definition reported :: "code list \<Rightarrow> cycle_state \<Rightarrow> bool" where
  "reported c st \<longleftrightarrow> c \<in> set (fst st)"

lemma record_cycle_keeps: "reported c s \<Longrightarrow> reported c (record_cycle path u s)"
  by (auto simp: reported_def record_cycle_def Let_def)

lemma walk_keeps: "reported c st \<Longrightarrow> reported c (walk edges node path st)"
proof (induction edges node path st rule: walk.induct)
  case (1 edges node path st)
  show ?case
    unfolding walk.simps[of edges node path st]
    by (rule fold_invariant_on) (use 1 record_cycle_keeps in auto)
qed

lemma walk_complete:
  assumes "canonical edges (path @ rest)" and "walk_path edges node path" and "sound_state edges st"
  shows "reported (path @ rest) (walk edges node path st)"
  using assms
proof (induction rest arbitrary: path node st)
  case Nil
  let ?f = "\<lambda>u s. if u \<in> set path then record_cycle path u s
                 else if hd path < u then walk edges u (path @ [u]) s else s"
  have hd: "hd path \<in> set path" and last: "edge_in edges node (hd path)"
    using Nil linked_append_iff[of path "[hd path]" "edge_in edges"]
    by (auto simp: canonical_def elementary_def walk_path_def)
  have whole: "from_elem (hd path) path = path"
    using Nil.prems(2) by (cases path) (simp_all add: from_elem_def walk_path_def)
  have "reported path (record_cycle path (hd path) s)" if "sound_state edges s" for s
    using that Nil(1) by (auto simp: record_cycle_def whole rotate_to_min_id Let_def reported_def
        sound_state_def)
  then show ?case
    unfolding walk.simps[of edges node path st] append_Nil2
  proof (intro fold_reaches[of "hd path" _ "sound_state edges" "reported _"])
    fix u s assume u: "u \<in> set (successors edges node)" and s: "sound_state edges s"
    then show "sound_state edges (?f u s)"
      using record_cycle_sound[OF s Nil(2)] walk_sound[OF walk_path_extend[OF Nil(2)]] by auto
  qed (use hd last Nil(3) record_cycle_keeps walk_keeps in auto)
next
  case (Cons r rest)
  let ?f = "\<lambda>u s. if u \<in> set path then record_cycle path u s
                 else if hd path < u then walk edges u (path @ [u]) s else s"
  have ne: "path \<noteq> []" and nd: "last path = node" using Cons.prems(2) by (auto simp: walk_path_def)
  have r: "r \<notin> set path" "hd path < r" and edge: "edge_in edges node r"
    using Cons.prems(1) ne nd linked_append_iff[of path "r # rest @ [hd path]" "edge_in edges"]
    by (auto simp: canonical_def elementary_def less_le)
  have "reported (path @ r # rest) (walk edges r (path @ [r]) s)" if "sound_state edges s" for s
    using Cons.IH[of "path @ [r]" r s] Cons.prems(1) that
      walk_path_extend[OF Cons.prems(2) edge r(1)] by simp
  then show ?case
    unfolding walk.simps[of edges node path st]
  proof (intro fold_reaches[of r _ "sound_state edges" "reported _"])
    fix u s assume u: "u \<in> set (successors edges node)" and s: "sound_state edges s"
    then show "sound_state edges (?f u s)"
      using record_cycle_sound[OF s Cons.prems(2)] walk_sound[OF walk_path_extend[OF Cons.prems(2)]]
      by auto
  qed (use r edge Cons.prems(3) record_cycle_keeps walk_keeps in auto)
qed

section \<open>Properties\<close>


end
