(* ===== verification/Store.thy ===== *)
theory Store
  imports Prelude
begin

text \<open>
  Tables of the Engine DB as lists of rows, and the one kind of write the lifecycle uses: an
  \<^verbatim>\<open>UPDATE\<close> of the row with a given key whose guard holds, refused unless exactly one row
  matched (\<^verbatim>\<open>rowcount != 1\<close> in \<open>_guard\<close>). The contract of a table whose keys are distinct is
  the locale \<open>keyed_table\<close>.
\<close>

definition compare_and_set ::
  "('r \<Rightarrow> int) \<Rightarrow> int \<Rightarrow> ('r \<Rightarrow> bool) \<Rightarrow> ('r \<Rightarrow> 'r) \<Rightarrow> 'r list \<Rightarrow> 'r list option" where
  "compare_and_set key k guard upd rows =
     (if length (filter (\<lambda>r. key r = k \<and> guard r) rows) = 1
      then Some (map (\<lambda>r. if key r = k \<and> guard r then upd r else r) rows)
      else None)"

definition row_of :: "('r \<Rightarrow> int) \<Rightarrow> int \<Rightarrow> 'r list \<Rightarrow> 'r option" where
  "row_of key k rows = find (\<lambda>r. key r = k) rows"

lemma row_of_Some:
  "row_of key k rows = Some r \<Longrightarrow> r \<in> set rows \<and> key r = k"
  by (auto simp: row_of_def find_Some_iff)

lemma row_of_None: "row_of key k rows = None \<longleftrightarrow> k \<notin> key ` set rows"
  by (auto simp: row_of_def find_None_iff)

lemma row_of_distinct:
  assumes "distinct (map key rows)" and "r \<in> set rows"
  shows "row_of key (key r) rows = Some r"
proof (cases "row_of key (key r) rows")
  case None
  with assms(2) show ?thesis by (auto simp: row_of_None)
next
  case (Some r')
  with row_of_Some[OF this] assms show ?thesis by (auto simp: distinct_map dest: inj_onD)
qed

text \<open>What a guarded write does to a table with distinct keys.\<close>

lemma compare_and_set_Some:
  assumes "distinct (map key rows)"
  shows "compare_and_set key k guard upd rows = Some rows' \<longleftrightarrow>
     (\<exists>r. row_of key k rows = Some r \<and> guard r
        \<and> rows' = map (\<lambda>x. if key x = k then upd x else x) rows)"
  (is "?l \<longleftrightarrow> ?r")
proof
  assume l: ?l
  then obtain r where r: "filter (\<lambda>r. key r = k \<and> guard r) rows = [r]"
    by (auto simp: compare_and_set_def length_Suc_conv split: if_splits)
  from arg_cong[OF r, of set] have "{x \<in> set rows. key x = k \<and> guard x} = {r}"
    by (simp only: set_filter list.set)
  then have m: "r \<in> set rows" "key r = k" "guard r" by blast+
  have only: "x = r" if "x \<in> set rows" "key x = k" for x
    using assms m that by (auto simp: distinct_map dest: inj_onD)
  have "rows' = map (\<lambda>x. if key x = k \<and> guard x then upd x else x) rows"
    using l by (auto simp: compare_and_set_def split: if_splits)
  also have "\<dots> = map (\<lambda>x. if key x = k then upd x else x) rows"
    by (rule map_cong[OF refl]) (metis only m(3))
  finally show ?r using row_of_distinct[OF assms m(1)] m by auto
next
  assume ?r
  then obtain r where r: "row_of key k rows = Some r" "guard r"
      and rows': "rows' = map (\<lambda>x. if key x = k then upd x else x) rows" by auto
  then have m: "r \<in> set rows" "key r = k" by (auto dest: row_of_Some)
  have only: "x = r" if "x \<in> set rows" "key x = k" for x
    using assms m that by (auto simp: distinct_map dest: inj_onD)
  have "filter (\<lambda>x. key x = k \<and> guard x) rows = filter (\<lambda>x. x = r) rows"
    by (rule filter_cong[OF refl]) (metis only m r(2))
  also have "\<dots> = [r]"
    using assms[unfolded distinct_map, THEN conjunct1] m(1)
  proof (induction rows)
    case (Cons x xs)
    then show ?case by (cases "x = r") (auto simp: filter_empty_conv)
  qed simp
  finally have "length (filter (\<lambda>x. key x = k \<and> guard x) rows) = 1" by simp
  moreover have "map (\<lambda>x. if key x = k \<and> guard x then upd x else x) rows = rows'"
    unfolding rows' by (rule map_cong[OF refl]) (metis only r(2))
  ultimately show ?l by (simp add: compare_and_set_def)
qed

lemma map_key_update:
  assumes "\<And>x. key (upd x) = key x"
  shows "map key (map (\<lambda>x. if key x = k then upd x else x) rows) = map key rows"
  using assms by (induction rows) auto

section \<open>Tables\<close>

text \<open>
  A table holds rows with distinct keys below the identity counter. Its clients read the row of a
  key, and rely on a write that keeps keys to keep the table.
\<close>

locale keyed_table =
  fixes key :: "'r \<Rightarrow> int" and writes :: "('r \<Rightarrow> 'r) \<Rightarrow> bool"
  assumes keeps_key: "writes upd \<Longrightarrow> key (upd r) = key r"
begin

definition table :: "int \<Rightarrow> 'r list \<Rightarrow> bool" where
  "table next rows \<longleftrightarrow> distinct (map key rows) \<and> (\<forall>r \<in> set rows. key r < next)"

lemma cas_Some:
  assumes "table next rows"
  shows "compare_and_set key k guard upd rows = Some rows' \<longleftrightarrow>
     (\<exists>r. row_of key k rows = Some r \<and> guard r
        \<and> rows' = map (\<lambda>x. if key x = k then upd x else x) rows)"
  using assms by (auto simp: table_def intro!: compare_and_set_Some)

lemma table_update:
  assumes "table next rows" and "writes upd"
  shows "table next (map (\<lambda>x. if key x = k then upd x else x) rows)"
  using assms(1) map_key_update[of key upd k rows, OF keeps_key[OF assms(2)]]
    keeps_key[OF assms(2)]
  by (auto simp: table_def simp del: map_map)

lemma table_insert:
  assumes "table next rows" and "key r = next"
  shows "table (next + 1) (rows @ [r])"
  using assms by (force simp: table_def)

lemma table_filter: "table next rows \<Longrightarrow> table next (filter p rows)"
  by (auto simp: table_def distinct_map inj_on_def)

lemma table_same: "table next rows \<Longrightarrow> r \<in> set rows \<Longrightarrow> s \<in> set rows \<Longrightarrow> key r = key s \<Longrightarrow> r = s"
  by (auto simp: table_def distinct_map dest: inj_onD)

lemma table_row: "table next rows \<Longrightarrow> r \<in> set rows \<Longrightarrow> row_of key (key r) rows = Some r"
  by (auto simp: table_def intro: row_of_distinct)

end

end
