(* ===== verification/Lifecycle.thy ===== *)
theory Lifecycle
  imports Complex_Main Store Enums
begin

text \<open>
  \<^verbatim>\<open>engine/transitions.py\<close> with the guarded statements it executes
  (\<^verbatim>\<open>dialects/engine/queries/transition_*.sql\<close>), \<^verbatim>\<open>engine/attempts.py\<close>, the admission fence
  of \<^verbatim>\<open>engine/controls.py\<close> and \<^verbatim>\<open>engine/run_creation.py\<close>. The state is the run, task-run,
  attempt, intervention, control and task-pause tables. An operation reads the clock once (\<open>now\<close>,
  microseconds), runs inside a savepoint and returns the new state, or an error that leaves the
  state as it was. Not in the state: attribution columns, log paths, host and process columns,
  reserved capacity, watermarks, uploads and metrics, which no guard here reads.
\<close>

section \<open>Rows\<close>

type_synonym instant = int

record counts =
  source_count :: "int option"
  c_target_count :: "int option"
  insert_count :: "int option"
  update_count :: "int option"
  delete_count :: "int option"
  c_rows_written :: "int option"
  reject_count :: "int option"
  duplicate_count :: "int option"

definition no_counts :: counts where
  "no_counts = \<lparr>source_count = None, c_target_count = None, insert_count = None,
     update_count = None, delete_count = None, c_rows_written = None, reject_count = None,
     duplicate_count = None\<rparr>"

text \<open>\<open>Counts.__post_init__\<close>: reported writes add up when the total was not reported.\<close>

definition post_init :: "counts \<Rightarrow> counts" where
  "post_init c =
     (let writes = [insert_count c, update_count c, delete_count c]
      in if c_rows_written c = None \<and> list_ex (\<lambda>w. w \<noteq> None) writes
         then c\<lparr>c_rows_written :=
                  Some (sum_list (map (\<lambda>w. case w of None \<Rightarrow> 0 | Some n \<Rightarrow> n) writes))\<rparr>
         else c)"

datatype sla_status = SlaMet | SlaBreached

record run_row =
  r_id :: int
  r_pipeline :: int
  r_key :: string
  r_start :: instant
  r_status :: run_status
  r_exclusive :: bool
  r_selected :: bool
  r_owner :: "string option"
  r_lease :: "instant option"
  r_end :: "instant option"
  r_repair_pending :: bool
  r_revision :: int
  r_sla :: "sla_status option"
  r_sla_breached_at :: "instant option"

record task_row =
  t_id :: int
  t_task :: int
  t_run :: int
  t_status :: run_status
  t_attempts :: int
  t_start :: "instant option"
  t_end :: "instant option"
  t_counts :: counts
  t_error :: "string option"
  t_log :: "string option"

record attempt_row =
  a_id :: int
  a_task_run :: int
  a_number :: int
  a_status :: attempt_status
  a_owner :: "string option"
  a_lease :: "instant option"
  a_not_before :: "instant option"
  a_queued_at :: "instant option"
  a_claimed_at :: "instant option"
  a_started_at :: "instant option"
  a_ended_at :: "instant option"
  a_counts :: counts
  a_error :: "string option"
  a_log :: "string option"
  a_exit_code :: "int option"
  a_retryable :: bool
  a_failure_class :: failure_class
  a_failure_source :: "string option"
  a_failure_code :: "string option"
  a_retry_on :: "retry_on option"

datatype intervention_action = Reopened | PauseAdmission | PauseApplied | OtherIntervention

text \<open>\<open>ITEM_KEY\<close> is the identity of a pause version where the action is about one.\<close>

record intervention =
  i_run :: int
  i_task :: "int option"
  i_action :: intervention_action
  i_to_status :: "run_status option"
  i_pause :: "int option"

text \<open>A version of a task's standing pause; no outcome means hold, no expiry means until resume.\<close>

record task_pause =
  p_id :: int
  p_pipeline :: int
  p_task :: int
  p_outcome :: "run_status option"
  p_expires :: "instant option"
  p_at :: instant
  p_resumed :: "instant option"

datatype control_action =
    CtlHold | CtlRelease | CtlStop | CtlAbort | CtlRecover | CtlRestart | CtlRunPaused
  | CtlPause | CtlResume

record control_request =
  k_id :: int
  k_run :: int
  k_task :: "int option"
  k_action :: control_action

record engine_db =
  db_runs :: "run_row list"
  db_tasks :: "task_row list"
  db_attempts :: "attempt_row list"
  db_interventions :: "intervention list"
  db_controls :: "control_request list"
  db_pauses :: "task_pause list"
  db_next_run :: int
  db_next_task :: int
  db_next_attempt :: int

datatype lifecycle_error =
    StaleRun int
  | StaleTask int
  | StaleAttempt int
  | StaleCreation int string
  | RunState int
  | RunRefused int int control_action
  | ForeignKey int
  | MissingRow int
  | CheckConstraint int

section \<open>Joins and guards\<close>

definition live_status :: "attempt_status \<Rightarrow> bool" where
  "live_status s \<longleftrightarrow> s \<in> {AttQueued, AttClaimed, AttRunning}"

definition held_status :: "attempt_status \<Rightarrow> bool" where
  "held_status s \<longleftrightarrow> s \<in> {AttClaimed, AttRunning}"

definition live_of :: "engine_db \<Rightarrow> int \<Rightarrow> bool" where
  "live_of db tr \<longleftrightarrow> list_ex (\<lambda>a. a_task_run a = tr \<and> live_status (a_status a)) (db_attempts db)"

text \<open>The join of attempts and task runs: some attempt of the run satisfies the predicate.\<close>

definition attempt_in_run :: "engine_db \<Rightarrow> (attempt_row \<Rightarrow> bool) \<Rightarrow> int \<Rightarrow> bool" where
  "attempt_in_run db p r \<longleftrightarrow> list_ex (\<lambda>a. p a
     \<and> list_ex (\<lambda>t. t_id t = a_task_run a \<and> t_run t = r) (db_tasks db)) (db_attempts db)"

definition held_in_run :: "engine_db \<Rightarrow> int \<Rightarrow> bool" where
  "held_in_run db r = attempt_in_run db (\<lambda>a. held_status (a_status a)) r"

definition lease_live :: "instant option \<Rightarrow> instant \<Rightarrow> bool" where
  "lease_live lease now = (case lease of None \<Rightarrow> False | Some e \<Rightarrow> e > now)"

definition lease_expired :: "instant option \<Rightarrow> instant \<Rightarrow> bool" where
  "lease_expired lease now = (case lease of None \<Rightarrow> True | Some e \<Rightarrow> e \<le> now)"

definition newer_attempt :: "engine_db \<Rightarrow> int \<Rightarrow> int \<Rightarrow> bool" where
  "newer_attempt db tr number \<longleftrightarrow>
     list_ex (\<lambda>a. a_task_run a = tr \<and> a_number a > number) (db_attempts db)"

text \<open>\<^verbatim>\<open>ORDER BY ATTEMPT_NUMBER DESC LIMIT 1\<close>.\<close>

definition latest_attempt :: "engine_db \<Rightarrow> int \<Rightarrow> int option" where
  "latest_attempt db tr = map_option a_id
     (find (\<lambda>a. a_task_run a = tr \<and> \<not> newer_attempt db tr (a_number a)) (db_attempts db))"

definition active_attempt :: "engine_db \<Rightarrow> int \<Rightarrow> attempt_row option" where
  "active_attempt db tr = find (\<lambda>a. a_task_run a = tr \<and> live_status (a_status a)) (db_attempts db)"

text \<open>The unique indexes of the schema.\<close>

definition one_active_run :: "engine_db \<Rightarrow> bool" where
  "one_active_run db \<longleftrightarrow> distinct (map r_pipeline
     (filter (\<lambda>r. r_status r = RunInProgress \<and> r_exclusive r) (db_runs db)))"

definition run_keys :: "engine_db \<Rightarrow> bool" where
  "run_keys db \<longleftrightarrow> distinct (map (\<lambda>r. (r_pipeline r, r_key r)) (db_runs db))"

definition one_task_run :: "engine_db \<Rightarrow> bool" where
  "one_task_run db \<longleftrightarrow> distinct (map (\<lambda>t. (t_task t, t_run t)) (db_tasks db))"

definition one_live_attempt :: "engine_db \<Rightarrow> bool" where
  "one_live_attempt db \<longleftrightarrow> distinct (map a_task_run
     (filter (\<lambda>a. live_status (a_status a)) (db_attempts db)))"

definition attempt_numbers :: "engine_db \<Rightarrow> bool" where
  "attempt_numbers db \<longleftrightarrow> distinct (map (\<lambda>a. (a_task_run a, a_number a)) (db_attempts db))"

section \<open>Guarded writes\<close>

definition guard_run ::
  "engine_db \<Rightarrow> int \<Rightarrow> (run_row \<Rightarrow> bool) \<Rightarrow> (run_row \<Rightarrow> run_row) \<Rightarrow> lifecycle_error + engine_db" where
  "guard_run db k g upd = (case compare_and_set r_id k g upd (db_runs db) of
     None \<Rightarrow> Inl (StaleRun k) | Some rows \<Rightarrow> Inr (db\<lparr>db_runs := rows\<rparr>))"

definition guard_task_row ::
  "engine_db \<Rightarrow> int \<Rightarrow> (task_row \<Rightarrow> bool) \<Rightarrow> (task_row \<Rightarrow> task_row) \<Rightarrow> lifecycle_error + engine_db"
where
  "guard_task_row db k g upd = (case compare_and_set t_id k g upd (db_tasks db) of
     None \<Rightarrow> Inl (StaleTask k) | Some rows \<Rightarrow> Inr (db\<lparr>db_tasks := rows\<rparr>))"

definition guard_attempt_row ::
  "engine_db \<Rightarrow> int \<Rightarrow> (attempt_row \<Rightarrow> bool) \<Rightarrow> (attempt_row \<Rightarrow> attempt_row)
     \<Rightarrow> lifecycle_error + engine_db" where
  "guard_attempt_row db k g upd = (case compare_and_set a_id k g upd (db_attempts db) of
     None \<Rightarrow> Inl (StaleAttempt k) | Some rows \<Rightarrow> Inr (db\<lparr>db_attempts := rows\<rparr>))"

section \<open>Runs\<close>

datatype trigger_kind =
    TrigSchedule | TrigManual | TrigBackfill | TrigOrchestrator | TrigStandIn | TrigPipelineTask
  | TrigRestart

text \<open>\<open>run_creation.create\<close>: the key is the caller's or a fresh one. The unique indexes refuse it.\<close>

definition new_run :: "instant \<Rightarrow> int \<Rightarrow> int \<Rightarrow> string \<Rightarrow> run_status \<Rightarrow> run_row" where
  "new_run now k pipeline key st = \<lparr>r_id = k, r_pipeline = pipeline, r_key = key, r_start = now,
     r_status = st, r_exclusive = True, r_selected = False, r_owner = None, r_lease = None,
     r_end = (if st = RunSkipped then Some now else None), r_repair_pending = False,
     r_revision = 1, r_sla = None, r_sla_breached_at = None\<rparr>"

text \<open>
  \<open>TaskPause.active\<close>, \<open>standing_pauses.current\<close> and \<open>standing_pauses.pin\<close>: the pause versions in
  effect at admission are recorded with the run.
\<close>

definition pause_active :: "task_pause \<Rightarrow> instant \<Rightarrow> bool" where
  "pause_active p now = (case p_expires p of None \<Rightarrow> True | Some e \<Rightarrow> e > now)"

definition current_pauses :: "engine_db \<Rightarrow> int \<Rightarrow> task_pause list" where
  "current_pauses db pipeline = sort_key p_task
     (filter (\<lambda>p. p_pipeline p = pipeline \<and> p_resumed p = None) (db_pauses db))"

definition admission_of :: "int \<Rightarrow> task_pause \<Rightarrow> intervention" where
  "admission_of run p = \<lparr>i_run = run, i_task = Some (p_task p), i_action = PauseAdmission,
     i_to_status = p_outcome p, i_pause = Some (p_id p)\<rparr>"

definition pin :: "instant \<Rightarrow> int \<Rightarrow> int \<Rightarrow> engine_db \<Rightarrow> engine_db" where
  "pin now pipeline run db = db\<lparr>db_interventions := db_interventions db @
     map (admission_of run) (filter (\<lambda>p. pause_active p now) (current_pauses db pipeline))\<rparr>"

definition create_run ::
  "instant \<Rightarrow> int \<Rightarrow> string \<Rightarrow> trigger_kind \<Rightarrow> run_status \<Rightarrow> engine_db
     \<Rightarrow> lifecycle_error + (int \<times> engine_db)" where
  "create_run now pipeline key trigger st db =
     (if st \<notin> {RunInProgress, RunQueued, RunSkipped}
         \<or> (st = RunSkipped \<and> trigger \<notin> {TrigSchedule, TrigBackfill})
      then Inl (RunState pipeline)
      else let db' = db\<lparr>db_runs := db_runs db @ [new_run now (db_next_run db) pipeline key st],
                        db_next_run := db_next_run db + 1\<rparr>
           in if one_active_run db' \<and> run_keys db'
              then Inr (db_next_run db,
                     if st = RunSkipped then db' else pin now pipeline (db_next_run db) db')
              else Inl (StaleCreation pipeline key))"

text \<open>\<^verbatim>\<open>manual_run_selection\<close>: pin a selection on a run that was not admitted yet.\<close>

definition select_tasks :: "int \<Rightarrow> bool \<Rightarrow> engine_db \<Rightarrow> engine_db" where
  "select_tasks k exclusive db = db\<lparr>db_runs := map (\<lambda>r.
     if r_id r = k \<and> r_status r = RunQueued \<and> \<not> r_selected r
     then r\<lparr>r_selected := True, r_exclusive := exclusive\<rparr> else r) (db_runs db)\<rparr>"

definition exclusive_sibling :: "engine_db \<Rightarrow> run_row \<Rightarrow> bool \<Rightarrow> bool" where
  "exclusive_sibling db r other_only \<longleftrightarrow> list_ex (\<lambda>other. r_pipeline other = r_pipeline r
     \<and> (other_only \<longrightarrow> r_id other \<noteq> r_id r) \<and> r_status other = RunInProgress
     \<and> r_exclusive other \<and> r_exclusive r) (db_runs db)"

definition admit_run :: "instant \<Rightarrow> int \<Rightarrow> engine_db \<Rightarrow> lifecycle_error + engine_db" where
  "admit_run now k db = guard_run db k
     (\<lambda>r. r_status r = RunQueued \<and> r_owner r = None \<and> \<not> exclusive_sibling db r False)
     (\<lambda>r. r\<lparr>r_status := RunInProgress, r_start := now\<rparr>)"

definition create_manual_run ::
  "instant \<Rightarrow> int \<Rightarrow> string \<Rightarrow> bool \<Rightarrow> engine_db \<Rightarrow> lifecycle_error + (int \<times> engine_db)" where
  "create_manual_run now pipeline key exclusive db =
     bind_err (create_run now pipeline key TrigManual RunQueued db) (\<lambda>(k, db1).
     bind_err (admit_run now k (select_tasks k exclusive db1)) (\<lambda>db2. Inr (k, db2)))"

definition start_run ::
  "int \<Rightarrow> string \<Rightarrow> instant \<Rightarrow> engine_db \<Rightarrow> lifecycle_error + engine_db" where
  "start_run k owner lease db = guard_run db k
     (\<lambda>r. r_status r = RunInProgress \<and> r_owner r = None)
     (\<lambda>r. r\<lparr>r_owner := Some owner, r_lease := Some lease\<rparr>)"

definition renew_run_lease ::
  "instant \<Rightarrow> int \<Rightarrow> string \<Rightarrow> instant \<Rightarrow> engine_db \<Rightarrow> lifecycle_error + engine_db" where
  "renew_run_lease now k owner lease db = guard_run db k
     (\<lambda>r. r_status r = RunInProgress \<and> r_owner r = Some owner \<and> lease_live (r_lease r) now)
     (\<lambda>r. r\<lparr>r_lease := Some lease\<rparr>)"

text \<open>No claimed, running or immediately dispatchable attempt remains.\<close>

definition releasable :: "engine_db \<Rightarrow> int \<Rightarrow> bool" where
  "releasable db k \<longleftrightarrow> \<not> attempt_in_run db (\<lambda>a. held_status (a_status a)
     \<or> (a_status a = AttQueued \<and> a_not_before a = None)) k"

text \<open>\<open>release_run_lease\<close> returns whether a row changed; it never raises.\<close>

definition release_run_lease ::
  "instant \<Rightarrow> int \<Rightarrow> string \<Rightarrow> bool \<Rightarrow> engine_db \<Rightarrow> bool \<times> engine_db" where
  "release_run_lease now k owner expired db =
     (case guard_run db k
        (\<lambda>r. r_owner r = Some owner
             \<and> (expired \<longrightarrow> r_status r = RunInProgress \<and> lease_expired (r_lease r) now)
             \<and> releasable db k)
        (\<lambda>r. r\<lparr>r_owner := None, r_lease := None\<rparr>) of
        Inl _ \<Rightarrow> (False, db) | Inr db' \<Rightarrow> (True, db'))"

definition sla_of :: "run_row \<Rightarrow> sla_status option \<Rightarrow> sla_status option" where
  "sla_of r sla = (case r_sla r of None \<Rightarrow> sla | Some s \<Rightarrow> Some s)"

definition end_row ::
  "instant \<Rightarrow> run_status \<Rightarrow> sla_status option \<Rightarrow> run_row \<Rightarrow> run_row" where
  "end_row now st sla r = r\<lparr>r_status := st, r_end := Some now,
     r_sla_breached_at := (if r_sla_breached_at r = None \<and> sla_of r sla = Some SlaBreached
                           then Some now else r_sla_breached_at r),
     r_sla := sla_of r sla\<rparr>"

text \<open>A task paused into \<open>SUCCESS\<close> that no attempt of its own ever completed.\<close>

definition stands_on_pause :: "engine_db \<Rightarrow> int \<Rightarrow> bool" where
  "stands_on_pause db k \<longleftrightarrow> list_ex (\<lambda>i. i_run i = k \<and> i_action i = PauseApplied
     \<and> i_to_status i = Some RunSuccess
     \<and> \<not> list_ex (\<lambda>t. t_run t = i_run i \<and> Some (t_task t) = i_task i
            \<and> list_ex (\<lambda>a. a_task_run a = t_id t \<and> a_status a = AttSuccess) (db_attempts db))
          (db_tasks db)) (db_interventions db)"

definition settle_revision :: "run_status \<Rightarrow> run_row \<Rightarrow> run_row" where
  "settle_revision st r = r\<lparr>
     r_revision := r_revision r + (if st = RunSuccess \<and> r_repair_pending r then 1 else 0),
     r_repair_pending := (if st = RunSuccess then False else r_repair_pending r)\<rparr>"

text \<open>The two statements behind \<open>finish_run\<close>: a cancellation does not ask about attempts.\<close>

definition finish_run ::
  "instant \<Rightarrow> int \<Rightarrow> run_status \<Rightarrow> string option \<Rightarrow> sla_status option \<Rightarrow> engine_db
     \<Rightarrow> lifecycle_error + engine_db" where
  "finish_run now k st owner sla db =
     (if st \<notin> set finished_run_statuses then Inl (StaleRun k)
      else if st = RunCancelled
        then guard_run db k
          (\<lambda>r. r_status r \<in> {RunQueued, RunInProgress} \<and> r_owner r = owner)
          (end_row now st sla)
      else guard_run db k
          (\<lambda>r. r_status r = RunInProgress \<and> r_owner r = owner
               \<and> (owner = None \<or> lease_live (r_lease r) now) \<and> \<not> held_in_run db k)
          (\<lambda>r. end_row now st sla
             (if st = RunSuccess \<and> stands_on_pause db k
              then r\<lparr>r_revision := 0, r_repair_pending := False\<rparr>
              else settle_revision st r)))"

definition end_run_if ::
  "instant \<Rightarrow> int \<Rightarrow> run_status \<Rightarrow> run_status \<Rightarrow> engine_db \<Rightarrow> bool \<times> engine_db" where
  "end_run_if now k from_status st db =
     (if from_status \<noteq> RunInProgress then (False, db)
      else case finish_run now k st None None db of
             Inl _ \<Rightarrow> (False, db) | Inr db' \<Rightarrow> (True, db'))"

text \<open>Reopening reads the row first, then compares against the status it read.\<close>

definition reopen_run :: "int \<Rightarrow> string option \<Rightarrow> engine_db \<Rightarrow> lifecycle_error + engine_db" where
  "reopen_run k owner db = (case row_of r_id k (db_runs db) of
     None \<Rightarrow> Inl (StaleRun k)
   | Some row \<Rightarrow>
       if r_status row \<notin> set finished_run_statuses then Inl (StaleRun k)
       else bind_err (guard_run db k
              (\<lambda>r. r_status r = r_status row \<and> r_owner r = owner \<and> \<not> exclusive_sibling db r True)
              (\<lambda>r. r\<lparr>r_status := RunInProgress, r_repair_pending := True, r_end := None,
                     r_owner := None, r_lease := None\<rparr>))
            (\<lambda>db'. Inr (db'\<lparr>db_interventions := db_interventions db' @
               [\<lparr>i_run = k, i_task = None, i_action = Reopened,
                 i_to_status = Some RunInProgress, i_pause = None\<rparr>]\<rparr>)))"

definition mark_run ::
  "instant \<Rightarrow> int \<Rightarrow> run_status \<Rightarrow> string option \<Rightarrow> engine_db \<Rightarrow> lifecycle_error + engine_db" where
  "mark_run now k st owner db =
     (if st \<notin> set markable_statuses then Inl (StaleRun k)
      else guard_run db k
        (\<lambda>r. r_status r \<in> {RunInProgress, RunSuccess, RunFailed, RunSkipped, RunCancelled}
             \<and> r_owner r = owner \<and> \<not> held_in_run db k)
        (\<lambda>r. (settle_revision st r)\<lparr>r_status := st,
               r_end := (case r_end r of None \<Rightarrow> Some now | Some e \<Rightarrow> Some e)\<rparr>))"

definition mark_sla_breached :: "instant \<Rightarrow> int \<Rightarrow> engine_db \<Rightarrow> bool \<times> engine_db" where
  "mark_sla_breached now k db =
     (case guard_run db k
        (\<lambda>r. r_status r = RunInProgress \<and> r_sla r \<noteq> Some SlaBreached)
        (\<lambda>r. r\<lparr>r_sla := Some SlaBreached, r_sla_breached_at := Some now\<rparr>) of
        Inl _ \<Rightarrow> (False, db) | Inr db' \<Rightarrow> (True, db'))"

definition cancel_pipeline_run ::
  "instant \<Rightarrow> int \<Rightarrow> engine_db \<Rightarrow> lifecycle_error + engine_db" where
  "cancel_pipeline_run now k db = (case row_of r_id k (db_runs db) of
     None \<Rightarrow> Inl (MissingRow k)
   | Some row \<Rightarrow> finish_run now k RunCancelled (r_owner row) None db)"

definition lock_active_run :: "int \<Rightarrow> engine_db \<Rightarrow> lifecycle_error + engine_db" where
  "lock_active_run k db = guard_run db k (\<lambda>r. r_status r = RunInProgress) (\<lambda>r. r)"

section \<open>Task runs\<close>

record task_run_binding =
  b_task_run :: int
  b_status :: run_status
  b_created :: bool

text \<open>\<open>refusal\<close> is what \<open>run_scopes.check_task\<close> raises for this task under this run, if anything.\<close>

definition new_task_run :: "instant \<Rightarrow> int \<Rightarrow> int \<Rightarrow> int \<Rightarrow> task_row" where
  "new_task_run now k task run = \<lparr>t_id = k, t_task = task, t_run = run, t_status = RunInProgress,
     t_attempts = 1, t_start = Some now, t_end = None, t_counts = no_counts, t_error = None,
     t_log = None\<rparr>"

definition find_or_create_task_run ::
  "instant \<Rightarrow> lifecycle_error option \<Rightarrow> int \<Rightarrow> int \<Rightarrow> engine_db
     \<Rightarrow> lifecycle_error + (task_run_binding \<times> engine_db)" where
  "find_or_create_task_run now refusal task run db =
     (case refusal of Some e \<Rightarrow> Inl e | None \<Rightarrow>
        (case find (\<lambda>t. t_task t = task \<and> t_run t = run) (db_tasks db) of
           Some t \<Rightarrow> Inr (\<lparr>b_task_run = t_id t, b_status = t_status t, b_created = False\<rparr>, db)
         | None \<Rightarrow>
             Inr (\<lparr>b_task_run = db_next_task db, b_status = RunInProgress, b_created = True\<rparr>,
                  db\<lparr>db_tasks := db_tasks db @ [new_task_run now (db_next_task db) task run],
                     db_next_task := db_next_task db + 1\<rparr>)))"

text \<open>The row of a skipped task goes only while no attempt refers to it (the foreign key).\<close>

definition delete_skipped_task_run :: "int \<Rightarrow> engine_db \<Rightarrow> lifecycle_error + engine_db" where
  "delete_skipped_task_run tr db =
     (let gone = (\<lambda>t. t_id t = tr \<and> t_status t = RunSkipped)
      in if list_ex gone (db_tasks db) \<and> list_ex (\<lambda>a. a_task_run a = tr) (db_attempts db)
         then Inl (ForeignKey tr)
         else Inr (db\<lparr>db_tasks := filter (\<lambda>t. \<not> gone t) (db_tasks db)\<rparr>))"

section \<open>Control fences\<close>

text \<open>\<open>blocked\<close>: the latest command of a scope, while it is one that fences dispatch.\<close>

definition scope_command :: "engine_db \<Rightarrow> int \<Rightarrow> int option \<Rightarrow> control_action option" where
  "scope_command db run scope = map_option k_action
     (find (\<lambda>c. k_run c = run \<and> k_task c = scope \<and> k_action c \<in> {CtlHold, CtlStop, CtlAbort}
        \<and> \<not> list_ex (\<lambda>n. k_run n = run \<and> k_id n > k_id c \<and> k_task n = scope
              \<and> k_action n \<in> {CtlHold, CtlRelease, CtlStop, CtlAbort, CtlRecover}) (db_controls db))
        (db_controls db))"

definition assert_dispatch :: "int \<Rightarrow> int \<Rightarrow> engine_db \<Rightarrow> lifecycle_error + unit" where
  "assert_dispatch run task db =
     (case (case scope_command db run None of Some c \<Rightarrow> Some c
            | None \<Rightarrow> scope_command db run (Some task)) of
        Some c \<Rightarrow> Inl (RunRefused run task c) | None \<Rightarrow> Inr ())"

definition guard_task :: "int \<Rightarrow> engine_db \<Rightarrow> lifecycle_error + unit" where
  "guard_task tr db = (case row_of t_id tr (db_tasks db) of
     None \<Rightarrow> Inr () | Some t \<Rightarrow> assert_dispatch (t_run t) (t_task t) db)"

definition guard_attempt :: "int \<Rightarrow> engine_db \<Rightarrow> lifecycle_error + unit" where
  "guard_attempt k db = (case row_of a_id k (db_attempts db) of
     None \<Rightarrow> Inr () | Some a \<Rightarrow> guard_task (a_task_run a) db)"

section \<open>Attempts\<close>

fun summary_status :: "attempt_status \<Rightarrow> run_status" where
  "summary_status AttQueued = RunInProgress"
| "summary_status AttClaimed = RunInProgress"
| "summary_status AttRunning = RunInProgress"
| "summary_status AttHandedOff = RunInProgress"
| "summary_status AttLost = RunFailed"
| "summary_status AttTimedOut = RunFailed"
| "summary_status AttSuccess = RunSuccess"
| "summary_status AttFailed = RunFailed"
| "summary_status AttCancelled = RunCancelled"

fun coalesce :: "'a option list \<Rightarrow> 'a option" where
  "coalesce [] = None"
| "coalesce (Some x # xs) = Some x"
| "coalesce (None # xs) = coalesce xs"

definition summary_of :: "attempt_row \<Rightarrow> task_row \<Rightarrow> task_row" where
  "summary_of a t = t\<lparr>t_status := summary_status (a_status a), t_attempts := a_number a,
     t_start := coalesce [a_started_at a, a_claimed_at a, a_queued_at a],
     t_end := (if a_status a = AttHandedOff then None else a_ended_at a),
     t_counts := a_counts a, t_error := a_error a, t_log := a_log a\<rparr>"

definition sync_attempt_summary :: "int \<Rightarrow> engine_db \<Rightarrow> lifecycle_error + engine_db" where
  "sync_attempt_summary k db = (case row_of a_id k (db_attempts db) of
     None \<Rightarrow> Inl (StaleAttempt k)
   | Some a \<Rightarrow>
       (case compare_and_set t_id (a_task_run a)
               (\<lambda>_. \<not> newer_attempt db (a_task_run a) (a_number a)) (summary_of a) (db_tasks db) of
          None \<Rightarrow> Inl (StaleAttempt k) | Some rows \<Rightarrow> Inr (db\<lparr>db_tasks := rows\<rparr>)))"

text \<open>\<^verbatim>\<open>reserve_attempt\<close>: admission is serialized through the task summary.\<close>

definition reserve_row :: "instant \<Rightarrow> engine_db \<Rightarrow> task_row \<Rightarrow> task_row" where
  "reserve_row now db t = t\<lparr>
     t_attempts := (if t_status t \<in> {RunSuccess, RunFailed, RunCancelled}
                       \<or> list_ex (\<lambda>a. a_task_run a = t_id t) (db_attempts db)
                    then t_attempts t + 1 else 1),
     t_status := RunInProgress, t_end := None, t_start := Some now, t_counts := no_counts,
     t_error := None, t_log := None\<rparr>"

definition run_in_progress :: "engine_db \<Rightarrow> int \<Rightarrow> bool" where
  "run_in_progress db run \<longleftrightarrow>
     list_ex (\<lambda>r. r_id r = run \<and> r_status r = RunInProgress) (db_runs db)"

definition reserve_attempt ::
  "instant \<Rightarrow> int \<Rightarrow> int option \<Rightarrow> engine_db \<Rightarrow> lifecycle_error + engine_db" where
  "reserve_attempt now tr previous db = guard_task_row db tr
     (\<lambda>t. \<not> live_of db tr \<and> run_in_progress db (t_run t)
          \<and> (previous = None \<or> latest_attempt db tr = previous))
     (reserve_row now db)"

definition new_attempt :: "instant \<Rightarrow> int \<Rightarrow> int \<Rightarrow> int \<Rightarrow> instant option \<Rightarrow> attempt_row" where
  "new_attempt now k tr number not_before = \<lparr>a_id = k, a_task_run = tr, a_number = number,
     a_status = AttQueued, a_owner = None, a_lease = None, a_not_before = not_before,
     a_queued_at = Some now, a_claimed_at = None, a_started_at = None, a_ended_at = None,
     a_counts = no_counts, a_error = None, a_log = None, a_exit_code = None,
     a_retryable = True, a_failure_class = FailUnknown, a_failure_source = None,
     a_failure_code = None, a_retry_on = Some RetryTransient\<rparr>"

definition insert_attempt ::
  "instant \<Rightarrow> int \<Rightarrow> instant option \<Rightarrow> engine_db \<Rightarrow> lifecycle_error + (int \<times> engine_db)" where
  "insert_attempt now tr not_before db = (case row_of t_id tr (db_tasks db) of
     None \<Rightarrow> Inl (MissingRow tr)
   | Some t \<Rightarrow>
       let db' = db\<lparr>db_attempts := db_attempts db @
                       [new_attempt now (db_next_attempt db) tr (t_attempts t) not_before],
                    db_next_attempt := db_next_attempt db + 1\<rparr>
       in if one_live_attempt db' \<and> attempt_numbers db' then Inr (db_next_attempt db, db')
          else Inl (StaleTask tr))"

definition queue_attempt ::
  "instant \<Rightarrow> int \<Rightarrow> instant option \<Rightarrow> int option \<Rightarrow> engine_db
     \<Rightarrow> lifecycle_error + (int \<times> engine_db)" where
  "queue_attempt now tr not_before previous db =
     bind_err (guard_task tr db) (\<lambda>_.
     bind_err (reserve_attempt now tr previous db) (\<lambda>db1.
     bind_err (insert_attempt now tr not_before db1) (\<lambda>(k, db2).
     bind_err (sync_attempt_summary k db2) (\<lambda>db3. Inr (k, db3)))))"

text \<open>
  \<open>claim_with_capacity\<close>: \<open>capacity\<close> is the verdict of the statement's sub-queries over pools,
  project and pipeline limits, which read configuration tables only and the held attempts.
\<close>

definition claim_with_capacity ::
  "(engine_db \<Rightarrow> attempt_row \<Rightarrow> bool) \<Rightarrow> instant \<Rightarrow> int \<Rightarrow> string option \<Rightarrow> instant option \<Rightarrow> bool
     \<Rightarrow> engine_db \<Rightarrow> lifecycle_error + (bool \<times> engine_db)" where
  "claim_with_capacity capacity now k owner lease wait db =
     bind_err (guard_attempt k db) (\<lambda>_.
       case guard_attempt_row db k
          (\<lambda>a. a_status a = AttQueued \<and> a_owner a = None
               \<and> (case a_not_before a of None \<Rightarrow> True | Some t \<Rightarrow> t \<le> now) \<and> capacity db a)
          (\<lambda>a. a\<lparr>a_status := AttClaimed, a_owner := owner, a_lease := lease,
                 a_claimed_at := Some now, a_error := None\<rparr>) of
         Inl e \<Rightarrow> if wait then Inr (False, db) else Inl e
       | Inr db1 \<Rightarrow> bind_err (sync_attempt_summary k db1) (\<lambda>db2. Inr (True, db2)))"

definition claim_attempt ::
  "(engine_db \<Rightarrow> attempt_row \<Rightarrow> bool) \<Rightarrow> instant \<Rightarrow> int \<Rightarrow> string \<Rightarrow> instant \<Rightarrow> engine_db
     \<Rightarrow> lifecycle_error + engine_db" where
  "claim_attempt capacity now k owner lease db =
     bind_err (claim_with_capacity capacity now k (Some owner) (Some lease) False db)
       (\<lambda>(_, db'). Inr db')"

definition start_attempt ::
  "instant \<Rightarrow> int \<Rightarrow> string \<Rightarrow> engine_db \<Rightarrow> lifecycle_error + engine_db" where
  "start_attempt now k owner db =
     bind_err (guard_attempt_row db k
       (\<lambda>a. a_status a = AttClaimed \<and> a_owner a = Some owner \<and> lease_live (a_lease a) now)
       (\<lambda>a. a\<lparr>a_status := AttRunning, a_started_at := Some now\<rparr>))
     (sync_attempt_summary k)"

definition renew_lease ::
  "instant \<Rightarrow> int \<Rightarrow> string \<Rightarrow> instant \<Rightarrow> engine_db \<Rightarrow> lifecycle_error + engine_db" where
  "renew_lease now k owner lease db = guard_attempt_row db k
     (\<lambda>a. held_status (a_status a) \<and> a_owner a = Some owner \<and> lease_live (a_lease a) now)
     (\<lambda>a. a\<lparr>a_lease := Some lease\<rparr>)"

section \<open>Endings\<close>

record failure =
  f_kind :: failure_class
  f_source :: string
  f_code :: "string option"

definition with_failure :: "retry_on option \<Rightarrow> failure \<Rightarrow> attempt_row \<Rightarrow> attempt_row" where
  "with_failure policy failure a = a\<lparr>a_failure_class := f_kind failure,
     a_failure_source := Some (f_source failure), a_failure_code := f_code failure,
     a_retryable := (case policy of None \<Rightarrow> False | Some p \<Rightarrow> permits p (f_kind failure))\<rparr>"

definition record_attempt_failure ::
  "int \<Rightarrow> failure \<Rightarrow> bool \<Rightarrow> engine_db \<Rightarrow> lifecycle_error + engine_db" where
  "record_attempt_failure k failure overwrite db = (case row_of a_id k (db_attempts db) of
     None \<Rightarrow> if overwrite then Inl (StaleAttempt k) else Inr db
   | Some row \<Rightarrow>
       (case guard_attempt_row db k
          (\<lambda>a. live_status (a_status a) \<and> (a_failure_source a = None \<or> overwrite))
          (with_failure (a_retry_on row) failure) of
          Inl e \<Rightarrow> if overwrite then Inl e else Inr db
        | Inr db' \<Rightarrow> Inr db'))"

definition record_attempt_ending ::
  "int \<Rightarrow> attempt_status \<Rightarrow> bool \<Rightarrow> engine_db \<Rightarrow> lifecycle_error + engine_db" where
  "record_attempt_ending k st retryable db =
     (if st \<notin> {AttFailed, AttTimedOut, AttLost} then Inr db
      else let failure =
             (if st = AttTimedOut
              then \<lparr>f_kind = FailTransient, f_source = ''TimeoutError'', f_code = None\<rparr>
              else if st = AttLost
              then \<lparr>f_kind = FailTransient, f_source = ''OwnershipLease'', f_code = None\<rparr>
              else \<lparr>f_kind = (if retryable then FailUnknown else FailPermanent),
                     f_source = ''TaskProcess'', f_code = None\<rparr>)
           in record_attempt_failure k failure False db)"

definition set_attempt_retry_policy ::
  "int \<Rightarrow> retry_on \<Rightarrow> bool \<Rightarrow> engine_db \<Rightarrow> lifecycle_error + engine_db" where
  "set_attempt_retry_policy k policy overwrite db =
     (case guard_attempt_row db k
        (\<lambda>a. a_status a = AttQueued \<and> (a_retry_on a = None \<or> overwrite))
        (\<lambda>a. a\<lparr>a_retry_on := Some policy\<rparr>) of
        Inl e \<Rightarrow> if overwrite then Inl e else Inr db
      | Inr db' \<Rightarrow> Inr db')"

record report =
  o_counts :: counts
  o_error :: "string option"
  o_log :: "string option"
  o_exit_code :: "int option"
  o_retryable :: bool

definition plain_report :: "string option \<Rightarrow> string option \<Rightarrow> report" where
  "plain_report error tail = \<lparr>o_counts = no_counts, o_error = error, o_log = tail,
     o_exit_code = None, o_retryable = True\<rparr>"

definition ended :: "instant \<Rightarrow> attempt_status \<Rightarrow> report \<Rightarrow> attempt_row \<Rightarrow> attempt_row" where
  "ended now st out a = a\<lparr>a_status := st, a_ended_at := Some now, a_counts := o_counts out,
     a_error := o_error out, a_log := o_log out, a_exit_code := o_exit_code out\<rparr>"

text \<open>\<open>_end_attempt\<close>: failure evidence, the guarded ending and the summary, in one savepoint.\<close>

definition end_attempt ::
  "instant \<Rightarrow> int \<Rightarrow> (attempt_row \<Rightarrow> bool) \<Rightarrow> attempt_status \<Rightarrow> report \<Rightarrow> engine_db
     \<Rightarrow> lifecycle_error + engine_db" where
  "end_attempt now k guard st out db =
     bind_err (record_attempt_ending k st (o_retryable out) db) (\<lambda>db1.
     bind_err (guard_attempt_row db1 k guard (ended now st out))
     (sync_attempt_summary k))"

definition finish_attempt ::
  "instant \<Rightarrow> int \<Rightarrow> attempt_status \<Rightarrow> string \<Rightarrow> report \<Rightarrow> engine_db \<Rightarrow> lifecycle_error + engine_db"
where
  "finish_attempt now k st owner out db =
     (if st \<notin> {AttSuccess, AttFailed, AttHandedOff, AttTimedOut, AttCancelled}
      then Inl (StaleAttempt k)
      else end_attempt now k (\<lambda>a. held_status (a_status a) \<and> a_owner a = Some owner
                                  \<and> lease_live (a_lease a) now) st out db)"

definition time_out_attempt ::
  "instant \<Rightarrow> int \<Rightarrow> string \<Rightarrow> string \<Rightarrow> string option \<Rightarrow> engine_db \<Rightarrow> lifecycle_error + engine_db"
where
  "time_out_attempt now k owner error tail db =
     end_attempt now k (\<lambda>a. a_status a = AttRunning \<and> a_owner a = Some owner
                            \<and> lease_live (a_lease a) now)
       AttTimedOut (plain_report (Some error) tail) db"

definition cancel_attempt ::
  "instant \<Rightarrow> int \<Rightarrow> string \<Rightarrow> string option \<Rightarrow> engine_db \<Rightarrow> lifecycle_error + engine_db" where
  "cancel_attempt now k error tail db =
     end_attempt now k (\<lambda>a. live_status (a_status a)) AttCancelled
       (plain_report (Some error) tail) db"

definition lose_attempt ::
  "instant \<Rightarrow> int \<Rightarrow> string option \<Rightarrow> string option \<Rightarrow> engine_db \<Rightarrow> lifecycle_error + engine_db"
where
  "lose_attempt now k owner error db =
     end_attempt now k (\<lambda>a. held_status (a_status a) \<and> lease_expired (a_lease a) now
                            \<and> a_owner a = owner)
       AttLost (plain_report error None) db"

definition assert_attempt ::
  "int \<Rightarrow> int \<Rightarrow> string option \<Rightarrow> engine_db \<Rightarrow> lifecycle_error + attempt_row" where
  "assert_attempt k tr owner db = (case row_of a_id k (db_attempts db) of
     None \<Rightarrow> Inl (StaleAttempt k)
   | Some row \<Rightarrow>
       if a_task_run row \<noteq> tr \<or> a_owner row \<noteq> owner \<or> latest_attempt db tr \<noteq> Some k
       then Inl (StaleAttempt k) else Inr row)"

text \<open>
  \<open>finish_task_run\<close>: an attempt's outcome goes through its attempt, where only the statuses that
  \<open>finish_attempt\<close> accepts pass; a summary without attempts is written directly, and silently
  left alone while an attempt is live. The status is a text: an attempt status on the first
  path, a run status on the second (any other text violates the column's check).
\<close>

definition finish_task_run ::
  "instant \<Rightarrow> int \<Rightarrow> string \<Rightarrow> report \<Rightarrow> int option \<Rightarrow> string option \<Rightarrow> engine_db
     \<Rightarrow> lifecycle_error + engine_db" where
  "finish_task_run now tr text out attempt owner db =
     (case attempt of
        Some k \<Rightarrow> bind_err (assert_attempt k tr owner db) (\<lambda>_.
          case (owner, find (\<lambda>s. attempt_status_value s = text) attempt_statuses) of
            (Some o', Some ast) \<Rightarrow> finish_attempt now k ast o' out db
          | _ \<Rightarrow> Inl (StaleAttempt k))
      | None \<Rightarrow> (case find (\<lambda>s. run_status_value s = text) run_statuses of
          None \<Rightarrow> Inl (CheckConstraint tr)
        | Some st \<Rightarrow> Inr (db\<lparr>db_tasks := map (\<lambda>t.
            if t_id t = tr \<and> t_status t \<noteq> RunCancelled \<and> \<not> live_of db tr
            then t\<lparr>t_status := st, t_end := Some now, t_counts := o_counts out,
                   t_error := o_error out, t_log := o_log out\<rparr>
            else t) (db_tasks db)\<rparr>)))"

text \<open>An operator's mark cancels a live attempt first.\<close>

definition mark_task_run ::
  "instant \<Rightarrow> int \<Rightarrow> run_status \<Rightarrow> string \<Rightarrow> int option \<Rightarrow> engine_db
     \<Rightarrow> lifecycle_error + engine_db" where
  "mark_task_run now tr st error rows db =
     bind_err (case active_attempt db tr of
         None \<Rightarrow> Inr db | Some a \<Rightarrow> cancel_attempt now (a_id a) error None db) (\<lambda>db1.
       guard_task_row db1 tr (\<lambda>_. \<not> live_of db1 tr)
         (\<lambda>t. t\<lparr>t_status := st, t_end := Some now, t_error := Some error,
                t_counts := (if st = RunSuccess
                  then (t_counts t)\<lparr>c_target_count := rows, c_rows_written := rows\<rparr>
                  else t_counts t)\<rparr>))"

text \<open>\<^verbatim>\<open>standing_pause_summary\<close>: a task that never attempted shows no attempt.\<close>

definition pause_summary :: "int \<Rightarrow> int option \<Rightarrow> engine_db \<Rightarrow> engine_db" where
  "pause_summary tr count db = db\<lparr>db_tasks := map (\<lambda>t.
     if t_id t = tr \<and> \<not> list_ex (\<lambda>a. a_task_run a = tr) (db_attempts db)
     then t\<lparr>t_attempts := 0, t_counts := (t_counts t)\<lparr>c_target_count := count, c_rows_written := count\<rparr>\<rparr>
     else t) (db_tasks db)\<rparr>"

definition set_task_log ::
  "instant \<Rightarrow> int \<Rightarrow> int \<Rightarrow> string \<Rightarrow> string option \<Rightarrow> engine_db \<Rightarrow> lifecycle_error + engine_db" where
  "set_task_log now tr k owner tail db =
     (case compare_and_set t_id tr (\<lambda>t.
          list_ex (\<lambda>a. a_id a = k \<and> a_task_run a = tr \<and> a_status a \<noteq> AttLost
            \<and> (\<not> live_status (a_status a) \<or> lease_live (a_lease a) now)
            \<and> a_owner a = Some owner \<and> a_number a = t_attempts t
            \<and> t_status t = summary_status (a_status a)) (db_attempts db)
          \<and> \<not> newer_attempt db tr (t_attempts t))
        (\<lambda>t. t\<lparr>t_log := tail\<rparr>) (db_tasks db) of
        None \<Rightarrow> Inl (StaleAttempt k) | Some rows \<Rightarrow> Inr (db\<lparr>db_tasks := rows\<rparr>))"

section \<open>Ending a pipeline run\<close>

text \<open>\<open>runlog.elapsed_hours\<close> over microseconds.\<close>

definition elapsed_hours :: "instant \<Rightarrow> instant \<Rightarrow> rat" where
  "elapsed_hours start now = of_int (now - start) / 3600000000"

record sla_result =
  sr_status :: sla_status
  sr_hours :: rat
  sr_elapsed :: rat

text \<open>
  \<open>finalize_pipeline_run\<close>: the verdict is taken from the clock, a run that is no longer this
  caller's to end is reported as not ended, and a verdict recorded earlier wins.
\<close>

definition finalize_pipeline_run ::
  "instant \<Rightarrow> int \<Rightarrow> run_status \<Rightarrow> rat option \<Rightarrow> string option \<Rightarrow> engine_db
     \<Rightarrow> lifecycle_error + ((bool \<times> sla_result option) \<times> engine_db)" where
  "finalize_pipeline_run now k st sla_in_hours owner db =
     (case row_of r_id k (db_runs db) of None \<Rightarrow>
        (if sla_in_hours = None then Inr ((False, None), db) else Inl (MissingRow k))
      | Some row \<Rightarrow>
     let hours = elapsed_hours (r_start row) now;
         sla = map_option (\<lambda>limit. \<lparr>sr_status = (if hours > limit then SlaBreached else SlaMet),
                                    sr_hours = limit, sr_elapsed = hours\<rparr>) sla_in_hours;
         ending = finish_run now k st owner (map_option sr_status sla) db;
         db' = (case ending of Inl _ \<Rightarrow> db | Inr d \<Rightarrow> d);
         recorded = (case row_of r_id k (db_runs db') of None \<Rightarrow> None | Some r \<Rightarrow> r_sla r);
         sla' = map_option (\<lambda>s. case recorded of None \<Rightarrow> s | Some v \<Rightarrow> s\<lparr>sr_status := v\<rparr>) sla
     in Inr ((\<not> is_err ending, sla'), db'))"

text \<open>\<open>create_active_run\<close>: the loser of a concurrent start gets \<open>None\<close>.\<close>

definition create_active_run ::
  "instant \<Rightarrow> int \<Rightarrow> string \<Rightarrow> bool \<Rightarrow> trigger_kind option \<Rightarrow> engine_db
     \<Rightarrow> lifecycle_error + (int option \<times> engine_db)" where
  "create_active_run now pipeline key backfill trigger db =
     (let kind = (case trigger of Some t \<Rightarrow> t
                  | None \<Rightarrow> if backfill then TrigBackfill else TrigManual)
      in if backfill \<and> kind \<noteq> TrigBackfill then Inl (RunState pipeline)
         else case create_run now pipeline key kind RunInProgress db of
                Inr (k, db') \<Rightarrow> Inr (Some k, db')
              | Inl (StaleCreation _ _) \<Rightarrow> Inr (None, db)
              | Inl e \<Rightarrow> Inl e)"

text \<open>\<open>resolve_run\<close>, given the row that \<open>runlog.select_run\<close> chose.\<close>

definition resolve_run ::
  "run_row \<Rightarrow> bool \<Rightarrow> bool \<Rightarrow> engine_db
     \<Rightarrow> lifecycle_error + ((int \<times> run_status option) \<times> engine_db)" where
  "resolve_run selected force rerun db =
     (if r_status selected = RunInProgress then Inr ((r_id selected, None), db)
      else if \<not> rerun \<and> (\<not> force \<or> r_status selected = RunCancelled)
        then Inl (RunState (r_pipeline selected))
      else bind_err (reopen_run (r_id selected) None db)
             (\<lambda>db'. Inr ((r_id selected, Some (r_status selected)), db')))"

end
