(* ===== verification/Lifecycle_Inv.thy ===== *)
theory Lifecycle_Inv
  imports Lifecycle
begin

text \<open>
  The invariant of the lifecycle tables and why the guards keep it. The unique indexes of the
  schema are part of the invariant although most operations never consult them: their guards
  already exclude a violation.
\<close>

section \<open>The three tables\<close>

definition run_write :: "(run_row \<Rightarrow> run_row) \<Rightarrow> bool" where
  "run_write upd \<longleftrightarrow> (\<forall>r. r_id (upd r) = r_id r \<and> r_pipeline (upd r) = r_pipeline r
     \<and> r_key (upd r) = r_key r)"

definition task_write :: "(task_row \<Rightarrow> task_row) \<Rightarrow> bool" where
  "task_write upd \<longleftrightarrow> (\<forall>t. t_id (upd t) = t_id t \<and> t_task (upd t) = t_task t \<and> t_run (upd t) = t_run t)"

definition attempt_write :: "(attempt_row \<Rightarrow> attempt_row) \<Rightarrow> bool" where
  "attempt_write upd \<longleftrightarrow> (\<forall>a. a_id (upd a) = a_id a \<and> a_task_run (upd a) = a_task_run a
     \<and> a_number (upd a) = a_number a)"

interpretation runs: keyed_table r_id run_write
  by unfold_locales (simp add: run_write_def)

interpretation tasks: keyed_table t_id task_write
  by unfold_locales (simp add: task_write_def)

interpretation attempts: keyed_table a_id attempt_write
  by unfold_locales (simp add: attempt_write_def)

section \<open>The invariant\<close>

definition active_run :: "run_row \<Rightarrow> bool" where
  "active_run r \<longleftrightarrow> r_status r = RunInProgress \<and> r_exclusive r"

definition run_inv :: "engine_db \<Rightarrow> bool" where
  "run_inv db \<longleftrightarrow> runs.table (db_next_run db) (db_runs db)
     \<and> (\<forall>r \<in> set (db_runs db). \<forall>s \<in> set (db_runs db).
          active_run r \<and> active_run s \<and> r_pipeline r = r_pipeline s \<longrightarrow> r_id r = r_id s)
     \<and> (\<forall>r \<in> set (db_runs db). \<forall>s \<in> set (db_runs db).
          r_pipeline r = r_pipeline s \<and> r_key r = r_key s \<longrightarrow> r_id r = r_id s)"

definition live :: "attempt_row \<Rightarrow> bool" where
  "live a \<longleftrightarrow> live_status (a_status a)"

text \<open>Numbers stay within the summary's count; a live attempt is the one the summary shows.\<close>

definition attempt_fits :: "task_row \<Rightarrow> attempt_row \<Rightarrow> bool" where
  "attempt_fits t a \<longleftrightarrow> a_number a \<le> t_attempts t
     \<and> (live a \<longrightarrow> t_status t = RunInProgress \<and> a_number a = t_attempts t)"

definition work_inv :: "engine_db \<Rightarrow> bool" where
  "work_inv db \<longleftrightarrow> tasks.table (db_next_task db) (db_tasks db)
     \<and> attempts.table (db_next_attempt db) (db_attempts db)
     \<and> (\<forall>s \<in> set (db_tasks db). \<forall>t \<in> set (db_tasks db).
          t_task s = t_task t \<and> t_run s = t_run t \<longrightarrow> t_id s = t_id t)
     \<and> (\<forall>a \<in> set (db_attempts db). \<exists>t \<in> set (db_tasks db). t_id t = a_task_run a \<and> attempt_fits t a)
     \<and> (\<forall>a \<in> set (db_attempts db). \<forall>b \<in> set (db_attempts db).
          a_task_run a = a_task_run b \<and> a_number a = a_number b \<longrightarrow> a_id a = a_id b)"

definition lifecycle_inv :: "engine_db \<Rightarrow> bool" where
  "lifecycle_inv db \<longleftrightarrow> run_inv db \<and> work_inv db"

text \<open>The invariant contains the unique indexes.\<close>

lemma run_invD:
  assumes "run_inv db"
  shows run_inv_table: "runs.table (db_next_run db) (db_runs db)"
    and run_inv_active: "r \<in> set (db_runs db) \<Longrightarrow> s \<in> set (db_runs db) \<Longrightarrow> active_run r \<Longrightarrow>
          active_run s \<Longrightarrow> r_pipeline r = r_pipeline s \<Longrightarrow> r_id r = r_id s"
    and run_inv_key: "r \<in> set (db_runs db) \<Longrightarrow> s \<in> set (db_runs db) \<Longrightarrow>
          r_pipeline r = r_pipeline s \<Longrightarrow> r_key r = r_key s \<Longrightarrow> r_id r = r_id s"
  using assms unfolding run_inv_def by blast+

lemma work_invD:
  assumes "work_inv db"
  shows work_inv_tasks: "tasks.table (db_next_task db) (db_tasks db)"
    and work_inv_attempts: "attempts.table (db_next_attempt db) (db_attempts db)"
    and work_inv_binding: "s \<in> set (db_tasks db) \<Longrightarrow> t \<in> set (db_tasks db) \<Longrightarrow>
          t_task s = t_task t \<Longrightarrow> t_run s = t_run t \<Longrightarrow> t_id s = t_id t"
    and work_inv_fits: "a \<in> set (db_attempts db) \<Longrightarrow>
          \<exists>t \<in> set (db_tasks db). t_id t = a_task_run a \<and> attempt_fits t a"
    and work_inv_number: "a \<in> set (db_attempts db) \<Longrightarrow> b \<in> set (db_attempts db) \<Longrightarrow>
          a_task_run a = a_task_run b \<Longrightarrow> a_number a = a_number b \<Longrightarrow> a_id a = a_id b"
  using assms unfolding work_inv_def by blast+

lemma run_invI:
  assumes "runs.table (db_next_run db) (db_runs db)"
    and "\<And>r s. r \<in> set (db_runs db) \<Longrightarrow> s \<in> set (db_runs db) \<Longrightarrow> active_run r \<Longrightarrow>
          active_run s \<Longrightarrow> r_pipeline r = r_pipeline s \<Longrightarrow> r_id r = r_id s"
    and "\<And>r s. r \<in> set (db_runs db) \<Longrightarrow> s \<in> set (db_runs db) \<Longrightarrow>
          r_pipeline r = r_pipeline s \<Longrightarrow> r_key r = r_key s \<Longrightarrow> r_id r = r_id s"
  shows "run_inv db"
  using assms unfolding run_inv_def by blast

lemma work_invI:
  assumes "tasks.table (db_next_task db) (db_tasks db)"
    and "attempts.table (db_next_attempt db) (db_attempts db)"
    and "\<And>s t. s \<in> set (db_tasks db) \<Longrightarrow> t \<in> set (db_tasks db) \<Longrightarrow>
          t_task s = t_task t \<Longrightarrow> t_run s = t_run t \<Longrightarrow> t_id s = t_id t"
    and "\<And>a. a \<in> set (db_attempts db) \<Longrightarrow>
          \<exists>t \<in> set (db_tasks db). t_id t = a_task_run a \<and> attempt_fits t a"
    and "\<And>a b. a \<in> set (db_attempts db) \<Longrightarrow> b \<in> set (db_attempts db) \<Longrightarrow>
          a_task_run a = a_task_run b \<Longrightarrow> a_number a = a_number b \<Longrightarrow> a_id a = a_id b"
  shows "work_inv db"
  using assms unfolding work_inv_def by blast

lemma distinct_map_filter:
  assumes "distinct (map key xs)"
  shows "distinct (map f (filter p xs)) \<longleftrightarrow>
     (\<forall>x \<in> set xs. \<forall>y \<in> set xs. p x \<and> p y \<and> f x = f y \<longrightarrow> key x = key y)"
proof -
  from assms have inj: "inj_on key (set xs)" and d: "distinct (filter p xs)"
    by (simp_all add: distinct_map)
  have "distinct (map f (filter p xs)) \<longleftrightarrow> inj_on f {x \<in> set xs. p x}"
    using d by (simp add: distinct_map)
  also have "\<dots> \<longleftrightarrow> (\<forall>x \<in> set xs. \<forall>y \<in> set xs. p x \<and> p y \<and> f x = f y \<longrightarrow> key x = key y)"
    unfolding inj_on_def using inj_onD[OF inj] by blast
  finally show ?thesis .
qed

lemma distinct_map_all:
  assumes "distinct (map key xs)"
  shows "distinct (map f xs) \<longleftrightarrow> (\<forall>x \<in> set xs. \<forall>y \<in> set xs. f x = f y \<longrightarrow> key x = key y)"
  using distinct_map_filter[OF assms, of f "\<lambda>_. True"] by simp

lemma task_of_attempt:
  assumes "work_inv db" and "a \<in> set (db_attempts db)" and "t \<in> set (db_tasks db)"
    and "t_id t = a_task_run a"
  shows "attempt_fits t a"
proof -
  obtain s where s: "s \<in> set (db_tasks db)" "t_id s = a_task_run a" "attempt_fits s a"
    using work_inv_fits[OF assms(1,2)] by blast
  then have "s = t"
    using tasks.table_same[OF work_inv_tasks[OF assms(1)] s(1) assms(3)] assms(4) by simp
  with s show ?thesis by simp
qed

lemma live_attempt_unique:
  assumes "work_inv db" and "a \<in> set (db_attempts db)" and "b \<in> set (db_attempts db)"
    and "live a" and "live b" and "a_task_run a = a_task_run b"
  shows "a_id a = a_id b"
proof -
  obtain t where t: "t \<in> set (db_tasks db)" "t_id t = a_task_run a" "attempt_fits t a"
    using work_inv_fits[OF assms(1,2)] by blast
  have "attempt_fits t b" by (rule task_of_attempt[OF assms(1,3) t(1)]) (simp add: t(2) assms(6))
  with t(3) assms(4,5) have "a_number a = a_number b" by (simp add: attempt_fits_def)
  then show ?thesis by (rule work_inv_number[OF assms(1-3,6)])
qed

lemma lifecycle_inv_indexes:
  assumes "lifecycle_inv db"
  shows "one_active_run db" and "run_keys db" and "one_task_run db" and "one_live_attempt db"
    and "attempt_numbers db"
proof -
  from assms have ri: "run_inv db" and wi: "work_inv db" by (simp_all add: lifecycle_inv_def)
  have r: "distinct (map r_id (db_runs db))" and t: "distinct (map t_id (db_tasks db))"
    and a: "distinct (map a_id (db_attempts db))"
    using run_inv_table[OF ri] work_inv_tasks[OF wi] work_inv_attempts[OF wi]
    by (simp_all add: runs.table_def tasks.table_def attempts.table_def)
  show "one_active_run db"
    unfolding one_active_run_def distinct_map_filter[OF r] active_run_def[symmetric]
    using run_inv_active[OF ri] by blast
  show "run_keys db"
    unfolding run_keys_def distinct_map_all[OF r] prod.inject using run_inv_key[OF ri] by blast
  show "one_task_run db"
    unfolding one_task_run_def distinct_map_all[OF t] prod.inject
    using work_inv_binding[OF wi] by blast
  show "attempt_numbers db"
    unfolding attempt_numbers_def distinct_map_all[OF a] prod.inject
    using work_inv_number[OF wi] by blast
  show "one_live_attempt db"
    unfolding one_live_attempt_def distinct_map_filter[OF a] live_def[symmetric]
    using live_attempt_unique[OF wi] by blast
qed

section \<open>Guarded writes on the tables\<close>

lemma guard_run_Inr:
  assumes "run_inv db"
  shows "guard_run db k g upd = Inr db' \<longleftrightarrow> (\<exists>r. row_of r_id k (db_runs db) = Some r \<and> g r
     \<and> db' = db\<lparr>db_runs := map (\<lambda>x. if r_id x = k then upd x else x) (db_runs db)\<rparr>)"
proof -
  have "guard_run db k g upd = Inr db' \<longleftrightarrow>
      (\<exists>rows. compare_and_set r_id k g upd (db_runs db) = Some rows \<and> db' = db\<lparr>db_runs := rows\<rparr>)"
    by (auto simp: guard_run_def split: option.splits)
  then show ?thesis
    unfolding runs.cas_Some[OF run_inv_table[OF assms], of k g upd] by blast
qed

lemma guard_task_Inr:
  assumes "work_inv db"
  shows "guard_task_row db k g upd = Inr db' \<longleftrightarrow> (\<exists>t. row_of t_id k (db_tasks db) = Some t \<and> g t
     \<and> db' = db\<lparr>db_tasks := map (\<lambda>x. if t_id x = k then upd x else x) (db_tasks db)\<rparr>)"
proof -
  have "guard_task_row db k g upd = Inr db' \<longleftrightarrow>
      (\<exists>rows. compare_and_set t_id k g upd (db_tasks db) = Some rows \<and> db' = db\<lparr>db_tasks := rows\<rparr>)"
    by (auto simp: guard_task_row_def split: option.splits)
  then show ?thesis
    unfolding tasks.cas_Some[OF work_inv_tasks[OF assms], of k g upd] by blast
qed

lemma guard_attempt_Inr:
  assumes "work_inv db"
  shows "guard_attempt_row db k g upd = Inr db' \<longleftrightarrow>
     (\<exists>a. row_of a_id k (db_attempts db) = Some a \<and> g a
     \<and> db' = db\<lparr>db_attempts := map (\<lambda>x. if a_id x = k then upd x else x) (db_attempts db)\<rparr>)"
proof -
  have "guard_attempt_row db k g upd = Inr db' \<longleftrightarrow>
      (\<exists>rows. compare_and_set a_id k g upd (db_attempts db) = Some rows \<and> db' = db\<lparr>db_attempts := rows\<rparr>)"
    by (auto simp: guard_attempt_row_def split: option.splits)
  then show ?thesis
    unfolding attempts.cas_Some[OF work_inv_attempts[OF assms], of k g upd] by blast
qed

text \<open>A write to one run keeps the invariant unless it makes a second run of its pipeline active.\<close>

lemma run_inv_write:
  assumes inv: "run_inv db" and w: "run_write upd"
    and row: "row_of r_id k (db_runs db) = Some r"
    and act: "\<And>s. active_run (upd r) \<Longrightarrow> \<not> active_run r \<Longrightarrow> s \<in> set (db_runs db) \<Longrightarrow> r_id s \<noteq> k \<Longrightarrow>
       r_pipeline s = r_pipeline r \<Longrightarrow> \<not> active_run s"
  shows "run_inv (db\<lparr>db_runs := map (\<lambda>x. if r_id x = k then upd x else x) (db_runs db)\<rparr>)"
proof -
  let ?u = "\<lambda>x. if r_id x = k then upd x else x"
  let ?rows = "map ?u (db_runs db)"
  from row have r: "r \<in> set (db_runs db)" "r_id r = k" by (auto dest: row_of_Some)
  have only: "x = r" if "x \<in> set (db_runs db)" "r_id x = k" for x
    using runs.table_same[OF run_inv_table[OF inv] that(1) r(1)] that(2) r(2) by simp
  have keep: "r_id (?u x) = r_id x" "r_pipeline (?u x) = r_pipeline x" "r_key (?u x) = r_key x" for x
    using w by (simp_all add: run_write_def)
  have one: "r_id x = r_id y" if x: "x \<in> set (db_runs db)" and y: "y \<in> set (db_runs db)"
    and both: "active_run (?u x)" "active_run (?u y)" "r_pipeline x = r_pipeline y"
    and ne: "r_id y \<noteq> k" for x y
  proof (cases "r_id x = k")
    case True
    with only x have "x = r" by blast
    with both r ne have "active_run (upd r)" "active_run y" by simp_all
    with act[OF _ _ y ne] both(3) \<open>x = r\<close> have "active_run r" by auto
    with run_inv_active[OF inv r(1) y] \<open>active_run y\<close> both(3) \<open>x = r\<close> show ?thesis by simp
  next
    case False
    with both ne show ?thesis using run_inv_active[OF inv x y] by simp
  qed
  have "r_id x = r_id y" if "x \<in> set (db_runs db)" "y \<in> set (db_runs db)"
    "active_run (?u x)" "active_run (?u y)" "r_pipeline x = r_pipeline y" for x y
    using one[OF that] one[OF that(2,1,4,3) that(5)[symmetric]] by (cases "r_id y = k") auto
  note active = this
  show ?thesis
  proof (rule run_invI)
    fix x y assume "x \<in> set (db_runs (db\<lparr>db_runs := ?rows\<rparr>))" "y \<in> set (db_runs (db\<lparr>db_runs := ?rows\<rparr>))"
    then obtain x' y' where x: "x' \<in> set (db_runs db)" "x = ?u x'" and y: "y' \<in> set (db_runs db)" "y = ?u y'"
      by auto
    show "r_id x = r_id y" if "active_run x" "active_run y" "r_pipeline x = r_pipeline y"
      using active[OF x(1) y(1)] that keep[of x'] keep[of y'] unfolding x(2) y(2) by metis
    show "r_id x = r_id y" if "r_pipeline x = r_pipeline y" "r_key x = r_key y"
      using run_inv_key[OF inv x(1) y(1)] that keep[of x'] keep[of y'] unfolding x(2) y(2) by metis
  qed (use runs.table_update[OF run_inv_table[OF inv] w] in simp)
qed

text \<open>A write to a summary must keep its attempts fitting; one to an attempt must not revive it.\<close>

lemma work_inv_task_write:
  assumes inv: "work_inv db" and w: "task_write upd"
    and row: "row_of t_id k (db_tasks db) = Some t"
    and fits: "\<And>a. a \<in> set (db_attempts db) \<Longrightarrow> a_task_run a = k \<Longrightarrow> attempt_fits t a
                \<Longrightarrow> attempt_fits (upd t) a"
  shows "work_inv (db\<lparr>db_tasks := map (\<lambda>x. if t_id x = k then upd x else x) (db_tasks db)\<rparr>)"
proof -
  let ?u = "\<lambda>x. if t_id x = k then upd x else x"
  from row have t: "t \<in> set (db_tasks db)" "t_id t = k" by (auto dest: row_of_Some)
  have keep: "t_id (?u x) = t_id x" "t_task (?u x) = t_task x" "t_run (?u x) = t_run x" for x
    using w by (simp_all add: task_write_def)
  have "\<exists>s \<in> set (map ?u (db_tasks db)). t_id s = a_task_run a \<and> attempt_fits s a"
    if a: "a \<in> set (db_attempts db)" for a
  proof -
    obtain s where s: "s \<in> set (db_tasks db)" "t_id s = a_task_run a" "attempt_fits s a"
      using work_inv_fits[OF inv a] by blast
    have "attempt_fits (?u s) a"
    proof (cases "t_id s = k")
      case True
      then have "s = t" using tasks.table_same[OF work_inv_tasks[OF inv] s(1) t(1)] t(2) by simp
      with fits[OF a] s True show ?thesis by simp
    qed (simp add: s(3))
    with s(1,2) keep(1)[of s] show ?thesis by (intro bexI[of _ "?u s"]) auto
  qed
  note fits' = this
  show ?thesis
  proof (rule work_invI)
    fix x y assume "x \<in> set (db_tasks (db\<lparr>db_tasks := map ?u (db_tasks db)\<rparr>))"
      and "y \<in> set (db_tasks (db\<lparr>db_tasks := map ?u (db_tasks db)\<rparr>))"
      and same: "t_task x = t_task y" "t_run x = t_run y"
    then obtain x' y' where x: "x' \<in> set (db_tasks db)" "x = ?u x'" and y: "y' \<in> set (db_tasks db)" "y = ?u y'"
      by auto
    show "t_id x = t_id y"
      using work_inv_binding[OF inv x(1) y(1)] same keep[of x'] keep[of y'] unfolding x(2) y(2)
      by metis
  next
    fix a assume "a \<in> set (db_attempts (db\<lparr>db_tasks := map ?u (db_tasks db)\<rparr>))"
    with fits'[of a] show "\<exists>s \<in> set (db_tasks (db\<lparr>db_tasks := map ?u (db_tasks db)\<rparr>)).
        t_id s = a_task_run a \<and> attempt_fits s a" by (simp del: set_map)
  next
    fix a b assume "a \<in> set (db_attempts (db\<lparr>db_tasks := map ?u (db_tasks db)\<rparr>))"
      and "b \<in> set (db_attempts (db\<lparr>db_tasks := map ?u (db_tasks db)\<rparr>))"
      and "a_task_run a = a_task_run b" "a_number a = a_number b"
    then show "a_id a = a_id b" by (intro work_inv_number[OF inv]) simp_all
  qed (use tasks.table_update[OF work_inv_tasks[OF inv] w] work_inv_attempts[OF inv] in simp_all)
qed

lemma work_inv_attempt_write:
  assumes inv: "work_inv db" and w: "attempt_write upd"
    and row: "row_of a_id k (db_attempts db) = Some a" and dead: "live (upd a) \<Longrightarrow> live a"
  shows "work_inv (db\<lparr>db_attempts := map (\<lambda>x. if a_id x = k then upd x else x) (db_attempts db)\<rparr>)"
proof -
  let ?u = "\<lambda>x. if a_id x = k then upd x else x"
  from row have a: "a \<in> set (db_attempts db)" "a_id a = k" by (auto dest: row_of_Some)
  have keep: "a_id (?u x) = a_id x" "a_task_run (?u x) = a_task_run x" "a_number (?u x) = a_number x"
    for x using w by (simp_all add: attempt_write_def)
  have "\<exists>t \<in> set (db_tasks db). t_id t = a_task_run (?u b) \<and> attempt_fits t (?u b)"
    if b: "b \<in> set (db_attempts db)" for b
  proof -
    obtain t where t: "t \<in> set (db_tasks db)" "t_id t = a_task_run b" "attempt_fits t b"
      using work_inv_fits[OF inv b] by blast
    have "live b" if "live (?u b)"
    proof (cases "a_id b = k")
      case True
      then have "b = a"
        using attempts.table_same[OF work_inv_attempts[OF inv] b a(1)] a(2) by simp
      with that True dead show ?thesis by simp
    qed (use that in simp)
    with t(3) keep(3)[of b] have "attempt_fits t (?u b)" by (simp add: attempt_fits_def)
    with t(1,2) keep(2)[of b] show ?thesis by auto
  qed
  note fits' = this
  show ?thesis
  proof (rule work_invI)
    fix x y assume "x \<in> set (db_attempts (db\<lparr>db_attempts := map ?u (db_attempts db)\<rparr>))"
      and "y \<in> set (db_attempts (db\<lparr>db_attempts := map ?u (db_attempts db)\<rparr>))"
      and same: "a_task_run x = a_task_run y" "a_number x = a_number y"
    then obtain x' y' where x: "x' \<in> set (db_attempts db)" "x = ?u x'"
      and y: "y' \<in> set (db_attempts db)" "y = ?u y'" by auto
    show "a_id x = a_id y"
      using work_inv_number[OF inv x(1) y(1)] same keep[of x'] keep[of y'] unfolding x(2) y(2)
      by metis
  next
    fix x assume "x \<in> set (db_attempts (db\<lparr>db_attempts := map ?u (db_attempts db)\<rparr>))"
    then obtain x' where "x' \<in> set (db_attempts db)" "x = ?u x'" by auto
    with fits'[of x'] show "\<exists>t \<in> set (db_tasks (db\<lparr>db_attempts := map ?u (db_attempts db)\<rparr>)).
        t_id t = a_task_run x \<and> attempt_fits t x" by simp
  next
    fix s t assume "s \<in> set (db_tasks (db\<lparr>db_attempts := map ?u (db_attempts db)\<rparr>))"
      and "t \<in> set (db_tasks (db\<lparr>db_attempts := map ?u (db_attempts db)\<rparr>))"
      and "t_task s = t_task t" "t_run s = t_run t"
    then show "t_id s = t_id t" by (intro work_inv_binding[OF inv]) simp_all
  qed (use attempts.table_update[OF work_inv_attempts[OF inv] w] work_inv_tasks[OF inv] in simp_all)
qed

lemma newer_attempt_iff: "newer_attempt db tr n \<longleftrightarrow>
    (\<exists>a \<in> set (db_attempts db). a_task_run a = tr \<and> a_number a > n)"
  by (simp add: newer_attempt_def list_ex_iff)

lemma live_of_iff: "live_of db tr \<longleftrightarrow> (\<exists>a \<in> set (db_attempts db). a_task_run a = tr \<and> live a)"
  by (simp add: live_of_def live_def list_ex_iff)

lemma sync_Inr:
  assumes "work_inv db"
  shows "sync_attempt_summary k db = Inr db' \<longleftrightarrow>
     (\<exists>a t. row_of a_id k (db_attempts db) = Some a \<and> row_of t_id (a_task_run a) (db_tasks db) = Some t
        \<and> \<not> newer_attempt db (a_task_run a) (a_number a)
        \<and> db' = db\<lparr>db_tasks := map (\<lambda>x. if t_id x = a_task_run a then summary_of a x else x) (db_tasks db)\<rparr>)"
proof (cases "row_of a_id k (db_attempts db)")
  case (Some a)
  have "sync_attempt_summary k db = Inr db' \<longleftrightarrow>
      (\<exists>rows. compare_and_set t_id (a_task_run a)
          (\<lambda>_. \<not> newer_attempt db (a_task_run a) (a_number a)) (summary_of a) (db_tasks db) = Some rows
        \<and> db' = db\<lparr>db_tasks := rows\<rparr>)"
    by (auto simp: sync_attempt_summary_def Some split: option.splits)
  then show ?thesis
    unfolding tasks.cas_Some[OF work_inv_tasks[OF assms]] using Some by auto
qed (simp add: sync_attempt_summary_def)

lemma sync_inv:
  assumes inv: "work_inv db" and s: "sync_attempt_summary k db = Inr db'"
  shows "work_inv db'"
proof -
  from s obtain a t where row: "row_of a_id k (db_attempts db) = Some a"
      and t: "row_of t_id (a_task_run a) (db_tasks db) = Some t"
      and latest: "\<not> newer_attempt db (a_task_run a) (a_number a)"
      and db': "db' = db\<lparr>db_tasks := map (\<lambda>x. if t_id x = a_task_run a then summary_of a x else x) (db_tasks db)\<rparr>"
    by (auto simp: sync_Inr[OF inv])
  have a: "a \<in> set (db_attempts db)" using row by (auto dest: row_of_Some)
  have fits: "attempt_fits t a"
    by (rule task_of_attempt[OF inv a]) (use t in \<open>auto dest: row_of_Some\<close>)
  show ?thesis
    unfolding db'
  proof (rule work_inv_task_write[OF inv _ t])
    fix b assume b: "b \<in> set (db_attempts db)" "a_task_run b = a_task_run a" "attempt_fits t b"
    then have le: "a_number b \<le> a_number a"
      using latest unfolding newer_attempt_iff by force
    have "summary_status (a_status a) = RunInProgress \<and> a_number b = a_number a" if "live b"
    proof -
      from that b fits le have "a_number b = a_number a" by (simp add: attempt_fits_def)
      with work_inv_number[OF inv b(1) a b(2)] have "b = a"
        using attempts.table_same[OF work_inv_attempts[OF inv] b(1) a] by simp
      with that show ?thesis by (auto simp: live_def live_status_def)
    qed
    with le show "attempt_fits (summary_of a t) b" by (auto simp: attempt_fits_def summary_of_def)
  qed (simp add: task_write_def summary_of_def)
qed

end
