(* ===== verification/Lifecycle_Steps.thy ===== *)
theory Lifecycle_Steps
  imports Lifecycle_Inv
begin

text \<open>
  The lifecycle as a transition system: one rule per operation of \<^verbatim>\<open>engine/transitions.py\<close>, with
  any clock, caller and capacity verdict. Every operation keeps \<open>lifecycle_inv\<close>; attempts move
  along \<open>attempt_moves\<close> and runs along \<open>run_moves\<close>.
\<close>

lemma work_inv_frame [simp]:
  "work_inv (db\<lparr>db_runs := rs\<rparr>) = work_inv db"
  "work_inv (db\<lparr>db_next_run := n\<rparr>) = work_inv db"
  "work_inv (db\<lparr>db_interventions := is\<rparr>) = work_inv db"
  "work_inv (db\<lparr>db_controls := cs\<rparr>) = work_inv db"
  "work_inv (db\<lparr>db_pauses := ps\<rparr>) = work_inv db"
  by (simp_all add: work_inv_def)

lemma run_inv_frame [simp]:
  "run_inv (db\<lparr>db_tasks := ts\<rparr>) = run_inv db"
  "run_inv (db\<lparr>db_next_task := n\<rparr>) = run_inv db"
  "run_inv (db\<lparr>db_attempts := as\<rparr>) = run_inv db"
  "run_inv (db\<lparr>db_next_attempt := n\<rparr>) = run_inv db"
  "run_inv (db\<lparr>db_interventions := is\<rparr>) = run_inv db"
  "run_inv (db\<lparr>db_controls := cs\<rparr>) = run_inv db"
  "run_inv (db\<lparr>db_pauses := ps\<rparr>) = run_inv db"
  by (simp_all add: run_inv_def)

section \<open>Operations on runs\<close>

text \<open>A guarded write to a run that keeps its identity and adds no active run.\<close>

lemma guard_run_keeps:
  assumes inv: "lifecycle_inv db" and g: "guard_run db k g upd = Inr db'" and w: "run_write upd"
    and act: "\<And>r s. g r \<Longrightarrow> r \<in> set (db_runs db) \<Longrightarrow> r_id r = k \<Longrightarrow> active_run (upd r) \<Longrightarrow>
       \<not> active_run r \<Longrightarrow> s \<in> set (db_runs db) \<Longrightarrow> r_id s \<noteq> k \<Longrightarrow> r_pipeline s = r_pipeline r \<Longrightarrow>
       \<not> active_run s"
  shows "lifecycle_inv db'"
proof -
  from inv have ri: "run_inv db" and wi: "work_inv db" by (simp_all add: lifecycle_inv_def)
  from g obtain r where r: "row_of r_id k (db_runs db) = Some r" "g r"
      and db': "db' = db\<lparr>db_runs := map (\<lambda>x. if r_id x = k then upd x else x) (db_runs db)\<rparr>"
    by (auto simp: guard_run_Inr[OF ri])
  have "run_inv db'"
    unfolding db' by (rule run_inv_write[OF ri w r(1)])
      (use act[OF r(2)] row_of_Some[OF r(1)] in blast)
  then show ?thesis using wi by (simp add: lifecycle_inv_def db')
qed

lemma exclusive_sibling_iff:
  "exclusive_sibling db r other_only \<longleftrightarrow> (\<exists>s \<in> set (db_runs db). r_pipeline s = r_pipeline r
     \<and> (other_only \<longrightarrow> r_id s \<noteq> r_id r) \<and> active_run s \<and> r_exclusive r)"
  by (auto simp: exclusive_sibling_def list_ex_iff active_run_def)

lemma create_run_keeps:
  assumes inv: "lifecycle_inv db" and c: "create_run now p key tr st db = Inr (k, db')"
  shows "lifecycle_inv db'"
proof -
  from inv have ri: "run_inv db" and wi: "work_inv db" by (simp_all add: lifecycle_inv_def)
  let ?row = "new_run now (db_next_run db) p key st"
  let ?db = "db\<lparr>db_runs := db_runs db @ [?row], db_next_run := db_next_run db + 1\<rparr>"
  have row: "r_id ?row = db_next_run db" by (simp add: new_run_def)
  from c have db': "db' = ?db \<or> db' = pin now p k ?db"
      and idx: "one_active_run ?db" "run_keys ?db"
    by (auto simp: create_run_def Let_def split: if_splits)
  have tab: "runs.table (db_next_run ?db) (db_runs ?db)"
    using runs.table_insert[OF run_inv_table[OF ri] row] by simp
  then have d: "distinct (map r_id (db_runs ?db))" by (simp add: runs.table_def)
  have "run_inv ?db"
  proof (rule run_invI[OF tab])
    fix r s assume "r \<in> set (db_runs ?db)" "s \<in> set (db_runs ?db)" "active_run r" "active_run s"
      and "r_pipeline r = r_pipeline s"
    with idx(1) show "r_id r = r_id s"
      unfolding one_active_run_def distinct_map_filter[OF d] active_run_def by blast
  next
    fix r s assume "r \<in> set (db_runs ?db)" "s \<in> set (db_runs ?db)"
      and "r_pipeline r = r_pipeline s" "r_key r = r_key s"
    with idx(2) show "r_id r = r_id s"
      unfolding run_keys_def distinct_map_all[OF d] prod.inject by blast
  qed
  then have "lifecycle_inv ?db" using wi by (simp add: lifecycle_inv_def)
  then show ?thesis using db' by (auto simp: lifecycle_inv_def pin_def)
qed

lemma select_tasks_keeps:
  assumes inv: "lifecycle_inv db"
  shows "lifecycle_inv (select_tasks k ex db)"
proof -
  let ?u = "\<lambda>r. if r_id r = k \<and> r_status r = RunQueued \<and> \<not> r_selected r
     then r\<lparr>r_selected := True, r_exclusive := ex\<rparr> else r"
  from inv have ri: "run_inv db" and wi: "work_inv db" by (simp_all add: lifecycle_inv_def)
  have keep: "r_id (?u r) = r_id r" "r_pipeline (?u r) = r_pipeline r" "r_key (?u r) = r_key r"
    "active_run (?u r) = (active_run r \<and> ?u r = r)" for r by (simp_all add: active_run_def)
  have ids: "map r_id (map ?u (db_runs db)) = map r_id (db_runs db)" by (simp add: o_def)
  have "run_inv (db\<lparr>db_runs := map ?u (db_runs db)\<rparr>)"
  proof (rule run_invI)
    show "runs.table (db_next_run (db\<lparr>db_runs := map ?u (db_runs db)\<rparr>))
        (db_runs (db\<lparr>db_runs := map ?u (db_runs db)\<rparr>))"
      using run_inv_table[OF ri] ids by (auto simp: runs.table_def simp del: map_map)
  next
    fix x y assume "x \<in> set (db_runs (db\<lparr>db_runs := map ?u (db_runs db)\<rparr>))"
      and "y \<in> set (db_runs (db\<lparr>db_runs := map ?u (db_runs db)\<rparr>))"
    then obtain x' y' where x: "x' \<in> set (db_runs db)" "x = ?u x'"
      and y: "y' \<in> set (db_runs db)" "y = ?u y'" by auto
    show "r_id x = r_id y" if "active_run x" "active_run y" "r_pipeline x = r_pipeline y"
      using run_inv_active[OF ri x(1) y(1)] that keep[of x'] keep[of y'] unfolding x(2) y(2) by metis
    show "r_id x = r_id y" if "r_pipeline x = r_pipeline y" "r_key x = r_key y"
      using run_inv_key[OF ri x(1) y(1)] that keep[of x'] keep[of y'] unfolding x(2) y(2) by metis
  qed
  then show ?thesis using wi by (simp add: lifecycle_inv_def select_tasks_def)
qed

lemma run_operations_keep:
  assumes inv: "lifecycle_inv db"
  shows admit_run_keeps: "admit_run now k db = Inr db' \<Longrightarrow> lifecycle_inv db'"
    and start_run_keeps: "start_run k owner lease db = Inr db' \<Longrightarrow> lifecycle_inv db'"
    and renew_run_lease_keeps: "renew_run_lease now k owner lease db = Inr db' \<Longrightarrow> lifecycle_inv db'"
    and finish_run_keeps: "finish_run now k st own sla db = Inr db' \<Longrightarrow> lifecycle_inv db'"
    and mark_run_keeps: "mark_run now k st own db = Inr db' \<Longrightarrow> lifecycle_inv db'"
    and lock_active_run_keeps: "lock_active_run k db = Inr db' \<Longrightarrow> lifecycle_inv db'"
proof -
  note run_simps = run_write_def active_run_def end_row_def settle_revision_def
  show "lifecycle_inv db'" if "admit_run now k db = Inr db'"
    using that unfolding admit_run_def
    by (rule guard_run_keeps[OF inv]) (auto simp: run_simps exclusive_sibling_iff)
  show "lifecycle_inv db'" if "start_run k owner lease db = Inr db'"
    using that unfolding start_run_def
    by (rule guard_run_keeps[OF inv]) (auto simp: run_simps)
  show "lifecycle_inv db'" if "renew_run_lease now k owner lease db = Inr db'"
    using that unfolding renew_run_lease_def
    by (rule guard_run_keeps[OF inv]) (auto simp: run_simps)
  show "lifecycle_inv db'" if "lock_active_run k db = Inr db'"
    using that unfolding lock_active_run_def
    by (rule guard_run_keeps[OF inv]) (auto simp: run_simps)
  show "lifecycle_inv db'" if m: "mark_run now k st own db = Inr db'"
  proof (cases "st \<in> set markable_statuses")
    case True
    then have ne: "st \<noteq> RunInProgress" by (auto simp: markable_statuses_def)
    from m True show ?thesis unfolding mark_run_def if_not_P[OF not_not[THEN iffD2]]
      by (simp del: not_not) (erule guard_run_keeps[OF inv], use ne in \<open>auto simp: run_simps\<close>)
  qed (use m in \<open>simp add: mark_run_def\<close>)
  show "lifecycle_inv db'" if f: "finish_run now k st own sla db = Inr db'"
  proof (cases "st \<in> set finished_run_statuses")
    case True
    then have ne: "st \<noteq> RunInProgress" by (auto simp: finished_run_statuses_def status_sets)
    show ?thesis
    proof (cases "st = RunCancelled")
      case cancelled: True
      from f have "guard_run db k (\<lambda>r. r_status r \<in> {RunQueued, RunInProgress} \<and> r_owner r = own)
          (end_row now st sla) = Inr db'"
        using True cancelled by (simp add: finish_run_def)
      then show ?thesis
        by (rule guard_run_keeps[OF inv]) (use ne in \<open>auto simp: run_simps\<close>)
    next
      case False
      with f True show ?thesis unfolding finish_run_def
        by simp (erule guard_run_keeps[OF inv], use ne in \<open>auto simp: run_simps\<close>)
    qed
  qed (use f in \<open>simp add: finish_run_def\<close>)
qed

lemma reopen_run_keeps:
  assumes inv: "lifecycle_inv db" and c: "reopen_run k owner db = Inr db'"
  shows "lifecycle_inv db'"
proof -
  from c obtain row db1 where row: "row_of r_id k (db_runs db) = Some row"
    and g: "guard_run db k
        (\<lambda>r. r_status r = r_status row \<and> r_owner r = owner \<and> \<not> exclusive_sibling db r True)
        (\<lambda>r. r\<lparr>r_status := RunInProgress, r_repair_pending := True, r_end := None,
               r_owner := None, r_lease := None\<rparr>) = Inr db1"
    and db': "db' = db1\<lparr>db_interventions := db_interventions db1 @
        [\<lparr>i_run = k, i_task = None, i_action = Reopened, i_to_status = Some RunInProgress, i_pause = None\<rparr>]\<rparr>"
    by (auto simp: reopen_run_def err_simps split: option.splits if_splits)
  have "lifecycle_inv db1"
    by (rule guard_run_keeps[OF inv g])
      (auto simp: run_write_def active_run_def exclusive_sibling_iff)
  then show ?thesis by (simp add: lifecycle_inv_def db')
qed

lemma silent_run_operations_keep:
  assumes inv: "lifecycle_inv db"
  shows release_run_lease_keeps: "release_run_lease now k owner expired db = (b, db') \<Longrightarrow> lifecycle_inv db'"
    and mark_sla_breached_keeps: "mark_sla_breached now k db = (b, db') \<Longrightarrow> lifecycle_inv db'"
    and cancel_pipeline_run_keeps: "cancel_pipeline_run now k db = Inr db' \<Longrightarrow> lifecycle_inv db'"
proof -
  show "lifecycle_inv db'" if r: "release_run_lease now k owner expired db = (b, db')"
  proof (cases "b")
    case True
    with r have "guard_run db k (\<lambda>r. r_owner r = Some owner
             \<and> (expired \<longrightarrow> r_status r = RunInProgress \<and> lease_expired (r_lease r) now)
             \<and> releasable db k) (\<lambda>r. r\<lparr>r_owner := None, r_lease := None\<rparr>) = Inr db'"
      by (auto simp: release_run_lease_def split: sum.splits)
    then show ?thesis by (rule guard_run_keeps[OF inv]) (auto simp: run_write_def active_run_def)
  qed (use r inv in \<open>auto simp: release_run_lease_def split: sum.splits\<close>)
  show "lifecycle_inv db'" if r: "mark_sla_breached now k db = (b, db')"
  proof (cases "b")
    case True
    with r have "guard_run db k (\<lambda>r. r_status r = RunInProgress \<and> r_sla r \<noteq> Some SlaBreached)
        (\<lambda>r. r\<lparr>r_sla := Some SlaBreached, r_sla_breached_at := Some now\<rparr>) = Inr db'"
      by (auto simp: mark_sla_breached_def split: sum.splits)
    then show ?thesis by (rule guard_run_keeps[OF inv]) (auto simp: run_write_def active_run_def)
  qed (use r inv in \<open>auto simp: mark_sla_breached_def split: sum.splits\<close>)
  show "lifecycle_inv db'" if "cancel_pipeline_run now k db = Inr db'"
    using that finish_run_keeps[OF inv] by (auto simp: cancel_pipeline_run_def split: option.splits)
qed

section \<open>Operations on task runs and attempts\<close>

lemma find_or_create_keeps:
  assumes inv: "lifecycle_inv db"
    and c: "find_or_create_task_run now refusal task run db = Inr (b, db')"
  shows "lifecycle_inv db'"
proof (cases "find (\<lambda>t. t_task t = task \<and> t_run t = run) (db_tasks db)")
  case (Some t)
  with c inv show ?thesis by (simp add: find_or_create_task_run_def split: option.splits)
next
  case None
  let ?row = "new_task_run now (db_next_task db) task run"
  from None c have db': "db' = db\<lparr>db_tasks := db_tasks db @ [?row], db_next_task := db_next_task db + 1\<rparr>"
    by (auto simp: find_or_create_task_run_def split: option.splits)
  from inv have wi: "work_inv db" by (simp add: lifecycle_inv_def)
  have row: "t_id ?row = db_next_task db" "t_task ?row = task" "t_run ?row = run"
    by (simp_all add: new_task_run_def)
  have fresh: "\<not> (t_task t = task \<and> t_run t = run)" if "t \<in> set (db_tasks db)" for t
    using None that by (auto simp: find_None_iff)
  have "work_inv db'"
  proof (rule work_invI)
    show "tasks.table (db_next_task db') (db_tasks db')"
      using tasks.table_insert[OF work_inv_tasks[OF wi] row(1)] by (simp add: db')
    show "attempts.table (db_next_attempt db') (db_attempts db')"
      using work_inv_attempts[OF wi] by (simp add: db')
  next
    fix s t assume "s \<in> set (db_tasks db')" "t \<in> set (db_tasks db')" "t_task s = t_task t" "t_run s = t_run t"
    then show "t_id s = t_id t"
      using fresh row work_inv_binding[OF wi, of s t] by (auto simp: db')
  next
    fix a assume "a \<in> set (db_attempts db')"
    with work_inv_fits[OF wi, of a]
    show "\<exists>t \<in> set (db_tasks db'). t_id t = a_task_run a \<and> attempt_fits t a" by (auto simp: db')
  next
    fix a b assume "a \<in> set (db_attempts db')" "b \<in> set (db_attempts db')"
      "a_task_run a = a_task_run b" "a_number a = a_number b"
    then show "a_id a = a_id b" by (intro work_inv_number[OF wi]) (simp_all add: db')
  qed
  with inv show ?thesis by (simp add: lifecycle_inv_def db')
qed

lemma delete_skipped_keeps:
  assumes inv: "lifecycle_inv db" and c: "delete_skipped_task_run tr db = Inr db'"
  shows "lifecycle_inv db'"
proof -
  let ?gone = "\<lambda>t. t_id t = tr \<and> t_status t = RunSkipped"
  from inv have wi: "work_inv db" by (simp add: lifecycle_inv_def)
  from c have db': "db' = db\<lparr>db_tasks := filter (\<lambda>t. \<not> ?gone t) (db_tasks db)\<rparr>"
    and ref: "\<not> ((\<exists>t \<in> set (db_tasks db). ?gone t) \<and> (\<exists>a \<in> set (db_attempts db). a_task_run a = tr))"
    by (auto simp: delete_skipped_task_run_def Let_def list_ex_iff split: if_splits)
  have "work_inv db'"
  proof (rule work_invI)
    show "tasks.table (db_next_task db') (db_tasks db')"
      using tasks.table_filter[OF work_inv_tasks[OF wi]] by (simp add: db')
    show "attempts.table (db_next_attempt db') (db_attempts db')"
      using work_inv_attempts[OF wi] by (simp add: db')
  next
    fix s t assume "s \<in> set (db_tasks db')" "t \<in> set (db_tasks db')" "t_task s = t_task t" "t_run s = t_run t"
    then show "t_id s = t_id t" by (intro work_inv_binding[OF wi]) (auto simp: db')
  next
    fix a assume "a \<in> set (db_attempts db')"
    then have a: "a \<in> set (db_attempts db)" by (simp add: db')
    obtain t where t: "t \<in> set (db_tasks db)" "t_id t = a_task_run a" "attempt_fits t a"
      using work_inv_fits[OF wi a] by blast
    moreover have "\<not> ?gone t" using ref t a by metis
    ultimately show "\<exists>t \<in> set (db_tasks db'). t_id t = a_task_run a \<and> attempt_fits t a"
      unfolding db' by (intro bexI[of _ t]) auto
  next
    fix a b assume "a \<in> set (db_attempts db')" "b \<in> set (db_attempts db')"
      "a_task_run a = a_task_run b" "a_number a = a_number b"
    then show "a_id a = a_id b" by (intro work_inv_number[OF wi]) (simp_all add: db')
  qed
  with inv show ?thesis by (simp add: lifecycle_inv_def db')
qed

text \<open>A reservation leaves the task without a live attempt and with a number no attempt has.\<close>

lemma reserve_attempt_result:
  assumes wi: "work_inv db" and c: "reserve_attempt now tr previous db = Inr db1"
  shows "work_inv db1" and "db_attempts db1 = db_attempts db" and "db_runs db1 = db_runs db"
    and "db_next_run db1 = db_next_run db" and "db_next_attempt db1 = db_next_attempt db"
    and "\<exists>t. row_of t_id tr (db_tasks db) = Some t \<and> run_in_progress db (t_run t)"
    and "\<And>a. a \<in> set (db_attempts db) \<Longrightarrow> a_task_run a = tr \<Longrightarrow> \<not> live a"
    and "\<exists>t. row_of t_id tr (db_tasks db1) = Some t \<and> t_status t = RunInProgress
           \<and> (\<forall>a \<in> set (db_attempts db). a_task_run a = tr \<longrightarrow> a_number a < t_attempts t)"
proof -
  let ?u = "reserve_row now db"
  from c obtain t where t: "row_of t_id tr (db_tasks db) = Some t" and quiet: "\<not> live_of db tr"
      and prog: "run_in_progress db (t_run t)"
      and db1: "db1 = db\<lparr>db_tasks := map (\<lambda>x. if t_id x = tr then ?u x else x) (db_tasks db)\<rparr>"
    by (auto simp: reserve_attempt_def guard_task_Inr[OF wi])
  have quiet': "\<not> live a" if "a \<in> set (db_attempts db)" "a_task_run a = tr" for a
    using quiet that by (auto simp: live_of_iff)
  then show "\<And>a. a \<in> set (db_attempts db) \<Longrightarrow> a_task_run a = tr \<Longrightarrow> \<not> live a" .
  from t have tin: "t \<in> set (db_tasks db)" "t_id t = tr" by (auto dest: row_of_Some)
  have below: "a_number a < t_attempts (?u t)" if a: "a \<in> set (db_attempts db)" "a_task_run a = tr" for a
  proof -
    have "attempt_fits t a" by (rule task_of_attempt[OF wi a(1) tin(1)]) (simp add: tin a)
    moreover have "list_ex (\<lambda>a. a_task_run a = t_id t) (db_attempts db)"
      using a tin(2) by (auto simp: list_ex_iff)
    ultimately show ?thesis by (simp add: reserve_row_def attempt_fits_def)
  qed
  have w: "task_write ?u" by (simp add: task_write_def reserve_row_def)
  show wi1: "work_inv db1"
    unfolding db1 by (rule work_inv_task_write[OF wi w t])
      (use below quiet' in \<open>auto simp: attempt_fits_def less_imp_le\<close>)
  show "db_attempts db1 = db_attempts db" "db_runs db1 = db_runs db"
    "db_next_run db1 = db_next_run db" "db_next_attempt db1 = db_next_attempt db"
    by (simp_all add: db1)
  show "\<exists>t. row_of t_id tr (db_tasks db) = Some t \<and> run_in_progress db (t_run t)" using t prog by blast
  have "?u t \<in> set (db_tasks db1)" using tin by (auto simp: db1)
  moreover have "t_id (?u t) = tr" using tin by (simp add: reserve_row_def)
  ultimately have "row_of t_id tr (db_tasks db1) = Some (?u t)"
    using tasks.table_row[OF work_inv_tasks[OF wi1]] by metis
  then show "\<exists>t. row_of t_id tr (db_tasks db1) = Some t \<and> t_status t = RunInProgress
       \<and> (\<forall>a \<in> set (db_attempts db). a_task_run a = tr \<longrightarrow> a_number a < t_attempts t)"
    using below by (auto simp: reserve_row_def)
qed

text \<open>
  Queuing: the inserted attempt never meets the unique indexes, so the statement's
  \<^verbatim>\<open>IntegrityError\<close> branch is for concurrent transactions only.
\<close>

lemma work_inv_insert:
  assumes wi: "work_inv db" and t: "row_of t_id tr (db_tasks db) = Some t" "t_status t = RunInProgress"
    and above: "\<forall>a \<in> set (db_attempts db). a_task_run a = tr \<longrightarrow> a_number a < t_attempts t"
    and quiet: "\<And>a. a \<in> set (db_attempts db) \<Longrightarrow> a_task_run a = tr \<Longrightarrow> \<not> live a"
  shows "work_inv (db\<lparr>db_attempts := db_attempts db @
            [new_attempt now (db_next_attempt db) tr (t_attempts t) not_before],
          db_next_attempt := db_next_attempt db + 1\<rparr>)"
    (is "work_inv ?db'")
proof (rule work_invI)
  let ?row = "new_attempt now (db_next_attempt db) tr (t_attempts t) not_before"
  have row: "a_id ?row = db_next_attempt db" "a_task_run ?row = tr" "a_number ?row = t_attempts t"
    by (simp_all add: new_attempt_def)
  show "tasks.table (db_next_task ?db') (db_tasks ?db')" using work_inv_tasks[OF wi] by simp
  show "attempts.table (db_next_attempt ?db') (db_attempts ?db')"
    using attempts.table_insert[OF work_inv_attempts[OF wi] row(1)] by simp
  show "t_id s = t_id s'" if "s \<in> set (db_tasks ?db')" "s' \<in> set (db_tasks ?db')"
    "t_task s = t_task s'" "t_run s = t_run s'" for s s'
    using that by (intro work_inv_binding[OF wi]) simp_all
  show "\<exists>s \<in> set (db_tasks ?db'). t_id s = a_task_run a \<and> attempt_fits s a"
    if "a \<in> set (db_attempts ?db')" for a
  proof (cases "a = ?row")
    case True
    with t row row_of_Some[OF t(1)] show ?thesis by (intro bexI[of _ t]) (auto simp: attempt_fits_def)
  qed (use that work_inv_fits[OF wi, of a] in auto)
  show "a_id a = a_id b" if "a \<in> set (db_attempts ?db')" "b \<in> set (db_attempts ?db')"
    "a_task_run a = a_task_run b" "a_number a = a_number b" for a b
  proof -
    have ne: "a_number c \<noteq> a_number ?row" if "c \<in> set (db_attempts db)" "a_task_run c = tr" for c
      using above that unfolding row(3) by (metis less_irrefl)
    from that(1,2) consider "a \<in> set (db_attempts db)" "b \<in> set (db_attempts db)"
      | "a = ?row" "b = ?row" | "a = ?row" "b \<in> set (db_attempts db)"
      | "a \<in> set (db_attempts db)" "b = ?row" by auto
    then show ?thesis
    proof cases
      case 1
      then show ?thesis using work_inv_number[OF wi] that(3,4) by blast
    next
      case 3
      then show ?thesis using ne[of b] that(3,4) row(2) by metis
    next
      case 4
      then show ?thesis using ne[of a] that(3,4) row(2) by metis
    qed simp
  qed
qed

lemma insert_attempt_inserts:
  assumes wi: "work_inv db" and ri: "run_inv db"
    and t: "row_of t_id tr (db_tasks db) = Some t" "t_status t = RunInProgress"
    and above: "\<forall>a \<in> set (db_attempts db). a_task_run a = tr \<longrightarrow> a_number a < t_attempts t"
    and quiet: "\<And>a. a \<in> set (db_attempts db) \<Longrightarrow> a_task_run a = tr \<Longrightarrow> \<not> live a"
  shows "insert_attempt now tr not_before db = Inr (db_next_attempt db,
     db\<lparr>db_attempts := db_attempts db @
          [new_attempt now (db_next_attempt db) tr (t_attempts t) not_before],
        db_next_attempt := db_next_attempt db + 1\<rparr>)"
proof -
  let ?db' = "db\<lparr>db_attempts := db_attempts db @
          [new_attempt now (db_next_attempt db) tr (t_attempts t) not_before],
        db_next_attempt := db_next_attempt db + 1\<rparr>"
  have "lifecycle_inv ?db'"
    using work_inv_insert[OF wi t above quiet] ri by (simp add: lifecycle_inv_def)
  then have "one_live_attempt ?db'" "attempt_numbers ?db'"
    by (rule lifecycle_inv_indexes)+
  then show ?thesis by (simp add: insert_attempt_def t Let_def)
qed

lemma queue_attempt_keeps:
  assumes inv: "lifecycle_inv db" and c: "queue_attempt now tr not_before previous db = Inr (k, db')"
  shows "lifecycle_inv db'"
proof -
  from inv have wi: "work_inv db" and ri: "run_inv db" by (simp_all add: lifecycle_inv_def)
  from c obtain db1 db2 where r: "reserve_attempt now tr previous db = Inr db1"
      and i: "insert_attempt now tr not_before db1 = Inr (k, db2)"
      and s: "sync_attempt_summary k db2 = Inr db'"
    by (auto simp: queue_attempt_def err_simps)
  note res = reserve_attempt_result[OF wi r]
  from res(8) obtain t where t: "row_of t_id tr (db_tasks db1) = Some t" "t_status t = RunInProgress"
      "\<forall>a \<in> set (db_attempts db1). a_task_run a = tr \<longrightarrow> a_number a < t_attempts t"
    by (auto simp: res(2))
  have ri1: "run_inv db1" using ri unfolding run_inv_def res(3,4) .
  have quiet: "\<not> live a" if "a \<in> set (db_attempts db1)" "a_task_run a = tr" for a
    using res(7)[of a] that unfolding res(2) by blast
  have db2: "db2 = db1\<lparr>db_attempts := db_attempts db1 @
          [new_attempt now (db_next_attempt db1) tr (t_attempts t) not_before],
        db_next_attempt := db_next_attempt db1 + 1\<rparr>"
    using i insert_attempt_inserts[OF res(1) ri1 t, of now not_before] quiet by force
  have "work_inv db2"
    unfolding db2 by (rule work_inv_insert[OF res(1) t quiet])
  moreover from this s have "run_inv db'" using ri1 by (auto simp: sync_Inr db2)
  ultimately show ?thesis using sync_inv[OF _ s] by (simp add: lifecycle_inv_def)
qed

text \<open>A guarded write to one attempt, then its summary.\<close>

lemma guard_attempt_keeps:
  assumes inv: "lifecycle_inv db" and g: "guard_attempt_row db k g upd = Inr db'"
    and w: "attempt_write upd" and dead: "\<And>a. g a \<Longrightarrow> live (upd a) \<Longrightarrow> live a"
  shows "lifecycle_inv db'"
proof -
  from inv have wi: "work_inv db" by (simp add: lifecycle_inv_def)
  from g obtain a where a: "row_of a_id k (db_attempts db) = Some a" "g a"
      and db': "db' = db\<lparr>db_attempts := map (\<lambda>x. if a_id x = k then upd x else x) (db_attempts db)\<rparr>"
    by (auto simp: guard_attempt_Inr[OF wi])
  show ?thesis
    using inv work_inv_attempt_write[OF wi w a(1) dead[OF a(2)]] by (simp add: lifecycle_inv_def db')
qed

lemma sync_keeps:
  assumes "lifecycle_inv db" and "sync_attempt_summary k db = Inr db'"
  shows "lifecycle_inv db'"
proof -
  from assms have "work_inv db'" by (auto simp: lifecycle_inv_def intro: sync_inv)
  moreover from assms have "run_inv db'" by (auto simp: lifecycle_inv_def sync_Inr)
  ultimately show ?thesis by (simp add: lifecycle_inv_def)
qed

lemmas attempt_simps = attempt_write_def live_def live_status_def held_status_def

lemma claim_with_capacity_keeps:
  assumes inv: "lifecycle_inv db"
    and c: "claim_with_capacity capacity now k owner lease wait db = Inr (b, db')"
  shows "lifecycle_inv db'"
proof (cases "guard_attempt_row db k
          (\<lambda>a. a_status a = AttQueued \<and> a_owner a = None
               \<and> (case a_not_before a of None \<Rightarrow> True | Some t \<Rightarrow> t \<le> now) \<and> capacity db a)
          (\<lambda>a. a\<lparr>a_status := AttClaimed, a_owner := owner, a_lease := lease,
                 a_claimed_at := Some now, a_error := None\<rparr>)")
  case (Inl e)
  with c inv show ?thesis by (auto simp: claim_with_capacity_def err_simps split: if_splits)
next
  case (Inr db1)
  with c have s: "sync_attempt_summary k db1 = Inr db'"
    by (auto simp: claim_with_capacity_def err_simps)
  have "lifecycle_inv db1"
    by (rule guard_attempt_keeps[OF inv Inr]) (auto simp: attempt_simps)
  then show ?thesis using s by (rule sync_keeps)
qed

lemma claim_attempt_keeps:
  "lifecycle_inv db \<Longrightarrow> claim_attempt capacity now k owner lease db = Inr db' \<Longrightarrow> lifecycle_inv db'"
  by (auto simp: claim_attempt_def err_simps intro: claim_with_capacity_keeps)

lemma start_attempt_keeps:
  assumes inv: "lifecycle_inv db" and c: "start_attempt now k owner db = Inr db'"
  shows "lifecycle_inv db'"
proof -
  from c obtain db1 where g: "guard_attempt_row db k
       (\<lambda>a. a_status a = AttClaimed \<and> a_owner a = Some owner \<and> lease_live (a_lease a) now)
       (\<lambda>a. a\<lparr>a_status := AttRunning, a_started_at := Some now\<rparr>) = Inr db1"
      and s: "sync_attempt_summary k db1 = Inr db'"
    by (auto simp: start_attempt_def err_simps)
  have "lifecycle_inv db1" by (rule guard_attempt_keeps[OF inv g]) (auto simp: attempt_simps)
  then show ?thesis using s by (rule sync_keeps)
qed

lemma renew_lease_keeps:
  assumes inv: "lifecycle_inv db" and c: "renew_lease now k owner lease db = Inr db'"
  shows "lifecycle_inv db'"
  using c unfolding renew_lease_def
  by (rule guard_attempt_keeps[OF inv]) (auto simp: attempt_simps)

lemma record_attempt_failure_keeps:
  assumes inv: "lifecycle_inv db" and c: "record_attempt_failure k failure overwrite db = Inr db'"
  shows "lifecycle_inv db'"
proof (cases "db' = db")
  case False
  with c obtain row :: attempt_row where "guard_attempt_row db k
      (\<lambda>a. live_status (a_status a) \<and> (a_failure_source a = None \<or> overwrite))
      (with_failure (a_retry_on row) failure) = Inr db'"
    by (auto simp: record_attempt_failure_def split: option.splits sum.splits if_splits)
  then show ?thesis by (rule guard_attempt_keeps[OF inv]) (auto simp: attempt_simps with_failure_def)
qed (use inv in simp)

lemma record_attempt_ending_keeps:
  assumes inv: "lifecycle_inv db" and c: "record_attempt_ending k st retryable db = Inr db'"
  shows "lifecycle_inv db'"
  using c inv by (auto simp: record_attempt_ending_def Let_def split: if_splits
      intro: record_attempt_failure_keeps)

lemma set_attempt_retry_policy_keeps:
  assumes inv: "lifecycle_inv db" and c: "set_attempt_retry_policy k policy overwrite db = Inr db'"
  shows "lifecycle_inv db'"
proof (cases "db' = db")
  case False
  with c have "guard_attempt_row db k (\<lambda>a. a_status a = AttQueued \<and> (a_retry_on a = None \<or> overwrite))
      (\<lambda>a. a\<lparr>a_retry_on := Some policy\<rparr>) = Inr db'"
    by (auto simp: set_attempt_retry_policy_def split: sum.splits if_splits)
  then show ?thesis by (rule guard_attempt_keeps[OF inv]) (auto simp: attempt_simps)
qed (use inv in simp)

lemma end_attempt_keeps:
  assumes inv: "lifecycle_inv db" and c: "end_attempt now k guard st out db = Inr db'"
    and ends: "\<not> live_status st"
  shows "lifecycle_inv db'"
proof -
  from c obtain db1 db2 where r: "record_attempt_ending k st (o_retryable out) db = Inr db1"
    and g: "guard_attempt_row db1 k guard (ended now st out) = Inr db2"
    and s: "sync_attempt_summary k db2 = Inr db'"
    by (auto simp: end_attempt_def err_simps)
  have "lifecycle_inv db2"
    by (rule guard_attempt_keeps[OF record_attempt_ending_keeps[OF inv r] g])
      (use ends in \<open>auto simp: attempt_write_def live_def ended_def\<close>)
  then show ?thesis using s by (rule sync_keeps)
qed

lemma ending_operations_keep:
  assumes inv: "lifecycle_inv db"
  shows finish_attempt_keeps: "finish_attempt now k st owner out db = Inr db' \<Longrightarrow> lifecycle_inv db'"
    and time_out_attempt_keeps: "time_out_attempt now k owner error text db = Inr db' \<Longrightarrow> lifecycle_inv db'"
    and cancel_attempt_keeps: "cancel_attempt now k error text db = Inr db' \<Longrightarrow> lifecycle_inv db'"
    and lose_attempt_keeps: "lose_attempt now k own err db = Inr db' \<Longrightarrow> lifecycle_inv db'"
  by (auto simp: finish_attempt_def time_out_attempt_def cancel_attempt_def lose_attempt_def
      live_status_def split: if_splits intro: end_attempt_keeps[OF inv])

lemma finish_task_run_keeps:
  assumes inv: "lifecycle_inv db" and c: "finish_task_run now tr text out attempt owner db = Inr db'"
  shows "lifecycle_inv db'"
proof (cases attempt)
  case (Some k)
  with c show ?thesis
    by (auto simp: finish_task_run_def err_simps split: option.splits
        intro: finish_attempt_keeps[OF inv])
next
  case None
  from inv have wi: "work_inv db" by (simp add: lifecycle_inv_def)
  from None c obtain st where db': "db' = db\<lparr>db_tasks := map (\<lambda>t.
        if t_id t = tr \<and> t_status t \<noteq> RunCancelled \<and> \<not> live_of db tr
        then t\<lparr>t_status := st, t_end := Some now, t_counts := o_counts out,
               t_error := o_error out, t_log := o_log out\<rparr>
        else t) (db_tasks db)\<rparr>"
    by (auto simp: finish_task_run_def split: option.splits)
  let ?w = "\<lambda>t. t\<lparr>t_status := st, t_end := Some now, t_counts := o_counts out,
               t_error := o_error out, t_log := o_log out\<rparr>"
  let ?u = "\<lambda>t. if t_status t \<noteq> RunCancelled \<and> \<not> live_of db tr then ?w t else t"
  have same: "db' = db\<lparr>db_tasks := map (\<lambda>x. if t_id x = tr then ?u x else x) (db_tasks db)\<rparr>"
    unfolding db' by (simp add: if_bool_eq_conj)
  show ?thesis
  proof (cases "row_of t_id tr (db_tasks db)")
    case (Some t)
    have w: "task_write ?u" by (simp add: task_write_def)
    have "work_inv db'"
      unfolding same by (rule work_inv_task_write[OF wi w Some])
        (auto simp: attempt_fits_def live_of_iff)
    with inv show ?thesis by (simp add: lifecycle_inv_def db')
  next
    case None
    then have "map (\<lambda>x. if t_id x = tr then ?u x else x) (db_tasks db) = db_tasks db"
      by (intro map_idI) (auto simp: row_of_None)
    then have "db' = db" unfolding same by simp
    with inv show ?thesis by simp
  qed
qed

lemma pause_summary_keeps:
  assumes inv: "lifecycle_inv db"
  shows "lifecycle_inv (pause_summary tr count db)"
proof (cases "\<exists>t. row_of t_id tr (db_tasks db) = Some t \<and> \<not> (\<exists>a \<in> set (db_attempts db). a_task_run a = tr)")
  case True
  from inv have wi: "work_inv db" by (simp add: lifecycle_inv_def)
  from True obtain t where t: "row_of t_id tr (db_tasks db) = Some t"
    and none: "\<And>a. a \<in> set (db_attempts db) \<Longrightarrow> a_task_run a \<noteq> tr" by blast
  let ?u = "\<lambda>t. t\<lparr>t_attempts := 0, t_counts := (t_counts t)\<lparr>c_target_count := count, c_rows_written := count\<rparr>\<rparr>"
  have e: "pause_summary tr count db = db\<lparr>db_tasks := map (\<lambda>x. if t_id x = tr then ?u x else x) (db_tasks db)\<rparr>"
    using none by (simp add: pause_summary_def list_ex_iff)
  have "work_inv (pause_summary tr count db)"
    unfolding e by (rule work_inv_task_write[OF wi _ t]) (use none in \<open>auto simp: task_write_def\<close>)
  with inv show ?thesis by (simp add: lifecycle_inv_def pause_summary_def)
next
  case False
  have other: "\<not> (t_id t = tr \<and> \<not> list_ex (\<lambda>a. a_task_run a = tr) (db_attempts db))"
    if t: "t \<in> set (db_tasks db)" for t
  proof
    assume x: "t_id t = tr \<and> \<not> list_ex (\<lambda>a. a_task_run a = tr) (db_attempts db)"
    with t have "row_of t_id tr (db_tasks db) \<noteq> None" by (auto simp: row_of_None)
    with x False show False by (auto simp: list_ex_iff)
  qed
  have "map (\<lambda>t. if t_id t = tr \<and> \<not> list_ex (\<lambda>a. a_task_run a = tr) (db_attempts db)
      then t\<lparr>t_attempts := 0, t_counts := (t_counts t)\<lparr>c_target_count := count, c_rows_written := count\<rparr>\<rparr>
      else t) (db_tasks db) = db_tasks db"
    by (rule map_idI) (simp only: other if_False)
  with inv show ?thesis by (simp add: pause_summary_def)
qed

lemma guard_task_keeps:
  assumes inv: "lifecycle_inv db" and g: "guard_task_row db k g upd = Inr db'" and w: "task_write upd"
    and quiet: "\<And>t a. g t \<Longrightarrow> a \<in> set (db_attempts db) \<Longrightarrow> a_task_run a = k \<Longrightarrow>
      attempt_fits t a \<Longrightarrow> attempt_fits (upd t) a"
  shows "lifecycle_inv db'"
proof -
  from inv have wi: "work_inv db" by (simp add: lifecycle_inv_def)
  from g obtain t where t: "row_of t_id k (db_tasks db) = Some t" "g t"
      and db': "db' = db\<lparr>db_tasks := map (\<lambda>x. if t_id x = k then upd x else x) (db_tasks db)\<rparr>"
    by (auto simp: guard_task_Inr[OF wi])
  have "work_inv db'"
    unfolding db' by (rule work_inv_task_write[OF wi w t(1)]) (rule quiet[OF t(2)])
  with inv show ?thesis by (simp add: lifecycle_inv_def db')
qed

lemma mark_task_run_keeps:
  assumes inv: "lifecycle_inv db" and c: "mark_task_run now tr st error rows db = Inr db'"
  shows "lifecycle_inv db'"
proof -
  let ?u = "\<lambda>t. t\<lparr>t_status := st, t_end := Some now, t_error := Some error,
      t_counts := (if st = RunSuccess
        then (t_counts t)\<lparr>c_target_count := rows, c_rows_written := rows\<rparr> else t_counts t)\<rparr>"
  from c obtain db1 where one: "(case active_attempt db tr of None \<Rightarrow> Inr db
        | Some a \<Rightarrow> cancel_attempt now (a_id a) error None db) = Inr db1"
      and g: "guard_task_row db1 tr (\<lambda>_. \<not> live_of db1 tr) ?u = Inr db'"
    unfolding mark_task_run_def bind_err_Inr_iff by blast
  have inv1: "lifecycle_inv db1"
    using one inv cancel_attempt_keeps[OF inv] by (auto split: option.splits)
  show ?thesis
    by (rule guard_task_keeps[OF inv1 g])
      (auto simp: task_write_def live_of_iff attempt_fits_def)
qed

lemma set_task_log_keeps:
  assumes inv: "lifecycle_inv db" and c: "set_task_log now tr k owner text db = Inr db'"
  shows "lifecycle_inv db'"
proof -
  let ?g = "\<lambda>t. list_ex (\<lambda>a. a_id a = k \<and> a_task_run a = tr \<and> a_status a \<noteq> AttLost
            \<and> (\<not> live_status (a_status a) \<or> lease_live (a_lease a) now)
            \<and> a_owner a = Some owner \<and> a_number a = t_attempts t
            \<and> t_status t = summary_status (a_status a)) (db_attempts db)
          \<and> \<not> newer_attempt db tr (t_attempts t)"
  from c have "guard_task_row db tr ?g (\<lambda>t. t\<lparr>t_log := text\<rparr>) = Inr db'"
    by (auto simp: set_task_log_def guard_task_row_def split: option.splits)
  then show ?thesis
    by (rule guard_task_keeps[OF inv]) (auto simp: task_write_def attempt_fits_def)
qed

end
