(* ===== verification/Lifecycle_Props.thy ===== *)
theory Lifecycle_Props
  imports Lifecycle_Steps
begin

text \<open>
  The lifecycle as a transition system over all its operations, the state machine of an attempt,
  and what the guards promise each caller.
\<close>

section \<open>All operations\<close>

text \<open>
  One rule per operation, for any clock, caller and capacity verdict. Control requests and
  interventions are appended, and task pauses change, by other components at any time.
\<close>

inductive lifecycle_step :: "(engine_db \<Rightarrow> attempt_row \<Rightarrow> bool) \<Rightarrow> engine_db \<Rightarrow> engine_db \<Rightarrow> bool"
  for capacity where
  create: "create_run now p key tr st db = Inr (k, db') \<Longrightarrow> lifecycle_step capacity db db'"
| select: "lifecycle_step capacity db (select_tasks k ex db)"
| admit: "admit_run now k db = Inr db' \<Longrightarrow> lifecycle_step capacity db db'"
| start_run: "start_run k owner lease db = Inr db' \<Longrightarrow> lifecycle_step capacity db db'"
| renew_run: "renew_run_lease now k owner lease db = Inr db' \<Longrightarrow> lifecycle_step capacity db db'"
| release: "release_run_lease now k owner expired db = (b, db') \<Longrightarrow> lifecycle_step capacity db db'"
| finish_run: "finish_run now k st own sla db = Inr db' \<Longrightarrow> lifecycle_step capacity db db'"
| reopen: "reopen_run k own db = Inr db' \<Longrightarrow> lifecycle_step capacity db db'"
| mark_run: "mark_run now k st own db = Inr db' \<Longrightarrow> lifecycle_step capacity db db'"
| breach: "mark_sla_breached now k db = (b, db') \<Longrightarrow> lifecycle_step capacity db db'"
| cancel_run: "cancel_pipeline_run now k db = Inr db' \<Longrightarrow> lifecycle_step capacity db db'"
| lock: "lock_active_run k db = Inr db' \<Longrightarrow> lifecycle_step capacity db db'"
| bind: "find_or_create_task_run now refusal task run db = Inr (bnd, db') \<Longrightarrow> lifecycle_step capacity db db'"
| delete: "delete_skipped_task_run tr db = Inr db' \<Longrightarrow> lifecycle_step capacity db db'"
| queue: "queue_attempt now tr nb previous db = Inr (k, db') \<Longrightarrow> lifecycle_step capacity db db'"
| policy: "set_attempt_retry_policy k pol overwrite db = Inr db' \<Longrightarrow> lifecycle_step capacity db db'"
| claim: "claim_with_capacity capacity now k own lease_at wait db = Inr (b, db') \<Longrightarrow>
    lifecycle_step capacity db db'"
| start: "start_attempt now k owner db = Inr db' \<Longrightarrow> lifecycle_step capacity db db'"
| renew: "renew_lease now k owner lease db = Inr db' \<Longrightarrow> lifecycle_step capacity db db'"
| failure: "record_attempt_failure k f overwrite db = Inr db' \<Longrightarrow> lifecycle_step capacity db db'"
| finish: "finish_attempt now k ast owner out db = Inr db' \<Longrightarrow> lifecycle_step capacity db db'"
| time_out: "time_out_attempt now k owner err text db = Inr db' \<Longrightarrow> lifecycle_step capacity db db'"
| cancel: "cancel_attempt now k err text db = Inr db' \<Longrightarrow> lifecycle_step capacity db db'"
| lose: "lose_attempt now k own msg db = Inr db' \<Longrightarrow> lifecycle_step capacity db db'"
| finish_task: "finish_task_run now tr txt out att own db = Inr db' \<Longrightarrow> lifecycle_step capacity db db'"
| mark_task: "mark_task_run now tr st err rows db = Inr db' \<Longrightarrow> lifecycle_step capacity db db'"
| task_text: "set_task_log now tr k owner text db = Inr db' \<Longrightarrow> lifecycle_step capacity db db'"
| pause_summary: "lifecycle_step capacity db (pause_summary tr count db)"
| control: "lifecycle_step capacity db (db\<lparr>db_controls := db_controls db @ cs\<rparr>)"
| intervene: "lifecycle_step capacity db (db\<lparr>db_interventions := db_interventions db @ is\<rparr>)"
| pauses: "lifecycle_step capacity db (db\<lparr>db_pauses := ps\<rparr>)"

inductive_cases lifecycle_stepE: "lifecycle_step capacity db db'"

lemmas operation_keeps =
  create_run_keeps admit_run_keeps start_run_keeps renew_run_lease_keeps finish_run_keeps
  mark_run_keeps lock_active_run_keeps reopen_run_keeps release_run_lease_keeps
  mark_sla_breached_keeps cancel_pipeline_run_keeps find_or_create_keeps delete_skipped_keeps
  queue_attempt_keeps claim_with_capacity_keeps start_attempt_keeps renew_lease_keeps
  record_attempt_failure_keeps set_attempt_retry_policy_keeps finish_attempt_keeps
  time_out_attempt_keeps cancel_attempt_keeps lose_attempt_keeps finish_task_run_keeps
  mark_task_run_keeps set_task_log_keeps

lemma lifecycle_inv_frame [simp]:
  "lifecycle_inv (db\<lparr>db_controls := cs\<rparr>) = lifecycle_inv db"
  "lifecycle_inv (db\<lparr>db_interventions := is\<rparr>) = lifecycle_inv db"
  "lifecycle_inv (db\<lparr>db_pauses := ps\<rparr>) = lifecycle_inv db"
  by (simp_all add: lifecycle_inv_def)

lemma lifecycle_step_keeps: "lifecycle_inv db \<Longrightarrow> lifecycle_step capacity db db' \<Longrightarrow> lifecycle_inv db'"
  by (erule lifecycle_step.cases) (auto intro: operation_keeps select_tasks_keeps pause_summary_keeps)

interpretation lifecycle: safe_system "lifecycle_step capacity" lifecycle_inv
  by unfold_locales (rule lifecycle_step_keeps)

definition empty_db :: engine_db where
  "empty_db = \<lparr>db_runs = [], db_tasks = [], db_attempts = [], db_interventions = [],
     db_controls = [], db_pauses = [], db_next_run = 1, db_next_task = 1, db_next_attempt = 1\<rparr>"

lemma empty_db_inv: "lifecycle_inv empty_db"
  by (simp add: lifecycle_inv_def run_inv_def work_inv_def empty_db_def runs.table_def
      tasks.table_def attempts.table_def)

section \<open>The state machine of an attempt\<close>

fun attempt_move :: "attempt_status \<Rightarrow> attempt_status \<Rightarrow> bool" where
  "attempt_move AttQueued s \<longleftrightarrow> s \<in> {AttQueued, AttClaimed, AttCancelled}"
| "attempt_move AttClaimed s \<longleftrightarrow> s \<notin> {AttQueued}"
| "attempt_move AttRunning s \<longleftrightarrow> s \<notin> {AttQueued, AttClaimed}"
| "attempt_move final s \<longleftrightarrow> s = final"

lemma attempt_move_refl [simp]: "attempt_move s s"
  by (cases s) auto

text \<open>What an operation may do to the attempts that exist: an ended one stays as it is.\<close>

definition attempts_evolve :: "engine_db \<Rightarrow> engine_db \<Rightarrow> bool" where
  "attempts_evolve db db' \<longleftrightarrow> (\<forall>a \<in> set (db_attempts db). \<exists>a' \<in> set (db_attempts db').
     a_id a' = a_id a \<and> a_task_run a' = a_task_run a \<and> a_number a' = a_number a
     \<and> attempt_move (a_status a) (a_status a') \<and> (\<not> live a \<longrightarrow> a' = a))"

lemma attempts_evolve_same: "db_attempts db' = db_attempts db \<Longrightarrow> attempts_evolve db db'"
  by (auto simp: attempts_evolve_def)

lemma attempts_evolve_append: "db_attempts db' = db_attempts db @ as \<Longrightarrow> attempts_evolve db db'"
  by (auto simp: attempts_evolve_def)

lemma guard_run_attempts: "guard_run db k g upd = Inr db' \<Longrightarrow> db_attempts db' = db_attempts db"
  by (auto simp: guard_run_def split: option.splits)

lemma guard_task_attempts: "guard_task_row db k g upd = Inr db' \<Longrightarrow> db_attempts db' = db_attempts db"
  by (auto simp: guard_task_row_def split: option.splits)

lemma sync_attempts: "sync_attempt_summary k db = Inr db' \<Longrightarrow> db_attempts db' = db_attempts db"
  by (auto simp: sync_attempt_summary_def split: option.splits)

text \<open>A guarded write relates the row it changed to its new value and every other row to itself.\<close>

lemma guard_attempt_rows:
  assumes wi: "work_inv db" and g: "guard_attempt_row db k g upd = Inr db'"
    and rel: "\<And>a. g a \<Longrightarrow> a_id a = k \<Longrightarrow> R a (upd a)" and refl: "\<And>a. R a a"
  shows "\<forall>a \<in> set (db_attempts db). \<exists>a' \<in> set (db_attempts db'). R a a'"
proof
  fix b assume b: "b \<in> set (db_attempts db)"
  from g obtain a where a: "row_of a_id k (db_attempts db) = Some a" "g a"
      and db': "db' = db\<lparr>db_attempts := map (\<lambda>x. if a_id x = k then upd x else x) (db_attempts db)\<rparr>"
    by (auto simp: guard_attempt_Inr[OF wi])
  let ?b = "if a_id b = k then upd b else b"
  have "?b \<in> set (db_attempts db')" using b by (auto simp: db')
  moreover have "R b ?b"
  proof (cases "a_id b = k")
    case True
    then have "b = a"
      using attempts.table_same[OF work_inv_attempts[OF wi] b] row_of_Some[OF a(1)] by auto
    with rel[OF a(2)] True show ?thesis by simp
  qed (simp add: refl)
  ultimately show "\<exists>a' \<in> set (db_attempts db'). R b a'" by blast
qed

lemma guard_attempt_evolve:
  assumes wi: "work_inv db" and g: "guard_attempt_row db k g upd = Inr db'"
    and w: "attempt_write upd"
    and move: "\<And>a. g a \<Longrightarrow> live a \<and> attempt_move (a_status a) (a_status (upd a))"
  shows "attempts_evolve db db'"
  unfolding attempts_evolve_def
  by (rule guard_attempt_rows[OF wi g]) (use w move in \<open>auto simp: attempt_write_def\<close>)

text \<open>Evidence is written to a live attempt without moving it.\<close>

definition attempts_annotate :: "engine_db \<Rightarrow> engine_db \<Rightarrow> bool" where
  "attempts_annotate db db' \<longleftrightarrow> (\<forall>a \<in> set (db_attempts db). \<exists>a' \<in> set (db_attempts db').
     a_id a' = a_id a \<and> a_task_run a' = a_task_run a \<and> a_number a' = a_number a
     \<and> a_status a' = a_status a \<and> (\<not> live a \<longrightarrow> a' = a))"

lemma annotate_then_evolve:
  assumes "attempts_annotate db db1" and "attempts_evolve db1 db2"
  shows "attempts_evolve db db2"
  unfolding attempts_evolve_def
proof
  fix a assume "a \<in> set (db_attempts db)"
  then obtain a1 where a1: "a1 \<in> set (db_attempts db1)" "a_id a1 = a_id a"
      "a_task_run a1 = a_task_run a" "a_number a1 = a_number a" "a_status a1 = a_status a"
      "\<not> live a \<longrightarrow> a1 = a" using assms(1) unfolding attempts_annotate_def by blast
  obtain a2 where "a2 \<in> set (db_attempts db2)" "a_id a2 = a_id a1" "a_task_run a2 = a_task_run a1"
      "a_number a2 = a_number a1" "attempt_move (a_status a1) (a_status a2)" "\<not> live a1 \<longrightarrow> a2 = a1"
    using assms(2) a1(1) unfolding attempts_evolve_def by blast
  with a1 show "\<exists>a' \<in> set (db_attempts db2). a_id a' = a_id a \<and> a_task_run a' = a_task_run a
      \<and> a_number a' = a_number a \<and> attempt_move (a_status a) (a_status a') \<and> (\<not> live a \<longrightarrow> a' = a)"
    by (intro bexI[of _ a2]) auto
qed

lemma annotate_evolve: "attempts_annotate db db' \<Longrightarrow> attempts_evolve db db'"
  unfolding attempts_annotate_def attempts_evolve_def by (metis attempt_move_refl)

lemma guard_attempt_annotate:
  assumes wi: "work_inv db" and g: "guard_attempt_row db k g upd = Inr db'"
    and w: "attempt_write upd" and live: "\<And>a. g a \<Longrightarrow> live a" and st: "\<And>a. a_status (upd a) = a_status a"
  shows "attempts_annotate db db'"
  unfolding attempts_annotate_def
  by (rule guard_attempt_rows[OF wi g]) (use w live st in \<open>auto simp: attempt_write_def\<close>)

lemma record_attempt_failure_annotates:
  assumes wi: "work_inv db" and c: "record_attempt_failure k failure overwrite db = Inr db'"
  shows "attempts_annotate db db'"
proof (cases "db' = db")
  case False
  with c obtain row :: attempt_row where "guard_attempt_row db k
      (\<lambda>a. live_status (a_status a) \<and> (a_failure_source a = None \<or> overwrite))
      (with_failure (a_retry_on row) failure) = Inr db'"
    by (auto simp: record_attempt_failure_def split: option.splits sum.splits if_splits)
  then show ?thesis
    by (rule guard_attempt_annotate[OF wi]) (auto simp: attempt_simps with_failure_def)
qed (auto simp: attempts_annotate_def)

lemma record_attempt_ending_annotates:
  assumes wi: "work_inv db" and c: "record_attempt_ending k st retryable db = Inr db'"
  shows "attempts_annotate db db'"
proof (cases "db' = db")
  case False
  with c show ?thesis
    by (auto simp: record_attempt_ending_def Let_def split: if_splits
        intro: record_attempt_failure_annotates[OF wi])
qed (auto simp: attempts_annotate_def)

lemma end_attempt_evolves:
  assumes inv: "lifecycle_inv db" and c: "end_attempt now k guard st out db = Inr db'"
    and ends: "\<And>a. guard a \<Longrightarrow> live a \<and> attempt_move (a_status a) st"
  shows "attempts_evolve db db'"
proof -
  from inv have wi: "work_inv db" by (simp add: lifecycle_inv_def)
  from c obtain db1 db2 where r: "record_attempt_ending k st (o_retryable out) db = Inr db1"
    and g: "guard_attempt_row db1 k guard (ended now st out) = Inr db2"
    and s: "sync_attempt_summary k db2 = Inr db'"
    by (auto simp: end_attempt_def err_simps)
  have "work_inv db1" using record_attempt_ending_keeps[OF inv r] by (simp add: lifecycle_inv_def)
  then have "attempts_evolve db1 db2"
    by (rule guard_attempt_evolve[OF _ g]) (use ends in \<open>auto simp: attempt_write_def ended_def\<close>)
  then have "attempts_evolve db db2"
    by (rule annotate_then_evolve[OF record_attempt_ending_annotates[OF wi r]])
  then show ?thesis using sync_attempts[OF s] by (simp add: attempts_evolve_def)
qed

lemma ending_operations_evolve:
  assumes inv: "lifecycle_inv db"
  shows finish_attempt_evolves: "finish_attempt now k st owner out db = Inr db' \<Longrightarrow> attempts_evolve db db'"
    and time_out_attempt_evolves: "time_out_attempt now k owner error text db = Inr db' \<Longrightarrow> attempts_evolve db db'"
    and cancel_attempt_evolves: "cancel_attempt now k error text db = Inr db' \<Longrightarrow> attempts_evolve db db'"
    and lose_attempt_evolves: "lose_attempt now k own err db = Inr db' \<Longrightarrow> attempts_evolve db db'"
  by (auto simp: finish_attempt_def time_out_attempt_def cancel_attempt_def lose_attempt_def
      attempt_simps split: if_splits elim!: end_attempt_evolves[OF inv])

text \<open>Operations that leave the attempts alone, and those that move or add one.\<close>

lemma unmoved_attempts:
  "create_run now p key trigger st db = Inr (k, db') \<Longrightarrow> db_attempts db' = db_attempts db"
  "db_attempts (select_tasks k ex db) = db_attempts db"
  "db_attempts (pause_summary tr count db) = db_attempts db"
  "admit_run now k db = Inr db' \<Longrightarrow> db_attempts db' = db_attempts db"
  "start_run k owner lease db = Inr db' \<Longrightarrow> db_attempts db' = db_attempts db"
  "renew_run_lease now k owner lease db = Inr db' \<Longrightarrow> db_attempts db' = db_attempts db"
  "release_run_lease now k owner expired db = (b, db') \<Longrightarrow> db_attempts db' = db_attempts db"
  "finish_run now k st own sla db = Inr db' \<Longrightarrow> db_attempts db' = db_attempts db"
  "mark_run now k st own db = Inr db' \<Longrightarrow> db_attempts db' = db_attempts db"
  "mark_sla_breached now k db = (b, db') \<Longrightarrow> db_attempts db' = db_attempts db"
  "lock_active_run k db = Inr db' \<Longrightarrow> db_attempts db' = db_attempts db"
  "find_or_create_task_run now refusal task run db = Inr (bnd, db') \<Longrightarrow> db_attempts db' = db_attempts db"
  "delete_skipped_task_run tr db = Inr db' \<Longrightarrow> db_attempts db' = db_attempts db"
  "set_task_log now tr k owner text db = Inr db' \<Longrightarrow> db_attempts db' = db_attempts db"
  by (auto simp: create_run_def pin_def pause_summary_def select_tasks_def admit_run_def start_run_def renew_run_lease_def
      release_run_lease_def finish_run_def mark_run_def mark_sla_breached_def lock_active_run_def
      find_or_create_task_run_def delete_skipped_task_run_def set_task_log_def Let_def
      split: if_splits sum.splits option.splits dest!: guard_run_attempts)

lemma unmoved_attempts':
  "reopen_run k own db = Inr db' \<Longrightarrow> db_attempts db' = db_attempts db"
  "cancel_pipeline_run now k db = Inr db' \<Longrightarrow> db_attempts db' = db_attempts db"
  by (auto simp: reopen_run_def cancel_pipeline_run_def err_simps split: if_splits option.splits
      dest!: guard_run_attempts unmoved_attempts(8))

lemma queue_attempt_evolves:
  assumes "queue_attempt now tr nb previous db = Inr (k, db')"
  shows "attempts_evolve db db'"
proof -
  from assms obtain db1 db2 where "reserve_attempt now tr previous db = Inr db1"
      and "insert_attempt now tr nb db1 = Inr (k, db2)" and "sync_attempt_summary k db2 = Inr db'"
    by (auto simp: queue_attempt_def err_simps)
  then have "\<exists>as. db_attempts db' = db_attempts db @ as"
    by (auto simp: reserve_attempt_def insert_attempt_def Let_def
        split: option.splits if_splits dest!: guard_task_attempts sync_attempts)
  then show ?thesis by (auto intro: attempts_evolve_append)
qed

lemma claim_with_capacity_evolves:
  assumes inv: "lifecycle_inv db"
    and c: "claim_with_capacity capacity now k owner lease wait db = Inr (b, db')"
  shows "attempts_evolve db db'"
proof (cases "guard_attempt_row db k
          (\<lambda>a. a_status a = AttQueued \<and> a_owner a = None
               \<and> (case a_not_before a of None \<Rightarrow> True | Some t \<Rightarrow> t \<le> now) \<and> capacity db a)
          (\<lambda>a. a\<lparr>a_status := AttClaimed, a_owner := owner, a_lease := lease,
                 a_claimed_at := Some now, a_error := None\<rparr>)")
  case (Inl e)
  with c show ?thesis
    by (auto simp: claim_with_capacity_def err_simps split: if_splits intro: attempts_evolve_same)
next
  case (Inr db1)
  with c have s: "sync_attempt_summary k db1 = Inr db'"
    by (auto simp: claim_with_capacity_def err_simps)
  have wi: "work_inv db" using inv by (simp add: lifecycle_inv_def)
  have "attempts_evolve db db1"
    by (rule guard_attempt_evolve[OF wi Inr]) (auto simp: attempt_simps)
  then show ?thesis using sync_attempts[OF s] by (simp add: attempts_evolve_def)
qed

lemma start_attempt_evolves:
  assumes inv: "lifecycle_inv db" and c: "start_attempt now k owner db = Inr db'"
  shows "attempts_evolve db db'"
proof -
  from c obtain db1 where g: "guard_attempt_row db k
       (\<lambda>a. a_status a = AttClaimed \<and> a_owner a = Some owner \<and> lease_live (a_lease a) now)
       (\<lambda>a. a\<lparr>a_status := AttRunning, a_started_at := Some now\<rparr>) = Inr db1"
      and s: "sync_attempt_summary k db1 = Inr db'"
    by (auto simp: start_attempt_def err_simps)
  have wi: "work_inv db" using inv by (simp add: lifecycle_inv_def)
  have "attempts_evolve db db1"
    by (rule guard_attempt_evolve[OF wi g]) (auto simp: attempt_simps)
  then show ?thesis using sync_attempts[OF s] by (simp add: attempts_evolve_def)
qed

lemma renew_lease_evolves:
  assumes inv: "lifecycle_inv db" and c: "renew_lease now k owner lease db = Inr db'"
  shows "attempts_evolve db db'"
  using c inv unfolding renew_lease_def
  by (elim guard_attempt_evolve[rotated]) (auto simp: attempt_simps lifecycle_inv_def)

lemma set_attempt_retry_policy_evolves:
  assumes inv: "lifecycle_inv db" and c: "set_attempt_retry_policy k policy overwrite db = Inr db'"
  shows "attempts_evolve db db'"
proof (cases "db' = db")
  case False
  with c have g: "guard_attempt_row db k (\<lambda>a. a_status a = AttQueued \<and> (a_retry_on a = None \<or> overwrite))
      (\<lambda>a. a\<lparr>a_retry_on := Some policy\<rparr>) = Inr db'"
    by (auto simp: set_attempt_retry_policy_def split: sum.splits if_splits)
  show ?thesis
    by (rule guard_attempt_evolve[OF _ g]) (use inv in \<open>auto simp: attempt_simps lifecycle_inv_def\<close>)
qed (auto intro: attempts_evolve_same)

lemma finish_task_run_evolves:
  assumes inv: "lifecycle_inv db" and c: "finish_task_run now tr text out attempt owner db = Inr db'"
  shows "attempts_evolve db db'"
  using c by (auto simp: finish_task_run_def err_simps split: option.splits
      intro: finish_attempt_evolves[OF inv] attempts_evolve_same)

lemma mark_task_run_evolves:
  assumes inv: "lifecycle_inv db" and c: "mark_task_run now tr st error rows db = Inr db'"
  shows "attempts_evolve db db'"
proof -
  from c obtain db1 where one: "(case active_attempt db tr of None \<Rightarrow> Inr db
        | Some a \<Rightarrow> cancel_attempt now (a_id a) error None db) = Inr db1"
      and g: "\<exists>g u. guard_task_row db1 tr g u = Inr db'"
    unfolding mark_task_run_def bind_err_Inr_iff by blast
  have "attempts_evolve db db1"
    using one cancel_attempt_evolves[OF inv] by (auto split: option.splits intro: attempts_evolve_same)
  moreover have "db_attempts db' = db_attempts db1" using g guard_task_attempts by blast
  ultimately show ?thesis by (simp add: attempts_evolve_def)
qed

lemma lifecycle_step_evolves:
  assumes inv: "lifecycle_inv db" and s: "lifecycle_step capacity db db'"
  shows "attempts_evolve db db'"
proof -
  have wi: "work_inv db" using inv by (simp add: lifecycle_inv_def)
  show ?thesis
    using s
    by cases (auto intro: unmoved_attempts unmoved_attempts' attempts_evolve_same queue_attempt_evolves
        claim_with_capacity_evolves[OF inv] start_attempt_evolves[OF inv] renew_lease_evolves[OF inv]
        set_attempt_retry_policy_evolves[OF inv] annotate_evolve
        record_attempt_failure_annotates[OF wi] ending_operations_evolve[OF inv]
        finish_task_run_evolves[OF inv] mark_task_run_evolves[OF inv])
qed

end
