(* ===== verification/Lifecycle_Theorems.thy ===== *)
theory Lifecycle_Theorems
  imports Lifecycle_Props
begin

text \<open>What each caller of the lifecycle can rely on, in every state the operations reach.\<close>

section \<open>Endings succeed exactly when their guard holds\<close>

definition reachable :: "(engine_db \<Rightarrow> attempt_row \<Rightarrow> bool) \<Rightarrow> engine_db \<Rightarrow> bool" where
  "reachable capacity db \<longleftrightarrow> (lifecycle_step capacity)\<^sup>*\<^sup>* empty_db db"

lemma reachable_safe: "reachable capacity db \<Longrightarrow> lifecycle_inv db"
  unfolding reachable_def by (rule lifecycle.reachable_inv[OF _ empty_db_inv])

lemma live_is_latest:
  assumes wi: "work_inv db" and a: "a \<in> set (db_attempts db)" "live a"
  shows "\<not> newer_attempt db (a_task_run a) (a_number a)"
proof
  assume "newer_attempt db (a_task_run a) (a_number a)"
  then obtain b where b: "b \<in> set (db_attempts db)" "a_task_run b = a_task_run a"
      "a_number a < a_number b" by (auto simp: newer_attempt_iff)
  obtain t where t: "t \<in> set (db_tasks db)" "t_id t = a_task_run a" "attempt_fits t a"
    using work_inv_fits[OF wi a(1)] by blast
  have "attempt_fits t b" by (rule task_of_attempt[OF wi b(1) t(1)]) (simp add: t b)
  with t(3) a(2) b(3) show False by (simp add: attempt_fits_def)
qed

lemma sync_succeeds:
  assumes wi: "work_inv db" and row: "row_of a_id k (db_attempts db) = Some a"
    and latest: "\<not> newer_attempt db (a_task_run a) (a_number a)"
  shows "\<exists>db'. sync_attempt_summary k db = Inr db'"
proof -
  have a: "a \<in> set (db_attempts db)" using row by (auto dest: row_of_Some)
  obtain t where t: "t \<in> set (db_tasks db)" "t_id t = a_task_run a"
    using work_inv_fits[OF wi a] by blast
  then have "row_of t_id (a_task_run a) (db_tasks db) = Some t"
    using tasks.table_row[OF work_inv_tasks[OF wi] t(1)] by simp
  with row latest show ?thesis by (auto simp: sync_Inr[OF wi])
qed

lemma row_of_map_update:
  assumes "\<And>x. key (upd x) = key x" and "row_of key k rows = Some r"
  shows "row_of key k (map (\<lambda>x. if key x = k then upd x else x) rows) = Some (upd r)"
  using assms(2) by (induction rows) (auto simp: row_of_def assms(1))

lemma in_map_update:
  assumes "x \<in> set (map (\<lambda>y. if key y = k then upd y else y) rows)" and "key x = k"
  shows "\<exists>y \<in> set rows. x = upd y"
  using assms by (induction rows) (auto split: if_splits)

lemma newer_attempt_update:
  assumes "attempt_write upd"
  shows "newer_attempt (db\<lparr>db_attempts := map (\<lambda>x. if a_id x = k then upd x else x) (db_attempts db)\<rparr>) tr n
     = newer_attempt db tr n"
proof -
  let ?u = "\<lambda>x. if a_id x = k then upd x else x"
  have "a_task_run (?u x) = a_task_run x" "a_number (?u x) = a_number x" for x
    using assms by (simp_all add: attempt_write_def)
  then show ?thesis by (simp add: newer_attempt_iff del: if_image_distrib)
qed

text \<open>A guarded write to a live attempt followed by its summary.\<close>

lemma write_then_sync:
  assumes inv: "lifecycle_inv db" and w: "attempt_write upd"
    and g: "\<And>a. g a \<Longrightarrow> live a"
  shows "(\<exists>db'. bind_err (guard_attempt_row db k g upd) (sync_attempt_summary k) = Inr db')
     \<longleftrightarrow> (\<exists>a. row_of a_id k (db_attempts db) = Some a \<and> g a)" (is "?l \<longleftrightarrow> ?r")
proof
  have wi: "work_inv db" using inv by (simp add: lifecycle_inv_def)
  show ?r if ?l using that by (auto simp: err_simps guard_attempt_Inr[OF wi])
  show ?l if ?r
  proof -
    from that obtain a where a: "row_of a_id k (db_attempts db) = Some a" "g a" by blast
    let ?db = "db\<lparr>db_attempts := map (\<lambda>x. if a_id x = k then upd x else x) (db_attempts db)\<rparr>"
    have gd: "guard_attempt_row db k g upd = Inr ?db" using a by (auto simp: guard_attempt_Inr[OF wi])
    have keep: "a_id (upd x) = a_id x" "a_task_run (upd a) = a_task_run a" "a_number (upd a) = a_number a" for x
      using w by (simp_all add: attempt_write_def)
    have "work_inv ?db" by (rule work_inv_attempt_write[OF wi w a(1)]) (rule g[OF a(2)])
    moreover have "row_of a_id k (db_attempts ?db) = Some (upd a)"
      using row_of_map_update[of a_id upd, OF keep(1) a(1)] by simp
    moreover have "\<not> newer_attempt ?db (a_task_run (upd a)) (a_number (upd a))"
      unfolding newer_attempt_update[OF w] keep
      by (rule live_is_latest[OF wi]) (use row_of_Some[OF a(1)] g[OF a(2)] in auto)
    ultimately show ?thesis using sync_succeeds gd by simp
  qed
qed

text \<open>The failure evidence written before an ending changes no guard and never raises.\<close>

lemma record_attempt_ending_rows:
  assumes inv: "lifecycle_inv db"
  shows "\<exists>db1. record_attempt_ending k st retryable db = Inr db1 \<and> lifecycle_inv db1
     \<and> (\<forall>a. row_of a_id k (db_attempts db) = Some a \<longrightarrow>
          (\<exists>p f. row_of a_id k (db_attempts db1) \<in> {Some a, Some (with_failure p f a)}))
     \<and> (row_of a_id k (db_attempts db) = None \<longrightarrow> row_of a_id k (db_attempts db1) = None)"
proof -
  have wi: "work_inv db" using inv by (simp add: lifecycle_inv_def)
  have one: "\<exists>db1. record_attempt_failure k f False db = Inr db1
     \<and> (db1 = db \<or> (\<exists>p. db1 = db\<lparr>db_attempts := map (\<lambda>x. if a_id x = k then with_failure p f x else x) (db_attempts db)\<rparr>))"
    for f
  proof (cases "row_of a_id k (db_attempts db)")
    case (Some a)
    show ?thesis
    proof (cases "guard_attempt_row db k (\<lambda>a. live_status (a_status a) \<and> (a_failure_source a = None \<or> False))
            (with_failure (a_retry_on a) f)")
      case (Inl e)
      then show ?thesis by (simp add: record_attempt_failure_def Some)
    next
      case (Inr d)
      then have "d = db\<lparr>db_attempts := map (\<lambda>x. if a_id x = k then with_failure (a_retry_on a) f x else x)
          (db_attempts db)\<rparr>" by (simp add: guard_attempt_Inr[OF wi]) blast
      with Inr show ?thesis by (auto simp: record_attempt_failure_def Some)
    qed
  qed (simp add: record_attempt_failure_def)
  have "record_attempt_ending k st retryable db = Inr db
      \<or> (\<exists>f. record_attempt_ending k st retryable db = record_attempt_failure k f False db)"
    by (simp add: record_attempt_ending_def Let_def) blast
  then obtain db1 where r: "record_attempt_ending k st retryable db = Inr db1"
    and shape: "db1 = db \<or> (\<exists>p f. db1 = db\<lparr>db_attempts := map (\<lambda>x. if a_id x = k then with_failure p f x else x) (db_attempts db)\<rparr>)"
  proof (elim disjE exE)
    assume "record_attempt_ending k st retryable db = Inr db"
    then show thesis by (rule that) simp
  next
    fix f assume f: "record_attempt_ending k st retryable db = record_attempt_failure k f False db"
    obtain d where d: "record_attempt_failure k f False db = Inr d" and "d = db \<or> (\<exists>p. d = db\<lparr>db_attempts :=
        map (\<lambda>x. if a_id x = k then with_failure p f x else x) (db_attempts db)\<rparr>)"
      using one[of f] by blast
    then show thesis by (intro that[of d]) (simp add: f, blast)
  qed
  have id: "a_id (with_failure p f x) = a_id x" for p f x by (simp add: with_failure_def)
  have "(\<exists>p f. row_of a_id k (db_attempts db1) \<in> {Some a, Some (with_failure p f a)})"
    if "row_of a_id k (db_attempts db) = Some a" for a
    using shape row_of_map_update[of a_id, OF id that] that by (auto, blast)
  moreover have "row_of a_id k (db_attempts db1) = None" if "row_of a_id k (db_attempts db) = None"
    using shape
  proof (elim disjE exE)
    fix p f assume db1: "db1 = db\<lparr>db_attempts :=
        map (\<lambda>x. if a_id x = k then with_failure p f x else x) (db_attempts db)\<rparr>"
    have "a_id ` set (db_attempts db1) = a_id ` set (db_attempts db)"
      using arg_cong[OF map_key_update[of a_id "with_failure p f" k "db_attempts db", OF id], of set]
      by (simp add: db1 del: if_image_distrib set_map map_map flip: list.set_map)
    with that show ?thesis by (simp add: row_of_None)
  qed (use that in simp)
  ultimately show ?thesis
    by (intro exI[of _ db1] conjI allI impI)
      (simp_all only: r record_attempt_ending_keeps[OF inv r] simp_thms)
qed

lemma end_attempt_iff:
  assumes inv: "lifecycle_inv db" and g: "\<And>a. guard a \<Longrightarrow> live a"
    and blind: "\<And>p f a. guard (with_failure p f a) = guard a"
  shows "(\<exists>db'. end_attempt now k guard st out db = Inr db')
     \<longleftrightarrow> (\<exists>a. row_of a_id k (db_attempts db) = Some a \<and> guard a)"
proof -
  obtain db1 where r: "record_attempt_ending k st (o_retryable out) db = Inr db1" and inv1: "lifecycle_inv db1"
    and some: "\<And>a. row_of a_id k (db_attempts db) = Some a \<Longrightarrow>
          (\<exists>p f. row_of a_id k (db_attempts db1) \<in> {Some a, Some (with_failure p f a)})"
    and none: "row_of a_id k (db_attempts db) = None \<Longrightarrow> row_of a_id k (db_attempts db1) = None"
    using record_attempt_ending_rows[OF inv] by blast
  have "(\<exists>db'. end_attempt now k guard st out db = Inr db')
      \<longleftrightarrow> (\<exists>a. row_of a_id k (db_attempts db1) = Some a \<and> guard a)"
    unfolding end_attempt_def r bind_err_simps
    by (rule write_then_sync[OF inv1 _ g]) (simp_all add: attempt_write_def ended_def)
  also have "\<dots> \<longleftrightarrow> (\<exists>a. row_of a_id k (db_attempts db) = Some a \<and> guard a)"
  proof (cases "row_of a_id k (db_attempts db)")
    case None
    with none show ?thesis by simp
  next
    case (Some a)
    with some[OF Some] show ?thesis by (auto simp: blind)
  qed
  finally show ?thesis .
qed

text \<open>What a successful ending wrote.\<close>

lemma end_attempt_result:
  assumes inv: "lifecycle_inv db" and c: "end_attempt now k guard st out db = Inr db'"
    and g: "\<And>a. guard a \<Longrightarrow> live a" and blind: "\<And>p f a. guard (with_failure p f a) = guard a"
    and ends: "\<not> live_status st"
  obtains a a' t where "row_of a_id k (db_attempts db) = Some a" and "guard a"
    and "row_of a_id k (db_attempts db') = Some a'" and "a_status a' = st"
    and "a_counts a' = o_counts out" and "a_ended_at a' = Some now" and "a_task_run a' = a_task_run a"
    and "row_of t_id (a_task_run a) (db_tasks db') = Some t" and "t_status t = summary_status st"
    and "t_counts t = o_counts out"
proof -
  obtain a where a: "row_of a_id k (db_attempts db) = Some a" "guard a"
    using c end_attempt_iff[OF inv g blind] by blast
  from c obtain db1 db2 where r: "record_attempt_ending k st (o_retryable out) db = Inr db1"
    and gd: "guard_attempt_row db1 k guard (ended now st out) = Inr db2"
    and s: "sync_attempt_summary k db2 = Inr db'"
    by (auto simp: end_attempt_def err_simps)
  have inv1: "lifecycle_inv db1" by (rule record_attempt_ending_keeps[OF inv r])
  then have wi1: "work_inv db1" by (simp add: lifecycle_inv_def)
  obtain p f where a1: "row_of a_id k (db_attempts db1) \<in> {Some a, Some (with_failure p f a)}"
    using record_attempt_ending_rows[OF inv, of k st "o_retryable out"] r a(1) by force
  obtain b where b: "row_of a_id k (db_attempts db1) = Some b"
    and db2: "db2 = db1\<lparr>db_attempts := map (\<lambda>x. if a_id x = k then ended now st out x else x) (db_attempts db1)\<rparr>"
    using gd by (auto simp: guard_attempt_Inr[OF wi1])
  have task: "a_task_run b = a_task_run a" using a1 b by (auto simp: with_failure_def)
  have row2: "row_of a_id k (db_attempts db2) = Some (ended now st out b)"
    using row_of_map_update[of a_id "ended now st out", OF _ b] by (simp add: db2 ended_def)
  have wi2: "work_inv db2"
    unfolding db2 by (rule work_inv_attempt_write[OF wi1 _ b])
      (use ends in \<open>auto simp: attempt_write_def ended_def live_def\<close>)
  obtain t where t: "row_of t_id (a_task_run a) (db_tasks db2) = Some t"
    and db': "db' = db2\<lparr>db_tasks := map (\<lambda>x. if t_id x = a_task_run a
        then summary_of (ended now st out b) x else x) (db_tasks db2)\<rparr>"
    using s row2 task by (auto simp: sync_Inr[OF wi2] ended_def)
  show ?thesis
  proof (rule that[OF a])
    show "row_of a_id k (db_attempts db') = Some (ended now st out b)" using row2 by (simp add: db')
    show "row_of t_id (a_task_run a) (db_tasks db') = Some (summary_of (ended now st out b) t)"
      using row_of_map_update[of t_id "summary_of (ended now st out b)", OF _ t]
      by (simp add: db' summary_of_def)
  qed (simp_all add: ended_def summary_of_def task)
qed

section \<open>Properties\<close>

text \<open>A small history: a run, one bound task, and one queued attempt.\<close>

definition any_capacity :: "engine_db \<Rightarrow> attempt_row \<Rightarrow> bool" where
  "any_capacity db a = True"

definition demo_run :: engine_db where
  "demo_run = snd (projr (create_run 0 7 ''manual'' TrigManual RunInProgress empty_db))"

definition demo_bound :: engine_db where
  "demo_bound = snd (projr (find_or_create_task_run 1 None 70 1 demo_run))"

definition demo_queued :: engine_db where
  "demo_queued = snd (projr (queue_attempt 2 1 None None demo_bound))"

definition demo_claimed :: engine_db where
  "demo_claimed = projr (claim_attempt any_capacity 3 1 ''worker'' 60 demo_queued)"

lemma Inr_snd: "\<not> is_err r \<Longrightarrow> r = Inr (fst (projr r), snd (projr r))"
  by (cases r) (simp_all add: is_err_def)

lemma Inr_projr: "\<not> is_err r \<Longrightarrow> r = Inr (projr r)"
  by (cases r) (simp_all add: is_err_def)

lemma demo_reachable: "reachable any_capacity demo_queued" "reachable any_capacity demo_claimed"
proof -
  have 1: "\<not> is_err (create_run 0 7 ''manual'' TrigManual RunInProgress empty_db)" by code_simp
  have 2: "\<not> is_err (find_or_create_task_run 1 None 70 1 demo_run)" by code_simp
  have 3: "\<not> is_err (queue_attempt 2 1 None None demo_bound)" by code_simp
  have 4: "\<not> is_err (claim_with_capacity any_capacity 3 1 (Some ''worker'') (Some 60) False demo_queued)"
    by code_simp
  have "lifecycle_step any_capacity empty_db demo_run"
    using lifecycle_step.create[OF Inr_snd[OF 1]] by (simp add: demo_run_def)
  moreover have "lifecycle_step any_capacity demo_run demo_bound"
    using lifecycle_step.bind[OF Inr_snd[OF 2]] by (simp add: demo_bound_def)
  moreover have "lifecycle_step any_capacity demo_bound demo_queued"
    using lifecycle_step.queue[OF Inr_snd[OF 3]] by (simp add: demo_queued_def)
  ultimately show q: "reachable any_capacity demo_queued"
    unfolding reachable_def by (meson rtranclp.rtrancl_refl rtranclp.rtrancl_into_rtrancl)
  have "demo_claimed = snd (projr (claim_with_capacity any_capacity 3 1 (Some ''worker'') (Some 60) False demo_queued))"
    using Inr_snd[OF 4] unfolding demo_claimed_def claim_attempt_def by (metis bind_err_simps(2) case_prod_conv sum.sel(2))
  then have "lifecycle_step any_capacity demo_queued demo_claimed"
    using lifecycle_step.claim[OF Inr_snd[OF 4]] by simp
  with q show "reachable any_capacity demo_claimed"
    unfolding reachable_def by (rule rtranclp.rtrancl_into_rtrancl)
qed

end
