(* ===== verification/Lifecycle_Claims.thy ===== *)
theory Lifecycle_Claims
  imports Lifecycle_Theorems
begin

text \<open>The properties of the lifecycle, over every state its operations reach.\<close>

section \<open>Tables\<close>

text \<open>
  C14. In every state reached from an empty engine database, the schema's unique indexes hold
  (one exclusive run in progress per pipeline, run keys, one task run per task and run, one live
  attempt per task run, attempt numbers), and a live attempt is the newest one of its task run,
  whose summary is \<open>IN-PROGRESS\<close> and shows its number.
\<close>

theorem reachable_consistent:
  assumes "reachable capacity db"
  shows "one_active_run db \<and> run_keys db \<and> one_task_run db \<and> one_live_attempt db
    \<and> attempt_numbers db
    \<and> (\<forall>a \<in> set (db_attempts db). live_status (a_status a) \<longrightarrow>
         \<not> newer_attempt db (a_task_run a) (a_number a)
         \<and> (\<exists>t. row_of t_id (a_task_run a) (db_tasks db) = Some t
              \<and> t_status t = RunInProgress \<and> t_attempts t = a_number a))"
proof -
  have inv: "lifecycle_inv db" by (rule reachable_safe[OF assms])
  then have wi: "work_inv db" by (simp add: lifecycle_inv_def)
  have "\<not> newer_attempt db (a_task_run a) (a_number a)
      \<and> (\<exists>t. row_of t_id (a_task_run a) (db_tasks db) = Some t
           \<and> t_status t = RunInProgress \<and> t_attempts t = a_number a)"
    if a: "a \<in> set (db_attempts db)" "live_status (a_status a)" for a
  proof -
    have l: "live a" using a by (simp add: live_def)
    obtain t where t: "t \<in> set (db_tasks db)" "t_id t = a_task_run a" "attempt_fits t a"
      using work_inv_fits[OF wi a(1)] by blast
    have "row_of t_id (a_task_run a) (db_tasks db) = Some t"
      using tasks.table_row[OF work_inv_tasks[OF wi] t(1)] t(2) by simp
    with t(3) l live_is_latest[OF wi a(1) l] show ?thesis by (auto simp: attempt_fits_def)
  qed
  with lifecycle_inv_indexes[OF inv] show ?thesis by blast
qed

theorem reachable_consistent_witness:
  "one_live_attempt demo_queued \<and> db_attempts demo_queued \<noteq> []
     \<and> \<not> newer_attempt demo_queued 1 1"
proof -
  have a: "\<exists>a \<in> set (db_attempts demo_queued). live_status (a_status a)
      \<and> a_task_run a = 1 \<and> a_number a = 1" by code_simp
  have ne: "db_attempts demo_queued \<noteq> []" using a by auto
  from reachable_consistent[OF demo_reachable(1)] a ne show ?thesis by metis
qed

section \<open>Attempts\<close>

text \<open>
  C15. The state machine of an attempt: whatever operation runs, in whatever order, every attempt
  keeps its identity, task run and number; a queued attempt is only claimed or cancelled, a claimed
  one never returns to the queue, a running one is never claimed again, and an ended one is not
  written any more.
\<close>

theorem attempt_state_machine:
  assumes "reachable capacity db" and "lifecycle_step capacity db db'"
  shows "\<forall>a \<in> set (db_attempts db). \<exists>a' \<in> set (db_attempts db').
     a_id a' = a_id a \<and> a_task_run a' = a_task_run a \<and> a_number a' = a_number a
     \<and> (a_status a = AttQueued \<longrightarrow> a_status a' \<in> {AttQueued, AttClaimed, AttCancelled})
     \<and> (a_status a = AttClaimed \<longrightarrow> a_status a' \<noteq> AttQueued)
     \<and> (a_status a = AttRunning \<longrightarrow> a_status a' \<notin> {AttQueued, AttClaimed})
     \<and> (\<not> live_status (a_status a) \<longrightarrow> a' = a)"
proof
  fix a assume "a \<in> set (db_attempts db)"
  then obtain a' where a': "a' \<in> set (db_attempts db')" "a_id a' = a_id a"
      "a_task_run a' = a_task_run a" "a_number a' = a_number a"
      "attempt_move (a_status a) (a_status a')" "\<not> live a \<longrightarrow> a' = a"
    using lifecycle_step_evolves[OF reachable_safe[OF assms(1)] assms(2)]
    unfolding attempts_evolve_def by blast
  then show "\<exists>a' \<in> set (db_attempts db').
     a_id a' = a_id a \<and> a_task_run a' = a_task_run a \<and> a_number a' = a_number a
     \<and> (a_status a = AttQueued \<longrightarrow> a_status a' \<in> {AttQueued, AttClaimed, AttCancelled})
     \<and> (a_status a = AttClaimed \<longrightarrow> a_status a' \<noteq> AttQueued)
     \<and> (a_status a = AttRunning \<longrightarrow> a_status a' \<notin> {AttQueued, AttClaimed})
     \<and> (\<not> live_status (a_status a) \<longrightarrow> a' = a)"
    by (intro bexI[of _ a'] conjI impI) (auto simp: live_def)
qed

theorem attempt_state_machine_witness:
  "\<exists>a \<in> set (db_attempts demo_claimed). a_id a = 1 \<and> a_number a = 1
     \<and> a_status a \<in> {AttQueued, AttClaimed, AttCancelled}"
proof -
  have 4: "\<not> is_err (claim_with_capacity any_capacity 3 1 (Some ''worker'') (Some 60) False demo_queued)"
    by code_simp
  have "demo_claimed = snd (projr (claim_with_capacity any_capacity 3 1 (Some ''worker'') (Some 60) False demo_queued))"
    by code_simp
  then have "lifecycle_step any_capacity demo_queued demo_claimed"
    using lifecycle_step.claim[OF Inr_snd[OF 4]] by simp
  moreover have "\<exists>a \<in> set (db_attempts demo_queued). a_id a = 1 \<and> a_number a = 1
      \<and> a_status a = AttQueued" by code_simp
  ultimately show ?thesis
    using attempt_state_machine[OF demo_reachable(1), of demo_claimed] by metis
qed

text \<open>
  What an ended attempt recorded is final: its row is the same in every later state, whatever
  happens in between.
\<close>

theorem ended_attempt_final:
  assumes "reachable capacity db" and "(lifecycle_step capacity)\<^sup>*\<^sup>* db db'"
    and "a \<in> set (db_attempts db)" and "\<not> live_status (a_status a)"
  shows "a \<in> set (db_attempts db')"
proof -
  let ?kept = "\<lambda>x y. \<forall>a \<in> set (db_attempts x). \<not> live a \<longrightarrow> a \<in> set (db_attempts y)"
  have "?kept x y" if "lifecycle_inv x" "lifecycle_step capacity x y" for x y
    using lifecycle_step_evolves[OF that] unfolding attempts_evolve_def by metis
  then have "?kept db db'"
    using lifecycle.reachable_trans[OF assms(2) reachable_safe[OF assms(1)], of ?kept] by blast
  with assms(3,4) show ?thesis by (simp add: live_def)
qed

definition demo_cancelled :: engine_db where
  "demo_cancelled = projr (cancel_attempt 4 1 ''stop'' None demo_claimed)"

lemma demo_cancelled_reachable: "reachable any_capacity demo_cancelled"
proof -
  have "\<not> is_err (cancel_attempt 4 1 ''stop'' None demo_claimed)" by code_simp
  from lifecycle_step.cancel[OF Inr_projr[OF this]]
  have "lifecycle_step any_capacity demo_claimed demo_cancelled" by (simp add: demo_cancelled_def)
  with demo_reachable(2) show ?thesis
    unfolding reachable_def by (rule rtranclp.rtrancl_into_rtrancl)
qed

lemma endings_iff:
  assumes "reachable capacity db"
  shows "((\<exists>db'. finish_attempt now k st owner out db = Inr db') \<longleftrightarrow>
       st \<in> {AttSuccess, AttFailed, AttHandedOff, AttTimedOut, AttCancelled}
       \<and> (\<exists>a. row_of a_id k (db_attempts db) = Some a \<and> held_status (a_status a)
            \<and> a_owner a = Some owner \<and> lease_live (a_lease a) now))
    \<and> ((\<exists>db'. time_out_attempt now k owner err tail db = Inr db') \<longleftrightarrow>
       (\<exists>a. row_of a_id k (db_attempts db) = Some a \<and> a_status a = AttRunning
            \<and> a_owner a = Some owner \<and> lease_live (a_lease a) now))
    \<and> ((\<exists>db'. cancel_attempt now k err tail db = Inr db') \<longleftrightarrow>
       (\<exists>a. row_of a_id k (db_attempts db) = Some a \<and> live_status (a_status a)))
    \<and> ((\<exists>db'. lose_attempt now k own msg db = Inr db') \<longleftrightarrow>
       (\<exists>a. row_of a_id k (db_attempts db) = Some a \<and> held_status (a_status a)
            \<and> \<not> lease_live (a_lease a) now \<and> a_owner a = own))"
proof -
  note end_iff = end_attempt_iff[OF reachable_safe[OF assms]]
  note shapes = live_def live_status_def held_status_def with_failure_def
  have expired: "lease_expired l now = (\<not> lease_live l now)" for l
    by (auto simp: lease_expired_def lease_live_def split: option.splits)
  have finish: "(\<exists>db'. finish_attempt now k st owner out db = Inr db') \<longleftrightarrow>
       st \<in> {AttSuccess, AttFailed, AttHandedOff, AttTimedOut, AttCancelled}
       \<and> (\<exists>a. row_of a_id k (db_attempts db) = Some a \<and> held_status (a_status a)
            \<and> a_owner a = Some owner \<and> lease_live (a_lease a) now)"
  proof (cases "st \<in> {AttSuccess, AttFailed, AttHandedOff, AttTimedOut, AttCancelled}")
    case True
    then show ?thesis
      unfolding finish_attempt_def not_not if_not_P simp_thms
      by (subst if_not_P, simp, subst end_iff) (auto simp: shapes)
  qed (simp add: finish_attempt_def)
  have time_out: "(\<exists>db'. time_out_attempt now k owner err tail db = Inr db') \<longleftrightarrow>
       (\<exists>a. row_of a_id k (db_attempts db) = Some a \<and> a_status a = AttRunning
            \<and> a_owner a = Some owner \<and> lease_live (a_lease a) now)"
    unfolding time_out_attempt_def by (subst end_iff) (auto simp: shapes)
  have cancel: "(\<exists>db'. cancel_attempt now k err tail db = Inr db') \<longleftrightarrow>
       (\<exists>a. row_of a_id k (db_attempts db) = Some a \<and> live_status (a_status a))"
    unfolding cancel_attempt_def by (subst end_iff) (auto simp: shapes)
  have lose: "(\<exists>db'. lose_attempt now k own msg db = Inr db') \<longleftrightarrow>
       (\<exists>a. row_of a_id k (db_attempts db) = Some a \<and> held_status (a_status a)
            \<and> \<not> lease_live (a_lease a) now \<and> a_owner a = own)"
    unfolding lose_attempt_def expired by (subst end_iff) (auto simp: shapes)
  from finish time_out cancel lose show ?thesis by (intro conjI)
qed



text \<open>
  A successful ending records its status, counts and time on the attempt and, in the same
  write, the status and counts the task's summary shows; nothing can end that attempt again.
\<close>

theorem finish_attempt_records:
  assumes "reachable capacity db" and "finish_attempt now k st owner out db = Inr db'"
  shows "\<exists>a t. row_of a_id k (db_attempts db') = Some a \<and> a_status a = st
     \<and> a_counts a = o_counts out \<and> a_ended_at a = Some now
     \<and> row_of t_id (a_task_run a) (db_tasks db') = Some t \<and> t_status t = summary_status st
     \<and> t_counts t = o_counts out
     \<and> is_err (finish_attempt later k st2 owner2 out2 db')
     \<and> is_err (lose_attempt later k own2 msg db') \<and> is_err (cancel_attempt later k err tail db')"
proof -
  have inv: "lifecycle_inv db" by (rule reachable_safe[OF assms(1)])
  have st: "st \<in> {AttSuccess, AttFailed, AttHandedOff, AttTimedOut, AttCancelled}"
    and e: "end_attempt now k (\<lambda>a. held_status (a_status a) \<and> a_owner a = Some owner
              \<and> lease_live (a_lease a) now) st out db = Inr db'"
    using assms(2) by (auto simp: finish_attempt_def split: if_splits)
  have r': "reachable capacity db'"
    using assms(1) lifecycle_step.finish[OF assms(2)]
    unfolding reachable_def by (rule rtranclp.rtrancl_into_rtrancl)
  obtain a t where a: "row_of a_id k (db_attempts db') = Some a" "a_status a = st"
      "a_counts a = o_counts out" "a_ended_at a = Some now"
      "row_of t_id (a_task_run a) (db_tasks db') = Some t" "t_status t = summary_status st"
      "t_counts t = o_counts out"
    by (rule end_attempt_result[OF inv e])
      (use st in \<open>auto simp: live_def live_status_def held_status_def with_failure_def\<close>)
  have dead: "\<not> live_status (a_status a)" "\<not> held_status (a_status a)"
    using st a(2) by (auto simp: live_status_def held_status_def)
  have err: "is_err m" if "\<not> (\<exists>x. m = Inr x)" for m :: "lifecycle_error + engine_db"
    using that by (cases m) (auto simp: is_err_def)
  have "is_err (finish_attempt later k st2 owner2 out2 db')"
    "is_err (lose_attempt later k own2 msg db')" "is_err (cancel_attempt later k err tail db')"
    using endings_iff[OF r', of later k st2 owner2 out2 err tail own2 msg] a(1) dead
    by (auto intro!: err)
  with a show ?thesis by blast
qed

section \<open>Admission\<close>

text \<open>What the three writes of a queued attempt leave behind.\<close>

lemma queue_attempt_parts:
  assumes inv: "lifecycle_inv db" and r: "reserve_attempt now tr previous db = Inr db1"
    and g: "guard_task tr db = Inr ()"
  shows "\<exists>db' a. queue_attempt now tr not_before previous db = Inr (db_next_attempt db, db')
    \<and> db_attempts db' = db_attempts db @ [a] \<and> a_id a = db_next_attempt db \<and> a_task_run a = tr
    \<and> a_status a = AttQueued \<and> a_not_before a = not_before
    \<and> (\<forall>b \<in> set (db_attempts db). a_task_run b = tr \<longrightarrow> a_number b < a_number a)"
proof -
  from inv have wi: "work_inv db" and ri: "run_inv db" by (simp_all add: lifecycle_inv_def)
  note res = reserve_attempt_result[OF wi r]
  from res(8) obtain t where t: "row_of t_id tr (db_tasks db1) = Some t" "t_status t = RunInProgress"
      "\<forall>a \<in> set (db_attempts db1). a_task_run a = tr \<longrightarrow> a_number a < t_attempts t"
    by (auto simp: res(2))
  have ri1: "run_inv db1" using ri unfolding run_inv_def res(3,4) .
  have quiet: "\<not> live a" if "a \<in> set (db_attempts db1)" "a_task_run a = tr" for a
    using res(7)[of a] that unfolding res(2) by blast
  let ?a = "new_attempt now (db_next_attempt db1) tr (t_attempts t) not_before"
  let ?db2 = "db1\<lparr>db_attempts := db_attempts db1 @ [?a], db_next_attempt := db_next_attempt db1 + 1\<rparr>"
  have i: "insert_attempt now tr not_before db1 = Inr (db_next_attempt db1, ?db2)"
    by (rule insert_attempt_inserts[OF res(1) ri1 t quiet])
  have wi2: "work_inv ?db2" by (rule work_inv_insert[OF res(1) t quiet])
  have a: "a_id ?a = db_next_attempt db1" "a_task_run ?a = tr" "a_number ?a = t_attempts t"
    "live ?a" "a_status ?a = AttQueued" "a_not_before ?a = not_before"
    by (simp_all add: new_attempt_def live_def live_status_def)
  have a2: "?a \<in> set (db_attempts ?db2)" by simp
  have "row_of a_id (db_next_attempt db1) (db_attempts ?db2) = Some ?a"
    using attempts.table_row[OF work_inv_attempts[OF wi2] a2] a(1) by simp
  from sync_succeeds[OF wi2 this live_is_latest[OF wi2 a2 a(4)]]
  obtain db' where s: "sync_attempt_summary (db_next_attempt db1) ?db2 = Inr db'" by blast
  have "queue_attempt now tr not_before previous db = Inr (db_next_attempt db, db')"
    by (simp add: queue_attempt_def g r i s res(5)[symmetric])
  moreover have "db_attempts db' = db_attempts db @ [?a]" using sync_attempts[OF s] by (simp add: res(2))
  ultimately show ?thesis using a t(3) res(2,5) by (intro exI[of _ db'] exI[of _ ?a]) simp
qed

lemma queue_attempt_iff:
  assumes "reachable capacity db"
  shows "((\<exists>k db'. queue_attempt now tr not_before previous db = Inr (k, db')) \<longleftrightarrow>
       (\<exists>t. row_of t_id tr (db_tasks db) = Some t \<and> assert_dispatch (t_run t) (t_task t) db = Inr ()
          \<and> run_in_progress db (t_run t))
       \<and> \<not> live_of db tr \<and> (previous = None \<or> latest_attempt db tr = previous))
    \<and> (\<forall>k db'. queue_attempt now tr not_before previous db = Inr (k, db') \<longrightarrow>
       (\<exists>a. db_attempts db' = db_attempts db @ [a] \<and> a_id a = k \<and> a_task_run a = tr
          \<and> a_status a = AttQueued \<and> a_not_before a = not_before
          \<and> (\<forall>b \<in> set (db_attempts db). a_task_run b = tr \<longrightarrow> a_number b < a_number a)))"
proof -
  have inv: "lifecycle_inv db" by (rule reachable_safe[OF assms])
  then have wi: "work_inv db" by (simp add: lifecycle_inv_def)
  have ok: "(\<exists>k db'. queue_attempt now tr not_before previous db = Inr (k, db'))
      \<longleftrightarrow> guard_task tr db = Inr () \<and> (\<exists>db1. reserve_attempt now tr previous db = Inr db1)"
    using queue_attempt_parts[OF inv] by (auto simp: queue_attempt_def err_simps) blast
  have reserve: "(\<exists>db1. reserve_attempt now tr previous db = Inr db1) \<longleftrightarrow>
      (\<exists>t. row_of t_id tr (db_tasks db) = Some t \<and> run_in_progress db (t_run t))
      \<and> \<not> live_of db tr \<and> (previous = None \<or> latest_attempt db tr = previous)"
    by (auto simp: reserve_attempt_def guard_task_Inr[OF wi])
  have "\<exists>a. db_attempts db' = db_attempts db @ [a] \<and> a_id a = k \<and> a_task_run a = tr
          \<and> a_status a = AttQueued \<and> a_not_before a = not_before
          \<and> (\<forall>b \<in> set (db_attempts db). a_task_run b = tr \<longrightarrow> a_number b < a_number a)"
    if q: "queue_attempt now tr not_before previous db = Inr (k, db')" for k db'
  proof -
    have g: "guard_task tr db = Inr ()" using q by (auto simp: queue_attempt_def err_simps)
    obtain db1 where r: "reserve_attempt now tr previous db = Inr db1" using ok q by blast
    obtain d a where p: "queue_attempt now tr not_before previous db = Inr (db_next_attempt db, d)"
      and d: "db_attempts d = db_attempts db @ [a] \<and> a_id a = db_next_attempt db \<and> a_task_run a = tr
        \<and> a_status a = AttQueued \<and> a_not_before a = not_before
        \<and> (\<forall>b \<in> set (db_attempts db). a_task_run b = tr \<longrightarrow> a_number b < a_number a)"
      using queue_attempt_parts[OF inv r g, of not_before] by blast
    from p q have "d = db'" "db_next_attempt db = k" by simp_all
    with d show ?thesis by blast
  qed
  moreover have "guard_task tr db = Inr () \<and> (\<exists>db1. reserve_attempt now tr previous db = Inr db1) \<longleftrightarrow>
       (\<exists>t. row_of t_id tr (db_tasks db) = Some t \<and> assert_dispatch (t_run t) (t_task t) db = Inr ()
          \<and> run_in_progress db (t_run t))
       \<and> \<not> live_of db tr \<and> (previous = None \<or> latest_attempt db tr = previous)"
    unfolding reserve by (auto simp: guard_task_def)
  ultimately show ?thesis unfolding ok by blast
qed

text \<open>
  \<open>queue_attempt\<close> admits an attempt exactly when no control command fences the task or its
  run, the task run exists and its run is in progress, no attempt of it is live and the caller saw
  its latest attempt; the new attempt is queued, numbered above every attempt the task had, and no
  other attempt changes. The unique indexes never refuse it.
\<close>

theorem queue_attempt_exact:
  assumes "reachable capacity db"
  shows "((\<exists>k db'. queue_attempt now tr not_before previous db = Inr (k, db')) \<longleftrightarrow>
       (\<exists>t. row_of t_id tr (db_tasks db) = Some t \<and> assert_dispatch (t_run t) (t_task t) db = Inr ()
          \<and> run_in_progress db (t_run t))
       \<and> \<not> live_of db tr \<and> (previous = None \<or> latest_attempt db tr = previous))
    \<and> (\<forall>k db'. queue_attempt now tr not_before previous db = Inr (k, db') \<longrightarrow>
       (\<exists>a. db_attempts db' = db_attempts db @ [a] \<and> a_id a = k \<and> a_task_run a = tr
          \<and> a_status a = AttQueued \<and> a_not_before a = not_before
          \<and> (\<forall>b \<in> set (db_attempts db). a_task_run b = tr \<longrightarrow> a_number b < a_number a)))"
  by (rule queue_attempt_iff[OF assms])

section \<open>Runs\<close>

text \<open>What the ending of a run writes.\<close>

definition ended_run ::
  "instant \<Rightarrow> run_status \<Rightarrow> sla_status option \<Rightarrow> bool \<Rightarrow> run_row \<Rightarrow> run_row" where
  "ended_run now st sla paused x = x\<lparr>r_status := st, r_end := Some now,
             r_sla := (if r_sla x = None then sla else r_sla x),
             r_sla_breached_at := (if r_sla_breached_at x = None
                  \<and> (if r_sla x = None then sla else r_sla x) = Some SlaBreached
                then Some now else r_sla_breached_at x),
             r_revision := (if st \<noteq> RunSuccess then r_revision x
                else if paused then 0
                else if r_repair_pending x then r_revision x + 1 else r_revision x),
             r_repair_pending := (st \<noteq> RunSuccess \<and> r_repair_pending x)\<rparr>"

lemma ended_run_shape: "r_id (ended_run now st sla p x) = r_id x \<and> r_status (ended_run now st sla p x) = st"
  by (simp add: ended_run_def)

lemma finish_run_iff:
  assumes "reachable capacity db"
  shows "finish_run now k st owner sla db = Inr db' \<longleftrightarrow>
    st \<in> {RunSuccess, RunFailed, RunCancelled, RunSkipped}
    \<and> (\<exists>r. row_of r_id k (db_runs db) = Some r \<and> r_owner r = owner
        \<and> (if st = RunCancelled then r_status r \<in> {RunQueued, RunInProgress}
            else r_status r = RunInProgress \<and> (owner = None \<or> lease_live (r_lease r) now)
               \<and> \<not> held_in_run db k)
        \<and> db' = db\<lparr>db_runs := map (\<lambda>x. if r_id x = k then ended_run now st sla (stands_on_pause db k) x else x) (db_runs db)\<rparr>)"
proof -
  have ri: "run_inv db" using reachable_safe[OF assms] by (simp add: lifecycle_inv_def)
  let ?w = "\<lambda>x. ended_run now st sla (stands_on_pause db k) x"
  have sla: "sla_of x sla = (if r_sla x = None then sla else r_sla x)" for x
    by (simp add: sla_of_def split: option.splits)
  have cancel: "end_row now st sla x = ?w x" if "st = RunCancelled" for x
    unfolding end_row_def ended_run_def sla using that by simp
  have finish: "end_row now st sla (if st = RunSuccess \<and> stands_on_pause db k
        then x\<lparr>r_revision := 0, r_repair_pending := False\<rparr> else settle_revision st x) = ?w x" for x
    by (rule run_row.equality; cases "stands_on_pause db k"; cases "st = RunSuccess")
      (simp_all add: end_row_def ended_run_def settle_revision_def sla_of_def split: option.split)
  have statuses: "set finished_run_statuses = {RunSuccess, RunFailed, RunCancelled, RunSkipped}"
    by code_simp
  show ?thesis
  proof (cases "st \<in> {RunSuccess, RunFailed, RunCancelled, RunSkipped}")
    case True
    show ?thesis
    proof (cases "st = RunCancelled")
      case c: True
      have e: "finish_run now k st owner sla db = guard_run db k
          (\<lambda>r. r_status r \<in> {RunQueued, RunInProgress} \<and> r_owner r = owner) ?w"
        unfolding finish_run_def statuses cancel[OF c] using True c by simp
      have "(if st = RunCancelled then P else Q) = P" for P Q using c by simp
      then show ?thesis unfolding e guard_run_Inr[OF ri] using True by metis
    next
      case c: False
      have e: "finish_run now k st owner sla db = guard_run db k
          (\<lambda>r. r_status r = RunInProgress \<and> r_owner r = owner
               \<and> (owner = None \<or> lease_live (r_lease r) now) \<and> \<not> held_in_run db k) ?w"
        unfolding finish_run_def statuses finish if_P[OF True] if_not_P[OF c] by (simp only: True not_True_eq_False if_False)
      show ?thesis unfolding e guard_run_Inr[OF ri] by (simp only: c True if_False simp_thms conj_ac)
    qed
  qed (simp add: finish_run_def statuses)
qed

text \<open>
  C17. \<open>finish_run\<close> is a compare-and-set: a cancellation needs only a queued or running row of the
  caller's, any other ending a run in progress, an unexpired lease when there is an owner and no
  claimed or running attempt. It ends the run once: a success counts a repair exactly once, a task
  standing on a pause resets the revision, and the recorded SLA verdict is never overwritten.
\<close>

theorem finish_run_exact:
  assumes "reachable capacity db"
  shows "finish_run now k st owner sla db = Inr db' \<longleftrightarrow>
    st \<in> {RunSuccess, RunFailed, RunCancelled, RunSkipped}
    \<and> (\<exists>r. row_of r_id k (db_runs db) = Some r \<and> r_owner r = owner
        \<and> (if st = RunCancelled then r_status r \<in> {RunQueued, RunInProgress}
            else r_status r = RunInProgress \<and> (owner = None \<or> lease_live (r_lease r) now)
               \<and> \<not> held_in_run db k)
        \<and> db' = db\<lparr>db_runs := map (\<lambda>x. if r_id x = k then ended_run now st sla (stands_on_pause db k) x else x) (db_runs db)\<rparr>)"
  by (rule finish_run_iff[OF assms])

theorem finish_run_exact_witness:
  "is_err (finish_run 5 1 RunSuccess None None demo_claimed)
   \<and> (\<exists>db'. finish_run 5 1 RunSuccess None None demo_cancelled = Inr db')
   \<and> (\<exists>db'. finish_run 5 1 RunCancelled None None demo_claimed = Inr db')"
proof -
  have held: "held_in_run demo_claimed 1" "\<not> held_in_run demo_cancelled 1" by code_simp+
  have runs: "let r = row_of r_id 1 (db_runs d) in r \<noteq> None \<and> r_owner (the r) = None
      \<and> r_status (the r) = RunInProgress" if "d = demo_claimed \<or> d = demo_cancelled" for d
  proof -
    have "let r = row_of r_id 1 (db_runs demo_claimed) in r \<noteq> None \<and> r_owner (the r) = None
        \<and> r_status (the r) = RunInProgress" by code_simp
    moreover have "let r = row_of r_id 1 (db_runs demo_cancelled) in r \<noteq> None \<and> r_owner (the r) = None
        \<and> r_status (the r) = RunInProgress" by code_simp
    ultimately show ?thesis using that by blast
  qed
  obtain r where r: "row_of r_id 1 (db_runs demo_claimed) = Some r" "r_owner r = None"
      "r_status r = RunInProgress" using runs[of demo_claimed] by (auto simp: Let_def)
  obtain c where c: "row_of r_id 1 (db_runs demo_cancelled) = Some c" "r_owner c = None"
      "r_status c = RunInProgress" using runs[of demo_cancelled] by (auto simp: Let_def)
  note claimed = finish_run_exact[OF demo_reachable(2), of 5 1 _ None None]
  have "is_err (finish_run 5 1 RunSuccess None None demo_claimed)"
  proof (cases "finish_run 5 1 RunSuccess None None demo_claimed")
    case (Inr d)
    then show ?thesis unfolding claimed using held by simp
  qed (simp add: is_err_def)
  moreover have "\<exists>d. finish_run 5 1 RunCancelled None None demo_claimed = Inr d"
    unfolding claimed using r by simp
  moreover have "\<exists>d. finish_run 5 1 RunSuccess None None demo_cancelled = Inr d"
    unfolding finish_run_exact[OF demo_cancelled_reachable] using c held by simp
  ultimately show ?thesis by blast
qed

lemma finish_run_write:
  assumes "reachable capacity db" and "finish_run now k st owner sla db = Inr db'" and "st \<noteq> RunCancelled"
  shows "st \<in> {RunSuccess, RunFailed, RunSkipped}" and "\<not> held_in_run db k"
    and "\<exists>p. db' = db\<lparr>db_runs := map (\<lambda>x. if r_id x = k then ended_run now st sla p x else x) (db_runs db)\<rparr>"
proof -
  note x = iffD1[OF finish_run_iff[OF assms(1)] assms(2)]
  show "st \<in> {RunSuccess, RunFailed, RunSkipped}" using x[THEN conjunct1] assms(3) by auto
  show "\<not> held_in_run db k" using x[THEN conjunct2] by (simp only: assms(3) if_False) blast
  show "\<exists>p. db' = db\<lparr>db_runs := map (\<lambda>x. if r_id x = k then ended_run now st sla p x else x) (db_runs db)\<rparr>"
    using x[THEN conjunct2] by blast
qed

lemma queue_needs_run:
  assumes r: "reachable capacity db" and t: "t \<in> set (db_tasks db)" "\<not> run_in_progress db (t_run t)"
  shows "is_err (queue_attempt now (t_id t) not_before previous db)"
proof (cases "queue_attempt now (t_id t) not_before previous db")
  case (Inr kd)
  obtain n d where kd: "kd = (n, d)" by (cases kd)
  have wi: "work_inv db" using reachable_safe[OF r] by (simp add: lifecycle_inv_def)
  have "row_of t_id (t_id t) (db_tasks db) = Some t"
    by (rule tasks.table_row[OF work_inv_tasks[OF wi] t(1)])
  moreover have "\<exists>n d. queue_attempt now (t_id t) not_before previous db = Inr (n, d)"
    using Inr kd by blast
  ultimately have "run_in_progress db (t_run t)"
    unfolding queue_attempt_iff[OF r, THEN conjunct1] by (elim conjE exE) simp
  with t(2) show ?thesis by blast
qed (simp add: is_err_def)



text \<open>
  Of concurrent starts of one pipeline at most one wins: \<open>create_active_run\<close> returns no run,
  and changes nothing, exactly when the pipeline has an exclusive run in progress or a run with
  that key, and otherwise creates a run in progress under a fresh identity, with the task pauses
  in effect recorded for it.
\<close>

theorem one_starter_wins:
  assumes "reachable capacity db" and "backfill \<Longrightarrow> trigger \<in> {None, Some TrigBackfill}"
  shows "create_active_run now p key backfill trigger db =
    (if \<exists>r \<in> set (db_runs db). r_pipeline r = p
          \<and> (r_status r = RunInProgress \<and> r_exclusive r \<or> r_key r = key)
     then Inr (None, db)
     else Inr (Some (db_next_run db), pin now p (db_next_run db)
            (db\<lparr>db_runs := db_runs db @ [new_run now (db_next_run db) p key RunInProgress],
               db_next_run := db_next_run db + 1\<rparr>)))"
proof -
  let ?db' = "db\<lparr>db_runs := db_runs db @ [new_run now (db_next_run db) p key RunInProgress],
               db_next_run := db_next_run db + 1\<rparr>"
  note idx = lifecycle_inv_indexes[OF reachable_safe[OF assms(1)]]
  have "one_active_run ?db' \<longleftrightarrow>
      \<not> (\<exists>r \<in> set (db_runs db). r_pipeline r = p \<and> r_status r = RunInProgress \<and> r_exclusive r)"
    using idx(1) by (auto simp: one_active_run_def new_run_def)
  moreover have "run_keys ?db' \<longleftrightarrow> \<not> (\<exists>r \<in> set (db_runs db). r_pipeline r = p \<and> r_key r = key)"
    using idx(2) by (auto simp: run_keys_def new_run_def)
  moreover have "\<not> (backfill \<and> (case trigger of Some t \<Rightarrow> t
       | None \<Rightarrow> if backfill then TrigBackfill else TrigManual) \<noteq> TrigBackfill)"
    using assms(2) by (auto split: option.splits)
  ultimately show ?thesis
    unfolding create_active_run_def create_run_def Let_def
    by (cases "\<exists>r \<in> set (db_runs db). r_pipeline r = p
          \<and> (r_status r = RunInProgress \<and> r_exclusive r \<or> r_key r = key)") auto
qed

text \<open>
  \<open>finalize_pipeline_run\<close> never raises for a run that exists: it reports that the run ended
  exactly when the guarded ending succeeded, leaves the tables alone otherwise, and the verdict it
  returns is the one the run's row holds afterwards, or else the one computed from the clock.
\<close>

theorem finalize_reports:
  assumes "reachable capacity db" and "row_of r_id k (db_runs db) = Some r"
  shows "\<exists>done sla db'. finalize_pipeline_run now k st limit owner db = Inr ((done, sla), db')
    \<and> (if done then \<exists>verdict. finish_run now k st owner verdict db = Inr db' else db' = db)
    \<and> (sla = None \<longleftrightarrow> limit = None)
    \<and> (done \<and> sla \<noteq> None \<longrightarrow> (\<exists>r'. row_of r_id k (db_runs db') = Some r'
         \<and> r_sla r' = Some (sr_status (the sla))))"
proof -
  let ?hours = "elapsed_hours (r_start r) now"
  let ?sla = "map_option (\<lambda>limit. \<lparr>sr_status = (if ?hours > limit then SlaBreached else SlaMet),
      sr_hours = limit, sr_elapsed = ?hours\<rparr>) limit"
  let ?verdict = "map_option sr_status ?sla"
  show ?thesis
  proof (cases "finish_run now k st owner ?verdict db")
    case (Inl e)
    then show ?thesis
      by (auto simp: finalize_pipeline_run_def assms(2) Let_def is_err_def)
  next
    case (Inr d)
    from iffD1[OF finish_run_iff[OF assms(1)] Inr, THEN conjunct2] obtain x where
      d: "d = db\<lparr>db_runs := map (\<lambda>x. if r_id x = k
        then ended_run now st ?verdict (stands_on_pause db k) x else x) (db_runs db)\<rparr>"
      by (elim exE conjE)
    have row: "row_of r_id k (db_runs d) = Some (ended_run now st ?verdict (stands_on_pause db k) r)"
      using row_of_map_update[of r_id "ended_run now st ?verdict (stands_on_pause db k)", OF _ assms(2)]
      by (simp add: d ended_run_shape)
    have "finalize_pipeline_run now k st limit owner db = Inr ((True,
        map_option (\<lambda>s. case r_sla (ended_run now st ?verdict (stands_on_pause db k) r) of
          None \<Rightarrow> s | Some v \<Rightarrow> s\<lparr>sr_status := v\<rparr>) ?sla), d)"
      unfolding finalize_pipeline_run_def assms(2) option.case Let_def Inr sum.case row
      by (simp add: is_err_def)
    then show ?thesis
      using Inr row by (cases limit; cases "r_sla r") (auto simp: ended_run_def)
  qed
qed

end
