(* ===== verification/Standing_Pauses.thy ===== *)
theory Standing_Pauses
  imports Lifecycle_Theorems
begin

text \<open>
  Standing pauses of tasks: \<^verbatim>\<open>engine/standing_pauses.py\<close>, \<open>change\<close> of
  \<^verbatim>\<open>services/operations/task_pauses.py\<close> and the scheduler's \<open>_standing\<close>. A pause is a list of
  versions, closed and replaced but never rewritten; a run is admitted with the versions in effect
  (\<open>pin\<close>) and inherits their outcomes only while the task has been paused ever since.
\<close>

section \<open>Changing a pause\<close>

datatype pause_error = TickChoiceRefused | ExpiryPast | AlreadyPaused int | NothingToReplace | NotPaused

definition open_pause :: "engine_db \<Rightarrow> int \<Rightarrow> int \<Rightarrow> task_pause option" where
  "open_pause db pipeline task = find (\<lambda>p. p_task p = task) (current_pauses db pipeline)"

definition next_pause :: "engine_db \<Rightarrow> int" where
  "next_pause db = fold (\<lambda>p n. max n (p_id p + 1)) (db_pauses db) 1"

definition close_pause :: "instant \<Rightarrow> int \<Rightarrow> task_pause list \<Rightarrow> task_pause list" where
  "close_pause now k = map (\<lambda>p. if p_id p = k \<and> p_resumed p = None
     then p\<lparr>p_resumed := Some now\<rparr> else p)"

record pause_request =
  q_pausing :: bool
  q_replace :: bool
  q_then :: bool
  q_outcome :: "run_status option"
  q_expires :: "instant option"

definition new_pause :: "instant \<Rightarrow> int \<Rightarrow> int \<Rightarrow> int \<Rightarrow> pause_request \<Rightarrow> task_pause" where
  "new_pause now k pipeline task q = \<lparr>p_id = k, p_pipeline = pipeline, p_task = task,
     p_outcome = q_outcome q, p_expires = q_expires q, p_at = now, p_resumed = None\<rparr>"

definition change ::
  "instant \<Rightarrow> int \<Rightarrow> int \<Rightarrow> pause_request \<Rightarrow> engine_db \<Rightarrow> pause_error + engine_db" where
  "change now pipeline task q db =
     (if q_then q then Inl TickChoiceRefused
      else if (case q_expires q of None \<Rightarrow> False | Some e \<Rightarrow> e \<le> now) then Inl ExpiryPast
      else
        let previous = open_pause db pipeline task;
            active = (case previous of None \<Rightarrow> False | Some p \<Rightarrow> pause_active p now)
        in if q_pausing q \<and> active \<and> \<not> q_replace q then Inl (AlreadyPaused (p_id (the previous)))
           else if q_pausing q \<and> q_replace q \<and> \<not> active then Inl NothingToReplace
           else if \<not> q_pausing q \<and> \<not> active then Inl NotPaused
           else
             let closed = (case previous of None \<Rightarrow> db_pauses db
                           | Some p \<Rightarrow> close_pause now (p_id p) (db_pauses db))
             in Inr (db\<lparr>db_pauses := closed @
                  (if q_pausing q then [new_pause now (next_pause db) pipeline task q] else [])\<rparr>))"

section \<open>What a run inherits\<close>

text \<open>
  \<^verbatim>\<open>standing_pause_admission\<close>: a version captured at admission counts until some version of the
  task from it on was closed after it expired, or without a replacement at the same instant.
\<close>

definition broken_since :: "task_pause list \<Rightarrow> task_pause \<Rightarrow> bool" where
  "broken_since ps p \<longleftrightarrow> list_ex (\<lambda>b. p_task b = p_task p \<and> p_id b \<ge> p_id p
     \<and> (case p_resumed b of None \<Rightarrow> False
        | Some r \<Rightarrow> (case p_expires b of None \<Rightarrow> False | Some e \<Rightarrow> e \<le> r)
             \<or> \<not> list_ex (\<lambda>s. p_task s = p_task b \<and> p_id s > p_id b \<and> p_at s = r) ps)) ps"

definition admitted :: "engine_db \<Rightarrow> int \<Rightarrow> task_pause list" where
  "admitted db run = concat (map (\<lambda>i. filter (\<lambda>p. Some (p_id p) = i_pause i
       \<and> \<not> broken_since (db_pauses db) p) (db_pauses db))
     (filter (\<lambda>i. i_run i = run \<and> i_action i = PauseAdmission) (db_interventions db)))"

text \<open>The admitted versions are a dict by task: a later row replaces an earlier one.\<close>

definition admitted_pause :: "engine_db \<Rightarrow> int \<Rightarrow> int \<Rightarrow> task_pause option" where
  "admitted_pause db run task = find (\<lambda>p. p_task p = task) (rev (admitted db run))"

definition effects ::
  "engine_db \<Rightarrow> int \<Rightarrow> int \<Rightarrow> instant \<Rightarrow> int \<Rightarrow> (task_pause \<times> bool) option" where
  "effects db pipeline run now = fold (\<lambda>live result.
     if \<not> pause_active live now then result
     else case admitted_pause db run (p_task live) of
            None \<Rightarrow> result(p_task live \<mapsto> (live, True))
          | Some pinned \<Rightarrow>
              if p_outcome pinned = None \<or> \<not> pause_active pinned now
              then result(p_task live \<mapsto> (live, True))
              else result(p_task live \<mapsto> (pinned, False)))
     (current_pauses db pipeline) (\<lambda>_. None)"

definition at_task ::
  "engine_db \<Rightarrow> int \<Rightarrow> int \<Rightarrow> int \<Rightarrow> instant \<Rightarrow> task_pause option \<times> bool" where
  "at_task db pipeline run task now = (case effects db pipeline run now task of
     None \<Rightarrow> (None, False) | Some (p, holds) \<Rightarrow> (Some p, holds))"

section \<open>Applying it\<close>

text \<open>The latest applied version of the task under the run, with the outcome that was applied.\<close>

definition applied :: "engine_db \<Rightarrow> int \<Rightarrow> int \<Rightarrow> task_pause option" where
  "applied db run task = (case concat (map (\<lambda>i. map (\<lambda>p. p\<lparr>p_outcome := i_to_status i\<rparr>)
         (filter (\<lambda>p. Some (p_id p) = i_pause i) (db_pauses db)))
       (filter (\<lambda>i. i_run i = run \<and> i_task i = Some task \<and> i_action i = PauseApplied)
         (rev (db_interventions db)))) of
     [] \<Rightarrow> None | p # _ \<Rightarrow> Some p)"

definition application_of :: "int \<Rightarrow> task_pause \<Rightarrow> run_status option \<Rightarrow> intervention" where
  "application_of run p st = \<lparr>i_run = run, i_task = Some (p_task p), i_action = PauseApplied,
     i_to_status = st, i_pause = Some (p_id p)\<rparr>"

text \<open>
  \<open>apply\<close>: \<open>refusal\<close> is the scope check of the task's binding, \<open>utility\<close> the kind of its script and
  \<open>message\<close> the recorded text.
\<close>

definition apply_pause ::
  "instant \<Rightarrow> lifecycle_error option \<Rightarrow> bool \<Rightarrow> string \<Rightarrow> task_pause \<Rightarrow> int \<Rightarrow> engine_db
     \<Rightarrow> lifecycle_error + engine_db" where
  "apply_pause now refusal utility message p run db =
     (if (case applied db run (p_task p) of None \<Rightarrow> False | Some previous \<Rightarrow> p_outcome previous \<noteq> None)
      then Inr db
      else case p_outcome p of None \<Rightarrow> Inl (CheckConstraint (p_id p))
      | Some outcome \<Rightarrow>
          let count = (if utility then None else Some 0)
          in bind_err (find_or_create_task_run now refusal (p_task p) run db) (\<lambda>(b, db1).
             bind_err (mark_task_run now (b_task_run b) outcome message count db1) (\<lambda>db2.
             let db3 = pause_summary (b_task_run b) count db2
             in Inr (db3\<lparr>db_interventions := db_interventions db3
                  @ [application_of run p (Some outcome)]\<rparr>))))"

definition hold_pause :: "task_pause \<Rightarrow> int \<Rightarrow> engine_db \<Rightarrow> engine_db" where
  "hold_pause p run db =
     (if (case applied db run (p_task p) of None \<Rightarrow> False | Some previous \<Rightarrow> p_id previous = p_id p)
      then db
      else db\<lparr>db_interventions := db_interventions db @ [application_of run p None]\<rparr>)"

record standing =
  s_dispatch :: "int list"
  s_settled :: "int list"
  s_held :: "int list"

text \<open>\<open>_standing\<close>: the effects are read once, then each ready task is settled, held or dispatched.\<close>

fun standing_loop ::
  "instant \<Rightarrow> (int \<Rightarrow> lifecycle_error option) \<Rightarrow> (int \<Rightarrow> bool) \<Rightarrow> (task_pause \<Rightarrow> string) \<Rightarrow> int
     \<Rightarrow> (int \<Rightarrow> (task_pause \<times> bool) option) \<Rightarrow> int list \<Rightarrow> standing \<Rightarrow> engine_db
     \<Rightarrow> lifecycle_error + (standing \<times> engine_db)" where
  "standing_loop now refusal utility message run eff [] acc db = Inr (acc, db)"
| "standing_loop now refusal utility message run eff (task # ready) acc db =
     (case eff task of
        None \<Rightarrow> standing_loop now refusal utility message run eff ready
                 (acc\<lparr>s_dispatch := s_dispatch acc @ [task]\<rparr>) db
      | Some (p, True) \<Rightarrow> standing_loop now refusal utility message run eff ready
                 (acc\<lparr>s_held := s_held acc @ [task]\<rparr>) (hold_pause p run db)
      | Some (p, False) \<Rightarrow>
          bind_err (apply_pause now (refusal task) (utility task) (message p) p run db)
            (standing_loop now refusal utility message run eff ready
               (acc\<lparr>s_settled := s_settled acc @ [task]\<rparr>)))"

definition standing_pass ::
  "instant \<Rightarrow> (int \<Rightarrow> lifecycle_error option) \<Rightarrow> (int \<Rightarrow> bool) \<Rightarrow> (task_pause \<Rightarrow> string) \<Rightarrow> int \<Rightarrow> int
     \<Rightarrow> int list \<Rightarrow> engine_db \<Rightarrow> lifecycle_error + (standing \<times> engine_db)" where
  "standing_pass now refusal utility message pipeline run ready db =
     standing_loop now refusal utility message run (effects db pipeline run now) ready
       \<lparr>s_dispatch = [], s_settled = [], s_held = []\<rparr> db"

section \<open>The history of a task's pauses\<close>

text \<open>
  Versions of one task follow each other: an older one was closed before a newer one began. All
  versions of a task belong to the pipeline that owns it, and nothing is dated after the clock.
\<close>

definition pause_history :: "(int \<Rightarrow> int) \<Rightarrow> task_pause list \<Rightarrow> bool" where
  "pause_history owner ps \<longleftrightarrow> distinct (map p_id ps)
     \<and> (\<forall>v \<in> set ps. p_pipeline v = owner (p_task v))
     \<and> (\<forall>v \<in> set ps. \<forall>w \<in> set ps. p_task v = p_task w \<and> p_id v < p_id w \<longrightarrow>
          (\<exists>r. p_resumed v = Some r \<and> r \<le> p_at w))"

definition dated :: "instant \<Rightarrow> task_pause list \<Rightarrow> bool" where
  "dated clock ps \<longleftrightarrow> (\<forall>v \<in> set ps. p_at v \<le> clock \<and> (\<forall>r. p_resumed v = Some r \<longrightarrow> r \<le> clock))"

definition pause_inv :: "(int \<Rightarrow> int) \<Rightarrow> instant \<times> engine_db \<Rightarrow> bool" where
  "pause_inv owner s \<longleftrightarrow> pause_history owner (db_pauses (snd s)) \<and> dated (fst s) (db_pauses (snd s))"

text \<open>Changes happen at a clock that never goes back; no other operation writes pauses.\<close>

inductive pause_step :: "(int \<Rightarrow> int) \<Rightarrow> instant \<times> engine_db \<Rightarrow> instant \<times> engine_db \<Rightarrow> bool"
  for owner where
  change_pause: "clock \<le> now \<Longrightarrow> change now (owner task) task q db = Inr db' \<Longrightarrow>
    pause_step owner (clock, db) (now, db')"
| other: "clock \<le> now \<Longrightarrow> db_pauses db' = db_pauses db \<Longrightarrow> pause_step owner (clock, db) (now, db')"

inductive_cases pause_stepE: "pause_step owner s t"

lemma pause_historyD:
  assumes "pause_history owner ps"
  shows pause_ids: "distinct (map p_id ps)"
    and pause_owner: "v \<in> set ps \<Longrightarrow> p_pipeline v = owner (p_task v)"
    and pause_order: "v \<in> set ps \<Longrightarrow> w \<in> set ps \<Longrightarrow> p_task v = p_task w \<Longrightarrow> p_id v < p_id w \<Longrightarrow>
          \<exists>r. p_resumed v = Some r \<and> r \<le> p_at w"
  using assms unfolding pause_history_def by blast+

lemma pause_same: "pause_history owner ps \<Longrightarrow> v \<in> set ps \<Longrightarrow> w \<in> set ps \<Longrightarrow> p_id v = p_id w \<Longrightarrow> v = w"
  by (auto simp: pause_history_def distinct_map dest: inj_onD)

lemma open_unique:
  assumes h: "pause_history owner ps" and v: "v \<in> set ps" "p_resumed v = None"
    and w: "w \<in> set ps" "p_resumed w = None" and same: "p_task v = p_task w"
  shows "v = w"
proof (cases "p_id v" "p_id w" rule: linorder_cases)
  case less
  with pause_order[OF h v(1) w(1) same] v(2) show ?thesis by simp
next
  case greater
  with pause_order[OF h w(1) v(1) same[symmetric]] w(2) show ?thesis by simp
qed (rule pause_same[OF h v(1) w(1)])

lemma next_pause_fresh: "p \<in> set (db_pauses db) \<Longrightarrow> p_id p < next_pause db"
proof -
  have grow: "n \<le> fold (\<lambda>p n. max n (p_id p + 1)) ps n" for n :: int and ps
    by (induction ps arbitrary: n) (auto, meson dual_order.trans max.cobounded1)
  have "p \<in> set ps \<Longrightarrow> p_id p < fold (\<lambda>p n. max n (p_id p + 1)) ps n" for n ps
  proof (induction ps arbitrary: n)
    case (Cons x xs)
    show ?case
    proof (cases "p = x")
      case True
      with grow[of "max n (p_id x + 1)" xs] show ?thesis by simp
    qed (use Cons in simp)
  qed simp
  then show "p \<in> set (db_pauses db) \<Longrightarrow> p_id p < next_pause db" by (simp add: next_pause_def)
qed

lemma current_pauses_set:
  "set (current_pauses db pipeline) = {p \<in> set (db_pauses db). p_pipeline p = pipeline \<and> p_resumed p = None}"
  by (auto simp: current_pauses_def)

lemma open_pause_Some:
  "open_pause db pipeline task = Some p \<Longrightarrow>
     p \<in> set (db_pauses db) \<and> p_pipeline p = pipeline \<and> p_task p = task \<and> p_resumed p = None"
  using current_pauses_set[of db pipeline] by (auto simp: open_pause_def dest!: find_SomeD)

lemma open_pause_None:
  "open_pause db pipeline task = None \<Longrightarrow> p \<in> set (db_pauses db) \<Longrightarrow> p_pipeline p = pipeline \<Longrightarrow>
     p_task p = task \<Longrightarrow> p_resumed p \<noteq> None"
  using current_pauses_set[of db pipeline] by (auto simp: open_pause_def find_None_iff)

lemma open_pause_iff:
  assumes h: "pause_history owner (db_pauses db)"
  shows "open_pause db (owner task) task = Some p \<longleftrightarrow>
     p \<in> set (db_pauses db) \<and> p_task p = task \<and> p_resumed p = None"
proof
  assume p: "p \<in> set (db_pauses db) \<and> p_task p = task \<and> p_resumed p = None"
  then have "open_pause db (owner task) task \<noteq> None"
    using open_pause_None[of db "owner task" task p] pause_owner[OF h, of p] by auto
  then obtain v where v: "open_pause db (owner task) task = Some v" by blast
  then have "v = p" using open_pause_Some[OF v] p by (intro open_unique[OF h]) auto
  with v show "open_pause db (owner task) task = Some p" by simp
qed (use open_pause_Some in blast)

lemma close_pause_set:
  "set (close_pause now k ps) = {p \<in> set ps. \<not> (p_id p = k \<and> p_resumed p = None)}
     \<union> {p\<lparr>p_resumed := Some now\<rparr> |p. p \<in> set ps \<and> p_id p = k \<and> p_resumed p = None}"
  by (auto simp: close_pause_def)

lemma close_pause_map: "map p_id (close_pause now k ps) = map p_id ps"
  by (induction ps) (auto simp: close_pause_def)

lemma close_pause_closes: "p \<in> set (close_pause now k ps) \<Longrightarrow> p_id p \<noteq> k \<or> p_resumed p \<noteq> None"
  unfolding close_pause_set by (elim UnE CollectE exE conjE) auto

text \<open>After closing the open version, if there is one, every version of the task is closed.\<close>

lemma closed_pauses:
  assumes h: "pause_history owner (db_pauses db)" and d: "dated clock (db_pauses db)" and c: "clock \<le> now"
    and e: "shut = (case open_pause db (owner task) task of None \<Rightarrow> db_pauses db
              | Some p \<Rightarrow> close_pause now (p_id p) (db_pauses db))"
  shows "pause_history owner shut" and "dated now shut"
    and "\<And>p. p \<in> set shut \<Longrightarrow> p_task p = task \<Longrightarrow> \<exists>r. p_resumed p = Some r \<and> r \<le> now"
    and "p_id ` set shut = p_id ` set (db_pauses db)"
proof -
  have "p_at v \<le> now \<and> (p_resumed v = Some r \<longrightarrow> r \<le> now)" if "v \<in> set (db_pauses db)" for v r
    using d that c unfolding dated_def by (meson order_trans)
  then have old: "p_at v \<le> now" "p_resumed v = Some r \<Longrightarrow> r \<le> now" if "v \<in> set (db_pauses db)" for v r
    using that by blast+
  have "pause_history owner shut \<and> dated now shut
      \<and> (\<forall>p \<in> set shut. p_task p = task \<longrightarrow> (\<exists>r. p_resumed p = Some r \<and> r \<le> now))
      \<and> p_id ` set shut = p_id ` set (db_pauses db)"
  proof (cases "open_pause db (owner task) task")
    case None
    have "\<exists>r. p_resumed p = Some r \<and> r \<le> now" if "p \<in> set (db_pauses db)" "p_task p = task" for p
      using open_pause_None[OF None that(1)] pause_owner[OF h that(1)] that old by auto
    with h old show ?thesis by (auto simp: e None dated_def)
  next
    case (Some o')
    note o = open_pause_Some[OF Some]
    have e': "shut = close_pause now (p_id o') (db_pauses db)" by (simp add: e Some)
    have from_old: "\<exists>u \<in> set (db_pauses db). p_id u = p_id v \<and> p_task u = p_task v \<and> p_at u = p_at v
        \<and> p_pipeline u = p_pipeline v \<and> (v = u \<or> (u = o' \<and> p_resumed v = Some now))" if "v \<in> set shut" for v
      using that unfolding e' close_pause_set
    proof (elim UnE CollectE exE conjE)
      fix p assume p: "v = p\<lparr>p_resumed := Some now\<rparr>" "p \<in> set (db_pauses db)" "p_id p = p_id o'"
      have "p = o'" by (rule pause_same[OF h p(2) conjunct1[OF o] p(3)])
      with p o show ?thesis by (intro bexI[of _ o']) auto
    qed blast
    have "\<exists>r. p_resumed v = Some r \<and> r \<le> p_at w" if vw: "v \<in> set shut" "w \<in> set shut"
      "p_task v = p_task w" "p_id v < p_id w" for v w
    proof -
      obtain u where u: "u \<in> set (db_pauses db)" "p_id u = p_id v" "p_task u = p_task v"
          "v = u \<or> (u = o' \<and> p_resumed v = Some now)" using from_old[OF vw(1)] by blast
      obtain x where x: "x \<in> set (db_pauses db)" "p_id x = p_id w" "p_task x = p_task w" "p_at x = p_at w"
        using from_old[OF vw(2)] by blast
      obtain r where r: "p_resumed u = Some r" "r \<le> p_at x"
        using pause_order[OF h u(1) x(1)] u(2,3) x(2,3) vw(3,4) by auto
      with u(4) o have "v = u" by auto
      with r x(4) show ?thesis by simp
    qed
    moreover have "distinct (map p_id shut)" using h by (simp add: e' close_pause_map pause_history_def)
    moreover have "p_pipeline v = owner (p_task v)" if "v \<in> set shut" for v
      using from_old[OF that] pause_owner[OF h] by auto
    moreover have "dated now shut" using from_old old unfolding dated_def by (metis option.inject order_refl)
    moreover have "\<exists>r. p_resumed v = Some r \<and> r \<le> now" if v: "v \<in> set shut" "p_task v = task" for v
    proof -
      obtain u where u: "u \<in> set (db_pauses db)" "p_id u = p_id v" "p_task u = p_task v"
          "v = u \<or> (u = o' \<and> p_resumed v = Some now)" using from_old[OF v(1)] by blast
      show ?thesis
      proof (cases "p_resumed v")
        case None
        then have "v = u" "p_resumed u = None" using u(4) by auto
        have "p_resumed o' = None" "p_task u = p_task o'" using o u(3) v(2) by simp_all
        with open_unique[OF h u(1) \<open>p_resumed u = None\<close> conjunct1[OF o]] have "u = o'" by blast
        then have "p_id v = p_id o'" using u(2) by simp
        with None close_pause_closes[OF v(1)[unfolded e']] show ?thesis by simp
      next
        case (Some r)
        from u(4) show ?thesis
        proof
          assume "v = u"
          with old(2)[OF u(1)] Some show ?thesis by blast
        qed (use Some in simp)
      qed
    qed
    moreover have "p_id ` set shut = p_id ` set (db_pauses db)"
      unfolding e' using close_pause_map[of now "p_id o'" "db_pauses db"] by (metis list.set_map)
    ultimately show ?thesis unfolding pause_history_def by blast
  qed
  then show "pause_history owner shut" "dated now shut"
    "\<And>p. p \<in> set shut \<Longrightarrow> p_task p = task \<Longrightarrow> \<exists>r. p_resumed p = Some r \<and> r \<le> now"
    "p_id ` set shut = p_id ` set (db_pauses db)" by blast+
qed

lemma change_result:
  assumes "change now pipeline task q db = Inr db'"
  shows "db' = db\<lparr>db_pauses := (case open_pause db pipeline task of None \<Rightarrow> db_pauses db
              | Some p \<Rightarrow> close_pause now (p_id p) (db_pauses db))
            @ (if q_pausing q then [new_pause now (next_pause db) pipeline task q] else [])\<rparr>"
  using assms by (auto simp: change_def Let_def split: if_splits)

lemma change_keeps:
  assumes h: "pause_history owner (db_pauses db)" and d: "dated clock (db_pauses db)" and c: "clock \<le> now"
    and ch: "change now (owner task) task q db = Inr db'"
  shows "pause_history owner (db_pauses db') \<and> dated now (db_pauses db')"
proof -
  define shut where "shut = (case open_pause db (owner task) task of None \<Rightarrow> db_pauses db
              | Some p \<Rightarrow> close_pause now (p_id p) (db_pauses db))"
  let ?n = "new_pause now (next_pause db) (owner task) task q"
  note cl = closed_pauses[OF h d c shut_def]
  have db': "db_pauses db' = shut @ (if q_pausing q then [?n] else [])"
    using change_result[OF ch] by (simp add: shut_def)
  have n: "p_id ?n = next_pause db" "p_task ?n = task" "p_pipeline ?n = owner task" "p_at ?n = now"
    "p_resumed ?n = None" by (simp_all add: new_pause_def)
  have fresh: "p_id v < p_id ?n" if "v \<in> set shut" for v
    using that cl(4) next_pause_fresh n(1) by (metis (no_types, lifting) imageE imageI)
  have "pause_history owner (shut @ [?n])"
    unfolding pause_history_def
  proof (intro conjI ballI impI)
    show "distinct (map p_id (shut @ [?n]))" using pause_ids[OF cl(1)] fresh by force
    fix v assume v: "v \<in> set (shut @ [?n])"
    show "p_pipeline v = owner (p_task v)" using v pause_owner[OF cl(1)] n by auto
    fix w assume w: "w \<in> set (shut @ [?n])" and lt: "p_task v = p_task w \<and> p_id v < p_id w"
    have vin: "v \<in> set shut" using v w lt fresh by force
    show "\<exists>r. p_resumed v = Some r \<and> r \<le> p_at w"
    proof (cases "w = ?n")
      case True
      with cl(3)[OF vin] lt n show ?thesis by simp
    qed (use w pause_order[OF cl(1) vin] lt in auto)
  qed
  moreover have "dated now (shut @ [?n])" using cl(2) n by (simp add: dated_def)
  ultimately show ?thesis using cl(1,2) by (simp add: db')
qed

lemma pause_step_keeps: "pause_inv owner s \<Longrightarrow> pause_step owner s t \<Longrightarrow> pause_inv owner t"
proof (erule pause_stepE)
  fix clock now task q db db'
  assume "pause_inv owner s" "s = (clock, db)" "t = (now, db')" "clock \<le> now"
    "change now (owner task) task q db = Inr db'"
  then show "pause_inv owner t" using change_keeps[of owner db clock now task q db']
    by (simp add: pause_inv_def)
next
  fix clock now db db'
  assume "pause_inv owner s" "s = (clock, db)" "t = (now, db')" "clock \<le> now"
    "db_pauses db' = db_pauses db"
  then show "pause_inv owner t" unfolding pause_inv_def dated_def by (auto intro: order_trans)
qed

interpretation standing: safe_system "pause_step owner" "pause_inv owner"
  by unfold_locales (rule pause_step_keeps)

definition pause_reachable :: "(int \<Rightarrow> int) \<Rightarrow> instant \<Rightarrow> engine_db \<Rightarrow> bool" where
  "pause_reachable owner clock db \<longleftrightarrow> (\<exists>start. (pause_step owner)\<^sup>*\<^sup>* (start, empty_db) (clock, db))"

lemma pause_reachable_inv:
  assumes "pause_reachable owner clock db"
  shows "pause_history owner (db_pauses db)" and "dated clock (db_pauses db)"
proof -
  have "pause_inv owner (start, empty_db)" for start
    by (simp add: pause_inv_def pause_history_def dated_def empty_db_def)
  then have "pause_inv owner (clock, db)"
    using assms standing.reachable_inv unfolding pause_reachable_def by blast
  then show "pause_history owner (db_pauses db)" "dated clock (db_pauses db)"
    by (simp_all add: pause_inv_def)
qed

section \<open>What a task of a run sees\<close>

lemma current_distinct:
  assumes h: "pause_history owner (db_pauses db)"
  shows "distinct (map p_task (current_pauses db pipeline))"
proof -
  have "distinct (current_pauses db pipeline)"
    using pause_ids[OF h] by (simp add: current_pauses_def distinct_map)
  moreover have "inj_on p_task (set (current_pauses db pipeline))"
    unfolding current_pauses_set by (auto intro!: inj_onI open_unique[OF h])
  ultimately show ?thesis by (simp add: distinct_map)
qed

lemma admitted_pause_Some:
  assumes "admitted_pause db run task = Some p"
  shows "p \<in> set (db_pauses db) \<and> p_task p = task \<and> \<not> broken_since (db_pauses db) p
    \<and> (\<exists>i \<in> set (db_interventions db). i_run i = run \<and> i_action i = PauseAdmission
         \<and> i_pause i = Some (p_id p))"
proof -
  from assms have "p \<in> set (admitted db run)" "p_task p = task"
    by (auto simp: admitted_pause_def dest!: find_SomeD)
  then show ?thesis by (auto simp: admitted_def)
qed

lemma effects_eq:
  assumes "pause_reachable owner clock db"
  shows "effects db (owner task) run now task =
    (case open_pause db (owner task) task of
       None \<Rightarrow> None
     | Some cur \<Rightarrow> if \<not> pause_active cur now then None
         else (case admitted_pause db run task of
            None \<Rightarrow> Some (cur, True)
          | Some pinned \<Rightarrow> if p_outcome pinned \<noteq> None \<and> pause_active pinned now
              then Some (pinned, False) else Some (cur, True)))"
proof -
  note h = pause_reachable_inv(1)[OF assms]
  let ?cur = "current_pauses db (owner task)"
  let ?f = "\<lambda>cur. if \<not> pause_active cur now then None
      else (case admitted_pause db run (p_task cur) of None \<Rightarrow> Some (cur, True)
        | Some pinned \<Rightarrow> if p_outcome pinned = None \<or> \<not> pause_active pinned now
            then Some (cur, True) else Some (pinned, False))"
  have e: "effects db (owner task) run now =
      fold (\<lambda>x m. case ?f x of None \<Rightarrow> m | Some v \<Rightarrow> m(p_task x \<mapsto> v)) ?cur (\<lambda>_. None)"
  proof -
    have "(\<lambda>x result. if \<not> pause_active x now then result
       else case admitted_pause db run (p_task x) of None \<Rightarrow> result(p_task x \<mapsto> (x, True))
         | Some pinned \<Rightarrow> if p_outcome pinned = None \<or> \<not> pause_active pinned now
             then result(p_task x \<mapsto> (x, True)) else result(p_task x \<mapsto> (pinned, False)))
      = (\<lambda>x m. case ?f x of None \<Rightarrow> m | Some v \<Rightarrow> m(p_task x \<mapsto> v))" (is "?g = ?h")
    proof (rule ext)+
      fix x m k
      show "?g x m k = ?h x m k"
        by (cases "pause_active x now"; cases "admitted_pause db run (p_task x)") simp_all
    qed
    from arg_cong[OF this, of "\<lambda>g. fold g ?cur (\<lambda>_. None)"] show ?thesis
      unfolding effects_def .
  qed
  show ?thesis
  proof (cases "open_pause db (owner task) task")
    case None
    then have "task \<notin> p_task ` set ?cur" by (auto simp: open_pause_def find_None_iff)
    with fold_dict_other[of task p_task ?cur ?f "\<lambda>_. None"] show ?thesis unfolding e None by simp
  next
    case (Some cur)
    then have cur: "cur \<in> set ?cur" "p_task cur = task" by (auto simp: open_pause_def dest!: find_SomeD)
    have "effects db (owner task) run now task = ?f cur"
      unfolding e using fold_dict[OF current_distinct[OF h] cur(1), of ?f "\<lambda>_. None"] cur(2)
      by (simp split: option.splits)
    with cur(2) show ?thesis unfolding Some by (simp split: option.splits)
  qed
qed

text \<open>
  The effect on a task of a run: none unless an open version is in effect; then the outcome of
  the version the run was admitted with, if that version still counts, has an outcome and has not
  expired; otherwise a hold, never an outcome the run was not admitted with.
\<close>

theorem effects_exact:
  assumes "pause_reachable owner clock db"
  shows "effects db (owner task) run now task =
    (case open_pause db (owner task) task of
       None \<Rightarrow> None
     | Some cur \<Rightarrow> if \<not> pause_active cur now then None
         else (case admitted_pause db run task of
            None \<Rightarrow> Some (cur, True)
          | Some pinned \<Rightarrow> if p_outcome pinned \<noteq> None \<and> pause_active pinned now
              then Some (pinned, False) else Some (cur, True)))"
  by (rule effects_eq[OF assms])

text \<open>An admitted version that still counts is followed without a gap up to the open one.\<close>

lemma paused_throughout:
  assumes h: "pause_history owner ps" and p: "p \<in> set ps" "p_task p = task" "\<not> broken_since ps p"
    and cur: "cur \<in> set ps" "p_task cur = task" "p_resumed cur = None" "pause_active cur now"
    and t: "p_at p \<le> t" "t \<le> now"
  shows "\<exists>v \<in> set ps. p_task v = task \<and> p_at v \<le> t
            \<and> (case p_resumed v of None \<Rightarrow> True | Some r \<Rightarrow> t < r) \<and> pause_active v t"
proof -
  let ?V = "{v \<in> set ps. p_task v = task \<and> p_id p \<le> p_id v \<and> p_at v \<le> t}"
  have fin: "finite (p_id ` ?V)" by simp
  have "p \<in> ?V" using p t by simp
  then have "Max (p_id ` ?V) \<in> p_id ` ?V" by (intro Max_in[OF fin]) blast
  then obtain v where v: "Max (p_id ` ?V) = p_id v" "v \<in> ?V" by (rule imageE)
  have top: "p_id w \<le> p_id v" if "w \<in> ?V" for w
    unfolding v(1)[symmetric] using that by (intro Max_ge[OF fin] imageI)
  note v = v(2)
  show ?thesis
  proof (cases "p_resumed v")
    case None
    then have "v = cur" using open_unique[OF h _ None cur(1,3)] v cur(2) by simp
    with v None cur(4) t show ?thesis
      by (intro bexI[of _ v]) (auto simp: pause_active_def split: option.splits)
  next
    case (Some r)
    have fine: "\<not> (case p_expires v of None \<Rightarrow> False | Some e \<Rightarrow> e \<le> r)"
      and succ: "\<exists>s \<in> set ps. p_task s = p_task v \<and> p_id s > p_id v \<and> p_at s = r"
      using p v Some unfolding broken_since_def list_ex_iff by force+
    from succ obtain s where s: "s \<in> set ps" "p_task s = p_task v" "p_id s > p_id v" "p_at s = r"
      by blast
    have "t < r"
    proof (rule ccontr)
      assume "\<not> t < r"
      with s v have "s \<in> ?V" by auto
      with top[of s] s(3) show False by simp
    qed
    with v Some fine show ?thesis
      by (intro bexI[of _ v]) (auto simp: pause_active_def split: option.splits)
  qed
qed

text \<open>
  C19. An outcome is inherited only by a run admitted with it, and only while the task has been
  paused without interruption: at every instant from that version's start until now some version
  of the task's pause was open and had not expired.
\<close>

theorem inherited_outcome_unbroken:
  assumes "pause_reachable owner clock db" and "effects db (owner task) run now task = Some (p, False)"
  shows "(\<exists>i \<in> set (db_interventions db). i_run i = run \<and> i_action i = PauseAdmission
         \<and> i_pause i = Some (p_id p))
    \<and> p_task p = task \<and> p_outcome p \<noteq> None
    \<and> (\<forall>t. p_at p \<le> t \<and> t \<le> now \<longrightarrow>
         (\<exists>v \<in> set (db_pauses db). p_task v = task \<and> p_at v \<le> t
            \<and> (case p_resumed v of None \<Rightarrow> True | Some r \<Rightarrow> t < r) \<and> pause_active v t))"
proof -
  note h = pause_reachable_inv(1)[OF assms(1)]
  have eff: "admitted_pause db run task = Some p \<and> p_outcome p \<noteq> None
      \<and> (\<exists>cur. open_pause db (owner task) task = Some cur \<and> pause_active cur now)"
    using assms(2) unfolding effects_eq[OF assms(1)]
    by (auto split: option.splits if_splits)
  then obtain cur where cur: "open_pause db (owner task) task = Some cur" "pause_active cur now" by blast
  note l = open_pause_Some[OF cur(1)]
  note p = admitted_pause_Some[OF conjunct1[OF eff]]
  have "\<exists>v \<in> set (db_pauses db). p_task v = task \<and> p_at v \<le> t
            \<and> (case p_resumed v of None \<Rightarrow> True | Some r \<Rightarrow> t < r) \<and> pause_active v t"
    if "p_at p \<le> t" "t \<le> now" for t
    by (rule paused_throughout[OF h _ _ _ _ _ _ cur(2) that]) (use p l in \<open>simp_all\<close>)
  with p eff show ?thesis by blast
qed

text \<open>A pause of task 70, a run admitted under it, and the pause replaced by a hold.\<close>

definition demo_request :: "bool \<Rightarrow> run_status option \<Rightarrow> pause_request" where
  "demo_request replace st =
     \<lparr>q_pausing = True, q_replace = replace, q_then = False, q_outcome = st, q_expires = None\<rparr>"

definition demo_paused :: engine_db where
  "demo_paused = projr (change 1 7 70 (demo_request False (Some RunSuccess)) empty_db)"

definition demo_admitted :: engine_db where
  "demo_admitted = snd (projr (create_run 2 7 ''run'' TrigManual RunInProgress demo_paused))"

definition demo_replaced :: engine_db where
  "demo_replaced = projr (change 3 7 70 (demo_request True None) demo_admitted)"

lemma demo_pause_reachable: "pause_reachable (\<lambda>_. 7) 3 demo_replaced"
proof -
  have 1: "\<not> is_err (change 1 7 70 (demo_request False (Some RunSuccess)) empty_db)" by code_simp
  have 3: "\<not> is_err (change 3 7 70 (demo_request True None) demo_admitted)" by code_simp
  have 2: "db_pauses demo_admitted = db_pauses demo_paused" by code_simp
  have "pause_step (\<lambda>_. 7) (0, empty_db) (1, demo_paused)"
    using pause_step.change_pause[of 0 1 "\<lambda>_. 7", OF _ Inr_projr[OF 1]] by (simp add: demo_paused_def)
  moreover have "pause_step (\<lambda>_. 7) (1, demo_paused) (2, demo_admitted)"
    by (rule pause_step.other) (simp_all add: 2)
  moreover have "pause_step (\<lambda>_. 7) (2, demo_admitted) (3, demo_replaced)"
    using pause_step.change_pause[of 2 3 "\<lambda>_. 7", OF _ Inr_projr[OF 3]] by (simp add: demo_replaced_def)
  ultimately show ?thesis
    unfolding pause_reachable_def by (meson rtranclp.rtrancl_refl rtranclp.rtrancl_into_rtrancl)
qed

theorem inherited_outcome_unbroken_witness:
  "\<exists>v \<in> set (db_pauses demo_replaced). p_task v = 70 \<and> p_at v \<le> 3
     \<and> (case p_resumed v of None \<Rightarrow> True | Some r \<Rightarrow> 3 < r) \<and> pause_active v 3"
proof -
  have "let e = effects demo_replaced 7 1 4 70 in e \<noteq> None \<and> snd (the e) = False \<and> p_at (fst (the e)) = 1"
    by code_simp
  then obtain p where p: "effects demo_replaced ((\<lambda>_. 7) (70 :: int)) 1 4 70 = Some (p, False)" "p_at p = 1"
    by (cases "effects demo_replaced 7 1 4 70") (auto simp: Let_def)
  have "p_at p \<le> 3 \<and> (3 :: int) \<le> 4" using p(2) by simp
  with inherited_outcome_unbroken[OF demo_pause_reachable p(1)] show ?thesis by blast
qed

section \<open>Settling a task\<close>

lemma guard_frames:
  "guard_task_row db k g u = Inr db' \<Longrightarrow> db_pauses db' = db_pauses db \<and> db_interventions db' = db_interventions db"
  "guard_attempt_row db k g' u' = Inr db' \<Longrightarrow> db_pauses db' = db_pauses db \<and> db_interventions db' = db_interventions db"
  "sync_attempt_summary k db = Inr db' \<Longrightarrow> db_pauses db' = db_pauses db \<and> db_interventions db' = db_interventions db"
  by (auto simp: guard_task_row_def guard_attempt_row_def sync_attempt_summary_def split: option.splits)

lemma record_attempt_failure_frame:
  "record_attempt_failure k f ov db = Inr db' \<Longrightarrow>
     db_pauses db' = db_pauses db \<and> db_interventions db' = db_interventions db"
  by (auto simp: record_attempt_failure_def split: option.splits sum.splits if_splits dest: guard_frames)

lemma cancel_attempt_frame:
  assumes "cancel_attempt now k err tail db = Inr db'"
  shows "db_pauses db' = db_pauses db \<and> db_interventions db' = db_interventions db"
proof -
  from assms obtain db1 where "guard_attempt_row db k (\<lambda>a. live_status (a_status a))
        (ended now AttCancelled (plain_report (Some err) tail)) = Inr db1"
      "sync_attempt_summary k db1 = Inr db'"
    by (auto simp: cancel_attempt_def end_attempt_def record_attempt_ending_def err_simps)
  then show ?thesis by (auto dest!: guard_frames)
qed

lemma mark_task_run_result:
  assumes inv: "lifecycle_inv db" and m: "mark_task_run now tr st msg rows db = Inr db'"
    and t: "t \<in> set (db_tasks db)" "t_id t = tr"
  shows "db_pauses db' = db_pauses db \<and> db_interventions db' = db_interventions db \<and> \<not> live_of db' tr
    \<and> (\<exists>t' \<in> set (db_tasks db'). t_id t' = tr \<and> t_task t' = t_task t \<and> t_run t' = t_run t \<and> t_status t' = st)"
proof -
  let ?u = "\<lambda>t. t\<lparr>t_status := st, t_end := Some now, t_error := Some msg,
      t_counts := (if st = RunSuccess
        then (t_counts t)\<lparr>c_target_count := rows, c_rows_written := rows\<rparr> else t_counts t)\<rparr>"
  from m obtain db1 where one: "(case active_attempt db tr of None \<Rightarrow> Inr db
        | Some a \<Rightarrow> cancel_attempt now (a_id a) msg None db) = Inr db1"
    and two: "guard_task_row db1 tr (\<lambda>_. \<not> live_of db1 tr) ?u = Inr db'"
    by (auto simp: mark_task_run_def err_simps)
  have inv1: "lifecycle_inv db1"
    using one inv by (auto split: option.splits intro: cancel_attempt_keeps)
  have same: "\<exists>s \<in> set (db_tasks db1). t_id s = tr \<and> t_task s = t_task t \<and> t_run s = t_run t"
  proof (cases "active_attempt db tr")
    case None
    with one t show ?thesis by auto
  next
    case (Some a)
    with one have "\<exists>as. sync_attempt_summary (a_id a) (db\<lparr>db_attempts := as\<rparr>) = Inr db1"
      by (auto simp: cancel_attempt_def end_attempt_def record_attempt_ending_def err_simps
          guard_attempt_row_def split: option.splits)
    then obtain as where "sync_attempt_summary (a_id a) (db\<lparr>db_attempts := as\<rparr>) = Inr db1" by blast
    then have "\<exists>db0. db_tasks db0 = db_tasks db \<and> sync_attempt_summary (a_id a) db0 = Inr db1"
      by (intro exI[of _ "db\<lparr>db_attempts := as\<rparr>"]) simp
    then obtain db0 where "db_tasks db0 = db_tasks db" "sync_attempt_summary (a_id a) db0 = Inr db1"
      by blast
    then obtain b rows where "db_tasks db1 = rows"
      "compare_and_set t_id (a_task_run b) (\<lambda>_. \<not> newer_attempt db0 (a_task_run b) (a_number b))
         (summary_of b) (db_tasks db) = Some rows"
      by (auto simp: sync_attempt_summary_def split: option.splits)
    then have rows: "db_tasks db1 = map (\<lambda>x. if t_id x = a_task_run b
        \<and> \<not> newer_attempt db0 (a_task_run b) (a_number b) then summary_of b x else x) (db_tasks db)"
      by (simp add: compare_and_set_def split: if_splits)
    let ?s = "if t_id t = a_task_run b \<and> \<not> newer_attempt db0 (a_task_run b) (a_number b)
        then summary_of b t else t"
    have "?s \<in> set (db_tasks db1)" unfolding rows using t(1) by simp
    moreover have "t_id ?s = tr \<and> t_task ?s = t_task t \<and> t_run ?s = t_run t"
      using t(2) by (simp add: summary_of_def)
    ultimately show ?thesis by blast
  qed
  from inv1 have wi1: "work_inv db1" by (simp add: lifecycle_inv_def)
  have quiet: "\<not> live_of db1 tr"
    and db': "db' = db1\<lparr>db_tasks := map (\<lambda>x. if t_id x = tr then ?u x else x) (db_tasks db1)\<rparr>"
    using two unfolding guard_task_Inr[OF wi1] by blast+
  obtain s where s: "s \<in> set (db_tasks db1)" "t_id s = tr" "t_task s = t_task t" "t_run s = t_run t"
    using same by blast
  have "db_tasks db' = map (\<lambda>x. if t_id x = tr then ?u x else x) (db_tasks db1)" by (simp add: db')
  moreover have "?u s = (if t_id s = tr then ?u s else s)" using s(2) by simp
  ultimately have "?u s \<in> set (db_tasks db')" using s(1) by (simp only: set_map) (rule image_eqI)
  then have "\<exists>t' \<in> set (db_tasks db'). t_id t' = tr \<and> t_task t' = t_task t \<and> t_run t' = t_run t
      \<and> t_status t' = st" using s by (intro bexI[of _ "?u s"]) auto
  moreover have "\<not> live_of db' tr" using quiet by (simp add: live_of_def db')
  moreover have "db_pauses db' = db_pauses db \<and> db_interventions db' = db_interventions db"
    using one cancel_attempt_frame by (auto simp: db' split: option.splits)
  ultimately show ?thesis by blast
qed

lemma find_or_create_result:
  assumes c: "find_or_create_task_run now refusal task run db = Inr (b, db')"
  shows "db_pauses db' = db_pauses db \<and> db_interventions db' = db_interventions db
    \<and> (\<exists>t \<in> set (db_tasks db'). t_id t = b_task_run b \<and> t_task t = task \<and> t_run t = run)"
  using c by (auto simp: find_or_create_task_run_def new_task_run_def split: option.splits
      dest!: find_SomeD)

text \<open>What a first application writes, and what it leaves for the next one to find.\<close>

lemma apply_pause_steps:
  assumes r: "reachable capacity db" and st: "p_outcome p = Some st"
    and first: "\<And>q. applied db run (p_task p) = Some q \<Longrightarrow> p_outcome q = None"
    and a: "apply_pause now refusal utility message p run db = Inr db'"
  shows "reachable capacity db'" and "db_pauses db' = db_pauses db"
    and "db_interventions db' = db_interventions db @ [application_of run p (Some st)]"
    and "\<exists>t \<in> set (db_tasks db'). t_task t = p_task p \<and> t_run t = run \<and> t_status t = st
         \<and> \<not> live_of db' (t_id t)"
proof -
  let ?count = "if utility then None else Some 0"
  let ?i = "application_of run p (Some st)"
  have "\<not> (case applied db run (p_task p) of None \<Rightarrow> False | Some previous \<Rightarrow> p_outcome previous \<noteq> None)"
    using first by (auto split: option.splits)
  with st a obtain b db1 db2 where
      b: "find_or_create_task_run now refusal (p_task p) run db = Inr (b, db1)"
    and m: "mark_task_run now (b_task_run b) st message ?count db1 = Inr db2"
    and db': "db' = (pause_summary (b_task_run b) ?count db2)\<lparr>db_interventions :=
        db_interventions db2 @ [?i]\<rparr>"
    by (auto simp: apply_pause_def err_simps Let_def pause_summary_def)
  note f = find_or_create_result[OF b]
  then obtain t where t: "t \<in> set (db_tasks db1)" "t_id t = b_task_run b" "t_task t = p_task p" "t_run t = run"
    by blast
  have inv1: "lifecycle_inv db1" by (rule find_or_create_keeps[OF reachable_safe[OF r] b])
  note m' = mark_task_run_result[OF inv1 m t(1,2)]
  then obtain s where s: "s \<in> set (db_tasks db2)" "t_id s = b_task_run b" "t_task s = p_task p"
      "t_run s = run" "t_status s = st" using t by metis
  have "lifecycle_step capacity db db1" "lifecycle_step capacity db1 db2"
    "lifecycle_step capacity db2 (pause_summary (b_task_run b) ?count db2)"
    using lifecycle_step.bind[OF b] lifecycle_step.mark_task[OF m] lifecycle_step.pause_summary by blast+
  moreover have "lifecycle_step capacity (pause_summary (b_task_run b) ?count db2) db'"
    using lifecycle_step.intervene[of capacity "pause_summary (b_task_run b) ?count db2" "[?i]"]
    by (simp add: db' pause_summary_def)
  ultimately show "reachable capacity db'"
    using r unfolding reachable_def by (meson rtranclp.rtrancl_into_rtrancl)
  let ?s = "if t_id s = b_task_run b \<and> \<not> list_ex (\<lambda>a. a_task_run a = b_task_run b) (db_attempts db2)
      then s\<lparr>t_attempts := 0, t_counts := (t_counts s)\<lparr>c_target_count := ?count, c_rows_written := ?count\<rparr>\<rparr>
      else s"
  have "?s \<in> set (db_tasks db')" unfolding db' pause_summary_def using s(1) by simp
  moreover have "t_id ?s = t_id s" "t_task ?s = p_task p" "t_run ?s = run" "t_status ?s = st"
    using s by simp_all
  moreover have "live_of db' (t_id s) = live_of db2 (t_id s)"
    by (simp add: live_of_def db' pause_summary_def)
  moreover have "\<not> live_of db2 (t_id s)" using m' s(2) by simp
  ultimately show "\<exists>t \<in> set (db_tasks db'). t_task t = p_task p \<and> t_run t = run \<and> t_status t = st
         \<and> \<not> live_of db' (t_id t)" by (intro bexI[of _ ?s] conjI) simp_all
  show "db_pauses db' = db_pauses db" "db_interventions db' = db_interventions db @ [?i]"
    using f m' by (simp_all add: db' pause_summary_def)
qed

lemma applied_latest:
  assumes "p \<in> set (db_pauses db)"
    and "db_interventions db = is @ [application_of run p (Some st)]"
  shows "\<exists>q. applied db run (p_task p) = Some q \<and> p_outcome q = Some st"
proof -
  let ?rows = "filter (\<lambda>q. Some (p_id q) = Some (p_id p)) (db_pauses db)"
  have "?rows \<noteq> []" using assms(1) by (auto simp: filter_empty_conv)
  then obtain q qs where "?rows = q # qs" by (cases ?rows) auto
  then show ?thesis by (simp add: applied_def assms(2) application_of_def)
qed

text \<open>
  Applying an outcome settles the task of the run without an attempt: its summary has the
  outcome and no attempt of it is live, the application is recorded, and applying again, whatever
  the version, changes nothing. A success that no attempt of the run produced makes the run stand
  on a pause, so that finishing it successfully publishes no output revision.
\<close>

theorem apply_pause_settles:
  assumes "reachable capacity db" and "p \<in> set (db_pauses db)" and "p_outcome p = Some st"
    and "\<And>q. applied db run (p_task p) = Some q \<Longrightarrow> p_outcome q = None"
    and "apply_pause now refusal utility message p run db = Inr db'"
  shows "reachable capacity db'
    \<and> (\<exists>t \<in> set (db_tasks db'). t_task t = p_task p \<and> t_run t = run \<and> t_status t = st
         \<and> \<not> live_of db' (t_id t))
    \<and> (\<forall>p'. p_task p' = p_task p \<longrightarrow>
         apply_pause later refusal' utility' message' p' run db' = Inr db')
    \<and> (st = RunSuccess
         \<and> \<not> (\<exists>t \<in> set (db_tasks db'). t_run t = run \<and> t_task t = p_task p
               \<and> (\<exists>a \<in> set (db_attempts db'). a_task_run a = t_id t \<and> a_status a = AttSuccess))
       \<longrightarrow> stands_on_pause db' run)"
proof -
  note a = apply_pause_steps[OF assms(1,3,4,5)]
  let ?i = "application_of run p (Some st)"
  have "\<exists>q. applied db' run (p_task p) = Some q \<and> p_outcome q = Some st"
    using applied_latest[of p db'] assms(2) a(2,3) by simp
  then have "\<forall>p'. p_task p' = p_task p \<longrightarrow>
      apply_pause later refusal' utility' message' p' run db' = Inr db'"
    by (auto simp: apply_pause_def)
  moreover have "stands_on_pause db' run" if "st = RunSuccess"
    "\<not> (\<exists>t \<in> set (db_tasks db'). t_run t = run \<and> t_task t = p_task p
          \<and> (\<exists>a \<in> set (db_attempts db'). a_task_run a = t_id t \<and> a_status a = AttSuccess))"
  proof -
    have "?i \<in> set (db_interventions db')" by (simp add: a(3))
    then show ?thesis using that unfolding stands_on_pause_def list_ex_iff
      by (intro bexI[of _ ?i]) (auto simp: application_of_def)
  qed
  ultimately show ?thesis using a(1,4) by blast
qed

end
