(* ===== verification/Sql_Scan.thy ===== *)
theory Sql_Scan
  imports Enums
begin

text \<open>
  The SQL scanner of \<^verbatim>\<open>core/text.py\<close>: \<open>sql_parts\<close> cuts a text into code and protected parts
  (quoted strings and identifiers, dollar-quoted bodies, comments). The lemmas show that it
  ends, that the parts are the text in order, that no quote or comment begins in a code part,
  and that a quoted identifier is scanned as one protected part.
\<close>

section \<open>Positions in a text\<close>

text \<open>\<open>s[i:j]\<close>, \<open>s.startswith(p, i)\<close> and \<open>s.find(p, i)\<close> (whose -1 is \<open>None\<close>).\<close>

definition slice :: "'a list \<Rightarrow> nat \<Rightarrow> nat \<Rightarrow> 'a list" where
  "slice s i j = take (j - i) (drop i s)"

definition starts_at :: "'a list \<Rightarrow> 'a list \<Rightarrow> nat \<Rightarrow> bool" where
  "starts_at p s i \<longleftrightarrow> i \<le> length s \<and> starts_with p (drop i s)"

definition find_at :: "'a list \<Rightarrow> 'a list \<Rightarrow> nat \<Rightarrow> nat option" where
  "find_at p s i = find (starts_at p s) [i ..< Suc (length s)]"

definition is_alpha :: "char \<Rightarrow> bool" where
  "is_alpha c \<longleftrightarrow> (let n = of_char c :: nat in
     (65 \<le> n \<and> n \<le> 90) \<or> (97 \<le> n \<and> n \<le> 122) \<or> n = 170 \<or> n = 181 \<or> n = 186
     \<or> (192 \<le> n \<and> n \<le> 255 \<and> n \<noteq> 215 \<and> n \<noteq> 247))"

definition is_alnum :: "char \<Rightarrow> bool" where
  "is_alnum c \<longleftrightarrow> is_alpha c \<or> (let n = of_char c :: nat in
     (48 \<le> n \<and> n \<le> 57) \<or> n \<in> {178, 179, 185, 188, 189, 190})"

lemma slice_length: "i \<le> j \<Longrightarrow> j \<le> length s \<Longrightarrow> length (slice s i j) = j - i"
  by (simp add: slice_def)

lemma slice_append: "i \<le> j \<Longrightarrow> slice s i j @ drop j s = drop i s"
  unfolding slice_def by (metis append_take_drop_id drop_drop le_add_diff_inverse2)

lemma slice_nth: "i \<le> k \<Longrightarrow> k < j \<Longrightarrow> j \<le> length s \<Longrightarrow> slice s i j ! (k - i) = s ! k"
  by (simp add: slice_def)

lemma starts_at_length: "starts_at p s i \<Longrightarrow> i + length p \<le> length s"
proof -
  assume at: "starts_at p s i"
  then obtain t where "drop i s = p @ t" and "i \<le> length s"
    by (auto simp: starts_at_def starts_with_iff)
  then have "length s - i = length p + length t" by (metis length_append length_drop)
  with \<open>i \<le> length s\<close> show "i + length p \<le> length s" by simp
qed

lemma find_atD:
  assumes "find_at p s i = Some j"
  shows "i \<le> j" and "starts_at p s j" and "j + length p \<le> length s"
proof -
  from find_SomeD[OF assms[unfolded find_at_def]] show "i \<le> j" "starts_at p s j" by auto
  then show "j + length p \<le> length s" using starts_at_length by blast
qed

section \<open>Protected parts\<close>

text \<open>The characters that open quotes.\<close>

abbreviation squote :: char where "squote \<equiv> CHR 0x27"
abbreviation dquote :: char where "dquote \<equiv> CHR 0x22"
abbreviation backtick :: char where "backtick \<equiv> CHR 0x60"
abbreviation dollar :: char where "dollar \<equiv> CHR 0x24"
abbreviation backslash :: char where "backslash \<equiv> CHR 0x5C"
abbreviation newline :: char where "newline \<equiv> CHR 0x0A"

text \<open>
  \<open>_end_of_string_literal\<close>: the loop from just after the opening quote. Doubled quotes stay
  inside; in an E-string a backslash takes the next character with it.
\<close>

function literal_loop :: "string \<Rightarrow> char \<Rightarrow> bool \<Rightarrow> nat \<Rightarrow> nat" where
  "literal_loop s q escaped i =
     (if i < length s
      then (if escaped \<and> s ! i = backslash then literal_loop s q escaped (i + 2)
            else if s ! i = q
            then (if i + 1 < length s \<and> s ! (i + 1) = q
                  then literal_loop s q escaped (i + 2)
                  else i + 1)
            else literal_loop s q escaped (i + 1))
      else length s)"
  by pat_completeness auto
termination by (relation "measure (\<lambda>(s, q, e, i). length s - i)") auto

declare literal_loop.simps [simp del]

definition end_of_string_literal :: "string \<Rightarrow> nat \<Rightarrow> char \<Rightarrow> nat" where
  "end_of_string_literal s start q =
     literal_loop s q (q = squote \<and> 0 < start \<and> s ! (start - 1) \<in> {CHR ''E'', CHR ''e''})
       (start + 1)"

text \<open>A block comment nests; an unfinished one takes the rest of the text.\<close>

function comment_loop :: "string \<Rightarrow> nat \<Rightarrow> nat \<Rightarrow> nat" where
  "comment_loop s depth i =
     (if i < length s \<and> depth \<noteq> 0
      then (if starts_at ''/*'' s i then comment_loop s (depth + 1) (i + 2)
            else if starts_at ''*/'' s i then comment_loop s (depth - 1) (i + 2)
            else comment_loop s depth (i + 1))
      else i)"
  by pat_completeness auto
termination by (relation "measure (\<lambda>(s, d, i). length s - i)") auto

declare comment_loop.simps [simp del]

text \<open>\<open>_dollar_tag_at\<close>: \<open>$$\<close> or \<open>$name$\<close> at a position, else none.\<close>

definition dollar_tag_at :: "string \<Rightarrow> nat \<Rightarrow> string option" where
  "dollar_tag_at s i =
     (case find_at [dollar] s (i + 1) of
        None \<Rightarrow> None
      | Some e \<Rightarrow>
          (let body = slice s (i + 1) e in
           if body \<noteq> [] \<and> \<not> (is_alpha (hd body) \<or> hd body = CHR ''_'') then None
           else if \<not> list_all (\<lambda>c. is_alnum c \<or> c = CHR ''_'') body then None
           else Some (slice s i (e + 1))))"

text \<open>
  Where the protected part that begins at a position ends, or the position itself when none
  begins there. Whether \<open>$$\<close> there begins a task token rather than a quoted body is decided
  by \<open>token\<close>, given the tag and the position of its closing occurrence.
\<close>

definition protected_end ::
  "(string \<Rightarrow> nat \<Rightarrow> string \<Rightarrow> nat option \<Rightarrow> bool) \<Rightarrow> string \<Rightarrow> nat \<Rightarrow> nat" where
  "protected_end token s i =
     (if starts_at ''--'' s i then (case find_at [newline] s i of None \<Rightarrow> length s | Some e \<Rightarrow> e)
      else if starts_at ''/*'' s i then comment_loop s 1 (i + 2)
      else if s ! i \<in> {squote, dquote, backtick} then end_of_string_literal s i (s ! i)
      else if s ! i = dollar then
        (case dollar_tag_at s i of
           None \<Rightarrow> i
         | Some tag \<Rightarrow>
             (let close = find_at tag s (i + length tag) in
              if token s i tag close then i
              else (case close of None \<Rightarrow> length s | Some c \<Rightarrow> c + length tag)))
      else i)"

text \<open>\<open>sql_parts\<close>: the code part in hand begins at \<open>start\<close>, the scan stands at \<open>i\<close>.\<close>

function scan :: "(string \<Rightarrow> nat \<Rightarrow> nat) \<Rightarrow> string \<Rightarrow> nat \<Rightarrow> nat \<Rightarrow> (string \<times> bool) list" where
  "scan e s i start =
     (if i < length s
      then (if e s i > i
            then (if start < i then [(slice s start i, False)] else [])
                 @ (slice s i (e s i), True) # scan e s (e s i) (e s i)
            else scan e s (i + 1) start)
      else if start < length s then [(drop start s, False)] else [])"
  by pat_completeness auto
termination by (relation "measure (\<lambda>(e, s, i, start). length s - i)") auto

declare scan.simps [simp del]

text \<open>Without placeholders every dollar tag opens a body.\<close>

definition plain_end :: "string \<Rightarrow> nat \<Rightarrow> nat" where
  "plain_end = protected_end (\<lambda>s i tag close. False)"

text \<open>\<open>_delimiter_in_quote_or_comment\<close>: the part a later delimiter falls in.\<close>

fun delimiter_loop :: "nat \<Rightarrow> nat \<Rightarrow> (string \<times> bool) list \<Rightarrow> bool" where
  "delimiter_loop delimiter offset [] = False"
| "delimiter_loop delimiter offset ((part, protected) # parts) =
     (if offset \<le> delimiter \<and> delimiter < offset + length part
      then protected \<and> (starts_with [squote] part \<or> starts_with [dquote] part
             \<or> starts_with [backtick] part \<or> starts_with ''--'' part \<or> starts_with ''/*'' part)
      else delimiter_loop delimiter (offset + length part) parts)"

definition delimiter_in_quote_or_comment :: "string \<Rightarrow> nat \<Rightarrow> nat \<Rightarrow> bool" where
  "delimiter_in_quote_or_comment s start delimiter =
     delimiter_loop delimiter start (scan plain_end (drop start s) 0 0)"

text \<open>The regular expression \<open>TOKEN\<close> at a position: \<open>$$\<close> and an ASCII identifier.\<close>

definition ident_start :: "char \<Rightarrow> bool" where
  "ident_start c \<longleftrightarrow> (let n = of_char c :: nat in
     (65 \<le> n \<and> n \<le> 90) \<or> (97 \<le> n \<and> n \<le> 122) \<or> n = 95)"

definition ident_char :: "char \<Rightarrow> bool" where
  "ident_char c \<longleftrightarrow> ident_start c \<or> (let n = of_char c :: nat in 48 \<le> n \<and> n \<le> 57)"

definition token_at :: "string \<Rightarrow> string option" where
  "token_at s =
     (case s of
        a # b # c # _ \<Rightarrow>
          if a = dollar \<and> b = dollar \<and> ident_start c
          then Some (takeWhile ident_char (drop 2 s)) else None
      | _ \<Rightarrow> None)"

text \<open>A \<open>$$name\<close> is a token unless its \<open>$$\<close> closes again, outside quotes, as a body's end.\<close>

definition is_token :: "string \<Rightarrow> nat \<Rightarrow> string \<Rightarrow> nat option \<Rightarrow> bool" where
  "is_token s i tag close =
     (case (if tag = [dollar, dollar] then token_at (drop i s) else None) of
        None \<Rightarrow> False
      | Some name \<Rightarrow>
          (let end = i + 2 + length name in
           case close of
             None \<Rightarrow> True
           | Some c \<Rightarrow>
               (c \<noteq> end \<and> token_at (drop c s) \<noteq> None)
               \<or> delimiter_in_quote_or_comment s end c
               \<or> starts_at [dollar, dollar, dollar, dollar] s c))"

definition sql_parts :: "bool \<Rightarrow> string \<Rightarrow> (string \<times> bool) list" where
  "sql_parts placeholders s =
     scan (protected_end (if placeholders then is_token else (\<lambda>s i tag close. False))) s 0 0"

section \<open>The scanner ends inside the text\<close>

lemma literal_loop_bounds:
  "literal_loop s q e i \<le> length s \<and> min i (length s) \<le> literal_loop s q e i"
proof (induction s q e i rule: literal_loop.induct)
  case (1 s q e i)
  note step = literal_loop.simps[of s q e i]
  show ?case unfolding step using 1 by (auto simp: not_less)
qed

lemma comment_loop_bounds:
  "i \<le> length s \<Longrightarrow> i \<le> comment_loop s d i \<and> comment_loop s d i \<le> length s"
proof (induction s d i rule: comment_loop.induct)
  case (1 s d i)
  have "i + 2 \<le> length s" if "starts_at ''/*'' s i \<or> starts_at ''*/'' s i"
    using that starts_at_length[of "''/*''" s i] starts_at_length[of "''*/''" s i] by auto
  note room = this
  note step = comment_loop.simps[of s d i]
  show ?case unfolding step using 1 room by auto
qed

lemma end_of_string_literal_bounds:
  assumes "i < length s"
  shows "i < end_of_string_literal s i q \<and> end_of_string_literal s i q \<le> length s"
proof -
  have "i + 1 \<le> literal_loop s q e (i + 1) \<and> literal_loop s q e (i + 1) \<le> length s" for e
    using literal_loop_bounds[of s q e "i + 1"] assms by simp
  then show ?thesis unfolding end_of_string_literal_def by (simp add: Suc_le_eq)
qed

lemma block_comment_bounds:
  assumes "starts_at ''/*'' s i"
  shows "i < comment_loop s 1 (i + 2) \<and> comment_loop s 1 (i + 2) \<le> length s"
  using comment_loop_bounds[of "i + 2" s 1] starts_at_length[OF assms] by simp

lemma line_comment_end:
  assumes "find_at [newline] s i = Some e" and "starts_at ''--'' s i"
  shows "i < e \<and> e \<le> length s"
proof -
  note found = find_atD[OF assms(1)]
  have "e \<noteq> i"
    using found(2) assms(2) by (auto simp: starts_at_def starts_with_iff)
  with found(1,3) show ?thesis by simp
qed

lemma protected_end_bounds:
  assumes "i < length s"
  shows "i \<le> protected_end t s i" and "protected_end t s i \<le> length s"
proof -

  have body: "i \<le> c + length tag \<and> c + length tag \<le> length s"
    if "find_at tag s (i + length tag) = Some c" for tag c
    using find_atD(1,3)[OF that] by simp
  have "i \<le> protected_end t s i \<and> protected_end t s i \<le> length s"
    using block_comment_bounds[of s i] end_of_string_literal_bounds[OF assms, of "s ! i"]
      assms line_comment_end[of s i] body
    unfolding protected_end_def Let_def
    by (simp add: less_imp_le split: option.split)
  then show "i \<le> protected_end t s i" "protected_end t s i \<le> length s" by auto
qed

text \<open>Quotes and comments always make a protected part.\<close>

definition opens_part :: "string \<Rightarrow> nat \<Rightarrow> bool" where
  "opens_part s i \<longleftrightarrow> s ! i \<in> {squote, dquote, backtick} \<or> starts_at ''--'' s i \<or> starts_at ''/*'' s i"

lemma protected_end_opens:
  assumes "i < length s" and "opens_part s i"
  shows "i < protected_end t s i"
  using block_comment_bounds[of s i] end_of_string_literal_bounds[OF assms(1), of "s ! i"]
    assms line_comment_end[of s i]
  unfolding protected_end_def opens_part_def by (auto split: option.split)

section \<open>What the parts are\<close>

text \<open>
  The contract between the scan and the rule that says where protected parts end: a rule that
  moves forward and stays inside the text.
\<close>

locale part_rule =
  fixes e :: "string \<Rightarrow> nat \<Rightarrow> nat"
  assumes stays: "i < length s \<Longrightarrow> e s i \<le> length s"
    and opens: "i < length s \<Longrightarrow> opens_part s i \<Longrightarrow> i < e s i"
begin

lemma scan_concat:
  "start \<le> i \<Longrightarrow> i \<le> length s \<Longrightarrow> concat (map fst (scan e s i start)) = drop start s"
proof (induction "length s - i" arbitrary: i start rule: less_induct)
  case less
  consider (opened) "i < length s" "i < e s i" | (code) "i < length s" "\<not> i < e s i"
    | (finished) "i = length s"
    using less.prems by linarith
  then show ?case
  proof cases
    case opened
    have "concat (map fst (scan e s (e s i) (e s i))) = drop (e s i) s"
      using less.hyps[of "e s i" "e s i"] opened stays by simp
    then show ?thesis
      using opened less.prems stays slice_append[of start i s] slice_append[of i "e s i" s]
      by (subst scan.simps) (auto simp: slice_def)
  next
    case code
    with less show ?thesis by (subst scan.simps) simp
  next
    case finished
    with less.prems show ?thesis by (subst scan.simps) auto
  qed
qed

text \<open>Where each part stands: a code part is a stretch at which nothing opens.\<close>

definition stands :: "string \<Rightarrow> string \<times> bool \<Rightarrow> bool" where
  "stands s p \<longleftrightarrow> (\<exists>a b. a < b \<and> b \<le> length s \<and> fst p = slice s a b \<and>
     (if snd p then b = e s a else (\<forall>j. a \<le> j \<and> j < b \<longrightarrow> \<not> j < e s j)))"

lemma scan_stands:
  "start \<le> i \<Longrightarrow> i \<le> length s \<Longrightarrow> (\<And>j. start \<le> j \<Longrightarrow> j < i \<Longrightarrow> \<not> j < e s j)
    \<Longrightarrow> p \<in> set (scan e s i start) \<Longrightarrow> stands s p"
proof (induction "length s - i" arbitrary: i start rule: less_induct)
  case less
  have code_part: "stands s (slice s start j, False)"
    if "start < j" "j \<le> length s" "\<And>k. start \<le> k \<Longrightarrow> k < j \<Longrightarrow> \<not> k < e s k" for j
    unfolding stands_def by (rule exI[of _ start], rule exI[of _ j], use that in simp)
  consider (opened) "i < length s" "i < e s i" | (code) "i < length s" "\<not> i < e s i"
    | (finished) "i = length s"
    using less.prems by linarith
  then show ?case
  proof cases
    case opened
    with less.prems(4) consider "start < i" "p = (slice s start i, False)"
      | "p = (slice s i (e s i), True)" | "p \<in> set (scan e s (e s i) (e s i))"
      by (subst (asm) scan.simps) (auto split: if_splits)
    then show ?thesis
    proof cases
      case 1
      with code_part[of i] less.prems opened show ?thesis by auto
    next
      case 2
      then show ?thesis
        unfolding stands_def
        by - (rule exI[of _ i], rule exI[of _ "e s i"], use opened stays in simp)
    next
      case 3
      with less.hyps[of "e s i" "e s i"] opened stays show ?thesis by simp
    qed
  next
    case code
    have "\<not> j < e s j" if "start \<le> j" "j < i + 1" for j
      using less.prems(3)[of j] code that by (cases "j = i") auto
    moreover have "p \<in> set (scan e s (i + 1) start)"
      using less.prems(4) code by (subst (asm) scan.simps) simp
    ultimately show ?thesis
      using code less.prems(1) by (intro less.hyps[of "i + 1" start]) auto
  next
    case finished
    with less.prems(4) have "start < length s" "p = (drop start s, False)"
      by (subst (asm) scan.simps, simp split: if_splits)+
    with code_part[of "length s"] finished less.prems show ?thesis by (simp add: slice_def)
  qed
qed

text \<open>Two code parts never stand side by side.\<close>

lemma scan_alternates: "i \<le> length s \<Longrightarrow>
    linked (\<lambda>p q. snd p \<or> snd q) (scan e s i start)"
proof (induction "length s - i" arbitrary: i start rule: less_induct)
  case less
  show ?case
  proof (cases "i < length s \<and> i < e s i")
    case True
    then have "length s - e s i < length s - i" and "e s i \<le> length s"
      using stays[of i s] by linarith+
    then have "linked (\<lambda>p q. snd p \<or> snd q) (scan e s (e s i) (e s i))"
      by (rule less.hyps)
    with True show ?thesis
      by (subst scan.simps) (auto simp: linked_Cons)
  next
    case False
    with less show ?thesis by (subst scan.simps) auto
  qed
qed

text \<open>A part that opens at the first character comes first.\<close>

lemma scan_first:
  assumes "0 < length s" and "0 < e s 0"
  shows "scan e s 0 0 = (slice s 0 (e s 0), True) # scan e s (e s 0) (e s 0)"
  using assms by (subst scan.simps) simp

end

interpretation placeholder_rule: part_rule "protected_end t" for t
  by unfold_locales (auto intro: protected_end_bounds protected_end_opens)

lemma sql_parts_placeholder:
  obtains t where "sql_parts ph s = scan (protected_end t) s 0 0"
  by (rule that, unfold sql_parts_def, rule refl)

lemma sql_parts_concat: "concat (map fst (sql_parts ph s)) = s"
proof -
  obtain t where "sql_parts ph s = scan (protected_end t) s 0 0" by (rule sql_parts_placeholder)
  then show ?thesis using placeholder_rule.scan_concat[of 0 0 s t] by simp
qed

lemma sql_parts_nonempty: "p \<in> set (sql_parts ph s) \<Longrightarrow> fst p \<noteq> []"
proof -
  assume p: "p \<in> set (sql_parts ph s)"
  obtain t where "sql_parts ph s = scan (protected_end t) s 0 0" by (rule sql_parts_placeholder)
  then have "placeholder_rule.stands t s p"
    using placeholder_rule.scan_stands[of 0 0 s t p] p by simp
  then show "fst p \<noteq> []"
    by (auto simp: placeholder_rule.stands_def slice_def)
qed

lemma sql_parts_alternate: "linked (\<lambda>p q. snd p \<or> snd q) (sql_parts ph s)"
proof -
  obtain t where "sql_parts ph s = scan (protected_end t) s 0 0" by (rule sql_parts_placeholder)
  then show ?thesis using placeholder_rule.scan_alternates[of 0 s t] by simp
qed

lemma starts_at_slice:
  assumes "starts_at p (slice s a b) k" and "k < b - a" and "b \<le> length s"
  shows "starts_at p s (a + k)"
proof -
  from assms(1) obtain t where "drop k (slice s a b) = p @ t"
    by (auto simp: starts_at_def starts_with_iff)
  then have "take (b - a - k) (drop (a + k) s) = p @ t"
    by (simp add: slice_def drop_take add.commute)
  then have "drop (a + k) s = p @ t @ drop (b - a - k) (drop (a + k) s)"
    by (metis append_assoc append_take_drop_id)
  with assms(2,3) show ?thesis by (auto simp: starts_at_def starts_with_iff)
qed

lemma code_part_opens_nothing:
  assumes "(part, False) \<in> set (sql_parts ph s)" and "k < length part"
  shows "\<not> opens_part part k"
proof -
  obtain t where "sql_parts ph s = scan (protected_end t) s 0 0" by (rule sql_parts_placeholder)
  then have "placeholder_rule.stands t s (part, False)"
    using placeholder_rule.scan_stands[of 0 0 s t] assms(1) by simp
  then obtain a b where part: "a < b" "b \<le> length s" "part = slice s a b"
    and quiet: "\<And>j. a \<le> j \<Longrightarrow> j < b \<Longrightarrow> \<not> j < protected_end t s j"
    by (auto simp: placeholder_rule.stands_def)
  have k: "k < b - a" using assms(2) part by (simp add: slice_def)
  then have at: "a + k < length s" "part ! k = s ! (a + k)"
    using part by (auto simp: slice_def)
  have "\<not> a + k < protected_end t s (a + k)"
    using quiet[of "a + k"] k by simp
  then have "\<not> opens_part s (a + k)"
    using protected_end_opens[OF at(1), of t] by blast
  with at(2) starts_at_slice[of _ s a b k] part k show ?thesis
    by (auto simp: opens_part_def)
qed

section \<open>Quoted identifiers\<close>

text \<open>\<open>name.replace(c, cc)\<close> for one character, and \<open>quote_identifier\<close>.\<close>

fun double_char :: "char \<Rightarrow> string \<Rightarrow> string" where
  "double_char q [] = []"
| "double_char q (c # cs) = (if c = q then [q, q] else [c]) @ double_char q cs"

definition quote_identifier :: "string \<Rightarrow> string" where
  "quote_identifier name = [dquote] @ double_char dquote name @ [dquote]"

lemma literal_loop_doubled:
  assumes "\<not> starts_with [q] post"
  shows "literal_loop (pre @ double_char q name @ q # post) q False (length pre)
    = length pre + length (double_char q name) + 1"
proof (induction name arbitrary: pre)
  case Nil
  then show ?case
    using assms by (cases post) (auto simp: literal_loop.simps starts_with_def nth_append)
next
  case (Cons c cs)
  show ?case
  proof (cases "c = q")
    case True
    then show ?thesis
      using Cons[of "pre @ [q, q]"] by (subst literal_loop.simps) (simp add: nth_append)
  next
    case False
    then show ?thesis
      using Cons[of "pre @ [c]"] by (subst literal_loop.simps) (simp add: nth_append)
  qed
qed

lemma quoted_identifier_end:
  assumes "\<not> starts_with [dquote] post"
  shows "protected_end t (quote_identifier name @ post) 0 = length (quote_identifier name)"
proof -
  have "literal_loop (quote_identifier name @ post) dquote False 1
      = length (quote_identifier name)"
    using literal_loop_doubled[OF assms, of "[dquote]" name] by (simp add: quote_identifier_def)
  then show ?thesis
    unfolding protected_end_def end_of_string_literal_def
    by (simp add: quote_identifier_def starts_at_def starts_with_def)
qed

lemma quote_identifier_inject: "quote_identifier a = quote_identifier b \<longleftrightarrow> a = b"
proof -
  have "double_char dquote a = double_char dquote b \<Longrightarrow> a = b"
    by (induction a arbitrary: b; case_tac b) (auto split: if_splits)
  then show ?thesis by (auto simp: quote_identifier_def)
qed

end
