(* ===== verification/Sql_Text.thy ===== *)
theory Sql_Text
  imports Sql_Scan "HOL-Library.AList"
begin

text \<open>
  The rest of \<^verbatim>\<open>core/text.py\<close>: lists and settings files, splitting SQL into statements,
  the checks of names before they are written into SQL, object references, and the
  substitution of a task's \<open>$$\<close> tokens. The texts of error messages are left out; what an
  error names is kept.
\<close>

section \<open>Settings\<close>

text \<open>\<open>s.partition(c)\<close>.\<close>

definition partition_at :: "char \<Rightarrow> string \<Rightarrow> string \<times> bool \<times> string" where
  "partition_at c s = (takeWhile (\<lambda>x. x \<noteq> c) s, c \<in> set s, drop 1 (dropWhile (\<lambda>x. x \<noteq> c) s))"

definition contains :: "string \<Rightarrow> string \<Rightarrow> bool" where
  "contains word s \<longleftrightarrow> find_at word s 0 \<noteq> None"

definition secret_keys :: "string list" where
  "secret_keys =
     [''password'', ''pwd'', ''passwd'', ''token'', ''access_token'', ''secret'',
      ''private_key_file_pwd'', ''api_key'', ''credential'', ''private_key'', ''subject_key'']"

definition pipe_list :: "string option \<Rightarrow> string list" where
  "pipe_list value =
     map strip (filter (\<lambda>part. strip part \<noteq> [])
       (split_on CHR ''|'' (case value of None \<Rightarrow> [] | Some v \<Rightarrow> v)))"

definition is_secret_name :: "string \<Rightarrow> bool" where
  "is_secret_name name \<longleftrightarrow> list_ex (\<lambda>word. contains word (lower name)) secret_keys"

definition public_url_query :: "(string \<times> string) list \<Rightarrow> (string \<times> string) list" where
  "public_url_query query = filter (\<lambda>(key, _). \<not> is_secret_name key) query"

definition databricks_public_params :: "string list" where
  "databricks_public_params =
     [''httppath'', ''transportmode'', ''ssl'', ''conncatalog'', ''connschema'', ''catalog'',
      ''schema'']"

definition strip_databricks_credentials :: "string \<Rightarrow> string" where
  "strip_databricks_credentials url =
     (case partition_at CHR '';'' url of (prefix, sep, params) \<Rightarrow>
        if \<not> sep then url
        else
          (let kept = filter (\<lambda>chunk. lower (strip (fst (partition_at CHR ''='' chunk)))
                                \<in> set databricks_public_params)
                        (split_on CHR '';'' params)
           in prefix @ (if kept \<noteq> [] then '';'' @ join '';'' kept else [])))"

text \<open>The vendor of \<open>jdbc:<vendor>:...\<close>; no vendor is the error.\<close>

definition jdbc_scheme :: "string \<Rightarrow> string option" where
  "jdbc_scheme url =
     (if starts_with ''jdbc:'' url then
        (let rest = drop 5 url;
             scheme = takeWhile (\<lambda>c. ident_char c \<or> c = CHR ''+'' \<or> c = CHR ''-'') rest in
         if scheme \<noteq> [] \<and> starts_with '':'' (drop (length scheme) rest)
         then Some (lower scheme) else None)
      else None)"

text \<open>\<open>str.splitlines\<close>: a line break ends a line, and a carriage return takes its newline along.\<close>

definition is_break :: "char \<Rightarrow> bool" where
  "is_break c \<longleftrightarrow> (let n = of_char c :: nat in n \<in> {10, 11, 12, 13, 28, 29, 30, 133})"

function splitlines :: "string \<Rightarrow> string list" where
  "splitlines s =
     (if s = [] then []
      else
        (let line = takeWhile (\<lambda>c. \<not> is_break c) s; rest = dropWhile (\<lambda>c. \<not> is_break c) s in
         line # (case rest of
             [] \<Rightarrow> []
           | c # cs \<Rightarrow> splitlines (if c = CHR 0x0D \<and> starts_with [newline] cs then drop 1 cs else cs))))"
  by pat_completeness auto
termination
proof (relation "measure length", simp, goal_cases)
  case (1 s line rest c cs)
  then have "length (c # cs) \<le> length s" by (metis length_dropWhile_le)
  then show ?case by auto
qed

declare splitlines.simps [simp del]

definition unquote :: "string \<Rightarrow> string" where
  "unquote value =
     (if length value \<ge> 2 \<and> hd value = last value \<and> hd value \<in> {dquote, squote}
      then butlast (tl value) else value)"

text \<open>
  \<open>parse_env_file\<close>: one line, then the dict of all. A byte order mark at the front is above
  the code points modelled here.
\<close>

definition env_line :: "string \<Rightarrow> (string \<times> string) option" where
  "env_line line =
     (let stripped = strip line in
      if stripped = [] \<or> starts_with ''#'' stripped \<or> CHR ''='' \<notin> set stripped then None
      else
        (let stripped = (if starts_with ''export '' stripped then lstrip (drop 7 stripped) else stripped)
         in case partition_at CHR ''='' stripped of (key, _, value) \<Rightarrow>
              Some (strip key, unquote (strip value))))"

definition parse_env_file :: "string \<Rightarrow> string \<rightharpoonup> string" where
  "parse_env_file contents =
     fold (\<lambda>line values. case env_line line of None \<Rightarrow> values | Some (k, v) \<Rightarrow> values(k \<mapsto> v))
       (splitlines contents) Map.empty"

section \<open>Statements\<close>

text \<open>\<open>split_statements\<close>: the finished statements so far and the one in hand.\<close>

fun split_loop :: "(string \<times> bool) list \<Rightarrow> string list \<Rightarrow> string \<Rightarrow> string list" where
  "split_loop [] statements current = statements @ [current]"
| "split_loop ((part, protected) # parts) statements current =
     (if protected then split_loop parts statements (current @ part)
      else
        (let pieces = split_on CHR '';'' part; ends = (current @ hd pieces) # tl pieces in
         split_loop parts (statements @ butlast ends) (last ends)))"

definition is_only_comments :: "string \<Rightarrow> bool" where
  "is_only_comments statement \<longleftrightarrow>
     list_all (\<lambda>(part, protected).
         (protected \<and> (starts_with ''--'' part \<or> starts_with ''/*'' part)) \<or> strip part = [])
       (sql_parts False statement)"

definition split_statements :: "string \<Rightarrow> string list" where
  "split_statements sql =
     map strip (filter (\<lambda>s. \<not> is_only_comments s) (split_loop (sql_parts False sql) [] []))"

definition as_subquery :: "string \<Rightarrow> string" where
  "as_subquery sql =
     (let statements = split_statements sql;
          body = (if length statements = 1 then hd statements else strip sql)
      in ''('' @ [newline] @ body @ [newline] @ '')'')"

section \<open>The read-only lint\<close>

function strip_comments :: "string \<Rightarrow> string" where
  "strip_comments s =
     (if s = [] then []
      else if starts_with ''/*'' s \<and> find_at ''*/'' s 2 \<noteq> None
      then CHR '' '' # strip_comments (drop (the (find_at ''*/'' s 2) + 2) s)
      else if starts_with ''--'' s
      then CHR '' '' # strip_comments (dropWhile (\<lambda>c. c \<noteq> newline) (drop 2 s))
      else hd s # strip_comments (tl s))"
  by pat_completeness auto
termination
proof (relation "measure length", goal_cases)
  case (3 s)
  have "length (dropWhile (\<lambda>c. c \<noteq> newline) (drop 2 s)) \<le> length (drop 2 s)"
    by (rule length_dropWhile_le)
  moreover have "length (drop 2 s) < length s" using 3(1) by (cases s) auto
  ultimately show ?case by simp
qed auto

declare strip_comments.simps [simp del]

text \<open>The end of \<open>'(?:[^']|'')*'\<close> after its opening quote: as far as a closing quote allows.\<close>

fun literal_end :: "string \<Rightarrow> nat option" where
  "literal_end [] = None"
| "literal_end (c # cs) =
     (if c \<noteq> squote then map_option Suc (literal_end cs)
      else (case cs of
              [] \<Rightarrow> Some 1
            | d # ds \<Rightarrow>
                if d = squote
                then (case literal_end ds of Some n \<Rightarrow> Some (n + 2) | None \<Rightarrow> Some 1)
                else Some 1))"

function blank_literals :: "string \<Rightarrow> string" where
  "blank_literals s =
     (if s = [] then []
      else (case (if hd s = squote then literal_end (tl s) else None) of
              Some n \<Rightarrow> [squote, squote] @ blank_literals (drop n (tl s))
            | None \<Rightarrow> hd s # blank_literals (tl s)))"
  by pat_completeness auto
termination by (relation "measure length") (auto simp: neq_Nil_conv)

declare blank_literals.simps [simp del]

definition strip_comments_and_literals :: "string \<Rightarrow> string" where
  "strip_comments_and_literals sql = blank_literals (strip_comments sql)"

definition write_keywords :: "string list" where
  "write_keywords =
     [''INSERT'', ''UPDATE'', ''DELETE'', ''MERGE'', ''TRUNCATE'', ''DROP'', ''ALTER'', ''CREATE'',
      ''GRANT'', ''REVOKE'', ''COPY'']"

definition read_starts :: "string list" where
  "read_starts = [''SELECT'', ''WITH'', ''TABLE'', ''VALUES'']"

text \<open>\<open>\w\<close> of a regular expression, and \<open>\bword\b\<close> without regard to case.\<close>

definition word_char :: "char \<Rightarrow> bool" where
  "word_char c \<longleftrightarrow> is_alnum c \<or> c = CHR ''_''"

definition has_word :: "string \<Rightarrow> string \<Rightarrow> bool" where
  "has_word word s \<longleftrightarrow>
     list_ex (\<lambda>i. upper (slice s i (i + length word)) = word
         \<and> (i = 0 \<or> \<not> word_char (s ! (i - 1)))
         \<and> (i + length word \<ge> length s \<or> \<not> word_char (s ! (i + length word))))
       [0 ..< length s]"

datatype read_problem = EmptySql | StartsWith string | Contains "string list"

definition read_only_problem :: "string \<Rightarrow> read_problem option" where
  "read_only_problem sql =
     (let stripped = strip (strip_comments_and_literals sql);
          first = takeWhile word_char (dropWhile (\<lambda>c. c = CHR ''('' \<or> is_space c) stripped);
          found = filter (\<lambda>kw. has_word kw stripped) write_keywords in
      if stripped = [] then Some EmptySql
      else if first = [] then Some (StartsWith (take 20 stripped))
      else if upper first \<notin> set read_starts then Some (StartsWith first)
      else if found \<noteq> [] then Some (Contains found)
      else None)"

section \<open>Names\<close>

text \<open>
  \<open>^[A-Za-z_][A-Za-z0-9_]*$\<close>, matched from the front: \<open>$\<close> also matches before one newline that
  ends the text.
\<close>

definition is_ident :: "string \<Rightarrow> bool" where
  "is_ident s \<longleftrightarrow> s \<noteq> [] \<and> ident_start (hd s) \<and> list_all ident_char (tl s)"

definition chomp :: "string \<Rightarrow> string" where
  "chomp s = (if s \<noteq> [] \<and> last s = newline then butlast s else s)"

definition is_safe_identifier :: "string \<Rightarrow> bool" where
  "is_safe_identifier name \<longleftrightarrow> is_ident (chomp name)"

definition is_env_name :: "string \<Rightarrow> bool" where
  "is_env_name name \<longleftrightarrow> is_ident (chomp name)"

definition is_metadata_code :: "string \<Rightarrow> bool" where
  "is_metadata_code code \<longleftrightarrow> is_ident code \<and> hd code \<noteq> CHR ''_'' \<and> length code \<le> 128"

definition is_safe_object_ref :: "string \<Rightarrow> bool" where
  "is_safe_object_ref ref \<longleftrightarrow>
     (let parts = split_on CHR ''.'' (chomp ref) in
      length parts \<in> {2, 3} \<and> list_all is_ident parts)"

text \<open>\<open>str.split()\<close>: the words between runs of white space.\<close>

function words_of :: "string \<Rightarrow> string list" where
  "words_of s =
     (let s = lstrip s in
      if s = [] then []
      else takeWhile (\<lambda>c. \<not> is_space c) s # words_of (dropWhile (\<lambda>c. \<not> is_space c) s))"
  by pat_completeness auto
termination
proof (relation "measure length", simp, goal_cases)
  case (1 s x)
  have "length x \<le> length s"
    unfolding 1(1) lstrip_def by (rule length_dropWhile_le)
  moreover have "\<not> is_space (hd x)"
    using 1 unfolding lstrip_def by (metis hd_dropWhile)
  then have "length (dropWhile (\<lambda>c. \<not> is_space c) x) < length x"
    using 1(2) by (cases x) (auto simp: le_imp_less_Suc length_dropWhile_le)
  ultimately show ?case by simp
qed

declare words_of.simps [simp del]

text \<open>A column, then an optional direction, then an optional place for nulls.\<close>

definition is_safe_order_term :: "string \<Rightarrow> bool" where
  "is_safe_order_term t \<longleftrightarrow>
     (case words_of (strip t) of
        [] \<Rightarrow> False
      | column # rest \<Rightarrow>
          is_ident column
          \<and> (let rest = map upper rest;
                 rest = (if rest \<noteq> [] \<and> hd rest \<in> {''ASC'', ''DESC''} then tl rest else rest)
             in rest \<in> {[], [''NULLS'', ''FIRST''], [''NULLS'', ''LAST'']}))"

text \<open>\<open>split_object_ref\<close>: the refused reference is the error.\<close>

definition split_object_ref ::
  "string \<Rightarrow> string + string option \<times> string \<times> string" where
  "split_object_ref ref =
     (let parts = map strip (split_on CHR ''.'' ref) in
      if length parts \<notin> {2, 3} \<or> [] \<in> set parts then Inl ref
      else if length parts = 2 then Inr (None, parts ! 0, parts ! 1)
      else Inr (Some (parts ! 0), parts ! 1, parts ! 2))"

definition qualify :: "string \<Rightarrow> string \<Rightarrow> string + string" where
  "qualify ref catalog =
     bind_err (split_object_ref ref) (\<lambda>(database, schema, table).
       Inr ((case database of Some d \<Rightarrow> d | None \<Rightarrow> catalog) @ ''.'' @ schema @ ''.'' @ table))"

section \<open>Task tokens\<close>

text \<open>\<open>str\<close> of an int, and \<open>date.isoformat\<close>.\<close>

fun digits :: "nat \<Rightarrow> string" where
  "digits n = (if n < 10 then [char_of (48 + n)] else digits (n div 10) @ [char_of (48 + n mod 10)])"

declare digits.simps [simp del]

definition int_str :: "int \<Rightarrow> string" where
  "int_str k = (if k < 0 then ''-'' @ digits (nat (- k)) else digits (nat k))"

record date =
  year :: nat
  month :: nat
  day :: nat

definition padded :: "nat \<Rightarrow> string \<Rightarrow> string" where
  "padded width s = replicate (width - length s) CHR ''0'' @ s"

definition isoformat :: "date \<Rightarrow> string" where
  "isoformat d =
     padded 4 (digits (year d)) @ ''-'' @ padded 2 (digits (month d)) @ ''-'' @ padded 2 (digits (day d))"

text \<open>\<open>TOKEN.finditer\<close> and \<open>TOKEN.sub\<close>: the leftmost match, then on from its end.\<close>

function find_tokens :: "string \<Rightarrow> string list" where
  "find_tokens s =
     (if s = [] then []
      else (case token_at s of
              None \<Rightarrow> find_tokens (tl s)
            | Some name \<Rightarrow> name # find_tokens (drop (2 + length name) s)))"
  by pat_completeness auto
termination by (relation "measure length") auto

declare find_tokens.simps [simp del]

text \<open>The arguments of \<open>substitute_task_tokens\<close>; a dict is the list of its items.\<close>

record token_args =
  pipeline_run_id :: int
  refresh_type :: string
  pipeline_run_id_substitution :: bool
  filter_enabled :: bool
  force_all :: bool
  run_date :: date
  run_date_substitution :: bool
  pipeline_id :: int
  task_run_id :: int
  pipeline_id_substitution :: bool
  task_run_id_substitution :: bool
  watermark_literals :: "(string \<times> string) list option"
  event_literals :: "(string \<times> string option) list option"

text \<open>
  What is raised: no successful event wait for a token, unknown tokens in order, a token whose
  switch is off, a switch without its token, and Python's own \<open>KeyError\<close>.
\<close>

datatype token_error =
    NoEvidence string | UnknownTokens "string list" | TokenDisabled string | TokenUnused string
  | NoReplacement string

function sub_tokens :: "(string \<Rightarrow> string option) \<Rightarrow> string \<Rightarrow> token_error + string" where
  "sub_tokens f s =
     (if s = [] then Inr []
      else (case token_at s of
              None \<Rightarrow> bind_err (sub_tokens f (tl s)) (\<lambda>r. Inr (hd s # r))
            | Some name \<Rightarrow>
                (case f name of
                   None \<Rightarrow> Inl (NoReplacement name)
                 | Some t \<Rightarrow>
                     bind_err (sub_tokens f (drop (2 + length name) s)) (\<lambda>r. Inr (t @ r)))))"
  by pat_completeness auto
termination by (relation "measure (\<lambda>(f, s). length s)") auto

declare sub_tokens.simps [simp del]

text \<open>\<open>_event_literals\<close>: the two event tokens first, each with its literal or none.\<close>

definition event_values ::
  "string set \<Rightarrow> (string \<times> string option) list option
    \<Rightarrow> token_error + (string \<times> string option) list" where
  "event_values found literals =
     (let values = fold (\<lambda>(name, literal). AList.update name literal)
            (case literals of None \<Rightarrow> [] | Some ls \<Rightarrow> ls)
            [(''event_files'', None), (''event_keys'', None)] in
      case check_all (\<lambda>(name, literal).
             if name \<in> found \<and> literal = Some [] then Some (NoEvidence name) else None) values of
        Some e \<Rightarrow> Inl e
      | None \<Rightarrow> Inr values)"

definition check_task_tokens :: "string list \<Rightarrow> (string \<times> bool) list \<Rightarrow> token_error option" where
  "check_task_tokens found known =
     (let unknown = sorted_set (filter (\<lambda>t. t \<notin> fst ` set known) found) in
      if unknown \<noteq> [] then Some (UnknownTokens unknown)
      else check_all (\<lambda>(name, enabled).
             if name \<in> set found \<and> \<not> enabled then Some (TokenDisabled name)
             else if enabled \<and> name \<notin> set found then Some (TokenUnused name)
             else None) known)"

definition known_tokens :: "token_args \<Rightarrow> string list \<Rightarrow> (string \<times> bool) list" where
  "known_tokens a found =
     [(''pipeline_id'', pipeline_id_substitution a),
      (''pipeline_run_id'', pipeline_run_id_substitution a),
      (''task_run_id'', task_run_id_substitution a),
      (''pipeline_run_id_filter'', filter_enabled a),
      (''run_date'', run_date_substitution a),
      (''watermark'', watermark_literals a \<noteq> None),
      (''watermark_max'', (case watermark_literals a of None \<Rightarrow> False
         | Some w \<Rightarrow> ''watermark_max'' \<in> fst ` set w)),
      (''event_files'', ''event_files'' \<in> set found),
      (''event_keys'', ''event_keys'' \<in> set found)]"

text \<open>The dict of replacements: watermark literals override the first five, events override both.\<close>

definition replacements ::
  "token_args \<Rightarrow> (string \<times> string option) list \<Rightarrow> string \<Rightarrow> string option" where
  "replacements a events =
     [''pipeline_id'' \<mapsto> int_str (pipeline_id a),
      ''pipeline_run_id'' \<mapsto> int_str (pipeline_run_id a),
      ''task_run_id'' \<mapsto> int_str (task_run_id a),
      ''pipeline_run_id_filter'' \<mapsto>
        (if force_all a \<or> refresh_type a = ''FULL'' then ''1=1''
         else ''pipeline_run_id = '' @ int_str (pipeline_run_id a)),
      ''run_date'' \<mapsto> ''DATE '' @ [squote] @ isoformat (run_date a) @ [squote]]
     ++ map_of (case watermark_literals a of None \<Rightarrow> [] | Some w \<Rightarrow> w)
     ++ map_of (map (\<lambda>(name, literal).
          (name, case literal of Some (c # cs) \<Rightarrow> c # cs | _ \<Rightarrow> ''NULL'')) events)"

definition code_tokens :: "(string \<times> bool) list \<Rightarrow> string list" where
  "code_tokens parts = concat (map (\<lambda>(part, protected). if protected then [] else find_tokens part) parts)"

definition substitute_task_tokens :: "token_args \<Rightarrow> string \<Rightarrow> token_error + string" where
  "substitute_task_tokens a sql =
     (let parts = sql_parts True sql; found = code_tokens parts in
      bind_err (event_values (set found) (event_literals a)) (\<lambda>events.
        case check_task_tokens found (known_tokens a found) of
          Some e \<Rightarrow> Inl e
        | None \<Rightarrow>
            bind_err
              (map_err (\<lambda>(part, protected).
                 if protected then Inr part else sub_tokens (replacements a events) part) parts)
              (\<lambda>out. Inr (concat out))))"

end
