(* ===== verification/Sql_Claims.thy ===== *)
theory Sql_Claims
  imports Sql_Text
begin

text \<open>
  What the SQL text routines promise: scanning and splitting keep the text, a quoted name
  cannot leave its quotes, qualified references are stable, settings files are read back, and
  token substitution changes tokens in code only and refuses exactly the definitions that are
  mistaken.
\<close>

section \<open>Splitting\<close>

lemma join_append:
  "xs \<noteq> [] \<Longrightarrow> ys \<noteq> [] \<Longrightarrow> join sep (xs @ ys) = join sep xs @ sep @ join sep ys"
proof (induction xs)
  case (Cons x xs)
  then show ?case by (cases xs) (simp_all add: join_Cons)
qed simp

lemma join_extend: "xs \<noteq> [] \<Longrightarrow> join sep (butlast xs @ [last xs @ t]) = join sep xs @ t"
proof (induction xs)
  case (Cons x xs)
  then show ?case by (cases "xs = []") (simp_all add: join_Cons)
qed simp

lemma join_hd: "xs \<noteq> [] \<Longrightarrow> join sep ((t @ hd xs) # tl xs) = t @ join sep xs"
  by (cases xs rule: join.cases[of "(_, _)", simplified]) auto

lemma join_app_eq:
  "ys \<noteq> [] \<Longrightarrow> ys' \<noteq> [] \<Longrightarrow> join sep ys = join sep ys' \<Longrightarrow> join sep (xs @ ys) = join sep (xs @ ys')"
  by (cases "xs = []") (simp_all add: join_append)

lemma split_loop_join:
  "join '';'' (split_loop parts sts cur) = join '';'' (sts @ [cur @ concat (map fst parts)])"
proof (induction parts sts cur rule: split_loop.induct)
  case (2 part protected parts sts cur)
  show ?case
  proof (cases protected)
    case True
    with 2 show ?thesis by simp
  next
    case False
    let ?pieces = "split_on CHR '';'' part"
    let ?ends = "(cur @ hd ?pieces) # tl ?pieces"
    have "join '';'' (butlast ?ends @ [last ?ends @ concat (map fst parts)])
        = join '';'' [cur @ part @ concat (map fst parts)]"
      by (subst join_extend) (simp_all add: join_hd join_split_on)
    then have "join '';'' (sts @ butlast ?ends @ [last ?ends @ concat (map fst parts)])
        = join '';'' (sts @ [cur @ part @ concat (map fst parts)])"
      by (intro join_app_eq) auto
    with 2(2)[OF False refl refl] False show ?thesis by (simp add: Let_def)
  qed
qed simp

lemma split_on_length: "length (split_on c s) = Suc (count_list s c)"
  by (induction s) (auto split: list.splits)

text \<open>The semicolons of the code parts.\<close>

definition code_semicolons :: "(string \<times> bool) list \<Rightarrow> nat" where
  "code_semicolons parts =
     sum_list (map (\<lambda>(part, protected). if protected then 0 else count_list part CHR '';'') parts)"

lemma split_loop_length:
  "length (split_loop parts sts cur) = length sts + code_semicolons parts + 1"
proof (induction parts sts cur rule: split_loop.induct)
  case (2 part protected parts sts cur)
  have "length (tl (split_on CHR '';'' part)) = count_list part CHR '';''"
    by (simp add: split_on_length)
  with 2 show ?case
    by (cases "tl (split_on CHR '';'' part)") (auto simp: code_semicolons_def Let_def)
qed (simp add: code_semicolons_def)

lemma split_statements_raw:
  "\<exists>raw. join '';'' raw = sql \<and> length raw = code_semicolons (sql_parts False sql) + 1
     \<and> split_statements sql = map strip (filter (\<lambda>s. \<not> is_only_comments s) raw)"
  by (rule exI[of _ "split_loop (sql_parts False sql) [] []"])
    (simp add: split_loop_join split_loop_length sql_parts_concat split_statements_def)

section \<open>Names and references\<close>

lemma ident_char_code:
  "ident_char c \<Longrightarrow> c \<noteq> CHR ''.'' \<and> \<not> is_space c \<and> c \<noteq> newline \<and> c \<noteq> CHR ''='' \<and> c \<noteq> CHR ''#''
    \<and> \<not> is_break c"
  by (auto simp: ident_char_def ident_start_def is_space_def is_break_def Let_def)

lemma is_ident_set: "is_ident s \<Longrightarrow> c \<in> set s \<Longrightarrow> ident_char c"
  unfolding is_ident_def by (cases s) (auto simp: ident_char_def list_all_iff)

lemma strip_id: "(\<And>c. c \<in> set s \<Longrightarrow> \<not> is_space c) \<Longrightarrow> strip s = s"
proof -
  assume no: "\<And>c. c \<in> set s \<Longrightarrow> \<not> is_space c"
  have "dropWhile is_space t = t" if "\<And>c. c \<in> set t \<Longrightarrow> \<not> is_space c" for t
    using that by (cases t) auto
  from this[of s] this[of "rev s"] no show ?thesis
    by (simp add: strip_def lstrip_def rstrip_def)
qed

lemma is_ident_strip: "is_ident s \<Longrightarrow> strip s = s"
  using is_ident_set ident_char_code by (intro strip_id) blast

lemma is_ident_chomp: "is_ident s \<Longrightarrow> chomp s = s"
  using is_ident_set ident_char_code unfolding chomp_def by (metis last_in_set)

text \<open>What the pattern behind the name checks accepts.\<close>

lemma safe_identifier_iff:
  "is_safe_identifier s \<longleftrightarrow> is_ident s \<or> (\<exists>n. is_ident n \<and> s = n @ [newline])"
proof
  assume "is_safe_identifier s"
  then show "is_ident s \<or> (\<exists>n. is_ident n \<and> s = n @ [newline])"
    unfolding is_safe_identifier_def chomp_def
    by (metis append_butlast_last_id)
next
  assume "is_ident s \<or> (\<exists>n. is_ident n \<and> s = n @ [newline])"
  then show "is_safe_identifier s"
    unfolding is_safe_identifier_def by (auto simp: is_ident_chomp) (simp add: chomp_def)
qed

lemma strip_newline: "is_ident s \<Longrightarrow> strip (s @ [newline]) = s"
proof -
  assume s: "is_ident s"
  then obtain c cs where "s = c # cs" by (auto simp: is_ident_def neq_Nil_conv)
  with s is_ident_set ident_char_code have "\<not> is_space c" by force
  then have "lstrip (s @ [newline]) = s @ [newline]" using \<open>s = c # cs\<close> by (simp add: lstrip_def)
  moreover have "rstrip (s @ [newline]) = rstrip s" by (simp add: rstrip_def is_space_def)
  moreover have "lstrip s = s" using \<open>s = c # cs\<close> \<open>\<not> is_space c\<close> by (simp add: lstrip_def)
  ultimately show ?thesis using is_ident_strip[OF s] by (simp add: strip_def)
qed

lemma ident_parts:
  assumes "list_all is_ident ps" and "p \<in> set ps"
  shows "CHR ''.'' \<notin> set p" and "p \<noteq> []" and "strip p = p"
proof -
  have p: "is_ident p" using assms by (auto simp: list_all_iff)
  then show "CHR ''.'' \<notin> set p" using is_ident_set ident_char_code by blast
  from p show "p \<noteq> []" "strip p = p" by (auto simp: is_ident_strip) (simp add: is_ident_def)
qed

lemma split_on_last: "split_on c (s @ [x]) =
    (if x = c then split_on c s @ [[]]
     else butlast (split_on c s) @ [last (split_on c s) @ [x]])"
proof (induction s)
  case (Cons y ys)
  obtain p ps where "split_on c ys = p # ps" by (cases "split_on c ys") auto
  with Cons show ?case by (cases ps) auto
qed simp

text \<open>A reference is split into the names it was checked to consist of.\<close>

lemma safe_ref_parts:
  assumes "is_safe_object_ref ref"
  shows "list_all is_ident (split_on CHR ''.'' (chomp ref))"
    and "map strip (split_on CHR ''.'' ref) = split_on CHR ''.'' (chomp ref)"
proof -
  let ?ps = "split_on CHR ''.'' (chomp ref)"
  show all: "list_all is_ident ?ps"
    using assms by (simp add: is_safe_object_ref_def Let_def)
  have id: "map strip ?ps = ?ps"
    using ident_parts(3)[OF all] by (simp add: map_idI)
  show "map strip (split_on CHR ''.'' ref) = ?ps"
  proof (cases "ref \<noteq> [] \<and> last ref = newline")
    case True
    then have "ref = chomp ref @ [newline]"
      unfolding chomp_def by (metis append_butlast_last_id)
    then have "split_on CHR ''.'' ref = butlast ?ps @ [last ?ps @ [newline]]"
      using split_on_last[of "CHR ''.''" "chomp ref" newline] by simp
    moreover have "is_ident (last ?ps)" using all by (simp add: list_all_iff)
    ultimately have "map strip (split_on CHR ''.'' ref) = map strip (butlast ?ps) @ [last ?ps]"
      by (simp add: strip_newline)
    also have "\<dots> = butlast (map strip ?ps) @ [last (map strip ?ps)]"
      unfolding map_butlast id by simp
    finally show ?thesis by (simp add: id)
  qed (use id in \<open>auto simp: chomp_def\<close>)
qed

lemma split_object_ref_join:
  assumes "list_all is_ident [d, s, t]"
  shows "split_object_ref (d @ ''.'' @ s @ ''.'' @ t) = Inr (Some d, s, t)"
    and "is_safe_object_ref (d @ ''.'' @ s @ ''.'' @ t)"
proof -
  have parts: "split_on CHR ''.'' (d @ ''.'' @ s @ ''.'' @ t) = [d, s, t]"
    using split_on_join[of "[d, s, t]" "CHR ''.''"] ident_parts(1)[OF assms] by simp
  then show "split_object_ref (d @ ''.'' @ s @ ''.'' @ t) = Inr (Some d, s, t)"
    using ident_parts(2)[OF assms, of d] ident_parts(2)[OF assms, of s]
      ident_parts(2)[OF assms, of t] ident_parts(3)[OF assms]
    by (simp add: split_object_ref_def Let_def)
  have "is_ident t" using assms by simp
  then have "t \<noteq> []" "last t \<noteq> newline"
    using ident_parts(2)[OF assms, of t] by auto (metis ident_char_code is_ident_set last_in_set)
  then have "chomp (d @ ''.'' @ s @ ''.'' @ t) = d @ ''.'' @ s @ ''.'' @ t"
    by (simp add: chomp_def)
  with parts assms show "is_safe_object_ref (d @ ''.'' @ s @ ''.'' @ t)"
    by (simp add: is_safe_object_ref_def)
qed

lemma qualify_safe:
  assumes "is_safe_object_ref ref" and "is_ident catalog"
  shows "\<exists>d s t. qualify ref catalog = Inr (d @ ''.'' @ s @ ''.'' @ t) \<and> list_all is_ident [d, s, t]
     \<and> (split_object_ref ref = Inr (None, s, t) \<and> d = catalog
        \<or> split_object_ref ref = Inr (Some d, s, t))"
proof -
  let ?ps = "split_on CHR ''.'' (chomp ref)"
  note parts = safe_ref_parts[OF assms(1)]
  have empty: "[] \<notin> set ?ps" using ident_parts(2)[OF parts(1)] by blast
  have "length ?ps = 2 \<or> length ?ps = 3"
    using assms(1) by (auto simp: is_safe_object_ref_def Let_def)
  then show ?thesis
  proof
    assume two: "length ?ps = 2"
    then obtain s t where st: "?ps = [s, t]" by (auto simp: numeral_2_eq_2 length_Suc_conv)
    then have "split_object_ref ref = Inr (None, s, t)"
      unfolding split_object_ref_def parts(2) using empty by simp
    with st parts(1) assms(2) show ?thesis by (auto simp: qualify_def)
  next
    assume three: "length ?ps = 3"
    then obtain d s t where st: "?ps = [d, s, t]" by (auto simp: numeral_3_eq_3 length_Suc_conv)
    then have "split_object_ref ref = Inr (Some d, s, t)"
      unfolding split_object_ref_def parts(2) using empty by simp
    with st parts(1) show ?thesis by (auto simp: qualify_def)
  qed
qed

lemma qualify_full: "list_all is_ident [d, s, t] \<Longrightarrow>
    qualify (d @ ''.'' @ s @ ''.'' @ t) c = Inr (d @ ''.'' @ s @ ''.'' @ t)"
  unfolding qualify_def using split_object_ref_join(1) by simp

section \<open>Settings files\<close>

lemma splitlines_line:
  assumes "\<And>c. c \<in> set line \<Longrightarrow> \<not> is_break c"
  shows "splitlines (line @ newline # rest) = line # splitlines rest"
proof -
  have "takeWhile (\<lambda>c. \<not> is_break c) (line @ newline # rest) = line"
    and "dropWhile (\<lambda>c. \<not> is_break c) (line @ newline # rest) = newline # rest"
    using assms by (simp_all add: takeWhile_append2 dropWhile_append2 is_break_def)
  then show ?thesis by (subst splitlines.simps) simp
qed

lemma splitlines_lines:
  "(\<And>l c. l \<in> set lines \<Longrightarrow> c \<in> set l \<Longrightarrow> \<not> is_break c) \<Longrightarrow>
    splitlines (concat (map (\<lambda>l. l @ [newline]) lines)) = lines"
proof (induction lines)
  case Nil
  then show ?case by (simp add: splitlines.simps)
next
  case (Cons l ls)
  have "splitlines (concat (map (\<lambda>l. l @ [newline]) ls)) = ls"
    by (rule Cons.IH) (use Cons.prems in auto)
  moreover have "splitlines (l @ newline # concat (map (\<lambda>l. l @ [newline]) ls))
      = l # splitlines (concat (map (\<lambda>l. l @ [newline]) ls))"
    by (rule splitlines_line) (use Cons.prems in auto)
  ultimately show ?case by simp
qed

text \<open>A setting written with its value in quotes is read back, whatever the value holds.\<close>

definition setting_line :: "string \<times> string \<Rightarrow> string" where
  "setting_line kv = fst kv @ ''='' @ [dquote] @ snd kv @ [dquote]"

lemma unquote_quoted: "unquote ([dquote] @ v @ [dquote]) = v"
  by (simp add: unquote_def)

lemma strip_bounded:
  assumes "s \<noteq> []" and "\<not> is_space (hd s)" and "\<not> is_space (last s)"
  shows "strip s = s"
proof -
  have "lstrip s = s" using assms by (cases s) (simp_all add: lstrip_def)
  moreover have "rstrip s = s"
    using assms by (cases s rule: rev_cases) (simp_all add: rstrip_def)
  ultimately show ?thesis by (simp add: strip_def)
qed

lemma env_line_setting:
  assumes "is_ident k"
  shows "env_line (setting_line (k, v)) = Some (k, v)"
proof -
  obtain c cs where k: "k = c # cs" using assms by (auto simp: is_ident_def neq_Nil_conv)
  have chars: "ident_char x \<and> x \<noteq> CHR ''='' \<and> \<not> is_space x \<and> x \<noteq> CHR ''#''" if "x \<in> set k" for x
    using is_ident_set[OF assms that] ident_char_code by blast
  let ?line = "setting_line (k, v)"
  have strip_line: "strip ?line = ?line"
    using chars k by (intro strip_bounded) (auto simp: setting_line_def is_space_def)
  have export: "\<not> starts_with ''export '' ?line"
  proof
    assume "starts_with ''export '' ?line"
    then obtain t where t: "?line = ''export '' @ t" by (auto simp: starts_with_iff)
    show False
    proof (cases "6 < length k")
      case True
      then have "?line ! 6 = k ! 6" by (simp add: setting_line_def nth_append)
      moreover have "?line ! 6 = CHR '' ''" unfolding t by simp
      ultimately have "k ! 6 = CHR '' ''" by simp
      with True chars[of "k ! 6"] nth_mem[of 6 k] show False by (simp add: is_space_def)
    next
      case False
      then have "?line ! length k \<in> set ''export ''"
        unfolding t by (subst nth_append) (auto intro!: nth_mem simp del: set_simps list.set)
      then show False by (simp add: setting_line_def)
    qed
  qed
  have cut: "partition_at CHR ''='' ?line = (k, True, [dquote] @ v @ [dquote])"
    using chars unfolding partition_at_def setting_line_def
    by (auto simp: takeWhile_append2 dropWhile_append2 takeWhile_append dropWhile_append)
  have "strip ([dquote] @ v @ [dquote]) = [dquote] @ v @ [dquote]"
    by (intro strip_bounded) (auto simp: is_space_def)
  moreover have "?line \<noteq> []" "\<not> starts_with ''#'' ?line" "CHR ''='' \<in> set ?line"
    using chars k by (auto simp: setting_line_def starts_with_def)
  ultimately show ?thesis
    using strip_line export cut is_ident_strip[OF assms] unquote_quoted[of v]
    by (simp add: env_line_def Let_def)
qed

lemma fold_settings:
  "(\<And>kv. kv \<in> set kvs \<Longrightarrow> is_ident (fst kv)) \<Longrightarrow>
    fold (\<lambda>line values. case env_line line of None \<Rightarrow> values | Some (k, v) \<Rightarrow> values(k \<mapsto> v))
      (map setting_line kvs) m = m ++ map_of (rev kvs)"
proof (induction kvs arbitrary: m)
  case (Cons kv kvs)
  have "is_ident (fst kv)" using Cons.prems by simp
  then have "env_line (setting_line kv) = Some kv" by (cases kv) (simp add: env_line_setting)
  with Cons show ?case by (cases kv) (auto simp: map_add_def fun_eq_iff split: option.splits)
qed simp

lemma parse_settings:
  assumes "\<And>k v. (k, v) \<in> set kvs \<Longrightarrow> is_ident k \<and> (\<forall>c \<in> set v. \<not> is_break c)"
    and "distinct (map fst kvs)"
  shows "parse_env_file (concat (map (\<lambda>kv. setting_line kv @ [newline]) kvs)) = map_of kvs"
proof -
  have "splitlines (concat (map (\<lambda>l. l @ [newline]) (map setting_line kvs))) = map setting_line kvs"
  proof (rule splitlines_lines)
    fix l c
    assume "l \<in> set (map setting_line kvs)" and c: "c \<in> set l"
    then obtain k v where l: "l = setting_line (k, v)" and kv: "(k, v) \<in> set kvs" by auto
    from l c consider "c \<in> set k" | "c = CHR ''=''" | "c = dquote" | "c \<in> set v"
      by (auto simp: setting_line_def)
    then show "\<not> is_break c"
      using assms(1)[OF kv] is_ident_set[of k c] ident_char_code[of c]
      by cases (auto simp: is_break_def)
  qed
  then have "parse_env_file (concat (map (\<lambda>kv. setting_line kv @ [newline]) kvs))
      = Map.empty ++ map_of (rev kvs)"
    unfolding parse_env_file_def
    using fold_settings[of kvs Map.empty] assms(1) by (auto simp: comp_def)
  moreover have "map_of (rev kvs) = map_of kvs"
    using assms(2) by (metis distinct_rev map_of_inject_set rev_map set_rev)
  ultimately show ?thesis by simp
qed

section \<open>Tokens\<close>

lemma map_err_Inr_iff: "map_err f xs = Inr ys \<longleftrightarrow> list_all2 (\<lambda>x y. f x = Inr y) xs ys"
  by (induction xs arbitrary: ys) (auto simp: err_simps list_all2_Cons1)

lemma map_err_ok_iff: "(\<exists>ys. map_err f xs = Inr ys) \<longleftrightarrow> (\<forall>x \<in> set xs. \<exists>y. f x = Inr y)"
  by (induction xs) (auto simp: err_simps)

lemma sub_tokens_ok_iff:
  "(\<exists>r. sub_tokens f s = Inr r) \<longleftrightarrow> (\<forall>n \<in> set (find_tokens s). f n \<noteq> None)"
proof (induction f s rule: sub_tokens.induct)
  case (1 f s)
  show ?case
  proof (cases "s = []")
    case True
    then show ?thesis by (simp add: sub_tokens.simps find_tokens.simps)
  next
    case False
    show ?thesis
    proof (cases "token_at s")
      case None
      with 1(1)[OF False None] False show ?thesis
        by (subst sub_tokens.simps, subst find_tokens.simps) (auto simp: err_simps)
    next
      case (Some name)
      with 1(2)[OF False Some] False show ?thesis
        by (subst sub_tokens.simps, subst find_tokens.simps)
          (auto simp: err_simps split: option.splits)
    qed
  qed
qed

lemma sub_tokens_none: "find_tokens s = [] \<Longrightarrow> sub_tokens f s = Inr s"
proof (induction s rule: find_tokens.induct)
  case (1 s)
  show ?case
  proof (cases "s = []")
    case True
    then show ?thesis by (simp add: sub_tokens.simps)
  next
    case False
    with 1(3) have none: "token_at s = None" "find_tokens (tl s) = []"
      by (subst (asm) find_tokens.simps, simp split: option.splits)+
    from 1(1)[OF False none] False none(1) show ?thesis by (subst sub_tokens.simps) simp
  qed
qed

lemma fold_update_map_of:
  "map_of (fold (\<lambda>(k, v). AList.update k v) ls b) = map_of b ++ map_of (rev ls)"
  by (induction ls arbitrary: b) (auto simp: update_conv' fun_eq_iff map_add_def split: option.splits)

lemma fold_update_distinct:
  "distinct (map fst b) \<Longrightarrow> distinct (map fst (fold (\<lambda>(k, v). AList.update k v) ls b))"
  by (induction ls arbitrary: b) (auto simp: distinct_update)

definition event_items :: "token_args \<Rightarrow> (string \<times> string option) list" where
  "event_items a = (case event_literals a of None \<Rightarrow> [] | Some ls \<Rightarrow> ls)"

definition event_dict :: "token_args \<Rightarrow> (string \<times> string option) list" where
  "event_dict a = fold (\<lambda>(name, literal). AList.update name literal) (event_items a)
     [(''event_files'', None), (''event_keys'', None)]"

lemma event_dict_lookup:
  assumes "distinct (map fst (event_items a))"
  shows "(n, l) \<in> set (event_dict a) \<longleftrightarrow> map_of (event_dict a) n = Some l"
    and "map_of (event_dict a) n = (case map_of (event_items a) n of Some l \<Rightarrow> Some l
      | None \<Rightarrow> if n \<in> {''event_files'', ''event_keys''} then Some None else None)"
proof -
  have "distinct (map fst (event_dict a))"
    unfolding event_dict_def by (intro fold_update_distinct) simp
  then show "(n, l) \<in> set (event_dict a) \<longleftrightarrow> map_of (event_dict a) n = Some l" by simp
  have "map_of (rev (event_items a)) = map_of (event_items a)"
    using assms by (metis distinct_rev map_of_inject_set rev_map set_rev)
  then show "map_of (event_dict a) n = (case map_of (event_items a) n of Some l \<Rightarrow> Some l
      | None \<Rightarrow> if n \<in> {''event_files'', ''event_keys''} then Some None else None)"
    unfolding event_dict_def fold_update_map_of by (auto simp: map_add_def split: option.splits)
qed

lemma event_values_iff:
  assumes "distinct (map fst (event_items a))"
  shows "event_values found (event_literals a) = Inr ev
     \<longleftrightarrow> ev = event_dict a \<and> (\<forall>n \<in> found. (n, Some []) \<notin> set (event_items a))"
proof -
  have member: "(n, Some []) \<in> set (event_dict a) \<longleftrightarrow> (n, Some []) \<in> set (event_items a)" for n
  proof -
    have "(n, Some []) \<in> set (event_items a) \<longleftrightarrow> map_of (event_items a) n = Some (Some [])"
      using assms by simp
    then show ?thesis
      unfolding event_dict_lookup(1)[OF assms] event_dict_lookup(2)[OF assms]
      by (auto split: option.splits)
  qed
  have "check_all (\<lambda>(name, literal).
             if name \<in> found \<and> literal = Some [] then Some (NoEvidence name) else None) (event_dict a)
       = None \<longleftrightarrow> (\<forall>n \<in> found. (n, Some []) \<notin> set (event_dict a))"
    by (auto simp: err_simps)
  also have "\<dots> \<longleftrightarrow> (\<forall>n \<in> found. (n, Some []) \<notin> set (event_items a))"
    using member by simp
  finally show ?thesis
    unfolding event_values_def event_items_def[symmetric] event_dict_def[symmetric] Let_def
    by (auto split: option.splits)
qed

lemma check_task_tokens_iff:
  "check_task_tokens found known = None \<longleftrightarrow>
     set found \<subseteq> fst ` set known \<and> (\<forall>(n, e) \<in> set known. e \<longleftrightarrow> n \<in> set found)"
proof -
  have "sorted_set (filter (\<lambda>t. t \<notin> fst ` set known) found) = []
      \<longleftrightarrow> set found \<subseteq> fst ` set known"
    using sorted_set_simps(1)[of "filter (\<lambda>t. t \<notin> fst ` set known) found"]
    by (metis (no_types, lifting) empty_filter_conv set_empty subset_code(1))
  moreover have "check_all (\<lambda>(name, enabled).
             if name \<in> set found \<and> \<not> enabled then Some (TokenDisabled name)
             else if enabled \<and> name \<notin> set found then Some (TokenUnused name)
             else None) known = None
      \<longleftrightarrow> (\<forall>(n, e) \<in> set known. e \<longleftrightarrow> n \<in> set found)"
    unfolding check_all_None_iff by (rule ball_cong) (auto split: if_splits)
  ultimately show ?thesis by (simp add: check_task_tokens_def Let_def)
qed

text \<open>The tokens a task's parameters switch on.\<close>

definition watermark_items :: "token_args \<Rightarrow> (string \<times> string) list" where
  "watermark_items a = (case watermark_literals a of None \<Rightarrow> [] | Some w \<Rightarrow> w)"

definition switched_on :: "token_args \<Rightarrow> string set" where
  "switched_on a =
     {n. n = ''pipeline_id'' \<and> pipeline_id_substitution a
       \<or> n = ''pipeline_run_id'' \<and> pipeline_run_id_substitution a
       \<or> n = ''task_run_id'' \<and> task_run_id_substitution a
       \<or> n = ''pipeline_run_id_filter'' \<and> filter_enabled a
       \<or> n = ''run_date'' \<and> run_date_substitution a
       \<or> n = ''watermark'' \<and> watermark_literals a \<noteq> None
       \<or> n = ''watermark_max'' \<and> ''watermark_max'' \<in> fst ` set (watermark_items a)}"

definition switch_names :: "string list" where
  "switch_names =
     [''pipeline_id'', ''pipeline_run_id'', ''task_run_id'', ''pipeline_run_id_filter'', ''run_date'',
      ''watermark'', ''watermark_max'']"

lemma known_tokens_switched:
  "known_tokens a found = map (\<lambda>n. (n, n \<in> switched_on a)) switch_names
     @ map (\<lambda>n. (n, n \<in> set found)) [''event_files'', ''event_keys'']"
  by (cases "watermark_literals a")
    (simp_all add: known_tokens_def switched_on_def switch_names_def watermark_items_def)

lemma known_tokens_iff:
  "check_task_tokens found (known_tokens a found) = None \<longleftrightarrow>
     switched_on a \<subseteq> set found
     \<and> set found \<subseteq> switched_on a \<union> {''event_files'', ''event_keys''}"
proof -
  have sub: "switched_on a \<subseteq> set switch_names"
    by (auto simp: switched_on_def switch_names_def)
  have "check_task_tokens found (known_tokens a found) = None \<longleftrightarrow>
      set found \<subseteq> set switch_names \<union> {''event_files'', ''event_keys''}
      \<and> (\<forall>n \<in> set switch_names. n \<in> switched_on a \<longleftrightarrow> n \<in> set found)"
    unfolding check_task_tokens_iff known_tokens_switched
    by (simp add: image_Un image_image ball_Un)
  moreover have sets: "F \<subseteq> N \<union> E \<and> (\<forall>n \<in> N. n \<in> S \<longleftrightarrow> n \<in> F) \<longleftrightarrow> S \<subseteq> F \<and> F \<subseteq> S \<union> E"
    if "S \<subseteq> N" "N \<inter> E = {}" for F N E S :: "string set"
    using that by blast
  have "set found \<subseteq> set switch_names \<union> {''event_files'', ''event_keys''}
      \<and> (\<forall>n \<in> set switch_names. n \<in> switched_on a \<longleftrightarrow> n \<in> set found)
      \<longleftrightarrow> switched_on a \<subseteq> set found
        \<and> set found \<subseteq> switched_on a \<union> {''event_files'', ''event_keys''}"
    by (rule sets[OF sub]) (simp add: switch_names_def)
  ultimately show ?thesis by simp
qed

lemma replacement_exists:
  assumes "distinct (map fst (event_items a))"
    and "n \<in> switched_on a \<union> {''event_files'', ''event_keys''}"
    and "n = ''watermark'' \<longrightarrow> ''watermark'' \<in> fst ` set (watermark_items a)"
  shows "replacements a (event_dict a) n \<noteq> None"
proof (cases "n \<in> {''event_files'', ''event_keys''}")
  case True
  then have "map_of (event_dict a) n \<noteq> None"
    using event_dict_lookup(2)[OF assms(1), of n] by (auto split: option.splits)
  then have "n \<in> fst ` set (event_dict a)" by (simp add: map_of_eq_None_iff)
  then show ?thesis
    unfolding replacements_def by (auto simp: map_of_eq_None_iff image_image case_prod_unfold)
next
  case False
  have "n \<in> {''pipeline_id'', ''pipeline_run_id'', ''task_run_id'', ''pipeline_run_id_filter'', ''run_date''}
      \<or> map_of (watermark_items a) n \<noteq> None"
    using False assms(2,3) unfolding switched_on_def by (auto simp: map_of_eq_None_iff split: if_splits)
  then show ?thesis
    unfolding replacements_def watermark_items_def[symmetric] by auto
qed

lemma substitute_steps:
  assumes "distinct (map fst (event_items a))"
  shows "substitute_task_tokens a sql = Inr out \<longleftrightarrow>
     (let parts = sql_parts True sql; found = set (code_tokens parts) in
      (\<forall>n \<in> found. (n, Some []) \<notin> set (event_items a))
      \<and> (switched_on a \<subseteq> found \<and> found \<subseteq> switched_on a \<union> {''event_files'', ''event_keys''})
      \<and> (\<exists>outs. map_err (\<lambda>(part, protected). if protected then Inr part
           else sub_tokens (replacements a (event_dict a)) part) parts = Inr outs \<and> out = concat outs))"
proof -
  have guarded: "(case c of Some e \<Rightarrow> Inl e | None \<Rightarrow> m) = Inr out \<longleftrightarrow> c = None \<and> m = Inr out"
    for c :: "token_error option" and m
    by (cases c) simp_all
  have one_point: "(\<exists>x. (x = d \<and> e) \<and> c \<and> p x) \<longleftrightarrow> e \<and> c \<and> p d"
    for d :: "(string \<times> string option) list" and e c p
    by blast
  have give: "Inr (concat outs) = (Inr out :: token_error + string) \<longleftrightarrow> out = concat outs" for outs
    by auto
  show ?thesis
    unfolding substitute_task_tokens_def Let_def bind_err_Inr_iff event_values_iff[OF assms] guarded
      known_tokens_iff give
    by (rule one_point)
qed

lemma code_token_parts:
  "(\<forall>n \<in> set (code_tokens parts). Q n)
    \<longleftrightarrow> (\<forall>(part, protected) \<in> set parts. protected \<or> (\<forall>n \<in> set (find_tokens part). Q n))"
proof (induction parts)
  case (Cons x parts)
  obtain part protected where x: "x = (part, protected)" by (cases x)
  have "set (code_tokens (x # parts))
      = (if protected then {} else set (find_tokens part)) \<union> set (code_tokens parts)"
    by (simp add: code_tokens_def x)
  with Cons x show ?case by (cases protected) (simp_all add: ball_Un)
qed (simp add: code_tokens_def)

lemma all_replaced:
  "(\<exists>outs. map_err (\<lambda>(part, protected). if protected then Inr part else sub_tokens f part) parts
      = Inr outs) \<longleftrightarrow> (\<forall>n \<in> set (code_tokens parts). f n \<noteq> None)"
proof -
  have "(\<exists>y. (if p then Inr part else sub_tokens f part) = Inr y)
      \<longleftrightarrow> p \<or> (\<forall>n \<in> set (find_tokens part). f n \<noteq> None)" for p part
    by (cases p) (simp_all add: sub_tokens_ok_iff)
  then show ?thesis
    unfolding map_err_ok_iff code_token_parts case_prod_unfold by simp
qed

definition event_args :: "token_args \<Rightarrow> bool" where
  "event_args a \<longleftrightarrow> distinct (map fst (event_items a))
     \<and> fst ` set (event_items a) \<subseteq> {''event_files'', ''event_keys''}"

lemma replacement_missing:
  assumes "event_args a" and "''watermark'' \<notin> fst ` set (watermark_items a)"
  shows "replacements a (event_dict a) ''watermark'' = None"
proof -
  from assms(1) have items: "distinct (map fst (event_items a))"
    "map_of (event_items a) ''watermark'' = None"
    by (auto simp: event_args_def map_of_eq_None_iff)
  have "''watermark'' \<notin> fst ` set (event_dict a)"
    using event_dict_lookup(2)[OF items(1), of "''watermark''"] items(2)
    by (simp add: map_of_eq_None_iff[symmetric])
  then have "map_of (event_dict a) ''watermark'' = None" by (simp add: map_of_eq_None_iff)
  with assms(2) show ?thesis
    unfolding replacements_def watermark_items_def[symmetric] map_of_map
    by (simp add: map_of_eq_None_iff)
qed

lemma substitution_iff:
  assumes "event_args a"
  shows "(\<exists>out. substitute_task_tokens a sql = Inr out) \<longleftrightarrow>
     (let found = set (code_tokens (sql_parts True sql)) in
      (\<forall>n \<in> found. (n, Some []) \<notin> set (event_items a))
      \<and> (switched_on a \<subseteq> found \<and> found \<subseteq> switched_on a \<union> {''event_files'', ''event_keys''})
      \<and> (''watermark'' \<in> found \<longrightarrow> ''watermark'' \<in> fst ` set (watermark_items a)))"
proof -
  have items: "distinct (map fst (event_items a))" using assms by (simp add: event_args_def)
  let ?found = "set (code_tokens (sql_parts True sql))"
  have "(\<forall>n \<in> ?found. replacements a (event_dict a) n \<noteq> None)
      \<longleftrightarrow> (''watermark'' \<in> ?found \<longrightarrow> ''watermark'' \<in> fst ` set (watermark_items a))"
    if "?found \<subseteq> switched_on a \<union> {''event_files'', ''event_keys''}"
    using replacement_exists[OF items] replacement_missing[OF assms] that by blast
  then show ?thesis
    unfolding substitute_steps[OF items] Let_def all_replaced[symmetric] by auto
qed

section \<open>Properties\<close>

text \<open>
  C20. The parts \<open>sql_parts\<close> yields are the text, in order and without a gap; none is empty, two
  code parts never stand side by side, and nowhere in a code part does a quote (single, double or
  backtick) or a comment begin: everything quoted or commented is in a protected part.
\<close>

theorem parts_are_the_text:
  "concat (map fst (sql_parts ph s)) = s
   \<and> (\<forall>p \<in> set (sql_parts ph s). fst p \<noteq> []
        \<and> (snd p \<or> (\<forall>k < length (fst p). \<not> opens_part (fst p) k)))
   \<and> linked (\<lambda>p q. snd p \<or> snd q) (sql_parts ph s)"
proof -
  have "fst p \<noteq> [] \<and> (snd p \<or> (\<forall>k < length (fst p). \<not> opens_part (fst p) k))"
    if "p \<in> set (sql_parts ph s)" for p
    using sql_parts_nonempty[OF that] code_part_opens_nothing[of "fst p" ph s] that
    by (cases p) auto
  then show ?thesis by (simp add: sql_parts_concat sql_parts_alternate)
qed

theorem parts_are_the_text_witness:
  "sql_parts True ''a '' = [(''a '', False)]
   \<and> concat (map fst (sql_parts True ''x /* b */ y'')) = ''x /* b */ y''
   \<and> linked (\<lambda>p q. snd p \<or> snd q) (sql_parts True ''x /* b */ y'')"
proof (intro conjI)
  show "sql_parts True ''a '' = [(''a '', False)]" by code_simp
qed (use parts_are_the_text[of True "''x /* b */ y''"] in auto)

text \<open>
  A name written by \<open>quote_identifier\<close> cannot leave its quotes: whatever characters it
  holds, the scanner reads it as one protected part in front of any text that does not begin with
  a double quote, the rest of the text is what follows, and two names are written alike only if
  they are the same name.
\<close>

theorem quoted_name_stays_quoted:
  assumes "\<not> starts_with [dquote] post"
  shows "(\<exists>rest. sql_parts ph (quote_identifier name @ post) = (quote_identifier name, True) # rest
           \<and> concat (map fst rest) = post)
         \<and> (quote_identifier name = quote_identifier other \<longleftrightarrow> name = other)"
proof -
  let ?s = "quote_identifier name @ post"
  obtain t where parts: "sql_parts ph ?s = scan (protected_end t) ?s 0 0"
    by (rule sql_parts_placeholder)
  have e: "protected_end t ?s 0 = length (quote_identifier name)"
    by (rule quoted_identifier_end[OF assms])
  have nonempty: "0 < length ?s" "0 < protected_end t ?s 0"
    unfolding e by (simp_all add: quote_identifier_def)
  have first: "sql_parts ph ?s = (slice ?s 0 (protected_end t ?s 0), True)
      # scan (protected_end t) ?s (protected_end t ?s 0) (protected_end t ?s 0)"
    unfolding parts by (rule placeholder_rule.scan_first[OF nonempty])
  moreover have "slice ?s 0 (protected_end t ?s 0) = quote_identifier name"
    unfolding e by (simp add: slice_def)
  ultimately have "\<exists>rest. sql_parts ph ?s = (quote_identifier name, True) # rest
      \<and> concat (map fst rest) = post"
    using sql_parts_concat[of ph ?s] by auto
  with quote_identifier_inject show ?thesis by blast
qed

text \<open>
  \<open>split_statements\<close> cuts at exactly the semicolons outside protected parts: the raw
  statements joined by semicolons are the text, there is one more of them than semicolons in code
  parts, and the result is those that hold more than comments, without surrounding space.
\<close>

theorem statements_are_the_text:
  "\<exists>raw. join '';'' raw = sql
     \<and> length raw = code_semicolons (sql_parts False sql) + 1
     \<and> split_statements sql = map strip (filter (\<lambda>s. \<not> is_only_comments s) raw)"
  by (rule split_statements_raw)

text \<open>
  A checked object reference stays one: \<open>qualify\<close> accepts it, the result names three
  identifiers, is itself a safe reference, is split back into those three, and qualifying it again
  under any catalog changes nothing; a reference without a database gets the catalog.
\<close>

theorem qualified_reference_stable:
  assumes "is_safe_object_ref ref" and "is_ident catalog"
  shows "\<exists>d s t. qualify ref catalog = Inr (d @ ''.'' @ s @ ''.'' @ t)
     \<and> is_safe_object_ref (d @ ''.'' @ s @ ''.'' @ t)
     \<and> split_object_ref (d @ ''.'' @ s @ ''.'' @ t) = Inr (Some d, s, t)
     \<and> qualify (d @ ''.'' @ s @ ''.'' @ t) other = Inr (d @ ''.'' @ s @ ''.'' @ t)
     \<and> (split_object_ref ref = Inr (None, s, t) \<and> d = catalog
        \<or> split_object_ref ref = Inr (Some d, s, t))"
proof -
  obtain d s t where q: "qualify ref catalog = Inr (d @ ''.'' @ s @ ''.'' @ t)"
    and ids: "list_all is_ident [d, s, t]"
    and split: "split_object_ref ref = Inr (None, s, t) \<and> d = catalog
        \<or> split_object_ref ref = Inr (Some d, s, t)"
    using qualify_safe[OF assms] by blast
  from q split split_object_ref_join[OF ids] qualify_full[OF ids, of other] show ?thesis by blast
qed

text \<open>
  A settings file written as one \<open>NAME="value"\<close> line per setting is read back by
  \<open>parse_env_file\<close> as the same settings, for any names that are identifiers, each written once,
  and any values without line breaks: quotes, spaces, equals signs and hashes inside a value are
  kept.
\<close>

theorem settings_read_back:
  assumes "\<And>k v. (k, v) \<in> set kvs \<Longrightarrow> is_ident k \<and> (\<forall>c \<in> set v. \<not> is_break c)"
    and "distinct (map fst kvs)"
  shows "parse_env_file (concat (map (\<lambda>kv. setting_line kv @ [newline]) kvs)) = map_of kvs"
  using assms by (rule parse_settings)

text \<open>
  \<open>substitute_task_tokens\<close> refuses exactly the mistaken definitions: with event literals of
  the two event tokens, it returns a text if and only if every token in a code part is switched on
  or is an event token, every token switched on is there, no event token lacks its evidence, and
  a watermark token has its literal.
\<close>

theorem substitution_accepts_iff:
  assumes "event_args a"
  shows "(\<exists>out. substitute_task_tokens a sql = Inr out) \<longleftrightarrow>
     (let found = set (code_tokens (sql_parts True sql)) in
      (\<forall>n \<in> found. (n, Some []) \<notin> set (event_items a))
      \<and> (switched_on a \<subseteq> found \<and> found \<subseteq> switched_on a \<union> {''event_files'', ''event_keys''})
      \<and> (''watermark'' \<in> found \<longrightarrow> ''watermark'' \<in> fst ` set (watermark_items a)))"
  using assms by (rule substitution_iff)

definition demo_args :: token_args where
  "demo_args = \<lparr>pipeline_run_id = 7, refresh_type = ''INCREMENTAL'',
     pipeline_run_id_substitution = False, filter_enabled = True, force_all = False,
     run_date = \<lparr>year = 1970, month = 1, day = 1\<rparr>, run_date_substitution = False, pipeline_id = 0,
     task_run_id = 0, pipeline_id_substitution = False, task_run_id_substitution = False,
     watermark_literals = None, event_literals = None\<rparr>"

definition demo_query :: string where
  "demo_query = ''select a from t where '' @ [dollar, dollar] @ ''pipeline_run_id_filter''"

text \<open>
  What substitution returns differs from the text at the tokens of code parts only: it is
  one piece per part, a protected part unchanged (a token inside quotes or a comment is never
  replaced), a code part without tokens unchanged, and every other code part with each token
  replaced by its value; a text with no token in code, when no switch is on, is returned as it is.
\<close>

theorem substitution_changes_tokens_only:
  assumes "event_args a" and "substitute_task_tokens a sql = Inr out"
  shows "(\<exists>outs. out = concat outs \<and> list_all2 (\<lambda>(part, protected) o'.
       if protected \<or> find_tokens part = [] then o' = part
       else sub_tokens (replacements a (event_dict a)) part = Inr o') (sql_parts True sql) outs)
     \<and> (code_tokens (sql_parts True sql) = [] \<longrightarrow> out = sql)"
proof -
  have items: "distinct (map fst (event_items a))" using assms(1) by (simp add: event_args_def)
  let ?f = "replacements a (event_dict a)"
  obtain outs where out: "out = concat outs"
    and all: "list_all2 (\<lambda>x y. (\<lambda>(part, protected). if protected then Inr part else sub_tokens ?f part) x
        = Inr y) (sql_parts True sql) outs"
    using assms(2) unfolding substitute_steps[OF items] Let_def map_err_Inr_iff by blast
  have pieces: "list_all2 (\<lambda>(part, protected) o'.
       if protected \<or> find_tokens part = [] then o' = part else sub_tokens ?f part = Inr o')
       (sql_parts True sql) outs"
    by (rule list.rel_mono_strong[OF all]) (auto simp: sub_tokens_none split: if_splits)
  have "out = sql" if none: "code_tokens (sql_parts True sql) = []"
  proof -
  have "protected \<or> find_tokens part = []" if "(part, protected) \<in> set (sql_parts True sql)"
    for part protected
    using code_token_parts[of "sql_parts True sql" "\<lambda>_. False"] that none by auto
  then have "list_all2 (\<lambda>p o'. o' = fst p) (sql_parts True sql) outs"
    by (intro list.rel_mono_strong[OF pieces]) auto
  then have "outs = map fst (sql_parts True sql)"
    by (induction rule: list_all2_induct) auto
  with out show "out = sql" by (simp add: sql_parts_concat)
  qed
  with out pieces show ?thesis by blast
qed

end
