(* ===== verification/Gates.thy ===== *)
theory Gates
  imports Lifecycle Complex_Main
begin

text \<open>
  Cross-pipeline gates: \<^verbatim>\<open>execution/gates.py\<close> and the dependency trackers of
  \<^verbatim>\<open>engine/repository/trackers.py\<close> with their SQL. What a check reads of an upstream (its
  latest and latest finished run, its average length) is an argument of the definitions, as it
  stands when the check reads it; the admission decisions and the consumption log are tables.
  Instants are microseconds, lengths are rational seconds. Labels and the wording of reasons are
  left out; a reason keeps what it names.
\<close>

section \<open>Judging an upstream\<close>

record latest_run =
  l_run :: int
  l_status :: run_status
  l_start :: instant

record finished_run =
  f_run :: int
  f_status :: run_status
  f_has_data :: bool
  f_revision :: int
  f_pipeline_run :: "int option"

record consumed_run =
  c_run :: int
  c_revision :: int

datatype gate_reason =
    GatesAreOff | NoFinishedRun | NoFreshOutput int | RepairRefused int int int
  | AlreadyConsumed int | NotSatisfying int run_status bool string | EndedAs int run_status

record gate_decision =
  g_dependency :: int
  g_task :: bool
  g_selected :: "finished_run option"
  g_result :: gate_outcome
  g_reason :: gate_reason

definition gates_off :: "bool \<Rightarrow> int \<Rightarrow> gate_decision" where
  "gates_off task dependency =
     \<lparr>g_dependency = dependency, g_task = task, g_selected = None, g_result = GateBypassed,
      g_reason = GatesAreOff\<rparr>"

definition judged :: "gate_policy \<Rightarrow> bool \<Rightarrow> gate_outcome" where
  "judged policy satisfied =
     (if satisfied then GateSatisfied
      else if policy = PolicyWarn then GateBypassed else GateUnsatisfied)"

text \<open>The unknown dependency type is the error.\<close>

definition satisfies :: "string \<Rightarrow> finished_run \<Rightarrow> string + bool" where
  "satisfies dependency_type run =
     (if dependency_type = dependency_value DepSuccess then Inr (f_status run = RunSuccess)
      else if dependency_type = dependency_value DepFailure then Inr (f_status run = RunFailed)
      else if dependency_type = dependency_value DepAlways
      then Inr (f_status run \<in> set terminal_statuses)
      else if dependency_type = dependency_value DepHasData
      then Inr (f_status run = RunSuccess \<and> f_has_data run)
      else Inl dependency_type)"

definition judge ::
  "string \<Rightarrow> finished_run option \<Rightarrow> consumed_run option \<Rightarrow> bool
    \<Rightarrow> string + (int option \<times> gate_reason)" where
  "judge dependency_type run consumed consume_repairs =
     (case run of
        None \<Rightarrow> Inr (None, NoFinishedRun)
      | Some r \<Rightarrow>
          if f_revision r = 0 then Inr (None, NoFreshOutput (f_run r))
          else
            (let repair = (case consumed of None \<Rightarrow> False
                   | Some c \<Rightarrow> f_run r = c_run c \<and> f_revision r > c_revision c \<and> \<not> consume_repairs);
                 old = (case consumed of None \<Rightarrow> False
                   | Some c \<Rightarrow> f_run r < c_run c
                       \<or> (f_run r = c_run c \<and> (\<not> consume_repairs \<or> f_revision r \<le> c_revision c)))
             in if repair then
                  Inr (None, RepairRefused (f_run r) (f_revision r) (c_revision (the consumed)))
                else if old then Inr (None, AlreadyConsumed (c_run (the consumed)))
                else bind_err (satisfies dependency_type r) (\<lambda>ok.
                  if \<not> ok then Inr (None, NotSatisfying (f_run r) (f_status r)
                                     (f_status r = RunSuccess) dependency_type)
                  else Inr (Some (f_run r), EndedAs (f_run r) (f_status r)))))"

section \<open>Waiting\<close>

definition first_look_fraction :: rat where "first_look_fraction = 7 / 10"
definition look_fraction_step :: rat where "look_fraction_step = 1 / 10"
definition max_looks :: int where "max_looks = 30"
definition wait_limit_seconds :: rat where "wait_limit_seconds = 3600"
definition min_look_interval_seconds :: rat where "min_look_interval_seconds = 1"
definition default_run_seconds :: rat where "default_run_seconds = 300"

text \<open>\<open>timedelta(seconds=s)\<close> in whole microseconds, half to even, and back.\<close>

definition micros :: "rat \<Rightarrow> int" where
  "micros s =
     (let x = s * 1000000; f = \<lfloor>x\<rfloor>; r = x - of_int f in
      if r < 1 / 2 then f else if r > 1 / 2 then f + 1 else if even f then f else f + 1)"

definition seconds :: "int \<Rightarrow> rat" where
  "seconds us = of_int us / 1000000"

record wait_budget =
  deadline :: instant
  looks_left :: int

definition start_budget :: "instant \<Rightarrow> rat \<Rightarrow> wait_budget" where
  "start_budget now secs = \<lparr>deadline = now + micros secs, looks_left = max_looks\<rparr>"

definition exhausted :: "wait_budget \<Rightarrow> instant \<Rightarrow> bool" where
  "exhausted b now \<longleftrightarrow> looks_left b \<le> 0 \<or> now \<ge> deadline b"

definition next_look_delay :: "rat \<Rightarrow> rat \<Rightarrow> rat \<Rightarrow> rat \<Rightarrow> rat" where
  "next_look_delay average elapsed fraction remaining =
     max 0 (min (max min_look_interval_seconds (average * fraction - elapsed)) remaining)"

definition average_or_default :: "rat option \<Rightarrow> rat" where
  "average_or_default a =
     (case a of None \<Rightarrow> default_run_seconds | Some s \<Rightarrow> if s = 0 then default_run_seconds else s)"

definition in_progress :: "latest_run option \<Rightarrow> bool" where
  "in_progress l = (case l of None \<Rightarrow> False | Some r \<Rightarrow> l_status r = RunInProgress)"

text \<open>
  \<open>_wait_while_running\<close>: \<open>latest\<close> is what a look at an instant finds, \<open>sleep\<close> the instant at
  which a sleep of some seconds ends. The result is the budget left, the time, and how many looks
  were taken.
\<close>

function wait_loop ::
  "(instant \<Rightarrow> latest_run option) \<Rightarrow> (instant \<Rightarrow> rat \<Rightarrow> instant) \<Rightarrow> rat \<Rightarrow> rat \<Rightarrow> latest_run
    \<Rightarrow> wait_budget \<Rightarrow> instant \<Rightarrow> wait_budget \<times> instant" where
  "wait_loop latest sleep average fraction r b now =
     (if exhausted b now then (b, now)
      else
        (let delay = next_look_delay average (seconds (now - l_start r)) fraction
               (seconds (deadline b - now));
             now' = (if delay > 0 then sleep now delay else now);
             b' = b\<lparr>looks_left := looks_left b - 1\<rparr>
         in case latest now' of
              None \<Rightarrow> (b', now')
            | Some r' \<Rightarrow>
                if l_status r' \<noteq> RunInProgress then (b', now')
                else wait_loop latest sleep average (fraction + look_fraction_step) r' b' now'))"
  by pat_completeness auto
termination
  by (relation "measure (\<lambda>(_, _, _, _, _, b, _). nat (looks_left b))") (auto simp: exhausted_def)

declare wait_loop.simps [simp del]

definition wait_while_running ::
  "(instant \<Rightarrow> latest_run option) \<Rightarrow> (instant \<Rightarrow> rat \<Rightarrow> instant) \<Rightarrow> rat option
    \<Rightarrow> wait_budget \<Rightarrow> instant \<Rightarrow> wait_budget \<times> instant" where
  "wait_while_running latest sleep average b now =
     (case latest now of
        None \<Rightarrow> (b, now)
      | Some r \<Rightarrow>
          if l_status r \<noteq> RunInProgress then (b, now)
          else wait_loop latest sleep (average_or_default average) first_look_fraction r b now)"

section \<open>Checks\<close>

record gate_edge =
  e_id :: int
  e_upstream :: int
  e_type :: string
  e_repairs :: bool

text \<open>
  A waiter is asked for each edge in turn and may say when to look next; it carries the state of
  the wait. \<open>finished\<close> and \<open>consumed\<close> are what the check reads once the waiter lets it.
\<close>

type_synonym 'w waiter = "gate_edge \<Rightarrow> 'w \<Rightarrow> instant option \<times> 'w"

record task_check =
  satisfied_count :: int
  tc_reasons :: "(int \<times> gate_reason) list"
  tc_consumed :: "(int \<times> int) list"
  definitive :: bool
  tc_bypassed :: "(int \<times> gate_reason) list"
  tc_decisions :: "gate_decision list"
  tc_next_check :: "instant option"

definition decision_of ::
  "bool \<Rightarrow> gate_policy \<Rightarrow> gate_edge \<Rightarrow> finished_run option \<Rightarrow> int option \<times> gate_reason
    \<Rightarrow> gate_decision" where
  "decision_of task policy edge run verdict =
     \<lparr>g_dependency = e_id edge, g_task = task, g_selected = run,
      g_result = judged policy (fst verdict \<noteq> None), g_reason = snd verdict\<rparr>"

text \<open>\<open>TrackedGate.check\<close>: the loop over the edges until enough of them are satisfied.\<close>

fun task_loop ::
  "gate_policy \<Rightarrow> 'w waiter \<Rightarrow> (gate_edge \<Rightarrow> 'w \<Rightarrow> finished_run option)
    \<Rightarrow> (gate_edge \<Rightarrow> consumed_run option) \<Rightarrow> int \<Rightarrow> gate_edge list \<Rightarrow> task_check \<Rightarrow> 'w
    \<Rightarrow> string + task_check \<times> 'w" where
  "task_loop policy waiter finished consumed needed [] acc w = Inr (acc, w)"
| "task_loop policy waiter finished consumed needed (edge # edges) acc w =
     (if satisfied_count acc \<ge> needed then Inr (acc, w)
      else
        (case waiter edge w of
           (Some next, w) \<Rightarrow>
             Inr (\<lparr>satisfied_count = 0, tc_reasons = [], tc_consumed = [], definitive = False,
                   tc_bypassed = [], tc_decisions = [], tc_next_check = Some next\<rparr>, w)
         | (None, w) \<Rightarrow>
             (let run = finished edge w in
              bind_err (judge (e_type edge) run (consumed edge) (e_repairs edge)) (\<lambda>verdict.
                let acc = acc\<lparr>tc_decisions :=
                      tc_decisions acc @ [decision_of True policy edge run verdict]\<rparr> in
                task_loop policy waiter finished consumed needed edges
                  (case fst verdict of
                     None \<Rightarrow> acc\<lparr>tc_reasons := tc_reasons acc @ [(e_id edge, snd verdict)]\<rparr>
                   | Some run_id \<Rightarrow>
                       acc\<lparr>satisfied_count := satisfied_count acc + 1,
                           tc_consumed := tc_consumed acc @ [(e_id edge, run_id)]\<rparr>)
                  w))))"

definition empty_check :: task_check where
  "empty_check = \<lparr>satisfied_count = 0, tc_reasons = [], tc_consumed = [], definitive = True,
     tc_bypassed = [], tc_decisions = [], tc_next_check = None\<rparr>"

definition check_task ::
  "gate_policy \<Rightarrow> 'w waiter \<Rightarrow> (gate_edge \<Rightarrow> 'w \<Rightarrow> finished_run option)
    \<Rightarrow> (gate_edge \<Rightarrow> consumed_run option) \<Rightarrow> int \<Rightarrow> gate_edge list \<Rightarrow> 'w
    \<Rightarrow> string + task_check \<times> 'w" where
  "check_task policy waiter finished consumed needed edges w =
     (if policy = PolicyOff then
        Inr (empty_check\<lparr>satisfied_count := needed,
               tc_bypassed := map (\<lambda>e. (e_id e, GatesAreOff)) edges,
               tc_decisions := map (\<lambda>e. gates_off True (e_id e)) edges\<rparr>, w)
      else
        bind_err (task_loop policy waiter finished consumed needed edges empty_check w) (\<lambda>(acc, w).
          Inr (if tc_next_check acc = None \<and> policy = PolicyWarn \<and> satisfied_count acc < needed
               then acc\<lparr>satisfied_count := needed, tc_reasons := [], tc_bypassed := tc_reasons acc\<rparr>
               else acc, w)))"

record pipeline_check =
  pc_reasons :: "(int \<times> gate_reason) list"
  pc_consumed :: "(int \<times> int) list"
  pc_bypassed :: "(int \<times> gate_reason) list"
  pc_decisions :: "gate_decision list"
  pc_next_check :: "instant option"

definition pc_satisfied :: "pipeline_check \<Rightarrow> bool" where
  "pc_satisfied c \<longleftrightarrow> pc_reasons c = [] \<and> pc_next_check c = None"

definition empty_pipeline_check :: pipeline_check where
  "empty_pipeline_check = \<lparr>pc_reasons = [], pc_consumed = [], pc_bypassed = [],
     pc_decisions = [], pc_next_check = None\<rparr>"

text \<open>\<open>check_pipeline_dependencies\<close>: the loop over all edges; the first unsatisfied one ends it.\<close>

fun pipeline_loop ::
  "gate_policy \<Rightarrow> 'w waiter \<Rightarrow> (gate_edge \<Rightarrow> 'w \<Rightarrow> finished_run option)
    \<Rightarrow> (gate_edge \<Rightarrow> consumed_run option) \<Rightarrow> gate_edge list \<Rightarrow> pipeline_check \<Rightarrow> 'w
    \<Rightarrow> string + pipeline_check \<times> 'w" where
  "pipeline_loop policy waiter finished consumed [] acc w = Inr (acc, w)"
| "pipeline_loop policy waiter finished consumed (edge # edges) acc w =
     (case waiter edge w of
        (Some next, w) \<Rightarrow> Inr (empty_pipeline_check\<lparr>pc_next_check := Some next\<rparr>, w)
      | (None, w) \<Rightarrow>
          (let run = finished edge w in
           bind_err (judge (e_type edge) run (consumed edge) (e_repairs edge)) (\<lambda>verdict.
             let decisions = pc_decisions acc @ [decision_of False policy edge run verdict] in
             case fst verdict of
               None \<Rightarrow>
                 if policy = PolicyWarn then
                   pipeline_loop policy waiter finished consumed edges
                     (acc\<lparr>pc_decisions := decisions,
                          pc_bypassed := pc_bypassed acc @ [(e_id edge, snd verdict)]\<rparr>) w
                 else Inr (empty_pipeline_check\<lparr>pc_reasons := [(e_id edge, snd verdict)],
                             pc_decisions := decisions\<rparr>, w)
             | Some run_id \<Rightarrow>
                 pipeline_loop policy waiter finished consumed edges
                   (acc\<lparr>pc_decisions := decisions,
                        pc_consumed := pc_consumed acc @ [(e_id edge, run_id)]\<rparr>) w)))"

definition check_pipeline_dependencies ::
  "gate_policy \<Rightarrow> 'w waiter \<Rightarrow> (gate_edge \<Rightarrow> 'w \<Rightarrow> finished_run option)
    \<Rightarrow> (gate_edge \<Rightarrow> consumed_run option) \<Rightarrow> gate_edge list \<Rightarrow> 'w
    \<Rightarrow> string + pipeline_check \<times> 'w" where
  "check_pipeline_dependencies policy waiter finished consumed edges w =
     (if policy = PolicyOff then
        Inr (empty_pipeline_check\<lparr>pc_bypassed := map (\<lambda>e. (e_id e, GatesAreOff)) edges,
               pc_decisions := map (\<lambda>e. gates_off False (e_id e)) edges\<rparr>, w)
      else pipeline_loop policy waiter finished consumed edges empty_pipeline_check w)"

section \<open>The durable wait\<close>

text \<open>The \<open>AUD_GATE_WAITS\<close> row of one run (or task); no next check means the wait is over.\<close>

record gate_wait =
  w_first :: instant
  w_next :: "instant option"
  w_looks :: int
  w_until :: instant

text \<open>What one check reads of the upstreams of its edges.\<close>

record gate_reads =
  rd_latest :: "gate_edge \<Rightarrow> latest_run option"
  rd_average :: "gate_edge \<Rightarrow> rat option"
  rd_finished :: "gate_edge \<Rightarrow> finished_run option"
  rd_consumed :: "gate_edge \<Rightarrow> consumed_run option"

datatype gate_target = PipelineGate "gate_edge list" | TaskGate int "gate_edge list"

datatype gate_check = PipelineChecked pipeline_check | TaskChecked task_check

fun next_check_of :: "gate_check \<Rightarrow> instant option" where
  "next_check_of (PipelineChecked c) = pc_next_check c"
| "next_check_of (TaskChecked c) = tc_next_check c"

fun check_passes :: "gate_target \<Rightarrow> gate_check \<Rightarrow> bool" where
  "check_passes target (PipelineChecked c) = pc_satisfied c"
| "check_passes (TaskGate needed edges) (TaskChecked c) = (satisfied_count c \<ge> needed)"
| "check_passes (PipelineGate edges) (TaskChecked c) = False"

text \<open>The wait as the check finds it: when it is due, a look has been taken.\<close>

record wait_view =
  v_waiting :: bool
  v_first :: instant
  v_deadline :: instant
  v_due :: bool
  v_looks :: int

definition view_wait :: "instant \<Rightarrow> rat \<Rightarrow> gate_wait option \<Rightarrow> wait_view" where
  "view_wait now wait_seconds row =
     (case row of
        Some w \<Rightarrow>
          (case w_next w of
             Some next \<Rightarrow>
               \<lparr>v_waiting = True, v_first = w_first w, v_deadline = w_until w, v_due = (now \<ge> next),
                v_looks = (if now \<ge> next then w_looks w + 1 else w_looks w)\<rparr>
           | None \<Rightarrow> \<lparr>v_waiting = False, v_first = now, v_deadline = now + micros wait_seconds,
                      v_due = False, v_looks = 0\<rparr>)
      | None \<Rightarrow> \<lparr>v_waiting = False, v_first = now, v_deadline = now + micros wait_seconds,
                 v_due = False, v_looks = 0\<rparr>)"

text \<open>The waiter of a check that does not sleep: when to look at a running upstream next.\<close>

definition poll :: "instant \<Rightarrow> gate_wait option \<Rightarrow> wait_view \<Rightarrow> gate_reads \<Rightarrow> unit waiter" where
  "poll now row v reads edge w =
     (let latest = rd_latest reads edge in
      if \<not> in_progress latest
         \<or> exhausted \<lparr>deadline = v_deadline v, looks_left = max_looks - v_looks v\<rparr> now
      then (None, w)
      else if v_waiting v \<and> \<not> v_due v then (w_next (the row), w)
      else
        (Some (now + micros (next_look_delay (average_or_default (rd_average reads edge))
                 (seconds (now - l_start (the latest)))
                 (first_look_fraction + of_int (v_looks v) * look_fraction_step)
                 (seconds (v_deadline v - now)))), w))"

record gate_result =
  gr_state :: gate_outcome
  gr_check :: gate_check
  gr_next :: "instant option"

definition run_check ::
  "gate_policy \<Rightarrow> unit waiter \<Rightarrow> gate_reads \<Rightarrow> gate_target \<Rightarrow> string + gate_check" where
  "run_check policy waiter reads target =
     (case target of
        PipelineGate edges \<Rightarrow>
          bind_err (check_pipeline_dependencies policy waiter (\<lambda>e _. rd_finished reads e)
                      (rd_consumed reads) edges ())
            (\<lambda>(c, _). Inr (PipelineChecked c))
      | TaskGate needed edges \<Rightarrow>
          bind_err (check_task policy waiter (\<lambda>e _. rd_finished reads e)
                      (rd_consumed reads) needed edges ())
            (\<lambda>(c, _). Inr (TaskChecked c)))"

text \<open>\<open>check_gate\<close>, with the row it leaves in the table.\<close>

definition check_gate ::
  "gate_policy \<Rightarrow> rat \<Rightarrow> instant \<Rightarrow> gate_reads \<Rightarrow> gate_target \<Rightarrow> gate_wait option
    \<Rightarrow> string + gate_result \<times> gate_wait option" where
  "check_gate policy wait_seconds now reads target row =
     (let v = view_wait now wait_seconds row in
      bind_err (run_check policy (poll now row v reads) reads target) (\<lambda>check.
        let next = next_check_of check;
            row' =
              (if next \<noteq> None
                  \<and> (row = None \<or> w_next (the row) = None \<or> v_looks v \<noteq> w_looks (the row)
                     \<or> next \<noteq> w_next (the row))
               then Some \<lparr>w_first = v_first v, w_next = next, w_looks = v_looks v,
                          w_until = v_deadline v\<rparr>
               else if v_waiting v \<and> next = None
               then Some ((the row)\<lparr>w_next := None, w_looks := min (v_looks v) max_looks\<rparr>)
               else row)
        in Inr (\<lparr>gr_state = (if next \<noteq> None then GateWait
                             else judged PolicyEnforce (check_passes target check)),
                 gr_check = check, gr_next = next\<rparr>, row')))"

section \<open>What a successful run consumes\<close>

text \<open>An admission decision as recorded, with the run and the attempt it admitted.\<close>

record decision_row = gate_decision +
  d_run :: int
  d_attempt :: "int option"

record consumption =
  n_dependency :: int
  n_of_task :: bool
  n_run :: int
  n_task :: "int option"
  n_upstream_run :: int
  n_upstream_task :: "int option"
  n_revision :: int

definition record_decisions ::
  "int \<Rightarrow> int option \<Rightarrow> gate_decision list \<Rightarrow> decision_row list \<Rightarrow> decision_row list" where
  "record_decisions run attempt decisions rows =
     rows @ map (\<lambda>g. \<lparr>g_dependency = g_dependency g, g_task = g_task g, g_selected = g_selected g,
                       g_result = g_result g, g_reason = g_reason g, d_run = run,
                       d_attempt = attempt\<rparr>) decisions"

text \<open>The upstream run a decision selected, when its row is there to join.\<close>

definition selected_run :: "engine_db \<Rightarrow> decision_row \<Rightarrow> finished_run option" where
  "selected_run db d =
     (case g_selected d of
        None \<Rightarrow> None
      | Some f \<Rightarrow>
          (case f_pipeline_run f of
             None \<Rightarrow> None
           | Some u \<Rightarrow> if row_of r_id u (db_runs db) = None then None else Some f))"

definition consumable_run :: "engine_db \<Rightarrow> int \<Rightarrow> (run_row \<Rightarrow> bool) \<Rightarrow> bool" where
  "consumable_run db run ok =
     (case row_of r_id run (db_runs db) of None \<Rightarrow> False | Some r \<Rightarrow> \<not> r_selected r \<and> ok r)"

text \<open>One \<open>INSERT ... SELECT\<close>: what is already consumed is read before any row is added.\<close>

definition consume_pipeline_decisions ::
  "engine_db \<Rightarrow> decision_row list \<Rightarrow> int \<Rightarrow> consumption list \<Rightarrow> consumption list" where
  "consume_pipeline_decisions db rows run entries =
     entries @ concat (map (\<lambda>d.
       case selected_run db d of
         None \<Rightarrow> []
       | Some f \<Rightarrow>
           let n = \<lparr>n_dependency = g_dependency d, n_of_task = False, n_run = run, n_task = None,
                    n_upstream_run = the (f_pipeline_run f), n_upstream_task = None,
                    n_revision = f_revision f\<rparr> in
           if d_run d = run \<and> \<not> g_task d \<and> g_result d = GateSatisfied
              \<and> consumable_run db run (\<lambda>r. r_status r = RunSuccess)
              \<and> \<not> list_ex (\<lambda>c. n_run c = run \<and> \<not> n_of_task c \<and> n_dependency c = g_dependency d
                     \<and> n_upstream_run c = n_upstream_run n \<and> n_revision c = n_revision n) entries
           then [n] else []) rows)"

text \<open>The attempt of a task decision, when it succeeded or was handed off to a task run that did.\<close>

definition decision_task :: "engine_db \<Rightarrow> decision_row \<Rightarrow> (attempt_row \<times> task_row) option" where
  "decision_task db d =
     (case d_attempt d of
        None \<Rightarrow> None
      | Some k \<Rightarrow>
          (case row_of a_id k (db_attempts db) of
             None \<Rightarrow> None
           | Some a \<Rightarrow>
               (case row_of t_id (a_task_run a) (db_tasks db) of
                  None \<Rightarrow> None
                | Some t \<Rightarrow>
                    if a_status a = AttSuccess
                       \<or> (a_status a = AttHandedOff \<and> t_status t = RunSuccess
                          \<and> a_number a = t_attempts t)
                    then Some (a, t) else None)))"

definition consume_task_decisions ::
  "engine_db \<Rightarrow> decision_row list \<Rightarrow> int \<Rightarrow> int \<Rightarrow> int option \<Rightarrow> consumption list
    \<Rightarrow> consumption list" where
  "consume_task_decisions db rows task run attempt entries =
     entries @ concat (map (\<lambda>d.
       case (selected_run db d, decision_task db d) of
         (Some f, Some (a, t)) \<Rightarrow>
           let n = \<lparr>n_dependency = g_dependency d, n_of_task = True, n_run = run, n_task = Some task,
                    n_upstream_run = the (f_pipeline_run f), n_upstream_task = Some (f_run f),
                    n_revision = f_revision f\<rparr> in
           if d_run d = run \<and> t_task t = task \<and> (attempt = None \<or> attempt = Some (a_id a))
              \<and> g_task d \<and> g_result d = GateSatisfied \<and> consumable_run db run (\<lambda>r. True)
              \<and> \<not> list_ex (\<lambda>c. n_run c = run \<and> n_task c = Some task \<and> n_of_task c
                     \<and> n_dependency c = g_dependency d \<and> n_upstream_task c = n_upstream_task n
                     \<and> n_revision c = n_revision n) entries
           then [n] else []
       | _ \<Rightarrow> []) rows)"

text \<open>\<open>_last_consumed\<close>: the latest row of the log for a dependency.\<close>

definition pipeline_last_consumed :: "consumption list \<Rightarrow> int \<Rightarrow> consumed_run option" where
  "pipeline_last_consumed entries dependency =
     map_option (\<lambda>n. \<lparr>c_run = n_upstream_run n, c_revision = n_revision n\<rparr>)
       (find (\<lambda>n. \<not> n_of_task n \<and> n_dependency n = dependency) (rev entries))"

definition task_last_consumed :: "consumption list \<Rightarrow> int \<Rightarrow> consumed_run option" where
  "task_last_consumed entries dependency =
     map_option (\<lambda>n. \<lparr>c_run = the (n_upstream_task n), c_revision = n_revision n\<rparr>)
       (find (\<lambda>n. n_of_task n \<and> n_dependency n = dependency) (rev entries))"

end
