(* ===== verification/Gate_Claims.thy ===== *)
theory Gate_Claims
  imports Gates
begin

text \<open>
  What the gates promise: which upstream run satisfies a dependency and that a consumed one
  never does again, what each policy admits, that a durable wait keeps its deadline and its number
  of looks and ends, that a sleeping wait never passes its deadline, and that consumption is
  recorded once.
\<close>

section \<open>Judgements\<close>

text \<open>A run or a published revision the dependency has not consumed.\<close>

definition fresh :: "finished_run \<Rightarrow> consumed_run option \<Rightarrow> bool \<Rightarrow> bool" where
  "fresh r consumed repairs \<longleftrightarrow> f_revision r \<noteq> 0
     \<and> (case consumed of None \<Rightarrow> True
        | Some c \<Rightarrow> c_run c < f_run r
            \<or> (c_run c = f_run r \<and> repairs \<and> c_revision c < f_revision r))"

lemma judge_cases:
  "judge ty None consumed repairs = Inr (None, NoFinishedRun)"
  "\<not> fresh r consumed repairs \<Longrightarrow> \<exists>why. judge ty (Some r) consumed repairs = Inr (None, why)"
  "fresh r consumed repairs \<Longrightarrow> judge ty (Some r) consumed repairs =
     bind_err (satisfies ty r) (\<lambda>ok.
       if \<not> ok then Inr (None, NotSatisfying (f_run r) (f_status r) (f_status r = RunSuccess) ty)
       else Inr (Some (f_run r), EndedAs (f_run r) (f_status r)))"
  unfolding judge_def fresh_def Let_def
  by (auto split: option.splits if_splits)

lemma judge_iff:
  "judge ty run consumed repairs = Inr (Some k, why) \<longleftrightarrow>
     (\<exists>r. run = Some r \<and> fresh r consumed repairs \<and> satisfies ty r = Inr True
        \<and> k = f_run r \<and> why = EndedAs (f_run r) (f_status r))"
proof (cases run)
  case (Some r)
  show ?thesis
  proof (cases "fresh r consumed repairs")
    case True
    then show ?thesis unfolding Some judge_cases(3)[OF True] by (auto simp: err_simps split: if_splits)
  next
    case False
    with judge_cases(2)[OF False, of ty] Some show ?thesis by auto
  qed
qed (simp add: judge_cases(1))

text \<open>The names of the four kinds of dependency are all that is known.\<close>

lemma satisfies_iff:
  "satisfies ty r = Inr True \<longleftrightarrow>
     (ty = ''SUCCESS'' \<and> f_status r = RunSuccess) \<or> (ty = ''FAILURE'' \<and> f_status r = RunFailed)
     \<or> (ty = ''ALWAYS'' \<and> f_status r \<in> set terminal_statuses)
     \<or> (ty = ''HAS_DATA'' \<and> f_status r = RunSuccess \<and> f_has_data r)"
  unfolding satisfies_def by auto

definition accepted :: "gate_edge \<Rightarrow> finished_run option \<Rightarrow> consumed_run option \<Rightarrow> bool" where
  "accepted edge run consumed \<longleftrightarrow>
     (\<exists>k why. judge (e_type edge) run consumed (e_repairs edge) = Inr (Some k, why))"

section \<open>Policies\<close>

text \<open>A waiter that never holds the check up, and edges whose type is known.\<close>

abbreviation no_wait :: "'w waiter" where
  "no_wait \<equiv> \<lambda>edge w. (None, w)"

lemma pipeline_loop_result:
  assumes "pipeline_loop policy no_wait finished consumed edges acc w = Inr (c, w')"
    and "pc_reasons acc = []" and "pc_next_check acc = None"
  shows "pc_satisfied c \<longleftrightarrow> policy = PolicyWarn
      \<or> (\<forall>e \<in> set edges. accepted e (finished e w) (consumed e))"
    and "pc_satisfied c \<Longrightarrow> map fst (pc_consumed c) = map fst (pc_consumed acc)
      @ map e_id (filter (\<lambda>e. accepted e (finished e w) (consumed e)) edges)"
    and "w' = w"
proof -
  have "(pc_satisfied c \<longleftrightarrow> policy = PolicyWarn
      \<or> (\<forall>e \<in> set edges. accepted e (finished e w) (consumed e)))
    \<and> (pc_satisfied c \<longrightarrow> map fst (pc_consumed c) = map fst (pc_consumed acc)
      @ map e_id (filter (\<lambda>e. accepted e (finished e w) (consumed e)) edges)) \<and> w' = w"
    using assms
  proof (induction edges arbitrary: acc)
    case Nil
    then show ?case by (auto simp: pc_satisfied_def)
  next
    case (Cons edge edges)
    from Cons.prems(1) obtain verdict where
      j: "judge (e_type edge) (finished edge w) (consumed edge) (e_repairs edge) = Inr verdict"
      by (auto simp: err_simps Let_def)
    obtain found why where v: "verdict = (found, why)" by (cases verdict)
    show ?case
    proof (cases found)
      case None
      with j v have "\<not> accepted edge (finished edge w) (consumed edge)" by (simp add: accepted_def)
      moreover from Cons.prems(1) j v None have
        "if policy = PolicyWarn
         then pipeline_loop policy no_wait finished consumed edges
           (acc\<lparr>pc_decisions := pc_decisions acc
                   @ [decision_of False policy edge (finished edge w) verdict],
                pc_bypassed := pc_bypassed acc @ [(e_id edge, why)]\<rparr>) w = Inr (c, w')
         else c = empty_pipeline_check\<lparr>pc_reasons := [(e_id edge, why)],
                pc_decisions := pc_decisions acc
                   @ [decision_of False policy edge (finished edge w) verdict]\<rparr> \<and> w' = w"
        by (auto simp: Let_def split: if_splits)
      ultimately show ?thesis
        using Cons.IH[of "acc\<lparr>pc_decisions := pc_decisions acc
                   @ [decision_of False policy edge (finished edge w) verdict],
                pc_bypassed := pc_bypassed acc @ [(e_id edge, why)]\<rparr>"] Cons.prems(2,3)
        by (auto simp: pc_satisfied_def empty_pipeline_check_def split: if_splits)
    next
      case (Some k)
      with j v have "accepted edge (finished edge w) (consumed edge)" by (auto simp: accepted_def)
      moreover from Cons.prems(1) j v Some have "pipeline_loop policy no_wait finished consumed edges
          (acc\<lparr>pc_decisions := pc_decisions acc
                   @ [decision_of False policy edge (finished edge w) verdict],
               pc_consumed := pc_consumed acc @ [(e_id edge, k)]\<rparr>) w = Inr (c, w')"
        by (simp add: Let_def)
      note Cons.IH[OF this]
      ultimately show ?thesis using Cons.prems(2,3) by auto
    qed
  qed
  then show "pc_satisfied c \<longleftrightarrow> policy = PolicyWarn
      \<or> (\<forall>e \<in> set edges. accepted e (finished e w) (consumed e))"
    and "pc_satisfied c \<Longrightarrow> map fst (pc_consumed c) = map fst (pc_consumed acc)
      @ map e_id (filter (\<lambda>e. accepted e (finished e w) (consumed e)) edges)"
    and "w' = w" by auto
qed

lemma task_loop_result:
  assumes "task_loop policy no_wait finished consumed needed edges acc w = Inr (c, w')"
    and "tc_next_check acc = None"
  shows "satisfied_count c \<ge> needed \<longleftrightarrow>
      satisfied_count acc
        + int (length (filter (\<lambda>e. accepted e (finished e w) (consumed e)) edges)) \<ge> needed"
    and "tc_next_check c = None"
proof -
  have "(satisfied_count c \<ge> needed \<longleftrightarrow>
      satisfied_count acc
        + int (length (filter (\<lambda>e. accepted e (finished e w) (consumed e)) edges)) \<ge> needed)
      \<and> tc_next_check c = None"
    using assms
  proof (induction edges arbitrary: acc)
    case (Cons edge edges)
    show ?case
    proof (cases "satisfied_count acc \<ge> needed")
      case False
      with Cons.prems(1) obtain found why where
        j: "judge (e_type edge) (finished edge w) (consumed edge) (e_repairs edge) = Inr (found, why)"
        by (auto simp: err_simps Let_def)
      let ?acc = "acc\<lparr>tc_decisions := tc_decisions acc
          @ [decision_of True policy edge (finished edge w) (found, why)]\<rparr>"
      from Cons.prems(1) False j have rest:
        "task_loop policy no_wait finished consumed needed edges
          (case found of
             None \<Rightarrow> ?acc\<lparr>tc_reasons := tc_reasons acc @ [(e_id edge, why)]\<rparr>
           | Some run_id \<Rightarrow> ?acc\<lparr>satisfied_count := satisfied_count acc + 1,
                 tc_consumed := tc_consumed acc @ [(e_id edge, run_id)]\<rparr>) w = Inr (c, w')"
        by (simp add: Let_def split: option.splits)
      from j have "accepted edge (finished edge w) (consumed edge) \<longleftrightarrow> found \<noteq> None"
        by (auto simp: accepted_def)
      with Cons.IH[OF rest] Cons.prems(2) show ?thesis by (auto split: option.splits)
    qed (use Cons.prems in auto)
  qed simp
  then show "satisfied_count c \<ge> needed \<longleftrightarrow>
      satisfied_count acc
        + int (length (filter (\<lambda>e. accepted e (finished e w) (consumed e)) edges)) \<ge> needed"
    and "tc_next_check c = None" by auto
qed

text \<open>What each policy makes of a check that no running upstream holds up.\<close>

lemma pipeline_check_passes:
  assumes "check_pipeline_dependencies policy no_wait finished consumed edges w = Inr (c, w')"
  shows "pc_satisfied c \<longleftrightarrow> policy \<noteq> PolicyEnforce
      \<or> (\<forall>e \<in> set edges. accepted e (finished e w) (consumed e))"
proof (cases "policy = PolicyOff")
  case True
  with assms show ?thesis
    by (auto simp: check_pipeline_dependencies_def empty_pipeline_check_def pc_satisfied_def)
next
  case False
  with assms have "pipeline_loop policy no_wait finished consumed edges empty_pipeline_check w
      = Inr (c, w')"
    by (simp add: check_pipeline_dependencies_def)
  from pipeline_loop_result(1)[OF this] False show ?thesis
    by (cases policy) (simp_all add: empty_pipeline_check_def)
qed

lemma task_check_passes:
  assumes "check_task policy no_wait finished consumed needed edges w = Inr (c, w')"
  shows "satisfied_count c \<ge> needed \<longleftrightarrow> policy \<noteq> PolicyEnforce
      \<or> int (length (filter (\<lambda>e. accepted e (finished e w) (consumed e)) edges)) \<ge> needed"
proof (cases "policy = PolicyOff")
  case True
  with assms show ?thesis by (auto simp: check_task_def empty_check_def)
next
  case False
  with assms obtain acc where
    acc: "task_loop policy no_wait finished consumed needed edges empty_check w = Inr (acc, w')"
    and c: "c = (if tc_next_check acc = None \<and> policy = PolicyWarn \<and> satisfied_count acc < needed
        then acc\<lparr>satisfied_count := needed, tc_reasons := [], tc_bypassed := tc_reasons acc\<rparr> else acc)"
    by (auto simp: check_task_def err_simps)
  from task_loop_result[OF acc] have "tc_next_check acc = None"
    and "satisfied_count acc \<ge> needed \<longleftrightarrow>
      int (length (filter (\<lambda>e. accepted e (finished e w) (consumed e)) edges)) \<ge> needed"
    by (simp_all add: empty_check_def)
  with c False show ?thesis by (cases policy) auto
qed

section \<open>Waiting\<close>

lemma micros_upper: "s \<le> seconds k \<Longrightarrow> micros s \<le> k"
proof -
  assume "s \<le> seconds k"
  then have x: "s * 1000000 \<le> of_int k" by (simp add: seconds_def field_simps)
  then have f: "\<lfloor>s * 1000000\<rfloor> \<le> k" by (simp add: floor_le_iff)
  show ?thesis
  proof (cases "\<lfloor>s * 1000000\<rfloor> = k")
    case True
    then have "s * 1000000 = of_int k" using x by (metis antisym of_int_floor_le)
    then show ?thesis by (simp add: micros_def)
  next
    case False
    with f show ?thesis by (auto simp: micros_def Let_def)
  qed
qed

lemma micros_lower: "seconds k \<le> s \<Longrightarrow> k \<le> micros s"
proof -
  assume "seconds k \<le> s"
  then have "of_int k \<le> s * 1000000" by (simp add: seconds_def field_simps)
  then have "k \<le> \<lfloor>s * 1000000\<rfloor>" by (simp add: le_floor_iff)
  then show ?thesis by (auto simp: micros_def Let_def)
qed

lemma next_look_delay_bounds:
  assumes "0 < r"
  shows "next_look_delay average elapsed fraction r \<le> r"
    and "0 < next_look_delay average elapsed fraction r"
    and "min 1 r \<le> next_look_delay average elapsed fraction r"
  using assms by (auto simp: next_look_delay_def min_look_interval_seconds_def)

lemma next_look_bounds:
  assumes "now < until"
  shows "now < now + micros (next_look_delay average elapsed fraction (seconds (until - now)))"
    and "now + micros (next_look_delay average elapsed fraction (seconds (until - now))) \<le> until"
proof -
  let ?d = "next_look_delay average elapsed fraction (seconds (until - now))"
  have pos: "0 < seconds (until - now)" using assms by (simp add: seconds_def)
  have "seconds 1 \<le> ?d"
    using next_look_delay_bounds(3)[OF pos, of average elapsed fraction] assms
    by (auto simp: seconds_def min_def field_simps split: if_splits)
  then show "now < now + micros ?d" using micros_lower[of 1 ?d] by simp
  show "now + micros ?d \<le> until"
    using micros_upper[of ?d "until - now"] next_look_delay_bounds(1)[OF pos] by simp
qed

text \<open>A next check always comes from the waiter.\<close>

lemma task_loop_waits:
  "task_loop policy waiter finished consumed needed edges acc w = Inr (c, w') \<Longrightarrow>
    tc_next_check acc = None \<Longrightarrow> tc_next_check c = Some n \<Longrightarrow>
    \<exists>edge w w'. waiter edge w = (Some n, w')"
proof (induction edges arbitrary: acc w)
  case (Cons edge edges)
  show ?case
  proof (cases "satisfied_count acc \<ge> needed")
    case False
    obtain answer v where wt: "waiter edge w = (answer, v)" by (cases "waiter edge w")
    show ?thesis
    proof (cases answer)
      case None
      with Cons.prems(1) wt False obtain acc' where
        "task_loop policy waiter finished consumed needed edges acc' v = Inr (c, w')"
        and "tc_next_check acc' = None"
        using Cons.prems(2) by (auto simp: err_simps Let_def split: option.splits)
      with Cons.IH Cons.prems(3) show ?thesis by blast
    next
      case (Some m)
      with Cons.prems wt False have "m = n" by auto
      with wt Some show ?thesis by blast
    qed
  qed (use Cons.prems in auto)
qed auto

lemma pipeline_loop_waits:
  "pipeline_loop policy waiter finished consumed edges acc w = Inr (c, w') \<Longrightarrow>
    pc_next_check acc = None \<Longrightarrow> pc_next_check c = Some n \<Longrightarrow>
    \<exists>edge w w'. waiter edge w = (Some n, w')"
proof (induction edges arbitrary: acc w)
  case (Cons edge edges)
  obtain answer v where wt: "waiter edge w = (answer, v)" by (cases "waiter edge w")
  show ?case
  proof (cases answer)
    case None
    from Cons.prems(1) wt None obtain verdict where
      j: "judge (e_type edge) (finished edge v) (consumed edge) (e_repairs edge) = Inr verdict"
      by (auto simp: err_simps Let_def)
    note more = Cons.IH[OF _ _ Cons.prems(3)]
    show ?thesis
    proof (cases "fst verdict = None \<and> policy \<noteq> PolicyWarn")
      case True
      with Cons.prems(1,3) wt None j show ?thesis by (auto simp: Let_def empty_pipeline_check_def)
    next
      case False
      with Cons.prems(1) wt None j obtain acc' where
        "pipeline_loop policy waiter finished consumed edges acc' v = Inr (c, w')"
        and "pc_next_check acc' = pc_next_check acc"
        by (cases "fst verdict") (simp_all add: Let_def split: if_splits)
      with more Cons.prems(2) show ?thesis by simp
    qed
  next
    case (Some m)
    with Cons.prems wt have "m = n" by (auto simp: empty_pipeline_check_def)
    with wt Some show ?thesis by blast
  qed
qed auto

lemma run_check_waits:
  assumes "run_check policy waiter reads target = Inr c" and "next_check_of c = Some n"
  shows "\<exists>edge w w'. waiter edge w = (Some n, w')"
proof (cases target)
  case (PipelineGate edges)
  with assms obtain d w' where d: "c = PipelineChecked d"
    and check: "check_pipeline_dependencies policy waiter (\<lambda>e _. rd_finished reads e)
          (rd_consumed reads) edges () = Inr (d, w')"
    by (auto simp: run_check_def err_simps)
  with assms(2) have "policy \<noteq> PolicyOff" and "pc_next_check d = Some n"
    by (auto simp: check_pipeline_dependencies_def empty_pipeline_check_def)
  with check show ?thesis
    using pipeline_loop_waits[of policy waiter _ _ edges empty_pipeline_check]
    by (auto simp: check_pipeline_dependencies_def empty_pipeline_check_def)
next
  case (TaskGate needed edges)
  with assms obtain d w' where d: "c = TaskChecked d"
    and check: "check_task policy waiter (\<lambda>e _. rd_finished reads e)
          (rd_consumed reads) needed edges () = Inr (d, w')"
    by (auto simp: run_check_def err_simps)
  with assms(2) have "policy \<noteq> PolicyOff" and n: "tc_next_check d = Some n"
    by (auto simp: check_task_def empty_check_def)
  with check obtain acc where
    "task_loop policy waiter (\<lambda>e _. rd_finished reads e) (rd_consumed reads) needed edges
       empty_check () = Inr (acc, w')" and "tc_next_check acc = Some n"
    by (auto simp: check_task_def err_simps split: if_splits)
  with task_loop_waits show ?thesis by (fastforce simp: empty_check_def)
qed

text \<open>One durable check: what it leaves in the table when it waits and when it is final.\<close>

definition waiting_row :: "gate_wait option \<Rightarrow> gate_wait option" where
  "waiting_row row =
     (case row of None \<Rightarrow> None | Some w \<Rightarrow> if w_next w = None then None else Some w)"

lemma view_wait_simps:
  "waiting_row row = None \<Longrightarrow> view_wait now secs row =
     \<lparr>v_waiting = False, v_first = now, v_deadline = now + micros secs, v_due = False, v_looks = 0\<rparr>"
  "waiting_row row = Some w \<Longrightarrow> view_wait now secs row =
     \<lparr>v_waiting = True, v_first = w_first w, v_deadline = w_until w,
      v_due = (now \<ge> the (w_next w)),
      v_looks = (if now \<ge> the (w_next w) then w_looks w + 1 else w_looks w)\<rparr>"
  by (auto simp: waiting_row_def view_wait_def split: option.splits if_splits)

lemma poll_waits:
  assumes "poll now row (view_wait now secs row) reads edge u = (Some n, u')"
  shows "in_progress (rd_latest reads edge)"
    and "v_looks (view_wait now secs row) < max_looks"
    and "now < v_deadline (view_wait now secs row)"
    and "case waiting_row row of
           Some w \<Rightarrow> if now < the (w_next w) then Some n = w_next w
                     else now < n \<and> n \<le> w_until w
         | None \<Rightarrow> now < n \<and> n \<le> now + micros secs"
proof -
  let ?v = "view_wait now secs row"
  show running: "in_progress (rd_latest reads edge)" and looks: "v_looks ?v < max_looks"
    and time: "now < v_deadline ?v"
    using assms by (auto simp: poll_def Let_def exhausted_def split: if_splits)
  from assms running looks time have n: "if v_waiting ?v \<and> \<not> v_due ?v then Some n = w_next (the row)
      else n = now + micros (next_look_delay (average_or_default (rd_average reads edge))
          (seconds (now - l_start (the (rd_latest reads edge))))
          (first_look_fraction + of_int (v_looks ?v) * look_fraction_step)
          (seconds (v_deadline ?v - now)))"
    by (auto simp: poll_def Let_def exhausted_def split: if_splits)
  show "case waiting_row row of
           Some w \<Rightarrow> if now < the (w_next w) then Some n = w_next w
                     else now < n \<and> n \<le> w_until w
         | None \<Rightarrow> now < n \<and> n \<le> now + micros secs"
  proof (cases "waiting_row row")
    case None
    with n time next_look_bounds[of now "now + micros secs"] show ?thesis
      by (simp add: view_wait_simps)
  next
    case (Some w)
    then have "row = Some w" by (auto simp: waiting_row_def split: option.splits if_splits)
    with Some n time next_look_bounds[of now "w_until w"] show ?thesis
      by (auto simp: view_wait_simps split: if_splits)
  qed
qed

lemma check_gate_waits:
  assumes "check_gate policy secs now reads target row = Inr (res, row')"
    and "gr_state res = GateWait"
  shows "\<exists>n. gr_next res = Some n
     \<and> (case waiting_row row of
          None \<Rightarrow> now < n \<and> n \<le> now + micros secs
            \<and> row' = Some \<lparr>w_first = now, w_next = Some n, w_looks = 0, w_until = now + micros secs\<rparr>
        | Some w \<Rightarrow> now < w_until w \<and>
            (if now < the (w_next w) then w_looks w < max_looks \<and> row' = row \<and> w_next w = Some n
             else w_looks w + 1 < max_looks \<and> now < n \<and> n \<le> w_until w
               \<and> row' = Some (w\<lparr>w_next := Some n, w_looks := w_looks w + 1\<rparr>)))"
proof -
  let ?v = "view_wait now secs row"
  from assms(1) obtain c where run: "run_check policy (poll now row ?v reads) reads target = Inr c"
    and res: "gr_state res = (if next_check_of c \<noteq> None then GateWait
        else judged PolicyEnforce (check_passes target c))" "gr_next res = next_check_of c"
    and row': "row' = (if next_check_of c \<noteq> None
          \<and> (row = None \<or> w_next (the row) = None \<or> v_looks ?v \<noteq> w_looks (the row)
             \<or> next_check_of c \<noteq> w_next (the row))
        then Some \<lparr>w_first = v_first ?v, w_next = next_check_of c, w_looks = v_looks ?v,
                   w_until = v_deadline ?v\<rparr>
        else if v_waiting ?v \<and> next_check_of c = None
        then Some ((the row)\<lparr>w_next := None, w_looks := min (v_looks ?v) max_looks\<rparr>) else row)"
    by (auto simp: check_gate_def Let_def err_simps)
  obtain n where n: "next_check_of c = Some n"
    using assms(2) res(1) by (cases "next_check_of c") (auto simp: judged_def split: if_splits)
  from run_check_waits[OF run n] obtain edge u u' where
    "poll now row ?v reads edge u = (Some n, u')" by blast
  note waits = poll_waits[OF this]
  show ?thesis
  proof (cases "waiting_row row")
    case None
    then have "row = None \<or> w_next (the row) = None"
      by (auto simp: waiting_row_def split: option.splits if_splits)
    with None waits(4) n res(2) row' show ?thesis by (auto simp: view_wait_simps)
  next
    case (Some w)
    then have w: "row = Some w" "w_next w \<noteq> None"
      by (auto simp: waiting_row_def split: option.splits if_splits)
    show ?thesis
    proof (cases "now < the (w_next w)")
      case True
      with Some w waits n res(2) row' show ?thesis by (auto simp: view_wait_simps)
    next
      case False
      with Some w waits n res(2) row' show ?thesis by (auto simp: view_wait_simps)
    qed
  qed
qed

lemma check_gate_final:
  assumes "check_gate policy secs now reads target row = Inr (res, row')"
    and "gr_state res \<noteq> GateWait"
  shows "waiting_row row' = None"
  using assms
  by (auto simp: check_gate_def Let_def err_simps waiting_row_def view_wait_def
      split: option.splits if_splits)

text \<open>The history of one gate: checks one after another, each on the row the one before left.\<close>

inductive gate_history :: "rat \<Rightarrow> instant \<Rightarrow> gate_wait option \<Rightarrow> bool" for secs where
  no_check: "gate_history secs now None"
| check: "gate_history secs now row \<Longrightarrow> now \<le> now' \<Longrightarrow>
    check_gate policy secs now' reads target row = Inr (res, row') \<Longrightarrow>
    gate_history secs now' row'"

definition wait_kept :: "rat \<Rightarrow> gate_wait \<Rightarrow> bool" where
  "wait_kept secs w \<longleftrightarrow> 0 \<le> w_looks w \<and> w_looks w < max_looks
     \<and> w_until w = w_first w + micros secs
     \<and> (case w_next w of None \<Rightarrow> True | Some n \<Rightarrow> w_first w < n \<and> n \<le> w_until w)"

lemma history_wait_kept:
  "gate_history secs now row \<Longrightarrow> waiting_row row = Some w \<Longrightarrow> wait_kept secs w \<and> w_first w \<le> now"
proof (induction arbitrary: w rule: gate_history.induct)
  case (no_check now)
  then show ?case by (simp add: waiting_row_def)
next
  case (check now row now' policy reads target res row')
  then have "gr_state res = GateWait" using check_gate_final by fastforce
  from check_gate_waits[OF check.hyps(3) this] obtain n where
    left: "case waiting_row row of
        None \<Rightarrow> now' < n \<and> n \<le> now' + micros secs
          \<and> row' = Some \<lparr>w_first = now', w_next = Some n, w_looks = 0, w_until = now' + micros secs\<rparr>
      | Some w \<Rightarrow> now' < w_until w \<and>
          (if now' < the (w_next w) then w_looks w < max_looks \<and> row' = row \<and> w_next w = Some n
           else w_looks w + 1 < max_looks \<and> now' < n \<and> n \<le> w_until w
             \<and> row' = Some (w\<lparr>w_next := Some n, w_looks := w_looks w + 1\<rparr>))" by blast
  show ?case
  proof (cases "waiting_row row")
    case None
    with left check.prems show ?thesis
      by (auto simp: waiting_row_def wait_kept_def max_looks_def)
  next
    case (Some v)
    with check.IH have v: "wait_kept secs v" "w_first v \<le> now" by auto
    have "w = v \<or> (\<exists>n. now' < n \<and> n \<le> w_until v \<and> w_looks v + 1 < max_looks
        \<and> w = v\<lparr>w_next := Some n, w_looks := w_looks v + 1\<rparr>)"
      using left Some check.prems by (auto simp: waiting_row_def split: if_splits)
    with v check.hyps(2) show ?thesis by (auto simp: wait_kept_def)
  qed
qed

section \<open>The sleeping wait\<close>

text \<open>
  The law of a clock: a sleep ends no earlier than it began and no later than it was asked to.
  What a real clock adds to a sleep is added to the bound.
\<close>

lemma wait_loop_bounds:
  assumes "wait_loop latest sleep average fraction r b now = (b', now')"
    and "0 \<le> looks_left b"
  shows "0 \<le> looks_left b' \<and> looks_left b' \<le> looks_left b \<and> deadline b' = deadline b"
    and "(\<And>t d. 0 < d \<Longrightarrow> t \<le> sleep t d \<and> sleep t d \<le> t + micros d) \<Longrightarrow>
      now \<le> now' \<and> (now \<le> deadline b \<longrightarrow> now' \<le> deadline b)"
    and "latest now = Some r \<Longrightarrow> l_status r = RunInProgress \<Longrightarrow>
      in_progress (latest now') \<Longrightarrow> exhausted b' now'"
proof -
  have "(0 \<le> looks_left b' \<and> looks_left b' \<le> looks_left b \<and> deadline b' = deadline b)
    \<and> ((\<forall>t d. 0 < d \<longrightarrow> t \<le> sleep t d \<and> sleep t d \<le> t + micros d) \<longrightarrow>
        now \<le> now' \<and> (now \<le> deadline b \<longrightarrow> now' \<le> deadline b))
    \<and> (latest now = Some r \<longrightarrow> l_status r = RunInProgress \<longrightarrow>
        in_progress (latest now') \<longrightarrow> exhausted b' now')"
    using assms
  proof (induction latest sleep average fraction r b now rule: wait_loop.induct)
    case (1 latest sleep average fraction r b now)
    show ?case
    proof (cases "exhausted b now")
      case True
      with "1.prems" show ?thesis by (subst (asm) wait_loop.simps) auto
    next
      case False
      let ?delay = "next_look_delay average (seconds (now - l_start r)) fraction
          (seconds (deadline b - now))"
      let ?now = "if 0 < ?delay then sleep now ?delay else now"
      let ?b = "b\<lparr>looks_left := looks_left b - 1\<rparr>"
      have open_budget: "0 < looks_left b" "now < deadline b"
        using False by (auto simp: exhausted_def)
      have clock: "now \<le> ?now \<and> ?now \<le> deadline b"
        if "\<forall>t d. 0 < d \<longrightarrow> t \<le> sleep t d \<and> sleep t d \<le> t + micros d"
        using that next_look_bounds(2)[OF open_budget(2), of average _ fraction] open_budget(2)
        by (auto intro: order_trans)
      show ?thesis
      proof (cases "latest ?now = None \<or> l_status (the (latest ?now)) \<noteq> RunInProgress")
        case True
        with "1.prems" False have "b' = ?b" "now' = ?now"
          by (subst (asm) wait_loop.simps; auto simp: Let_def split: option.splits)+
        moreover have "\<not> in_progress (latest ?now)"
          using True by (auto simp: in_progress_def split: option.splits)
        ultimately show ?thesis using clock open_budget by simp
      next
        case looking: False
        then obtain r' where r': "latest ?now = Some r'" "l_status r' = RunInProgress" by auto
        with "1.prems"(1) False have again:
          "wait_loop latest sleep average (fraction + look_fraction_step) r' ?b ?now = (b', now')"
          by (subst (asm) wait_loop.simps) (simp add: Let_def)
        from "1.IH"[OF False refl refl refl r'(1) _ again] r'(2) open_budget
        have "(0 \<le> looks_left b' \<and> looks_left b' \<le> looks_left ?b \<and> deadline b' = deadline ?b)
          \<and> ((\<forall>t d. 0 < d \<longrightarrow> t \<le> sleep t d \<and> sleep t d \<le> t + micros d) \<longrightarrow>
              ?now \<le> now' \<and> (?now \<le> deadline ?b \<longrightarrow> now' \<le> deadline ?b))
          \<and> (in_progress (latest now') \<longrightarrow> exhausted b' now')"
          using r' by simp
        with clock open_budget show ?thesis by (auto intro: order_trans)
      qed
    qed
  qed
  then show "0 \<le> looks_left b' \<and> looks_left b' \<le> looks_left b \<and> deadline b' = deadline b"
    and "(\<And>t d. 0 < d \<Longrightarrow> t \<le> sleep t d \<and> sleep t d \<le> t + micros d) \<Longrightarrow>
      now \<le> now' \<and> (now \<le> deadline b \<longrightarrow> now' \<le> deadline b)"
    and "latest now = Some r \<Longrightarrow> l_status r = RunInProgress \<Longrightarrow>
      in_progress (latest now') \<Longrightarrow> exhausted b' now'"
    by blast+
qed

section \<open>Consumption\<close>

definition consumed_by :: "int \<Rightarrow> decision_row \<Rightarrow> finished_run \<Rightarrow> consumption" where
  "consumed_by run d f = \<lparr>n_dependency = g_dependency d, n_of_task = False, n_run = run,
     n_task = None, n_upstream_run = the (f_pipeline_run f), n_upstream_task = None,
     n_revision = f_revision f\<rparr>"

definition consumable :: "engine_db \<Rightarrow> int \<Rightarrow> decision_row \<Rightarrow> bool" where
  "consumable db run d \<longleftrightarrow> d_run d = run \<and> \<not> g_task d \<and> g_result d = GateSatisfied
     \<and> consumable_run db run (\<lambda>r. r_status r = RunSuccess) \<and> selected_run db d \<noteq> None"

definition same_consumption :: "consumption \<Rightarrow> consumption \<Rightarrow> bool" where
  "same_consumption c n \<longleftrightarrow> n_run c = n_run n \<and> \<not> n_of_task c \<and> n_dependency c = n_dependency n
     \<and> n_upstream_run c = n_upstream_run n \<and> n_revision c = n_revision n"

definition new_consumption ::
  "engine_db \<Rightarrow> int \<Rightarrow> consumption list \<Rightarrow> decision_row \<Rightarrow> consumption list" where
  "new_consumption db run entries d =
     (if consumable db run d
         \<and> \<not> list_ex (\<lambda>c. same_consumption c (consumed_by run d (the (selected_run db d)))) entries
      then [consumed_by run d (the (selected_run db d))] else [])"

lemma consume_alt:
  "consume_pipeline_decisions db rows run entries
    = entries @ concat (map (new_consumption db run entries) rows)"
  unfolding consume_pipeline_decisions_def append_same_eq
  by (rule arg_cong[of _ _ "\<lambda>f. entries @ concat (map f rows)"])
    (auto simp: fun_eq_iff new_consumption_def consumable_def consumed_by_def same_consumption_def
      split: option.splits)

lemma consume_twice:
  "consume_pipeline_decisions db rows run (consume_pipeline_decisions db rows run entries)
    = consume_pipeline_decisions db rows run entries"
proof -
  let ?after = "consume_pipeline_decisions db rows run entries"
  have "new_consumption db run ?after d = []" if d: "d \<in> set rows" for d
  proof (cases "consumable db run d")
    case True
    let ?n = "consumed_by run d (the (selected_run db d))"
    have "\<exists>c \<in> set ?after. same_consumption c ?n"
    proof (cases "list_ex (\<lambda>c. same_consumption c ?n) entries")
      case old: True
      then show ?thesis by (auto simp: consume_alt list_ex_iff)
    next
      case False
      with True have "?n \<in> set (new_consumption db run entries d)" by (simp add: new_consumption_def)
      with d have "?n \<in> set ?after" by (auto simp: consume_alt)
      moreover have "same_consumption ?n ?n" by (simp add: same_consumption_def consumed_by_def)
      ultimately show ?thesis by blast
    qed
    then show ?thesis by (simp add: new_consumption_def list_ex_iff)
  qed (simp add: new_consumption_def)
  then have "concat (map (new_consumption db run ?after) rows) = []" by simp
  then show ?thesis using consume_alt[of db rows run ?after] by simp
qed

lemma consume_entries:
  "set (consume_pipeline_decisions db rows run entries) \<subseteq> set entries
     \<union> {consumed_by run d (the (selected_run db d)) | d. d \<in> set rows \<and> consumable db run d}"
  unfolding consume_alt by (auto simp: new_consumption_def split: if_splits)

lemma find_rev_append:
  "find p (rev (xs @ ys)) = (case find p (rev ys) of Some y \<Rightarrow> Some y | None \<Rightarrow> find p (rev xs))"
proof -
  have "find p (as @ bs) = (case find p as of Some y \<Rightarrow> Some y | None \<Rightarrow> find p bs)" for as bs :: "'a list"
    by (induction as) auto
  then show ?thesis by simp
qed

text \<open>The decision of a dependency, made once for a run, is what it last consumed afterwards.\<close>

lemma consumed_last:
  assumes "d \<in> set rows" and "consumable db run d"
    and once: "\<And>d'. d' \<in> set rows \<Longrightarrow> d_run d' = run \<Longrightarrow> \<not> g_task d' \<Longrightarrow>
      g_dependency d' = g_dependency d \<Longrightarrow> d' = d"
    and first: "\<And>c. c \<in> set entries \<Longrightarrow> n_run c = run \<Longrightarrow> n_of_task c"
  shows "pipeline_last_consumed (consume_pipeline_decisions db rows run entries) (g_dependency d)
    = Some \<lparr>c_run = the (f_pipeline_run (the (selected_run db d))),
            c_revision = f_revision (the (selected_run db d))\<rparr>"
proof -
  let ?new = "concat (map (new_consumption db run entries) rows)"
  let ?n = "consumed_by run d (the (selected_run db d))"
  let ?p = "\<lambda>n. \<not> n_of_task n \<and> n_dependency n = g_dependency d"
  have "\<not> list_ex (\<lambda>c. same_consumption c ?n) entries"
    using first by (auto simp: list_ex_iff same_consumption_def consumed_by_def)
  with assms(1,2) have "?n \<in> set ?new" by (auto simp: new_consumption_def)
  moreover have only: "n = ?n" if "n \<in> set ?new" "?p n" for n
  proof -
    from that obtain d' where d': "d' \<in> set rows" "consumable db run d'"
      "n = consumed_by run d' (the (selected_run db d'))"
      by (auto simp: new_consumption_def split: if_splits)
    have "g_dependency d' = g_dependency d" using that(2) d'(3) by (simp add: consumed_by_def)
    moreover have "d_run d' = run" "\<not> g_task d'" using d'(2) by (simp_all add: consumable_def)
    ultimately have "d' = d" using once[OF d'(1)] by blast
    with d'(3) show ?thesis by blast
  qed
  moreover have "?p ?n" by (simp add: consumed_by_def)
  ultimately have "find ?p (rev ?new) \<noteq> None" unfolding find_None_iff set_rev by blast
  then obtain n where n: "find ?p (rev ?new) = Some n" by blast
  from find_SomeD[OF this] have "n \<in> set ?new" "?p n" unfolding set_rev by blast+
  then have "n = ?n" by (rule only)
  then have "find ?p (rev (entries @ ?new)) = Some ?n"
    unfolding find_rev_append using n by simp
  then show ?thesis
    unfolding pipeline_last_consumed_def consume_alt by (simp add: consumed_by_def)
qed

lemma consumed_refused:
  "judge ty (Some f) (Some \<lparr>c_run = f_run f, c_revision = f_revision f\<rparr>) repairs \<noteq> Inr (Some k, why)"
  using judge_iff[of ty "Some f"] by (auto simp: fresh_def)

section \<open>Properties\<close>

lemma poll_no_wait:
  "(\<And>e. \<not> in_progress (rd_latest reads e)) \<Longrightarrow> poll now row v reads = no_wait"
  by (simp add: fun_eq_iff poll_def)

definition enough_accepted :: "gate_reads \<Rightarrow> gate_target \<Rightarrow> bool" where
  "enough_accepted reads target =
     (let ok = (\<lambda>e. accepted e (rd_finished reads e) (rd_consumed reads e)) in
      case target of
        PipelineGate edges \<Rightarrow> list_all ok edges
      | TaskGate needed edges \<Rightarrow> int (length (filter ok edges)) \<ge> needed)"

lemma run_check_passes:
  assumes "run_check policy no_wait reads target = Inr c"
  shows "next_check_of c = None"
    and "check_passes target c \<longleftrightarrow> policy \<noteq> PolicyEnforce \<or> enough_accepted reads target"
proof -
  show "next_check_of c = None"
    using run_check_waits[OF assms] by (cases "next_check_of c") auto
  show "check_passes target c \<longleftrightarrow> policy \<noteq> PolicyEnforce \<or> enough_accepted reads target"
  proof (cases target)
    case (PipelineGate edges)
    with assms obtain d w' where d: "c = PipelineChecked d"
      and check: "check_pipeline_dependencies policy no_wait (\<lambda>e _. rd_finished reads e)
          (rd_consumed reads) edges () = Inr (d, w')"
      by (auto simp: run_check_def err_simps)
    from pipeline_check_passes[OF check] d PipelineGate show ?thesis
      by (simp add: enough_accepted_def list_all_iff)
  next
    case (TaskGate needed edges)
    with assms obtain d w' where d: "c = TaskChecked d"
      and check: "check_task policy no_wait (\<lambda>e _. rd_finished reads e)
          (rd_consumed reads) needed edges () = Inr (d, w')"
      by (auto simp: run_check_def err_simps)
    from task_check_passes[OF check] d TaskGate show ?thesis by (simp add: enough_accepted_def)
  qed
qed

text \<open>
  A gate accepts an upstream exactly when its latest finished run has fresh output (no
  standing pause supplied it), is a newer run than the one last consumed or, where repairs are
  consumed, a newer revision of it, and its status satisfies the dependency; the run it returns
  is that run.
\<close>

theorem judge_accepts_iff:
  "judge ty run consumed repairs = Inr (Some k, why) \<longleftrightarrow>
     (\<exists>r. run = Some r \<and> fresh r consumed repairs \<and> satisfies ty r = Inr True
        \<and> k = f_run r \<and> why = EndedAs (f_run r) (f_status r))"
  by (rule judge_iff)

text \<open>
  C21. What a gate decides when no upstream is running: under \<open>enforce\<close> it is satisfied exactly
  when every dependency of a pipeline, or as many as needed of a task's, is accepted, and is
  unsatisfied otherwise; under \<open>warn\<close> and \<open>off\<close> it always lets through.
\<close>

theorem gate_verdict_exact:
  assumes "check_gate policy secs now reads target row = Inr (res, row')"
    and "\<And>e. \<not> in_progress (rd_latest reads e)"
  shows "gr_state res = (if policy \<noteq> PolicyEnforce \<or> enough_accepted reads target
           then GateSatisfied else GateUnsatisfied)"
proof -
  from assms(1) obtain c where run: "run_check policy no_wait reads target = Inr c"
    and res: "gr_state res = (if next_check_of c \<noteq> None then GateWait
        else judged PolicyEnforce (check_passes target c))"
    by (auto simp: check_gate_def Let_def err_simps poll_no_wait[OF assms(2)])
  with run_check_passes[OF run] show ?thesis by (simp add: judged_def)
qed

definition demo_edge :: gate_edge where
  "demo_edge = \<lparr>e_id = 1, e_upstream = 10, e_type = ''SUCCESS'', e_repairs = True\<rparr>"

definition demo_finished :: finished_run where
  "demo_finished = \<lparr>f_run = 5, f_status = RunSuccess, f_has_data = False, f_revision = 1,
     f_pipeline_run = Some 5\<rparr>"

definition demo_reads :: "latest_run option \<Rightarrow> gate_reads" where
  "demo_reads l = \<lparr>rd_latest = \<lambda>_. l, rd_average = \<lambda>_. None, rd_finished = \<lambda>_. Some demo_finished,
     rd_consumed = \<lambda>_. None\<rparr>"

theorem gate_verdict_exact_witness:
  "\<exists>res row. check_gate PolicyEnforce 60 0 (demo_reads None) (PipelineGate [demo_edge]) None
       = Inr (res, row) \<and> gr_state res = GateSatisfied"
proof -
  have "\<not> is_err (check_gate PolicyEnforce 60 0 (demo_reads None) (PipelineGate [demo_edge]) None)"
    by code_simp
  then obtain res row where
    check: "check_gate PolicyEnforce 60 0 (demo_reads None) (PipelineGate [demo_edge]) None
       = Inr (res, row)"
    by (auto simp: is_err_def split: sum.splits)
  have "enough_accepted (demo_reads None) (PipelineGate [demo_edge])"
    by (simp add: enough_accepted_def accepted_def judge_iff demo_reads_def demo_edge_def
        demo_finished_def fresh_def satisfies_def)
  with gate_verdict_exact[OF check] have "gr_state res = GateSatisfied"
    by (simp add: demo_reads_def in_progress_def)
  with check show ?thesis by blast
qed

text \<open>
  C22. A durable wait ends: in every history of checks of one gate, a check that tells its caller
  to wait names a later instant not after the deadline, keeps the deadline its first check set,
  takes one of at most thirty looks each time it is due, and so never happens at or after the
  deadline nor after the last look; a check that does not wait leaves no wait behind.
\<close>

theorem durable_wait_ends:
  assumes "gate_history secs before row" and "before \<le> now"
    and "check_gate policy secs now reads target row = Inr (res, row')"
  shows "if gr_state res = GateWait
     then \<exists>w n. waiting_row row' = Some w \<and> gr_next res = Some n \<and> w_next w = Some n
       \<and> now < n \<and> n \<le> w_until w \<and> w_until w = w_first w + micros secs
       \<and> 0 \<le> w_looks w \<and> w_looks w < 30
       \<and> (case waiting_row row of
            None \<Rightarrow> w_first w = now
          | Some v \<Rightarrow> w_first w = w_first v \<and> w_until w = w_until v \<and> now < w_until v
              \<and> w_looks w = (if now < the (w_next v) then w_looks v else w_looks v + 1))
     else waiting_row row' = None"
proof (cases "gr_state res = GateWait")
  case True
  have "gate_history secs now row'" by (rule gate_history.check[OF assms])
  note kept = history_wait_kept[OF this] history_wait_kept[OF assms(1)]
  from check_gate_waits[OF assms(3) True] obtain n where gr: "gr_next res = Some n"
    and left: "case waiting_row row of
        None \<Rightarrow> now < n \<and> n \<le> now + micros secs
          \<and> row' = Some \<lparr>w_first = now, w_next = Some n, w_looks = 0, w_until = now + micros secs\<rparr>
      | Some w \<Rightarrow> now < w_until w \<and>
          (if now < the (w_next w) then w_looks w < max_looks \<and> row' = row \<and> w_next w = Some n
           else w_looks w + 1 < max_looks \<and> now < n \<and> n \<le> w_until w
             \<and> row' = Some (w\<lparr>w_next := Some n, w_looks := w_looks w + 1\<rparr>))" by blast
  show ?thesis
  proof (cases "waiting_row row")
    case None
    with left gr True show ?thesis by (simp add: waiting_row_def)
  next
    case (Some v)
    then have row: "row = Some v" by (auto simp: waiting_row_def split: option.splits if_splits)
    note v = kept(2)[OF Some]
    show ?thesis
    proof (cases "now < the (w_next v)")
      case True
      with left Some row have "row' = Some v" "w_next v = Some n" "w_looks v < max_looks" "now < w_until v"
        by auto
      with Some v gr True \<open>gr_state res = GateWait\<close> show ?thesis
        by (auto simp: waiting_row_def wait_kept_def max_looks_def)
    next
      case False
      with left Some v gr \<open>gr_state res = GateWait\<close> show ?thesis
        by (auto simp: waiting_row_def wait_kept_def max_looks_def)
    qed
  qed
qed (use check_gate_final[OF assms(3)] in simp)

theorem durable_wait_ends_witness:
  "\<exists>res row w n. check_gate PolicyEnforce 60 0
       (demo_reads (Some \<lparr>l_run = 6, l_status = RunInProgress, l_start = 0\<rparr>))
       (PipelineGate [demo_edge]) None = Inr (res, row)
     \<and> gr_state res = GateWait \<and> waiting_row row = Some w \<and> w_next w = Some n
     \<and> 0 < n \<and> n \<le> w_until w \<and> w_looks w < 30"
proof -
  let ?check = "check_gate PolicyEnforce 60 0
       (demo_reads (Some \<lparr>l_run = 6, l_status = RunInProgress, l_start = 0\<rparr>))
       (PipelineGate [demo_edge]) None"
  have "case ?check of Inl _ \<Rightarrow> False | Inr (res, row) \<Rightarrow> gr_state res = GateWait" by code_simp
  then obtain res row where check: "?check = Inr (res, row)" and wait: "gr_state res = GateWait"
    by (auto split: sum.splits)
  from durable_wait_ends[OF gate_history.no_check order_refl check] wait
  obtain w n where "waiting_row row = Some w" "w_next w = Some n" "0 < n" "n \<le> w_until w" "w_looks w < 30"
    by auto
  with check wait show ?thesis by blast
qed

text \<open>
  A check that sleeps keeps its budget: it takes no more looks than it has, comes back only
  when its last look found the upstream not running or its budget exhausted, and, with a clock
  whose sleeps last no longer than asked, never past its deadline.
\<close>

theorem sleeping_wait_bounded:
  assumes "wait_while_running latest sleep average b now = (b', now')"
    and "0 \<le> looks_left b" and "now \<le> deadline b"
    and "\<And>t d. 0 < d \<Longrightarrow> t \<le> sleep t d \<and> sleep t d \<le> t + micros d"
  shows "0 \<le> looks_left b' \<and> looks_left b' \<le> looks_left b \<and> deadline b' = deadline b
     \<and> now \<le> now' \<and> now' \<le> deadline b
     \<and> (in_progress (latest now') \<longrightarrow> exhausted b' now')"
proof (cases "in_progress (latest now)")
  case True
  then obtain r where r: "latest now = Some r" "l_status r = RunInProgress"
    by (auto simp: in_progress_def split: option.splits)
  with assms(1) have "wait_loop latest sleep (average_or_default average) first_look_fraction r b now
      = (b', now')"
    by (simp add: wait_while_running_def)
  from wait_loop_bounds[OF this assms(2)] assms(3,4) r show ?thesis by blast
next
  case False
  with assms show ?thesis
    by (auto simp: wait_while_running_def in_progress_def split: option.splits)
qed


definition succeeded_run :: "int \<Rightarrow> run_row" where
  "succeeded_run k = \<lparr>r_id = k, r_pipeline = k, r_key = ''key'', r_start = 0,
     r_status = RunSuccess, r_exclusive = True, r_selected = False, r_owner = None,
     r_lease = None, r_end = Some 9, r_repair_pending = False, r_revision = 1, r_sla = None,
     r_sla_breached_at = None\<rparr>"

definition demo_gate_db :: engine_db where
  "demo_gate_db = \<lparr>db_runs = [succeeded_run 5, succeeded_run 7], db_tasks = [], db_attempts = [],
     db_interventions = [], db_controls = [], db_pauses = [], db_next_run = 8, db_next_task = 1,
     db_next_attempt = 1\<rparr>"

definition demo_decision :: decision_row where
  "demo_decision = \<lparr>g_dependency = 1, g_task = False, g_selected = Some demo_finished,
     g_result = GateSatisfied, g_reason = EndedAs 5 RunSuccess, d_run = 7, d_attempt = None\<rparr>"


end
