(* ===== verification/Resource_Locks.thy ===== *)
theory Resource_Locks
  imports Lifecycle
begin

text \<open>
  Durable resource locks: \<^verbatim>\<open>engine/resource_locks.py\<close> and its SQL. The table has one row per
  lock key; a holder is an attempt's owner or a standalone action. Actors, notifications and the
  process-local side of a lock (the heartbeat threads and the ContextVar scope) are left out.
  The abstract service is a map from keys to owners; the operations are shown to refine it.
\<close>

definition lease_seconds :: int where "lease_seconds = 60"
definition fence_margin_seconds :: int where "fence_margin_seconds = 15"

abbreviation secs :: "int \<Rightarrow> int" where "secs n \<equiv> n * 1000000"

record holder =
  h_id :: string
  h_owner :: string
  h_attempt :: "int option"

record lock_row =
  lk_key :: int
  lk_name :: string
  lk_holder :: string
  lk_owner :: string
  lk_attempt :: "int option"
  lk_acquired :: instant
  lk_expires :: instant

text \<open>A claim on an attempt that is still live: \<open>live_attempt\<close> in the statements.\<close>

definition live_attempt :: "engine_db \<Rightarrow> instant \<Rightarrow> int \<Rightarrow> string \<Rightarrow> attempt_row option" where
  "live_attempt db now k owner =
     find (\<lambda>a. a_id a = k \<and> a_owner a = Some owner \<and> held_status (a_status a)
            \<and> lease_live (a_lease a) now) (db_attempts db)"

definition stale :: "engine_db \<Rightarrow> instant \<Rightarrow> lock_row \<Rightarrow> bool" where
  "stale db now r \<longleftrightarrow> lk_expires r \<le> now
     \<or> (case lk_attempt r of None \<Rightarrow> False | Some k \<Rightarrow> live_attempt db now k (lk_owner r) = None)"

text \<open>Until when a holder may hold: a minute, and no longer than its attempt's lease.\<close>

definition lease_end :: "engine_db \<Rightarrow> instant \<Rightarrow> holder \<Rightarrow> instant option" where
  "lease_end db now h =
     (case h_attempt h of
        None \<Rightarrow> Some (now + secs lease_seconds)
      | Some k \<Rightarrow>
          (case live_attempt db now k (h_owner h) of
             None \<Rightarrow> None
           | Some a \<Rightarrow> map_option (\<lambda>e. min e (now + secs lease_seconds)) (a_lease a)))"

section \<open>Operations\<close>

text \<open>
  One requested row of \<open>resource_lock_acquire\<close>: inserted when the key is free, taken over when the
  row names the confirmed holder and is stale, else left alone. The row it leaves is returned when
  it was acquired.
\<close>

definition acquire_row ::
  "engine_db \<Rightarrow> instant \<Rightarrow> holder \<Rightarrow> instant \<Rightarrow> (int \<rightharpoonup> string) \<Rightarrow> int \<times> string
    \<Rightarrow> lock_row list \<Rightarrow> lock_row list \<times> bool" where
  "acquire_row db now h until confirmed res locks =
     (let new = \<lparr>lk_key = fst res, lk_name = snd res, lk_holder = h_id h, lk_owner = h_owner h,
                 lk_attempt = h_attempt h, lk_acquired = now, lk_expires = until\<rparr> in
      case row_of lk_key (fst res) locks of
        None \<Rightarrow> (locks @ [new], True)
      | Some r \<Rightarrow>
          if confirmed (fst res) = Some (lk_holder r) \<and> stale db now r
          then (map (\<lambda>x. if lk_key x = fst res then new else x) locks, True)
          else (locks, False))"

fun acquire_rows ::
  "engine_db \<Rightarrow> instant \<Rightarrow> holder \<Rightarrow> instant \<Rightarrow> (int \<rightharpoonup> string) \<Rightarrow> (int \<times> string) list
    \<Rightarrow> lock_row list \<Rightarrow> lock_row list \<times> int list" where
  "acquire_rows db now h until confirmed [] locks = (locks, [])"
| "acquire_rows db now h until confirmed (res # rest) locks =
     (case acquire_row db now h until confirmed res locks of
        (locks, got) \<Rightarrow>
          (case acquire_rows db now h until confirmed rest locks of
             (locks, keys) \<Rightarrow> (locks, if got then fst res # keys else keys)))"

text \<open>
  \<open>reserve\<close>: the acquired keys with their lease budget. An attempt that is no longer live acquires
  nothing and is fenced off.
\<close>

definition reserve ::
  "engine_db \<Rightarrow> instant \<Rightarrow> (int \<times> string) list \<Rightarrow> holder \<Rightarrow> (int \<rightharpoonup> string) \<Rightarrow> lock_row list
    \<Rightarrow> lifecycle_error + (int \<times> int) list \<times> lock_row list" where
  "reserve db now resources h confirmed locks =
     (case lease_end db now h of
        None \<Rightarrow> Inl (StaleAttempt (the (h_attempt h)))
      | Some until \<Rightarrow>
          (case acquire_rows db now h until confirmed (sort resources) locks of
             (locks, keys) \<Rightarrow> Inr (map (\<lambda>k. (k, until - now)) keys, locks)))"

record acquisition =
  acq_budget :: "int option"
  acq_stale_holder :: "string option"

definition acquire ::
  "engine_db \<Rightarrow> instant \<Rightarrow> int \<Rightarrow> string \<Rightarrow> holder \<Rightarrow> string option \<Rightarrow> lock_row list
    \<Rightarrow> lifecycle_error + acquisition \<times> lock_row list" where
  "acquire db now key name h confirmed locks =
     bind_err (reserve db now [(key, name)] h
                 (case confirmed of None \<Rightarrow> Map.empty | Some c \<Rightarrow> [key \<mapsto> c]) locks)
       (\<lambda>(rows, locks).
          case map_of rows key of
            Some budget \<Rightarrow> Inr (\<lparr>acq_budget = Some budget, acq_stale_holder = None\<rparr>, locks)
          | None \<Rightarrow>
              Inr (\<lparr>acq_budget = None,
                    acq_stale_holder =
                      (case row_of lk_key key locks of
                         None \<Rightarrow> None
                       | Some r \<Rightarrow> if stale db now r \<and> lk_holder r \<noteq> h_id h
                                  then Some (lk_holder r) else None)\<rparr>, locks))"

definition owns :: "holder \<Rightarrow> lock_row \<Rightarrow> bool" where
  "owns h r \<longleftrightarrow> lk_holder r = h_id h \<and> lk_owner r = h_owner h"

definition release :: "int list \<Rightarrow> holder \<Rightarrow> lock_row list \<Rightarrow> lock_row list" where
  "release keys h locks = filter (\<lambda>r. \<not> (lk_key r \<in> set keys \<and> owns h r)) locks"

text \<open>\<open>renew\<close>: every key must still be owned and unexpired; the least budget is returned.\<close>

definition renewable :: "engine_db \<Rightarrow> instant \<Rightarrow> int list \<Rightarrow> holder \<Rightarrow> lock_row \<Rightarrow> bool" where
  "renewable db now keys h r \<longleftrightarrow> lk_key r \<in> set keys \<and> owns h r \<and> lk_expires r > now"

definition renew ::
  "engine_db \<Rightarrow> instant \<Rightarrow> int list \<Rightarrow> holder \<Rightarrow> lock_row list
    \<Rightarrow> lifecycle_error + int \<times> lock_row list" where
  "renew db now keys h locks =
     (case lease_end db now h of
        None \<Rightarrow> Inl (StaleAttempt (the (h_attempt h)))
      | Some until \<Rightarrow>
          if length (filter (renewable db now keys h) locks) \<noteq> length keys
          then Inl (StaleAttempt (case h_attempt h of None \<Rightarrow> 0 | Some k \<Rightarrow> k))
          else Inr (until - now,
                 map (\<lambda>r. if renewable db now keys h r then r\<lparr>lk_expires := until\<rparr> else r) locks))"

section \<open>Waiting for a set\<close>

text \<open>
  One turn of \<open>_wait_resources\<close>: the whole set is acquired or nothing is kept; a stale holder not
  yet confirmed is to be confirmed stopped first, then the set is tried again; past the deadline
  the wait gives up.
\<close>

datatype wait_turn =
    Acquired int | ConfirmStale int string | WaitAgain | LockTimeout int

definition wait_resources ::
  "engine_db \<Rightarrow> instant \<Rightarrow> (int \<times> string) list \<Rightarrow> holder \<Rightarrow> instant \<Rightarrow> (int \<rightharpoonup> string)
    \<Rightarrow> lock_row list \<Rightarrow> lifecycle_error + wait_turn \<times> (int \<rightharpoonup> string) \<times> lock_row list" where
  "wait_resources db now resources h deadline confirmed locks =
     bind_err (reserve db now resources h confirmed locks) (\<lambda>(budgets, locks').
       if length budgets = length resources
       then Inr (Acquired (Min (snd ` set budgets)), confirmed, locks')
       else
         (let key = fst (the (find (\<lambda>r. fst r \<notin> fst ` set budgets) resources)) in
          case row_of lk_key key locks of
            Some r \<Rightarrow>
              if stale db now r \<and> Some (lk_holder r) \<noteq> confirmed key
              then Inr (ConfirmStale key (lk_holder r), confirmed(key \<mapsto> lk_holder r), locks)
              else if deadline - now \<le> 0 then Inr (LockTimeout key, confirmed, locks)
              else Inr (WaitAgain, confirmed, locks)
          | None \<Rightarrow>
              if deadline - now \<le> 0 then Inr (LockTimeout key, confirmed, locks)
              else Inr (WaitAgain, confirmed, locks)))"

section \<open>The abstract service\<close>

text \<open>Who owns a key: its holder and owner. Leases and names are what the table adds.\<close>

definition owners :: "lock_row list \<Rightarrow> int \<rightharpoonup> string \<times> string" where
  "owners locks k = map_option (\<lambda>r. (lk_holder r, lk_owner r)) (row_of lk_key k locks)"

text \<open>A key may be taken when it is free, or when its holder is stale and was confirmed stopped.\<close>

definition may_take ::
  "engine_db \<Rightarrow> instant \<Rightarrow> (int \<rightharpoonup> string) \<Rightarrow> lock_row list \<Rightarrow> int \<Rightarrow> bool" where
  "may_take db now confirmed locks k \<longleftrightarrow>
     (case row_of lk_key k locks of
        None \<Rightarrow> True
      | Some r \<Rightarrow> confirmed k = Some (lk_holder r) \<and> stale db now r)"

definition take_keys ::
  "int set \<Rightarrow> (int \<Rightarrow> bool) \<Rightarrow> string \<times> string \<Rightarrow> (int \<rightharpoonup> string \<times> string)
    \<Rightarrow> int \<rightharpoonup> string \<times> string" where
  "take_keys keys ok who m = (\<lambda>k. if k \<in> keys \<and> ok k then Some who else m k)"

definition give_keys ::
  "int set \<Rightarrow> string \<times> string \<Rightarrow> (int \<rightharpoonup> string \<times> string) \<Rightarrow> int \<rightharpoonup> string \<times> string" where
  "give_keys keys who m = (\<lambda>k. if k \<in> keys \<and> m k = Some who then None else m k)"

section \<open>Refinement\<close>

lemma row_of_append:
  "row_of key k (xs @ ys) = (case row_of key k xs of Some r \<Rightarrow> Some r | None \<Rightarrow> row_of key k ys)"
  by (induction xs) (auto simp: row_of_def)

lemma row_of_replace:
  assumes "lk_key new = j"
  shows "row_of lk_key k (map (\<lambda>x. if lk_key x = j then new else x) xs)
    = (if k = j then map_option (\<lambda>_. new) (row_of lk_key j xs) else row_of lk_key k xs)"
  using assms by (induction xs) (auto simp: row_of_def)

definition taken_row :: "instant \<Rightarrow> holder \<Rightarrow> instant \<Rightarrow> int \<times> string \<Rightarrow> lock_row" where
  "taken_row now h until res = \<lparr>lk_key = fst res, lk_name = snd res, lk_holder = h_id h,
     lk_owner = h_owner h, lk_attempt = h_attempt h, lk_acquired = now, lk_expires = until\<rparr>"

lemma acquire_row_effect:
  "row_of lk_key k (fst (acquire_row db now h until confirmed res locks))
     = (if k = fst res \<and> may_take db now confirmed locks k then Some (taken_row now h until res)
        else row_of lk_key k locks)"
  "snd (acquire_row db now h until confirmed res locks) = may_take db now confirmed locks (fst res)"
proof -
  have new: "row_of lk_key k [taken_row now h until res]
      = (if k = fst res then Some (taken_row now h until res) else None)" for k
    by (simp add: row_of_def taken_row_def)
  have key: "lk_key (taken_row now h until res) = fst res" by (simp add: taken_row_def)
  show "row_of lk_key k (fst (acquire_row db now h until confirmed res locks))
     = (if k = fst res \<and> may_take db now confirmed locks k then Some (taken_row now h until res)
        else row_of lk_key k locks)"
    unfolding acquire_row_def taken_row_def[symmetric] Let_def may_take_def
    by (auto simp: row_of_append new row_of_replace[OF key] split: option.splits)
  show "snd (acquire_row db now h until confirmed res locks)
      = may_take db now confirmed locks (fst res)"
    by (simp add: acquire_row_def Let_def may_take_def split: option.split)
qed

lemma acquire_rows_effect:
  assumes "distinct (map fst rs)"
  shows "row_of lk_key k (fst (acquire_rows db now h until confirmed rs locks))
     = (case map_of rs k of
          None \<Rightarrow> row_of lk_key k locks
        | Some name \<Rightarrow> if may_take db now confirmed locks k then Some (taken_row now h until (k, name))
                       else row_of lk_key k locks)"
    and "snd (acquire_rows db now h until confirmed rs locks)
     = filter (may_take db now confirmed locks) (map fst rs)"
proof -
  have "row_of lk_key k (fst (acquire_rows db now h until confirmed rs locks))
     = (case map_of rs k of
          None \<Rightarrow> row_of lk_key k locks
        | Some name \<Rightarrow> if may_take db now confirmed locks k then Some (taken_row now h until (k, name))
                       else row_of lk_key k locks)
    \<and> snd (acquire_rows db now h until confirmed rs locks)
     = filter (may_take db now confirmed locks) (map fst rs)"
    using assms
  proof (induction rs arbitrary: locks)
    case (Cons res rs)
    let ?j = "fst res"
    let ?locks = "fst (acquire_row db now h until confirmed res locks)"
    note first = acquire_row_effect[where db=db and now=now and h=h and until=until
        and confirmed=confirmed and res=res and locks=locks]
    have other: "may_take db now confirmed ?locks i = may_take db now confirmed locks i" if "i \<noteq> ?j" for i
      using first(1)[of i] that by (simp add: may_take_def)
    have keys: "filter (may_take db now confirmed ?locks) (map fst rs)
        = filter (may_take db now confirmed locks) (map fst rs)"
    proof (rule filter_cong[OF refl])
      fix i
      assume "i \<in> set (map fst rs)"
      then have "i \<noteq> ?j" using Cons.prems by (metis distinct.simps(2) list.simps(9))
      then show "may_take db now confirmed ?locks i = may_take db now confirmed locks i" by (rule other)
    qed
    have rows: "fst (acquire_rows db now h until confirmed (res # rs) locks)
        = fst (acquire_rows db now h until confirmed rs ?locks)"
      and got: "snd (acquire_rows db now h until confirmed (res # rs) locks)
        = (if may_take db now confirmed locks ?j
           then ?j # snd (acquire_rows db now h until confirmed rs ?locks)
           else snd (acquire_rows db now h until confirmed rs ?locks))"
      using first(2) by (simp_all add: case_prod_unfold)
    have free: "map_of rs ?j = None" using Cons.prems by (simp add: map_of_eq_None_iff)
    have "distinct (map fst rs)" using Cons.prems by simp
    note rest = Cons.IH[OF this, of ?locks]
    show ?case
    proof (cases "k = ?j")
      case True
      then show ?thesis
        unfolding rows got using rest first(1)[of k] free keys by simp
    next
      case False
      then show ?thesis
        unfolding rows got using rest first(1)[of k] other[OF False] keys
        by (cases "map_of rs k") simp_all
    qed
  qed simp
  then show "row_of lk_key k (fst (acquire_rows db now h until confirmed rs locks))
     = (case map_of rs k of
          None \<Rightarrow> row_of lk_key k locks
        | Some name \<Rightarrow> if may_take db now confirmed locks k then Some (taken_row now h until (k, name))
                       else row_of lk_key k locks)"
    and "snd (acquire_rows db now h until confirmed rs locks)
     = filter (may_take db now confirmed locks) (map fst rs)" by auto
qed

lemma reserve_effect:
  assumes "reserve db now rs h confirmed locks = Inr (rows, locks')" and "distinct (map fst rs)"
  shows "map fst rows = filter (may_take db now confirmed locks) (map fst (sort rs))"
    and "owners locks' = take_keys (fst ` set rs) (may_take db now confirmed locks)
      (h_id h, h_owner h) (owners locks)"
    and "\<exists>until. lease_end db now h = Some until \<and> (\<forall>b \<in> snd ` set rows. b = until - now)
      \<and> (\<forall>k \<in> fst ` set rows. \<exists>name. row_of lk_key k locks' = Some (taken_row now h until (k, name)))"
proof -
  from assms(1) obtain until where until: "lease_end db now h = Some until"
    and rows: "rows = map (\<lambda>k. (k, until - now)) (snd (acquire_rows db now h until confirmed (sort rs) locks))"
    and locks': "locks' = fst (acquire_rows db now h until confirmed (sort rs) locks)"
    by (auto simp: reserve_def case_prod_unfold split: option.splits)
  have distinct: "distinct (map fst (sort rs))"
    using assms(2) by (metis distinct_map distinct_sort set_sort)
  note effect = acquire_rows_effect[OF distinct]
  show keys: "map fst rows = filter (may_take db now confirmed locks) (map fst (sort rs))"
    by (simp add: rows effect(2) comp_def)
  have member: "map_of (sort rs) k = None \<longleftrightarrow> k \<notin> fst ` set rs" for k
    by (simp add: map_of_eq_None_iff)
  have "owners locks' k = take_keys (fst ` set rs) (may_take db now confirmed locks)
      (h_id h, h_owner h) (owners locks) k" for k
  proof (cases "k \<in> fst ` set rs")
    case True
    with member[of k] obtain name where "map_of (sort rs) k = Some name" by auto
    with True show ?thesis by (simp add: owners_def take_keys_def locks' effect(1) taken_row_def)
  next
    case False
    with member[of k] show ?thesis by (simp add: owners_def take_keys_def locks' effect(1))
  qed
  then show "owners locks' = take_keys (fst ` set rs) (may_take db now confirmed locks)
      (h_id h, h_owner h) (owners locks)" by blast
  have "\<exists>name. row_of lk_key k locks' = Some (taken_row now h until (k, name))" if "k \<in> fst ` set rows" for k
  proof -
    from that have "k \<in> set (map fst rows)" by simp
    then have "may_take db now confirmed locks k" "k \<in> fst ` set rs" unfolding keys by auto
    with member[of k] show ?thesis by (auto simp: locks' effect(1))
  qed
  moreover have "\<forall>b \<in> snd ` set rows. b = until - now" by (auto simp: rows)
  ultimately show "\<exists>until. lease_end db now h = Some until \<and> (\<forall>b \<in> snd ` set rows. b = until - now)
      \<and> (\<forall>k \<in> fst ` set rows. \<exists>name. row_of lk_key k locks' = Some (taken_row now h until (k, name)))"
    using until by blast
qed

lemma row_of_filter_key:
  "distinct (map lk_key locks) \<Longrightarrow> row_of lk_key k (filter P locks)
    = (case row_of lk_key k locks of None \<Rightarrow> None | Some r \<Rightarrow> if P r then Some r else None)"
proof (induction locks)
  case (Cons x xs)
  have "row_of lk_key (lk_key x) (filter P xs) = None"
    using Cons.prems by (auto simp: row_of_None)
  with Cons show ?case by (auto simp: row_of_def split: option.splits)
qed (simp add: row_of_def)

lemma release_effect:
  assumes "distinct (map lk_key locks)"
  shows "owners (release keys h locks) = give_keys (set keys) (h_id h, h_owner h) (owners locks)"
proof -
  have "owners (release keys h locks) k
      = give_keys (set keys) (h_id h, h_owner h) (owners locks) k" for k
  proof (cases "row_of lk_key k locks")
    case (Some r)
    from row_of_Some[OF this] have "lk_key r = k" by simp
    with Some show ?thesis
      by (auto simp: owners_def release_def row_of_filter_key[OF assms] give_keys_def owns_def)
  qed (simp add: owners_def release_def row_of_filter_key[OF assms] give_keys_def)
  then show ?thesis by blast
qed

lemma renew_effect:
  assumes "renew db now keys h locks = Inr (budget, locks')"
  shows "owners locks' = owners locks" and "map lk_key locks' = map lk_key locks"
proof -
  from assms obtain until where
    locks': "locks' = map (\<lambda>r. if renewable db now keys h r then r\<lparr>lk_expires := until\<rparr> else r) locks"
    by (auto simp: renew_def split: option.splits if_splits)
  have "row_of lk_key k locks' = map_option
      (\<lambda>r. if renewable db now keys h r then r\<lparr>lk_expires := until\<rparr> else r) (row_of lk_key k locks)" for k
    unfolding locks' by (induction locks) (auto simp: row_of_def)
  then show "owners locks' = owners locks"
    by (auto simp: fun_eq_iff owners_def option.map_comp comp_def intro!: option.map_cong)
  show "map lk_key locks' = map lk_key locks" by (simp add: locks')
qed

section \<open>Histories of the table\<close>

lemma acquire_rows_keys:
  "distinct (map lk_key locks) \<Longrightarrow>
    distinct (map lk_key (fst (acquire_rows db now h until confirmed rs locks)))"
proof (induction rs arbitrary: locks)
  case (Cons res rs)
  have key: "lk_key (taken_row now h until res) = fst res" by (simp add: taken_row_def)
  then have keep: "map lk_key (map (\<lambda>x. if lk_key x = fst res then taken_row now h until res else x) locks)
      = map lk_key locks"
    by (induction locks) auto
  have "distinct (map lk_key (fst (acquire_row db now h until confirmed res locks)))"
  proof (cases "row_of lk_key (fst res) locks")
    case None
    then have "fst res \<notin> lk_key ` set locks" by (simp add: row_of_None)
    with None Cons.prems key show ?thesis
      unfolding acquire_row_def taken_row_def[symmetric] Let_def by simp
  next
    case (Some r)
    with Cons.prems keep show ?thesis
      unfolding acquire_row_def taken_row_def[symmetric] Let_def by (simp del: map_map)
  qed
  from Cons.IH[OF this] show ?case by (simp add: case_prod_unfold)
qed simp

lemma reserve_keys:
  "reserve db now rs h confirmed locks = Inr (rows, locks') \<Longrightarrow> distinct (map lk_key locks) \<Longrightarrow>
    distinct (map lk_key locks')"
  using acquire_rows_keys by (auto simp: reserve_def case_prod_unfold split: option.splits)

text \<open>Every write to the table, by any holder, at any instant, whatever became of the attempts.\<close>

inductive lock_step :: "lock_row list \<Rightarrow> lock_row list \<Rightarrow> bool" where
  reserve: "reserve db now rs h confirmed locks = Inr (rows, locks') \<Longrightarrow> lock_step locks locks'"
| release: "lock_step locks (release keys h locks)"
| renew: "renew db now keys h locks = Inr (budget, locks') \<Longrightarrow> lock_step locks locks'"

interpretation lock_table: safe_system lock_step "\<lambda>locks. distinct (map lk_key locks)"
proof unfold_locales
  fix s t :: "lock_row list"
  assume "distinct (map lk_key s)" and "lock_step s t"
  from this(2,1) show "distinct (map lk_key t)"
  proof cases
    case (reserve db now rs h confirmed rows)
    with \<open>distinct (map lk_key s)\<close> show ?thesis using reserve_keys by blast
  next
    case (release keys h)
    with \<open>distinct (map lk_key s)\<close> show ?thesis by (simp add: release_def distinct_map_filter)
  next
    case (renew db now keys h budget)
    with \<open>distinct (map lk_key s)\<close> show ?thesis using renew_effect(2) by metis
  qed
qed

lemma locks_distinct: "lock_step\<^sup>*\<^sup>* [] locks \<Longrightarrow> distinct (map lk_key locks)"
  using lock_table.reachable_inv[of "[]" locks] by simp

lemma acquire_wait_cases:
  assumes "wait_resources db now rs h deadline confirmed locks = Inr (turn, confirmed', locks')"
  shows "(\<exists>budget rows. turn = Acquired budget \<and> reserve db now rs h confirmed locks = Inr (rows, locks')
        \<and> length rows = length rs \<and> budget = Min (snd ` set rows))
     \<or> ((\<nexists>budget. turn = Acquired budget) \<and> locks' = locks)"
  using assms
  by (auto simp: wait_resources_def err_simps Let_def split: if_splits option.splits)

lemma acquire_wait_stale:
  assumes "wait_resources db now rs h deadline confirmed locks
    = Inr (ConfirmStale k holder, confirmed', locks')"
  shows "\<exists>old. row_of lk_key k locks = Some old \<and> stale db now old \<and> lk_holder old = holder"
  using assms
  by (auto simp: wait_resources_def err_simps Let_def split: if_splits option.splits)

lemma acquired_all:
  assumes "reserve db now rs h confirmed locks = Inr (rows, locks')"
    and "length rows = length rs" and "distinct (map fst rs)"
  shows "fst ` set rows = fst ` set rs"
proof -
  have len: "length (filter (may_take db now confirmed locks) (map fst (sort rs))) = length (map fst (sort rs))"
    using reserve_effect(1)[OF assms(1,3)] assms(2) by (metis length_map length_sort)
  then have "\<forall>k \<in> set (map fst (sort rs)). may_take db now confirmed locks k"
    using length_filter_less[of _ "map fst (sort rs)" "may_take db now confirmed locks"] by fastforce
  then have "filter (may_take db now confirmed locks) (map fst (sort rs)) = map fst (sort rs)"
    by (rule filter_True)
  then have "map fst rows = map fst (sort rs)" using reserve_effect(1)[OF assms(1,3)] by simp
  then show ?thesis by (metis image_set set_sort)
qed

section \<open>Properties\<close>

lemma locks_refine:
  assumes "lock_step\<^sup>*\<^sup>* [] locks"
  shows "(\<forall>rs rows locks'. distinct (map fst rs) \<longrightarrow>
        reserve db now rs h confirmed locks = Inr (rows, locks') \<longrightarrow>
        owners locks' = take_keys (fst ` set rs) (may_take db now confirmed locks)
          (h_id h, h_owner h) (owners locks)
        \<and> set (map fst rows) = {k \<in> fst ` set rs. may_take db now confirmed locks k})
    \<and> owners (release keys h locks) = give_keys (set keys) (h_id h, h_owner h) (owners locks)
    \<and> (\<forall>budget locks'. renew db now keys h locks = Inr (budget, locks') \<longrightarrow>
        owners locks' = owners locks)"
proof (intro conjI allI impI)
  fix rs rows locks'
  assume rs: "distinct (map fst rs)" "reserve db now rs h confirmed locks = Inr (rows, locks')"
  show "owners locks' = take_keys (fst ` set rs) (may_take db now confirmed locks)
      (h_id h, h_owner h) (owners locks)"
    by (rule reserve_effect(2)[OF rs(2,1)])
  show "set (map fst rows) = {k \<in> fst ` set rs. may_take db now confirmed locks k}"
    unfolding reserve_effect(1)[OF rs(2,1)] by auto
next
  show "owners (release keys h locks) = give_keys (set keys) (h_id h, h_owner h) (owners locks)"
    by (rule release_effect[OF locks_distinct[OF assms]])
next
  fix budget locks'
  assume "renew db now keys h locks = Inr (budget, locks')"
  then show "owners locks' = owners locks" by (rule renew_effect(1))
qed

text \<open>
  C24. The lock table implements the abstract lock service: in every state it can reach, reserving
  a set gives the holder exactly those of its keys that are free or whose stale holder was
  confirmed stopped and leaves every other owner alone, releasing gives up only keys the holder
  owns, and renewing changes no owner. So a live holder is never replaced.
\<close>

theorem lock_table_refines:
  assumes "lock_step\<^sup>*\<^sup>* [] locks"
  shows "(\<forall>rs rows locks'. distinct (map fst rs) \<longrightarrow>
        reserve db now rs h confirmed locks = Inr (rows, locks') \<longrightarrow>
        owners locks' = take_keys (fst ` set rs) (may_take db now confirmed locks)
          (h_id h, h_owner h) (owners locks)
        \<and> set (map fst rows) = {k \<in> fst ` set rs. may_take db now confirmed locks k})
    \<and> owners (release keys h locks) = give_keys (set keys) (h_id h, h_owner h) (owners locks)
    \<and> (\<forall>budget locks'. renew db now keys h locks = Inr (budget, locks') \<longrightarrow>
        owners locks' = owners locks)"
  using assms by (rule locks_refine)

definition lock_db :: engine_db where
  "lock_db = \<lparr>db_runs = [], db_tasks = [], db_attempts = [], db_interventions = [],
     db_controls = [], db_pauses = [], db_next_run = 1, db_next_task = 1, db_next_attempt = 1\<rparr>"

definition demo_holder :: "string \<Rightarrow> holder" where
  "demo_holder name = \<lparr>h_id = name, h_owner = name, h_attempt = None\<rparr>"

definition demo_locks :: "lock_row list" where
  "demo_locks = snd (projr (reserve lock_db 0 [(1, ''target'')] (demo_holder ''a'') Map.empty []))"

lemma demo_locks_step: "lock_step\<^sup>*\<^sup>* [] demo_locks"
proof -
  have "\<not> is_err (reserve lock_db 0 [(1, ''target'')] (demo_holder ''a'') Map.empty [])" by code_simp
  then have "reserve lock_db 0 [(1, ''target'')] (demo_holder ''a'') Map.empty []
      = Inr (fst (projr (reserve lock_db 0 [(1, ''target'')] (demo_holder ''a'') Map.empty [])), demo_locks)"
    by (auto simp: is_err_def demo_locks_def split: sum.splits)
  then have "lock_step [] demo_locks" by (rule lock_step.reserve)
  then show ?thesis by (rule r_into_rtranclp)
qed

theorem lock_table_refines_witness:
  "owners (release [1] (demo_holder ''b'') demo_locks)
     = give_keys {1} (''b'', ''b'') (owners demo_locks)
   \<and> owners demo_locks 1 = Some (''a'', ''a'')
   \<and> owners (release [1] (demo_holder ''b'') demo_locks) 1 = Some (''a'', ''a'')"
proof -
  have "owners demo_locks 1 = Some (''a'', ''a'')" by code_simp
  moreover have "owners (release [1] (demo_holder ''b'') demo_locks)
      = give_keys {1} (''b'', ''b'') (owners demo_locks)"
    using lock_table_refines[OF demo_locks_step, of lock_db 0 "demo_holder ''b''" Map.empty "[1]"]
    by (simp add: demo_holder_def)
  ultimately show ?thesis by (simp add: give_keys_def)
qed

text \<open>
  C25. A resource set is acquired as a whole or not at all: a turn of the wait that acquires leaves
  every key of the set owned by the holder under one lease that ends within a minute and no later
  than its attempt's own lease, and every other turn leaves the table as it was; a stale holder is
  confirmed before it is replaced.
\<close>

theorem resource_set_atomic:
  assumes "wait_resources db now rs h deadline confirmed locks = Inr (turn, confirmed', locks')"
    and "distinct (map fst rs)" and "rs \<noteq> []"
  shows "case turn of
      Acquired budget \<Rightarrow>
        budget \<le> 60000000 \<and> lease_end db now h = Some (now + budget)
        \<and> (\<forall>k \<in> fst ` set rs. \<exists>r. row_of lk_key k locks' = Some r \<and> owns h r
             \<and> lk_expires r = now + budget
             \<and> (case row_of lk_key k locks of None \<Rightarrow> True
                | Some old \<Rightarrow> stale db now old \<and> confirmed k = Some (lk_holder old)))
    | ConfirmStale k holder \<Rightarrow> locks' = locks
        \<and> (\<exists>old. row_of lk_key k locks = Some old \<and> stale db now old \<and> lk_holder old = holder)
    | _ \<Rightarrow> locks' = locks"
proof (cases "\<exists>budget. turn = Acquired budget")
  case True
  then obtain budget rows where turn: "turn = Acquired budget"
    and reserved: "reserve db now rs h confirmed locks = Inr (rows, locks')"
    and all: "length rows = length rs" and budget: "budget = Min (snd ` set rows)"
    using acquire_wait_cases[OF assms(1)] by blast
  note keys = acquired_all[OF reserved all assms(2)]
  from reserve_effect(3)[OF reserved assms(2)] obtain until where
    until: "lease_end db now h = Some until" and budgets: "\<forall>b \<in> snd ` set rows. b = until - now"
    and held: "\<forall>k \<in> fst ` set rows. \<exists>name. row_of lk_key k locks' = Some (taken_row now h until (k, name))"
    by blast
  have "rows \<noteq> []" using all assms(3) by auto
  then have b: "budget = until - now"
    unfolding budget using budgets by (intro Min_eqI) (auto simp: neq_Nil_conv)
  have "until \<le> now + 60000000"
    using until by (auto simp: lease_end_def lease_seconds_def split: option.splits)
  moreover have "may_take db now confirmed locks k" if "k \<in> fst ` set rs" for k
  proof -
    have "k \<in> set (map fst rows)" using that keys by simp
    then show ?thesis unfolding reserve_effect(1)[OF reserved assms(2)] by simp
  qed
  ultimately show ?thesis
    using until b held keys
    by (fastforce simp: turn taken_row_def owns_def may_take_def split: option.splits)
next
  case False
  then have "locks' = locks" using acquire_wait_cases[OF assms(1)] by blast
  moreover have "\<exists>old. row_of lk_key k locks = Some old \<and> stale db now old \<and> lk_holder old = holder"
    if "turn = ConfirmStale k holder" for k holder
    using acquire_wait_stale assms(1) that by blast
  ultimately show ?thesis using False by (auto split: wait_turn.split)
qed

theorem resource_set_atomic_witness:
  "case wait_resources lock_db 0 [(2, ''x''), (1, ''y'')] (demo_holder ''b'') 10 Map.empty [] of
     Inl _ \<Rightarrow> False
   | Inr (turn, confirmed, locks) \<Rightarrow>
       turn = Acquired 60000000 \<and> (\<exists>r. row_of lk_key 2 locks = Some r \<and> owns (demo_holder ''b'') r)"
proof -
  let ?turn = "wait_resources lock_db 0 [(2, ''x''), (1, ''y'')] (demo_holder ''b'') 10 Map.empty []"
  have "case ?turn of Inl _ \<Rightarrow> False | Inr (turn, confirmed, locks) \<Rightarrow> turn = Acquired 60000000"
    by code_simp
  then obtain confirmed locks where turn: "?turn = Inr (Acquired 60000000, confirmed, locks)"
    by (auto split: sum.splits)
  from resource_set_atomic[OF this] have "\<exists>r. row_of lk_key 2 locks = Some r \<and> owns (demo_holder ''b'') r"
    by auto
  with turn show ?thesis by simp
qed

end
