(* ===== verification/Restart.thy ===== *)
theory Restart
  imports Enums
begin

text \<open>
  \<^verbatim>\<open>core/restart.py\<close>: what may start a pipeline on its own, read from
  \<^verbatim>\<open>AUTO_RESTART_CONDITION\<close> and \<^verbatim>\<open>Allowed_auto_restarts\<close>, and its canonical form. The members of
  \<open>AutoRestartCondition\<close> are their stored texts, in the order a canonical form has them.
\<close>

definition endings :: "string list" where
  "endings = [''SUCCESS'', ''SKIPPED'', ''FAILURE'']"

definition restart_conditions :: "string list" where
  "restart_conditions = [''NONE'', ''SCHEDULE''] @ endings @ [''ALWAYS'']"

text \<open>The run status each ending stands for.\<close>

definition ending_status :: "string \<rightharpoonup> run_status" where
  "ending_status = [''SUCCESS'' \<mapsto> RunSuccess, ''SKIPPED'' \<mapsto> RunSkipped, ''FAILURE'' \<mapsto> RunFailed]"

datatype restart_error =
    UnknownCondition string | RepeatedCondition | NoneWithOthers | EndingBesideAlways

definition parse_auto_restart :: "string \<Rightarrow> restart_error + string" where
  "parse_auto_restart value =
     (let parts = split_on CHR ''|'' value;
          unknown = filter (\<lambda>p. p \<notin> set restart_conditions) parts in
      if unknown \<noteq> [] then Inl (UnknownCondition (hd unknown))
      else if length (remdups parts) \<noteq> length parts then Inl RepeatedCondition
      else if ''NONE'' \<in> set parts \<and> length parts > 1 then Inl NoneWithOthers
      else if ''ALWAYS'' \<in> set parts \<and> set endings \<inter> set parts \<noteq> {} then Inl EndingBesideAlways
      else Inr (join ''|'' (filter (\<lambda>p. p \<in> set parts) restart_conditions)))"

definition schedule_allowed :: "string \<Rightarrow> restart_error + bool" where
  "schedule_allowed value =
     bind_err (parse_auto_restart value) (\<lambda>v. Inr (''SCHEDULE'' \<in> set (split_on CHR ''|'' v)))"

definition restart_statuses :: "string \<Rightarrow> restart_error + run_status set" where
  "restart_statuses value =
     bind_err (parse_auto_restart value) (\<lambda>v.
       let parts = split_on CHR ''|'' v in
       Inr (set (List.map_filter ending_status
              (if ''ALWAYS'' \<in> set parts then endings else parts))))"

definition restart_words :: "string \<rightharpoonup> string" where
  "restart_words = [''SUCCESS'' \<mapsto> ''a success'', ''SKIPPED'' \<mapsto> ''a skipped run'',
     ''FAILURE'' \<mapsto> ''a failure'', ''ALWAYS'' \<mapsto> ''every ending'']"

definition restart_note :: "string \<Rightarrow> restart_error + string option" where
  "restart_note value =
     bind_err (parse_auto_restart value) (\<lambda>v.
       let parts = split_on CHR ''|'' v in
       if ''NONE'' \<in> set parts then Inr (Some ''Not started automatically'')
       else
         (let named = List.map_filter restart_words parts in
          if named = [] then Inr None
          else if length named = 1 then Inr (Some (''Restarts after '' @ hd named))
          else Inr (Some (''Restarts after '' @ join '', '' (butlast named) @ '' or '' @ last named))))"

section \<open>The canonical form\<close>

text \<open>The sets of conditions that may be written together.\<close>

definition allowed_set :: "string set \<Rightarrow> bool" where
  "allowed_set S \<longleftrightarrow> S \<noteq> {} \<and> S \<subseteq> set restart_conditions
     \<and> (''NONE'' \<in> S \<longrightarrow> S = {''NONE''}) \<and> (''ALWAYS'' \<in> S \<longrightarrow> set endings \<inter> S = {})"

definition canonical :: "string set \<Rightarrow> string" where
  "canonical S = join ''|'' (filter (\<lambda>p. p \<in> S) restart_conditions)"

lemma distinct_conditions: "distinct restart_conditions"
  by (simp add: restart_conditions_def endings_def)

lemma condition_no_bar: "p \<in> set restart_conditions \<Longrightarrow> CHR ''|'' \<notin> set p"
  by (auto simp: restart_conditions_def endings_def)

lemma parse_iff:
  "parse_auto_restart value = Inr v \<longleftrightarrow>
     (let parts = split_on CHR ''|'' value in
      distinct parts \<and> allowed_set (set parts) \<and> v = canonical (set parts))"
proof -
  let ?parts = "split_on CHR ''|'' value"
  have none: "''NONE'' \<in> set ?parts \<and> length ?parts > 1 \<longleftrightarrow> \<not> (''NONE'' \<in> set ?parts \<longrightarrow> set ?parts = {''NONE''})"
    if "distinct ?parts"
  proof (cases ?parts)
    case (Cons p ps)
    with that show ?thesis by (cases ps) auto
  qed simp
  have known: "filter (\<lambda>p. p \<notin> set restart_conditions) ?parts = [] \<longleftrightarrow> set ?parts \<subseteq> set restart_conditions"
    by (auto simp only: filter_empty_conv not_not subset_eq)
  have once: "length (remdups ?parts) = length ?parts \<longleftrightarrow> distinct ?parts"
    by (metis distinct_remdups distinct_remdups_id length_remdups_eq)
  have some: "set ?parts \<noteq> {}" by (simp only: set_empty split_on_not_Nil not_False_eq_True)
  have checks: "(if a then Inl x else if b then Inl y else if c then Inl z
      else if d then Inl w else Inr u) = Inr v \<longleftrightarrow> \<not> a \<and> \<not> b \<and> \<not> c \<and> \<not> d \<and> v = u"
    for a b c d and x y z w :: restart_error and u v :: string
    by auto
  have together: "(f \<longleftrightarrow> s) \<Longrightarrow> (l \<longleftrightarrow> d) \<Longrightarrow> (d \<Longrightarrow> nb \<longleftrightarrow> \<not> n) \<Longrightarrow> ne \<Longrightarrow>
      (f \<and> l \<and> \<not> nb \<and> \<not> (a \<and> \<not> e) \<and> c) \<longleftrightarrow> d \<and> (ne \<and> s \<and> n \<and> (a \<longrightarrow> e)) \<and> c"
    for f s l d nb n ne a e c
    by blast
  show ?thesis
    unfolding parse_auto_restart_def allowed_set_def canonical_def Let_def checks not_not
    by (rule together[OF known once none some])
qed

lemma split_canonical:
  assumes "allowed_set S"
  shows "split_on CHR ''|'' (canonical S) = filter (\<lambda>p. p \<in> S) restart_conditions"
    and "set (filter (\<lambda>p. p \<in> S) restart_conditions) = S"
proof -
  note allowed = assms[unfolded allowed_set_def]
  have sub: "S \<subseteq> set restart_conditions" by (rule conjunct1[OF conjunct2[OF allowed]])
  have some: "S \<noteq> {}" by (rule conjunct1[OF allowed])
  show S: "set (filter (\<lambda>p. p \<in> S) restart_conditions) = S"
    using sub unfolding set_filter by blast
  then have "filter (\<lambda>p. p \<in> S) restart_conditions \<noteq> []"
    using some by (metis set_empty)
  then show "split_on CHR ''|'' (canonical S) = filter (\<lambda>p. p \<in> S) restart_conditions"
    unfolding canonical_def by (rule split_on_join) (auto dest: condition_no_bar)
qed

lemma parse_canonical: "allowed_set S \<Longrightarrow> parse_auto_restart (canonical S) = Inr (canonical S)"
  unfolding parse_iff Let_def
  using split_canonical distinct_conditions by (simp add: distinct_filter)

section \<open>Properties\<close>

lemma canonical_statuses:
  assumes "allowed_set S" and "parse_auto_restart value = Inr (canonical S)"
  shows "restart_statuses value = Inr {st. \<exists>e \<in> set endings. (e \<in> S \<or> ''ALWAYS'' \<in> S) \<and> ending_status e = Some st}"
proof -
  have parts: "split_on CHR ''|'' (canonical S) = filter (\<lambda>p. p \<in> S) restart_conditions"
    by (rule split_canonical(1)[OF assms(1)])
  have only: "e \<in> set endings" if "ending_status e = Some st" for e st
    using that by (auto simp: ending_status_def endings_def split: if_splits)
  have members: "set (List.map_filter ending_status xs) = {st. \<exists>e \<in> set xs. ending_status e = Some st}" for xs
    by (induction xs) (auto simp: map_filter_def split: option.splits)
  have sub: "S \<subseteq> set restart_conditions"
    using assms(1) unfolding allowed_set_def by (elim conjE)
  show ?thesis
  proof (cases "''ALWAYS'' \<in> S")
    case True
    then have "''ALWAYS'' \<in> set (filter (\<lambda>p. p \<in> S) restart_conditions)"
      by (simp add: restart_conditions_def)
    with True show ?thesis
      unfolding restart_statuses_def assms(2) by (simp add: parts members)
  next
    case False
    then have "''ALWAYS'' \<notin> set (filter (\<lambda>p. p \<in> S) restart_conditions)" by simp
    moreover have "{st. \<exists>e \<in> set (filter (\<lambda>p. p \<in> S) restart_conditions). ending_status e = Some st}
        = {st. \<exists>e \<in> set endings. e \<in> S \<and> ending_status e = Some st}"
      unfolding split_canonical(2)[OF assms(1)] using only by blast
    ultimately show ?thesis
      using False unfolding restart_statuses_def assms(2) by (simp add: parts members del: set_filter)
  qed
qed

text \<open>
  A restart condition is accepted exactly when it names distinct known conditions, \<open>NONE\<close>
  alone and \<open>ALWAYS\<close> beside no ending; it is returned in the one canonical form of its set of
  conditions, reading that form again gives it back, and the statuses that restart the pipeline
  are those of the endings named, or all three under \<open>ALWAYS\<close>.
\<close>

theorem restart_condition_canonical:
  "(parse_auto_restart value = Inr v \<longleftrightarrow>
     distinct (split_on CHR ''|'' value) \<and> allowed_set (set (split_on CHR ''|'' value))
     \<and> v = canonical (set (split_on CHR ''|'' value)))
   \<and> (parse_auto_restart value = Inr v \<longrightarrow>
       parse_auto_restart v = Inr v
       \<and> restart_statuses value = Inr {st. \<exists>e \<in> set endings.
           (e \<in> set (split_on CHR ''|'' value) \<or> ''ALWAYS'' \<in> set (split_on CHR ''|'' value))
           \<and> ending_status e = Some st})"
proof (intro conjI impI)
  let ?S = "set (split_on CHR ''|'' value)"
  show iff: "parse_auto_restart value = Inr v \<longleftrightarrow>
     distinct (split_on CHR ''|'' value) \<and> allowed_set ?S \<and> v = canonical ?S"
    by (simp only: parse_iff Let_def)
  assume ok: "parse_auto_restart value = Inr v"
  with iff have S: "allowed_set ?S" "v = canonical ?S" by blast+
  show "parse_auto_restart v = Inr v" unfolding S(2) by (rule parse_canonical[OF S(1)])
  show "restart_statuses value = Inr {st. \<exists>e \<in> set endings.
      (e \<in> ?S \<or> ''ALWAYS'' \<in> ?S) \<and> ending_status e = Some st}"
    by (rule canonical_statuses[OF S(1)]) (use ok S(2) in simp)
qed

end
