(* ===== verification/Py_Numbers.thy ===== *)
theory Py_Numbers
  imports Enums Complex_Main
begin

text \<open>
  Python's \<open>int\<close> and \<open>float\<close> of a text, as the readers of parameters and schedules use them.
\<close>

text \<open>\<open>int(text)\<close>: blanks around it, one sign, digits with single underscores between them.\<close>

definition digit_value :: "char \<Rightarrow> nat option" where
  "digit_value c = (let n = of_char c :: nat in if 48 \<le> n \<and> n \<le> 57 then Some (n - 48) else None)"

fun digits_value :: "nat \<Rightarrow> string \<Rightarrow> nat option" where
  "digits_value acc [] = Some acc"
| "digits_value acc (c # cs) =
     (case digit_value c of
        Some d \<Rightarrow> digits_value (10 * acc + d) cs
      | None \<Rightarrow>
          (case (c = CHR ''_'', cs) of
             (True, d # ds) \<Rightarrow>
               (case digit_value d of Some k \<Rightarrow> digits_value (10 * acc + k) ds | None \<Rightarrow> None)
           | _ \<Rightarrow> None))"

definition nat_text :: "string \<Rightarrow> nat option" where
  "nat_text s = (case s of [] \<Rightarrow> None
     | c # cs \<Rightarrow> (case digit_value c of None \<Rightarrow> None | Some d \<Rightarrow> digits_value d cs))"

definition py_int :: "string \<Rightarrow> int option" where
  "py_int raw =
     (case strip raw of
        CHR ''-'' # s \<Rightarrow> map_option (\<lambda>n. - int n) (nat_text s)
      | CHR ''+'' # s \<Rightarrow> map_option int (nat_text s)
      | s \<Rightarrow> map_option int (nat_text s))"

text \<open>
  \<open>float(text)\<close> where it is finite: digits, a fraction and an exponent. What it refuses, and the
  names of infinities and of not-a-number, are \<open>None\<close>.
\<close>

definition unsigned_float :: "string \<Rightarrow> rat option" where
  "unsigned_float s =
     (let mantissa = takeWhile (\<lambda>c. c \<noteq> CHR ''e'' \<and> c \<noteq> CHR ''E'') s;
          rest = drop (length mantissa) s;
          whole = takeWhile (\<lambda>c. c \<noteq> CHR ''.'') mantissa;
          fraction = drop (length whole + 1) mantissa;
          w = (if whole = [] then Some 0 else nat_text whole);
          f = (if fraction = [] then Some 0 else nat_text fraction);
          e = (if rest = [] then Some 0 else
               (case tl rest of
                  CHR ''-'' # t \<Rightarrow> map_option (\<lambda>n. - int n) (nat_text t)
                | CHR ''+'' # t \<Rightarrow> map_option int (nat_text t)
                | t \<Rightarrow> map_option int (nat_text t)))
      in case (w, f, e) of
           (Some w, Some f, Some e) \<Rightarrow>
             if whole = [] \<and> fraction = [] then None
             else
               (let m = of_nat w + of_nat f / 10 ^ length (filter (\<lambda>c. c \<noteq> CHR ''_'') fraction)
                in Some (if e \<ge> 0 then m * 10 ^ nat e else m / 10 ^ nat (- e)))
         | _ \<Rightarrow> None)"

definition py_float :: "string \<Rightarrow> rat option" where
  "py_float raw =
     (case strip raw of
        CHR ''-'' # s \<Rightarrow> map_option uminus (unsigned_float s)
      | CHR ''+'' # s \<Rightarrow> unsigned_float s
      | s \<Rightarrow> unsigned_float s)"

end
