(* ===== verification/Retries.thy ===== *)
theory Retries
  imports Lifecycle_Claims Gates Py_Numbers
begin

text \<open>
  Automatic retries: \<^verbatim>\<open>execution/retries.py\<close>. A task's retry parameters are read and checked into
  a policy; the failed attempts of a run are then queued again, each under the lifecycle's own
  guards. Floats are rationals (no rounding, and a delay too large for a float is above the cap);
  a task's parameters, its handler and whether an operator marked its failure are arguments.
\<close>

section \<open>Policies\<close>

record retry_policy =
  retries :: int
  delay_seconds :: int
  backoff :: rat
  policy_retry_on :: retry_on

text \<open>\<open>RetryPolicy.delay\<close> after an attempt; attempts are numbered from 1.\<close>

definition delay :: "retry_policy \<Rightarrow> int \<Rightarrow> rat" where
  "delay p attempt_number =
     (if delay_seconds p = 0 then 0
      else min 3600 (of_int (delay_seconds p) * backoff p ^ nat (attempt_number - 1)))"

datatype policy_error =
    BadWholeNumber string string | BadBackoff string | BadScriptKind "string option"
  | BadRetryOn "string option"

datatype script_kind = Ingestion | Utility

fun script_kind_value :: "script_kind \<Rightarrow> string" where
  "script_kind_value Ingestion = ''INGESTION''"
| "script_kind_value Utility = ''UTILITY''"

definition script_kind :: "(string \<rightharpoonup> string) \<Rightarrow> policy_error + script_kind" where
  "script_kind params =
     (let value = params ''SCRIPT_KIND'' in
      enum_value script_kind_value [Ingestion, Utility]
        (case value of None \<Rightarrow> [] | Some v \<Rightarrow> v) (BadScriptKind value))"

definition whole_number :: "(string \<rightharpoonup> string) \<Rightarrow> string \<Rightarrow> int \<Rightarrow> policy_error + int" where
  "whole_number params name fallback =
     (case params name of
        None \<Rightarrow> if fallback < 0 then Inl (BadWholeNumber name []) else Inr fallback
      | Some raw \<Rightarrow>
          (case py_int raw of
             None \<Rightarrow> Inl (BadWholeNumber name raw)
           | Some v \<Rightarrow> if v < 0 then Inl (BadWholeNumber name raw) else Inr v))"

definition task_retry_policy ::
  "(string \<rightharpoonup> string) \<Rightarrow> int option \<Rightarrow> retry_on \<Rightarrow> string \<Rightarrow> policy_error + retry_policy" where
  "task_retry_policy params config_retries config_retry_on handler =
     bind_err (whole_number params ''RETRIES'' (case config_retries of None \<Rightarrow> 0 | Some n \<Rightarrow> n)) (\<lambda>n.
     bind_err (whole_number params ''RETRY_DELAY_SECONDS'' 60) (\<lambda>seconds.
     bind_err (case params ''RETRY_BACKOFF'' of
                 None \<Rightarrow> Inr 2
               | Some raw \<Rightarrow>
                   (case py_float raw of
                      None \<Rightarrow> Inl (BadBackoff raw)
                    | Some b \<Rightarrow> if b < 1 then Inl (BadBackoff raw) else Inr b)) (\<lambda>b.
     bind_err (if handler = ''SQL_SCRIPT'' then Inr True
               else if handler = ''PYTHON'' then
                 bind_err (script_kind params) (\<lambda>k. Inr (k = Utility))
               else Inr False) (\<lambda>unmanaged.
     bind_err (enum_value retry_on_value retry_ons
                 (case params ''RETRY_ON'' of
                    Some v \<Rightarrow> v
                  | None \<Rightarrow> retry_on_value (if unmanaged then RetryNone else config_retry_on))
                 (BadRetryOn (params ''RETRY_ON''))) (\<lambda>on.
     Inr \<lparr>retries = n, delay_seconds = seconds, backoff = b, policy_retry_on = on\<rparr>)))))"

section \<open>Refreshing a run\<close>

text \<open>The latest attempt of each task run of a pipeline run.\<close>

record retry_row =
  y_task :: int
  y_task_run :: int
  y_attempt :: int
  y_number :: int
  y_status :: attempt_status
  y_retryable :: bool
  y_not_before :: "instant option"
  y_task_status :: run_status
  y_retry_on :: "retry_on option"
  y_marked :: bool

definition retry_attempts :: "(attempt_row \<Rightarrow> bool) \<Rightarrow> engine_db \<Rightarrow> int \<Rightarrow> retry_row list" where
  "retry_attempts marked db run =
     concat (map (\<lambda>a.
       case row_of t_id (a_task_run a) (db_tasks db) of
         None \<Rightarrow> []
       | Some t \<Rightarrow>
           if t_run t = run \<and> \<not> newer_attempt db (a_task_run a) (a_number a)
           then [\<lparr>y_task = t_task t, y_task_run = t_id t, y_attempt = a_id a, y_number = a_number a,
                  y_status = a_status a, y_retryable = a_retryable a, y_not_before = a_not_before a,
                  y_task_status = t_status t, y_retry_on = a_retry_on a, y_marked = marked a\<rparr>]
           else []) (db_attempts db))"

definition is_stale :: "lifecycle_error \<Rightarrow> bool" where
  "is_stale e = (case e of StaleRun _ \<Rightarrow> True | StaleTask _ \<Rightarrow> True | StaleAttempt _ \<Rightarrow> True
     | StaleCreation _ _ \<Rightarrow> True | _ \<Rightarrow> False)"

datatype refresh_error = PolicyError policy_error | EngineError lifecycle_error

record retry_state =
  rs_db :: engine_db
  rs_waiting :: "int \<rightharpoonup> instant"
  rs_exhausted :: "int set"

text \<open>Queueing a retry: a stale transition leaves the task to whoever changed it.\<close>

definition queue_retry ::
  "instant \<Rightarrow> retry_policy \<Rightarrow> retry_row \<Rightarrow> retry_state \<Rightarrow> refresh_error + retry_state" where
  "queue_retry now policy row s =
     (let due = now + micros (delay policy (y_number row)) in
      case queue_attempt now (y_task_run row) (Some due) (Some (y_attempt row)) (rs_db s) of
        Inl e \<Rightarrow> if is_stale e then Inr s else Inl (EngineError e)
      | Inr (queued, db) \<Rightarrow>
          (case set_attempt_retry_policy queued (policy_retry_on policy) True db of
             Inl e \<Rightarrow> if is_stale e then Inr (s\<lparr>rs_db := db\<rparr>) else Inl (EngineError e)
           | Inr db \<Rightarrow>
               Inr (s\<lparr>rs_db := db, rs_waiting := (rs_waiting s)(y_task row \<mapsto> due)\<rparr>)))"

definition refresh_row ::
  "instant \<Rightarrow> (int \<Rightarrow> policy_error + retry_policy) \<Rightarrow> int set \<Rightarrow> retry_row \<Rightarrow> retry_state
    \<Rightarrow> refresh_error + retry_state" where
  "refresh_row now policy_of task_ids row s =
     (if y_task row \<notin> task_ids then Inr s
      else if y_status row = AttQueued \<and> y_not_before row \<noteq> None
      then Inr (s\<lparr>rs_waiting := (rs_waiting s)(y_task row := y_not_before row)\<rparr>)
      else if y_status row = AttHandedOff
              \<and> (y_marked row \<or> y_task_status row \<noteq> RunFailed \<or> y_retry_on row \<noteq> Some RetryAny)
      then Inr (s\<lparr>rs_exhausted := insert (y_task row) (rs_exhausted s)\<rparr>)
      else if y_status row \<notin> {AttFailed, AttTimedOut, AttLost, AttHandedOff} then Inr s
      else
        (case policy_of (y_task row) of
           Inl e \<Rightarrow> Inl (PolicyError e)
         | Inr policy \<Rightarrow>
             if retries policy = 0 then Inr s
             else if \<not> y_retryable row \<or> y_number row > retries policy
             then Inr (s\<lparr>rs_exhausted := insert (y_task row) (rs_exhausted s)\<rparr>)
             else queue_retry now policy row s))"

definition refresh_retries ::
  "instant \<Rightarrow> (int \<Rightarrow> policy_error + retry_policy) \<Rightarrow> (attempt_row \<Rightarrow> bool) \<Rightarrow> int \<Rightarrow> int set
    \<Rightarrow> engine_db \<Rightarrow> refresh_error + retry_state" where
  "refresh_retries now policy_of marked run task_ids db =
     fold_err (refresh_row now policy_of task_ids) (retry_attempts marked db run)
       \<lparr>rs_db = db, rs_waiting = Map.empty, rs_exhausted = {}\<rparr>"

section \<open>Policies that were read\<close>

definition policy_ok :: "retry_policy \<Rightarrow> bool" where
  "policy_ok p \<longleftrightarrow> 0 \<le> retries p \<and> 0 \<le> delay_seconds p \<and> 1 \<le> backoff p"

lemma whole_number_ok: "whole_number params name fallback = Inr v \<Longrightarrow> 0 \<le> v"
  by (auto simp: whole_number_def split: option.splits if_splits)

lemma task_retry_policy_ok:
  "task_retry_policy params config_retries config_retry_on handler = Inr p \<Longrightarrow> policy_ok p"
  by (auto simp: task_retry_policy_def policy_ok_def err_simps dest!: whole_number_ok
      split: option.splits if_splits)

lemma delay_bounds:
  assumes "policy_ok p"
  shows "0 \<le> delay p n" and "delay p n \<le> 3600"
    and "m \<le> n \<Longrightarrow> delay p m \<le> delay p n"
    and "delay p 1 = min 3600 (of_int (delay_seconds p))"
proof -
  from assms have d: "0 \<le> (of_int (delay_seconds p) :: rat)" and b: "1 \<le> backoff p"
    by (simp_all add: policy_ok_def)
  then show "0 \<le> delay p n" and "delay p n \<le> 3600"
    by (simp_all add: delay_def)
  show "delay p 1 = min 3600 (of_int (delay_seconds p))" by (simp add: delay_def)
  assume "m \<le> n"
  then have "backoff p ^ nat (m - 1) \<le> backoff p ^ nat (n - 1)"
    using b by (intro power_increasing) auto
  then have "of_int (delay_seconds p) * backoff p ^ nat (m - 1)
      \<le> of_int (delay_seconds p) * backoff p ^ nat (n - 1)"
    using d by (intro mult_left_mono)
  then show "delay p m \<le> delay p n" by (auto simp: delay_def)
qed

section \<open>What a refresh writes\<close>

text \<open>The failures a policy lets run again.\<close>

definition retry_due :: "(int \<Rightarrow> policy_error + retry_policy) \<Rightarrow> int set \<Rightarrow> retry_row \<Rightarrow> bool" where
  "retry_due policy_of task_ids row \<longleftrightarrow> y_task row \<in> task_ids \<and> y_retryable row
     \<and> y_status row \<in> {AttFailed, AttTimedOut, AttLost, AttHandedOff}
     \<and> (\<exists>p. policy_of (y_task row) = Inr p \<and> retries p \<noteq> 0 \<and> y_number row \<le> retries p)"

text \<open>The attempts a database has beyond an earlier one.\<close>

definition added :: "engine_db \<Rightarrow> engine_db \<Rightarrow> attempt_row \<Rightarrow> bool" where
  "added db db' a \<longleftrightarrow> a \<in> set (db_attempts db') \<and> a_id a \<notin> a_id ` set (db_attempts db)"

lemma retry_steps:
  assumes "queue_retry now p row s = Inr s'"
  shows "(lifecycle_step capacity)\<^sup>*\<^sup>* (rs_db s) (rs_db s')"
proof -
  from assms consider "rs_db s' = rs_db s"
    | queued db where "queue_attempt now (y_task_run row)
        (Some (now + micros (delay p (y_number row)))) (Some (y_attempt row)) (rs_db s) = Inr (queued, db)"
      and "rs_db s' = db \<or> set_attempt_retry_policy queued (policy_retry_on p) True db = Inr (rs_db s')"
    by (auto simp: queue_retry_def Let_def split: sum.splits prod.splits if_splits)
  then show ?thesis
  proof cases
    case 2
    from 2(1) have "lifecycle_step capacity (rs_db s) db" by (rule lifecycle_step.queue)
    moreover have "db = rs_db s' \<or> lifecycle_step capacity db (rs_db s')"
      using 2(2) lifecycle_step.policy by metis
    ultimately show ?thesis by (auto intro: converse_rtranclp_into_rtranclp)
  qed simp
qed

lemma refresh_row_cases:
  assumes "refresh_row now policy_of task_ids row s = Inr s'"
  shows "rs_db s' = rs_db s
     \<or> (\<exists>p. policy_of (y_task row) = Inr p \<and> retry_due policy_of task_ids row
          \<and> queue_retry now p row s = Inr s')"
  using assms unfolding refresh_row_def retry_due_def
  by (auto split: if_splits sum.splits)

lemma refresh_steps:
  assumes "refresh_retries now policy_of marked run task_ids db = Inr s"
  shows "(lifecycle_step capacity)\<^sup>*\<^sup>* db (rs_db s)"
proof -
  have step: "(lifecycle_step capacity)\<^sup>*\<^sup>* (rs_db s) (rs_db s')"
    if "refresh_row now policy_of task_ids row s = Inr s'" for row s s'
    using refresh_row_cases[OF that] retry_steps by (metis rtranclp.rtrancl_refl)
  show ?thesis
  proof (rule fold_err_invariant[OF assms[unfolded refresh_retries_def],
        where P = "\<lambda>s. (lifecycle_step capacity)\<^sup>*\<^sup>* db (rs_db s)"])
    fix row s s'
    assume "(lifecycle_step capacity)\<^sup>*\<^sup>* db (rs_db s)"
      and "refresh_row now policy_of task_ids row s = Inr s'"
    from this(1) step[OF this(2)] show "(lifecycle_step capacity)\<^sup>*\<^sup>* db (rs_db s')"
      by (rule rtranclp_trans)
  qed simp
qed

text \<open>What identifies an attempt, whose attempt it is and when it may start.\<close>

definition sig :: "attempt_row \<Rightarrow> int \<times> int \<times> instant option" where
  "sig a = (a_id a, a_task_run a, a_not_before a)"

lemma set_policy_sig:
  assumes "set_attempt_retry_policy k p True db = Inr db'"
  shows "map sig (db_attempts db') = map sig (db_attempts db)"
proof -
  from assms obtain rows where
    "compare_and_set a_id k (\<lambda>a. a_status a = AttQueued) (\<lambda>a. a\<lparr>a_retry_on := Some p\<rparr>) (db_attempts db)
      = Some rows" and "db_attempts db' = rows"
    by (auto simp: set_attempt_retry_policy_def guard_attempt_row_def split: option.splits sum.splits)
  then have rows: "db_attempts db' = map (\<lambda>a. if a_id a = k \<and> a_status a = AttQueued
      then a\<lparr>a_retry_on := Some p\<rparr> else a) (db_attempts db)"
    by (auto simp: compare_and_set_def split: if_splits)
  have "sig (if a_id a = k \<and> a_status a = AttQueued then a\<lparr>a_retry_on := Some p\<rparr> else a) = sig a" for a
    by (simp add: sig_def)
  then show ?thesis unfolding rows by simp
qed

lemma queue_retry_adds:
  assumes "reachable capacity (rs_db s)" and "queue_retry now p row s = Inr s'"
  shows "map sig (db_attempts (rs_db s')) = map sig (db_attempts (rs_db s))
     \<or> (\<exists>k. map sig (db_attempts (rs_db s')) = map sig (db_attempts (rs_db s))
          @ [(k, y_task_run row, Some (now + micros (delay p (y_number row))))])"
proof -
  let ?due = "now + micros (delay p (y_number row))"
  from assms(2) consider "rs_db s' = rs_db s"
    | queued db where "queue_attempt now (y_task_run row) (Some ?due) (Some (y_attempt row)) (rs_db s)
        = Inr (queued, db)"
      and "rs_db s' = db \<or> set_attempt_retry_policy queued (policy_retry_on p) True db = Inr (rs_db s')"
    by (auto simp: queue_retry_def Let_def split: sum.splits prod.splits if_splits)
  then show ?thesis
  proof cases
    case 2
    with queue_attempt_iff[OF assms(1), of now "y_task_run row" "Some ?due" "Some (y_attempt row)"]
    obtain a where "db_attempts db = db_attempts (rs_db s) @ [a]" "a_task_run a = y_task_run row"
      "a_not_before a = Some ?due" by blast
    then have "map sig (db_attempts db)
        = map sig (db_attempts (rs_db s)) @ [(a_id a, y_task_run row, Some ?due)]"
      by (simp add: sig_def)
    moreover have "map sig (db_attempts (rs_db s')) = map sig (db_attempts db)"
      using 2(2) set_policy_sig by metis
    ultimately show ?thesis by simp
  qed simp
qed

lemma refresh_adds:
  assumes "reachable capacity db"
    and "refresh_retries now policy_of marked run task_ids db = Inr s"
  shows "\<exists>new. map sig (db_attempts (rs_db s)) = map sig (db_attempts db) @ new
     \<and> (\<forall>(k, tr, nb) \<in> set new. \<exists>row p. row \<in> set (retry_attempts marked db run)
          \<and> retry_due policy_of task_ids row \<and> policy_of (y_task row) = Inr p
          \<and> tr = y_task_run row \<and> nb = Some (now + micros (delay p (y_number row))))"
proof -
  let ?due = "\<lambda>(k, tr, nb). \<exists>row p. row \<in> set (retry_attempts marked db run)
          \<and> retry_due policy_of task_ids row \<and> policy_of (y_task row) = Inr p
          \<and> tr = y_task_run row \<and> nb = Some (now + micros (delay p (y_number row)))"
  let ?P = "\<lambda>s. reachable capacity (rs_db s)
      \<and> (\<exists>new. map sig (db_attempts (rs_db s)) = map sig (db_attempts db) @ new \<and> (\<forall>x \<in> set new. ?due x))"
  have "?P s"
  proof (rule fold_err_invariant[OF assms(2)[unfolded refresh_retries_def], where P = ?P])
    fix row s s'
    assume row: "row \<in> set (retry_attempts marked db run)" and P: "?P s"
      and r: "refresh_row now policy_of task_ids row s = Inr s'"
    from P obtain new where reach: "reachable capacity (rs_db s)"
      and new: "map sig (db_attempts (rs_db s)) = map sig (db_attempts db) @ new" "\<forall>x \<in> set new. ?due x"
      by blast
    from refresh_row_cases[OF r] consider "rs_db s' = rs_db s"
      | p where "policy_of (y_task row) = Inr p" "retry_due policy_of task_ids row"
          "queue_retry now p row s = Inr s'" by blast
    then show "?P s'"
    proof cases
      case 1
      with P show ?thesis by (simp only:)
    next
      case 2
      have "reachable capacity (rs_db s')"
        using reach retry_steps[OF 2(3)] unfolding reachable_def by (rule rtranclp_trans)
      moreover have "\<exists>more. map sig (db_attempts (rs_db s')) = map sig (db_attempts (rs_db s)) @ more
          \<and> (\<forall>x \<in> set more. ?due x)"
      proof -
        have due: "?due (k, y_task_run row, Some (now + micros (delay p (y_number row))))" for k
          using row 2(1,2) by blast
        from queue_retry_adds[OF reach 2(3)] show ?thesis
        proof
          assume "map sig (db_attempts (rs_db s')) = map sig (db_attempts (rs_db s))"
          then show ?thesis by (intro exI[of _ "[]"]) simp
        next
          assume "\<exists>k. map sig (db_attempts (rs_db s')) = map sig (db_attempts (rs_db s))
              @ [(k, y_task_run row, Some (now + micros (delay p (y_number row))))]"
          then obtain k where k: "map sig (db_attempts (rs_db s')) = map sig (db_attempts (rs_db s))
              @ [(k, y_task_run row, Some (now + micros (delay p (y_number row))))]" ..
          show ?thesis
            by (rule exI, rule conjI[OF k]) (use due[of k] in simp)
        qed
      qed
      ultimately show ?thesis
        using new by (metis (no_types, lifting) append_assoc Un_iff set_append)
    qed
  qed (use assms(1) in simp)
  then show ?thesis by blast
qed

section \<open>Properties\<close>

text \<open>
  The retry parameters of a task are checked before they are used, and a delay is bounded:
  a policy that was read has no negative number of retries or delay and a backoff of at least one,
  its delays start at the configured delay, never shrink from one attempt to the next, and never
  exceed an hour.
\<close>

theorem retry_delays_bounded:
  assumes "task_retry_policy params config_retries config_retry_on handler = Inr p"
  shows "0 \<le> retries p \<and> 0 \<le> delay_seconds p \<and> 1 \<le> backoff p
     \<and> delay p 1 = min 3600 (of_int (delay_seconds p))
     \<and> (\<forall>m n. m \<le> n \<longrightarrow> 0 \<le> delay p m \<and> delay p m \<le> delay p n \<and> delay p n \<le> 3600)"
  using task_retry_policy_ok[OF assms] delay_bounds[OF task_retry_policy_ok[OF assms]]
  by (auto simp: policy_ok_def)

text \<open>
  A refresh queues only retries that are due, through the lifecycle: from a reachable state it
  reaches a reachable state, keeps every attempt there was in its place, and adds attempts only for
  the latest, failed and retryable attempts of the given tasks of the run whose policy has retries
  left, each to start no sooner than the policy's delay from now.
\<close>

theorem refresh_queues_due_retries:
  assumes "reachable capacity db"
    and "refresh_retries now policy_of marked run task_ids db = Inr s"
  shows "reachable capacity (rs_db s)
     \<and> (\<exists>new. map sig (db_attempts (rs_db s)) = map sig (db_attempts db) @ new
        \<and> (\<forall>(k, tr, nb) \<in> set new. \<exists>row p. row \<in> set (retry_attempts marked db run)
             \<and> retry_due policy_of task_ids row \<and> policy_of (y_task row) = Inr p
             \<and> tr = y_task_run row \<and> nb = Some (now + micros (delay p (y_number row)))))"
proof
  show "reachable capacity (rs_db s)"
    using assms(1) refresh_steps[OF assms(2)] unfolding reachable_def by (rule rtranclp_trans)
qed (rule refresh_adds[OF assms])

definition demo_lost :: engine_db where
  "demo_lost = projr (lose_attempt 70 1 (Some ''worker'') None demo_claimed)"

lemma demo_lost_reachable: "reachable any_capacity demo_lost"
proof -
  have "\<not> is_err (lose_attempt 70 1 (Some ''worker'') None demo_claimed)" by code_simp
  from lifecycle_step.lose[OF Inr_projr[OF this]]
  have "lifecycle_step any_capacity demo_claimed demo_lost" by (simp add: demo_lost_def)
  with demo_reachable(2) show ?thesis
    unfolding reachable_def by (rule rtranclp.rtrancl_into_rtrancl)
qed

end
