(* ===== verification/Cron.thy ===== *)
theory Cron
  imports Sql_Text Py_Numbers
begin

text \<open>
  \<^verbatim>\<open>core/cron.py\<close>: five-field cron rules and their ticks. A date is its proleptic Gregorian
  ordinal (\<open>date.toordinal\<close>, 1 is January 1 of year 1), a wall-clock time or a UTC instant is
  microseconds from ordinal 0. The time zone database is an argument: a zone says which wall time
  an instant has and which instant a wall time has (its first, where it has two).
\<close>

section \<open>Dates\<close>

definition is_leap :: "int \<Rightarrow> bool" where
  "is_leap y \<longleftrightarrow> y mod 4 = 0 \<and> (y mod 100 \<noteq> 0 \<or> y mod 400 = 0)"

definition month_lengths :: "int \<Rightarrow> nat list" where
  "month_lengths y = [31, if is_leap y then 29 else 28, 31, 30, 31, 30, 31, 31, 30, 31, 30, 31]"

text \<open>The days before a year that follows \<open>y\<close> others.\<close>

definition days_before :: "nat \<Rightarrow> nat" where
  "days_before y = 365 * y + y div 4 - y div 100 + y div 400"

lemma days_before_le: "y \<le> days_before y"
proof -
  have "y div 100 \<le> y div 4" by (simp add: div_le_mono2)
  then show ?thesis by (simp add: days_before_def)
qed

function find_year :: "nat \<Rightarrow> nat \<Rightarrow> nat" where
  "find_year y n = (if n \<le> days_before y then y else find_year (y + 1) n)"
  by pat_completeness auto
termination
proof (relation "measure (\<lambda>(y, n). n - y)", simp)
  fix y n :: nat
  assume "\<not> n \<le> days_before y"
  with days_before_le[of y] show "((y + 1, n), (y, n)) \<in> measure (\<lambda>(y, n). n - y)" by simp
qed

declare find_year.simps [simp del]

text \<open>Year, month and day of an ordinal: the least year that has it, then through its months.\<close>

definition year_of :: "nat \<Rightarrow> nat" where
  "year_of n = find_year (n div 366) n"

fun month_day :: "nat \<Rightarrow> nat list \<Rightarrow> nat \<Rightarrow> nat \<times> nat" where
  "month_day m [] n = (m, n)"
| "month_day m (l # ls) n = (if n \<le> l \<or> ls = [] then (m, n) else month_day (m + 1) ls (n - l))"

definition date_of :: "nat \<Rightarrow> nat \<times> nat \<times> nat" where
  "date_of n = (let y = year_of n in
     case month_day 1 (month_lengths (int y)) (n - days_before (y - 1)) of (m, d) \<Rightarrow> (y, m, d))"

definition weekday :: "nat \<Rightarrow> nat" where
  "weekday n = (n + 6) mod 7"

definition date_max :: int where "date_max = 3652059"

section \<open>Rules\<close>

datatype cron_error =
    BadRule string | BadBusinessRule string | BusinessRuleWithWeekday string
  | NeedsCalendar string | NoFutureTick | NoBusinessDay string nat | DateOverflow | BadWeekend string

definition macros :: "string \<rightharpoonup> string" where
  "macros = [''@hourly'' \<mapsto> ''0 * * * *'', ''@daily'' \<mapsto> ''0 0 * * *'', ''@weekly'' \<mapsto> ''0 0 * * SUN'',
     ''@monthly'' \<mapsto> ''0 0 1 * *'', ''@yearly'' \<mapsto> ''0 0 1 1 *'', ''@annually'' \<mapsto> ''0 0 1 1 *'']"

definition expr_fields :: "string \<Rightarrow> string list" where
  "expr_fields expr = words_of (upper
     (case macros (lower (strip expr)) of Some m \<Rightarrow> m | None \<Rightarrow> expr))"

definition ends_with :: "string \<Rightarrow> string \<Rightarrow> bool" where
  "ends_with p s \<longleftrightarrow> starts_with (rev p) (rev s)"

text \<open>\<open>BUSINESS_DAY_TOKEN\<close>: \<open>1BD\<close> to \<open>23BD\<close>, or \<open>LBD\<close>.\<close>

definition business_tokens :: "(string \<times> nat option) list" where
  "business_tokens = map (\<lambda>n. (digits n @ ''BD'', Some n)) [1 ..< 24] @ [(''LBD'', None)]"

definition business_rule :: "string \<Rightarrow> cron_error + (nat list \<times> bool) option" where
  "business_rule expr =
     (let fs = expr_fields expr in
      if length fs \<noteq> 5 then Inr None
      else
        (let tokens = split_on CHR '','' (fs ! 2) in
         if \<not> list_ex (ends_with ''BD'') tokens then Inr None
         else if \<not> list_all (\<lambda>t. map_of business_tokens t \<noteq> None) tokens
         then Inl (BadBusinessRule expr)
         else if fs ! 4 \<noteq> ''*'' then Inl (BusinessRuleWithWeekday expr)
         else Inr (Some (List.map_filter (\<lambda>t. the (map_of business_tokens t)) tokens,
                         ''LBD'' \<in> set tokens))))"

definition month_names :: "string \<rightharpoonup> int" where
  "month_names = map_of (zip [''JAN'', ''FEB'', ''MAR'', ''APR'', ''MAY'', ''JUN'', ''JUL'', ''AUG'',
     ''SEP'', ''OCT'', ''NOV'', ''DEC''] [1..12])"

definition day_names :: "string \<rightharpoonup> int" where
  "day_names = map_of (zip [''SUN'', ''MON'', ''TUE'', ''WED'', ''THU'', ''FRI'', ''SAT''] [0..6])"

definition number :: "(string \<rightharpoonup> int) \<Rightarrow> string \<Rightarrow> int option" where
  "number names raw = (case names raw of Some n \<Rightarrow> Some n | None \<Rightarrow> py_int raw)"

text \<open>\<open>range(start, end + 1, step)\<close> for a positive step.\<close>

definition py_range :: "int \<Rightarrow> int \<Rightarrow> int \<Rightarrow> int list" where
  "py_range start end step = filter (\<lambda>n. (n - start) mod step = 0) [start .. end]"

text \<open>One part of a field: \<open>*\<close>, a number or a range, perhaps with a step. No value is the error.\<close>

definition field_part :: "int \<Rightarrow> int \<Rightarrow> (string \<rightharpoonup> int) \<Rightarrow> string \<Rightarrow> int list option" where
  "field_part low high names part =
     (case partition_at CHR ''/'' part of (base, sep, step_raw) \<Rightarrow>
        (case (if sep then py_int step_raw else Some 1) of
           None \<Rightarrow> None
         | Some step \<Rightarrow>
             if step \<le> 0 then None
             else
               (case (if base = ''*'' then Some (low, high)
                      else if CHR ''-'' \<in> set base then
                        (case split_on CHR ''-'' base of
                           [a, b] \<Rightarrow>
                             (case (number names a, number names b) of
                                (Some x, Some y) \<Rightarrow> Some (x, y) | _ \<Rightarrow> None)
                         | _ \<Rightarrow> None)
                      else map_option (\<lambda>x. (x, if sep then high else x)) (number names base)) of
                  None \<Rightarrow> None
                | Some (start, end) \<Rightarrow>
                    if low \<le> start \<and> start \<le> end \<and> end \<le> high then Some (py_range start end step)
                    else None)))"

fun field_values :: "int \<Rightarrow> int \<Rightarrow> (string \<rightharpoonup> int) \<Rightarrow> string list \<Rightarrow> int list option" where
  "field_values low high names [] = Some []"
| "field_values low high names (part # parts) =
     (case field_part low high names part of
        None \<Rightarrow> None
      | Some xs \<Rightarrow> map_option ((@) xs) (field_values low high names parts))"

definition parse_field :: "int \<Rightarrow> int \<Rightarrow> (string \<rightharpoonup> int) \<Rightarrow> string \<Rightarrow> int list option" where
  "parse_field low high names field =
     map_option (\<lambda>xs. sorted_set (if high = 7 then map (\<lambda>n. n mod 7) xs else xs))
       (field_values low high names (split_on CHR '','' field))"

record cron_rule =
  minutes :: "int list"
  hours :: "int list"
  days :: "int list"
  months :: "int list"
  weekdays :: "int list"
  day_or :: bool

definition parse :: "string \<Rightarrow> cron_error + cron_rule" where
  "parse expr =
     (if length (expr_fields expr) \<noteq> 5 then Inl (BadRule expr)
      else
        bind_err (business_rule expr) (\<lambda>rule.
          let fs = (if rule = None then expr_fields expr else (expr_fields expr)[2 := ''*'']) in
          case (parse_field 0 59 Map.empty (fs ! 0), parse_field 0 23 Map.empty (fs ! 1),
                parse_field 1 31 Map.empty (fs ! 2), parse_field 1 12 month_names (fs ! 3),
                parse_field 0 7 day_names (fs ! 4)) of
            (Some mi, Some ho, Some da, Some mo, Some wd) \<Rightarrow>
              (let either = CHR ''*'' \<notin> set (fs ! 2) \<and> CHR ''*'' \<notin> set (fs ! 4) in
               if \<not> either \<and> \<not> list_ex (\<lambda>m. list_ex (\<lambda>d.
                      d \<le> int (month_lengths 2000 ! nat (m - 1))) da) mo
               then Inl (BadRule expr)
               else Inr \<lparr>minutes = mi, hours = ho, days = da, months = mo, weekdays = wd,
                         day_or = either\<rparr>)
          | _ \<Rightarrow> Inl (BadRule expr)))"

section \<open>Ticks\<close>

definition rule_matches :: "cron_rule \<Rightarrow> nat \<Rightarrow> bool" where
  "rule_matches r dt =
     (case date_of dt of (_, m, d) \<Rightarrow>
        (let dom = int d \<in> set (days r); dow = int ((weekday dt + 1) mod 7) \<in> set (weekdays r) in
         int m \<in> set (months r) \<and> (if day_or r then dom \<or> dow else dom \<and> dow)))"

definition matches_day :: "string \<Rightarrow> nat \<Rightarrow> cron_error + bool" where
  "matches_day expr dt = bind_err (parse expr) (\<lambda>r. Inr (rule_matches r dt))"

record zone =
  to_wall :: "int \<Rightarrow> int"
  to_utc :: "int \<Rightarrow> int"

definition minute_us :: int where "minute_us = 60000000"
definition day_us :: int where "day_us = 86400000000"

definition wall_date :: "int \<Rightarrow> nat" where
  "wall_date wall = nat (wall div day_us)"

text \<open>
  The wall minute a tick fires at: the first that exists, a minute at a time through a gap. A zone
  in which none ever exists is no result.
\<close>

partial_function (option) valid_wall :: "zone \<Rightarrow> int \<Rightarrow> int option" where
  "valid_wall z wall =
     (if to_wall z (to_utc z wall) = wall then Some wall else valid_wall z (wall + minute_us))"

declare valid_wall.simps [code]

definition walls_of :: "cron_rule \<Rightarrow> nat \<Rightarrow> int list" where
  "walls_of r dt = concat (map (\<lambda>h. map (\<lambda>m. int dt * day_us + (h * 60 + m) * minute_us) (minutes r))
     (hours r))"

fun all_some :: "'a option list \<Rightarrow> 'a list option" where
  "all_some [] = Some []"
| "all_some (None # xs) = None"
| "all_some (Some x # xs) = map_option ((#) x) (all_some xs)"

definition day_ticks :: "zone \<Rightarrow> cron_rule \<Rightarrow> nat \<Rightarrow> int list option" where
  "day_ticks z r dt = map_option (map (to_utc z)) (all_some (map (valid_wall z) (walls_of r dt)))"

definition search_days :: nat where "search_days = 366 * 8 + 1"

text \<open>
  The search both schedules run: day after day from a first one, the first tick of a day that has
  one. \<open>Some []\<close> is a day without ticks; no result is a zone without valid minutes.
\<close>

fun search :: "(nat \<Rightarrow> cron_error + 'a option option) \<Rightarrow> nat \<Rightarrow> nat \<Rightarrow> (cron_error + 'a) option" where
  "search on_day 0 dt = Some (Inl NoFutureTick)"
| "search on_day (Suc n) dt =
     (case on_day dt of
        Inl e \<Rightarrow> Some (Inl e)
      | Inr None \<Rightarrow> None
      | Inr (Some (Some t)) \<Rightarrow> Some (Inr t)
      | Inr (Some None) \<Rightarrow>
          if int dt = date_max then Some (Inl NoFutureTick) else search on_day n (dt + 1))"

definition next_after :: "zone \<Rightarrow> string \<Rightarrow> int \<Rightarrow> (cron_error + int) option" where
  "next_after z expr instant =
     (case business_rule expr of
        Inl e \<Rightarrow> Some (Inl e)
      | Inr (Some _) \<Rightarrow> Some (Inl (NeedsCalendar expr))
      | Inr None \<Rightarrow>
          (case parse expr of
             Inl e \<Rightarrow> Some (Inl e)
           | Inr r \<Rightarrow>
               search (\<lambda>dt. if rule_matches r dt
                             then Inr (map_option (find (\<lambda>t. t > instant)) (day_ticks z r dt))
                             else Inr (Some None))
                 search_days (wall_date (to_wall z instant))))"

end
