(* ===== verification/Calendars.thy ===== *)
theory Calendars
  imports Cron
begin

text \<open>
  \<^verbatim>\<open>core/calendars.py\<close>: business calendars and the ticks of a schedule. A date is its ordinal and
  an instant is microseconds, as in \<^verbatim>\<open>Cron\<close>.
\<close>

section \<open>Calendars\<close>

text \<open>The dict of holidays is the list of its items.\<close>

definition day_names_list :: "string list" where
  "day_names_list = [''MON'', ''TUE'', ''WED'', ''THU'', ''FRI'', ''SAT'', ''SUN'']"

record calendar =
  code :: string
  weekend :: "nat set"
  holidays :: "(nat \<times> string option) list"

definition iso_day :: "nat \<Rightarrow> string" where
  "iso_day dt = (case date_of dt of (y, m, d) \<Rightarrow> isoformat \<lparr>year = y, month = m, day = d\<rparr>)"

definition closed_day :: "calendar \<Rightarrow> nat \<Rightarrow> string option" where
  "closed_day c dt =
     (case map_of (holidays c) dt of
        Some name \<Rightarrow>
          Some (''calendar '' @ code c @ '': '' @ iso_day dt @ '' is a holiday'' @
            (case name of None \<Rightarrow> [] | Some n \<Rightarrow> if n = [] then [] else '' ('' @ n @ '')''))
      | None \<Rightarrow>
          if weekday dt \<in> weekend c
          then Some (''calendar '' @ code c @ '': '' @ iso_day dt @ '' is a weekend day ('' @
                 day_names_list ! weekday dt @ '')'')
          else None)"

text \<open>The error names the last day the search looked at.\<close>

fun next_open :: "calendar \<Rightarrow> nat \<Rightarrow> nat \<Rightarrow> cron_error + nat" where
  "next_open c 0 dt = Inl (NoBusinessDay (code c) dt)"
| "next_open c (Suc n) dt =
     (if int dt = date_max then Inl DateOverflow
      else if closed_day c (dt + 1) = None then Inr (dt + 1)
      else next_open c n (dt + 1))"

definition next_business_day :: "calendar \<Rightarrow> nat \<Rightarrow> cron_error + nat" where
  "next_business_day c dt = next_open c search_days dt"

definition month_start :: "nat \<Rightarrow> nat \<Rightarrow> nat" where
  "month_start y m = days_before (y - 1) + sum_list (take (m - 1) (month_lengths (int y)))"

definition business_days :: "calendar \<Rightarrow> nat \<Rightarrow> nat \<Rightarrow> nat list" where
  "business_days c y m =
     filter (\<lambda>dt. closed_day c dt = None)
       (map (\<lambda>number. month_start y m + number) [1 ..< month_lengths (int y) ! (m - 1) + 1])"

definition parse_weekend :: "string \<Rightarrow> string option \<Rightarrow> cron_error + nat set" where
  "parse_weekend c written =
     (let names = map (\<lambda>n. upper (strip n))
            (filter (\<lambda>n. strip n \<noteq> [])
              (split_on CHR ''|'' (case written of None \<Rightarrow> [] | Some w \<Rightarrow> w))) in
      if list_ex (\<lambda>n. n \<notin> set day_names_list) names \<or> length (remdups names) \<noteq> length names
          \<or> length names = length day_names_list
      then Inl (BadWeekend c)
      else Inr ((\<lambda>n. length (takeWhile (\<lambda>k. k \<noteq> n) day_names_list)) ` set names))"

section \<open>Schedules\<close>

datatype closed_policy = SkipTick | MoveTick

record tick =
  instant_of :: int
  run_day :: nat
  skipped :: "string option"

record schedule =
  expr :: string
  sched_zone :: zone
  sched_calendar :: "calendar option"
  policy :: closed_policy

text \<open>
  Whether a closed day right before \<open>dt\<close> has a tick that moves to it: back over the closed days,
  \<open>search_days\<close> of them at most.
\<close>

fun moved_here :: "calendar \<Rightarrow> string \<Rightarrow> nat \<Rightarrow> nat \<Rightarrow> bool \<Rightarrow> cron_error + bool" where
  "moved_here c e n 0 moved = Inl DateOverflow"
| "moved_here c e 0 (Suc previous) moved = Inr moved"
| "moved_here c e (Suc n) (Suc previous) moved =
     (if closed_day c (Suc previous) = None then Inr moved
      else bind_err (if moved then Inr True else matches_day e (Suc previous))
             (\<lambda>moved. moved_here c e n previous moved))"

text \<open>\<open>Schedule._due\<close>: \<open>Some []\<close> where the day's ticks run, a reason where they are skipped.\<close>

definition due :: "schedule \<Rightarrow> calendar \<Rightarrow> (nat list \<times> bool) option \<Rightarrow> nat \<Rightarrow> cron_error + string option" where
  "due s c rule dt =
     (case rule of
        Some (ordinals, final) \<Rightarrow>
          if closed_day c dt \<noteq> None then Inr None
          else
            bind_err (matches_day (expr s) dt) (\<lambda>matches.
              if \<not> matches then Inr None
              else
                (case date_of dt of (y, m, d) \<Rightarrow>
                   (let business = business_days c y m;
                        number = length (takeWhile (\<lambda>k. k \<noteq> dt) business) + 1 in
                    Inr (if number \<in> set ordinals \<or> (final \<and> dt = last business)
                         then Some [] else None))))
      | None \<Rightarrow>
          if policy s = SkipTick
          then bind_err (matches_day (expr s) dt) (\<lambda>matches.
                 Inr (if matches then Some (case closed_day c dt of None \<Rightarrow> [] | Some r \<Rightarrow> r) else None))
          else if closed_day c dt \<noteq> None then Inr None
          else
            bind_err (moved_here c (expr s) search_days (dt - 1) False) (\<lambda>moved.
            bind_err (if moved then Inr True else matches_day (expr s) dt) (\<lambda>matches.
              Inr (if matches then Some [] else None))))"

definition day_tick ::
  "schedule \<Rightarrow> calendar \<Rightarrow> (nat list \<times> bool) option \<Rightarrow> int \<Rightarrow> nat \<Rightarrow> cron_error + tick option option" where
  "day_tick s c rule instant dt =
     bind_err (due s c rule dt) (\<lambda>reason.
       case reason of
         None \<Rightarrow> Inr (Some None)
       | Some reason \<Rightarrow>
           bind_err (parse (expr s)) (\<lambda>r.
             Inr (map_option (\<lambda>ts. map_option
                    (\<lambda>t. \<lparr>instant_of = t, run_day = dt, skipped = (if reason = [] then None else Some reason)\<rparr>)
                    (find (\<lambda>t. t > instant) ts))
                  (day_ticks (sched_zone s) r dt))))"

definition next_tick :: "schedule \<Rightarrow> int \<Rightarrow> (cron_error + tick) option" where
  "next_tick s instant =
     (case sched_calendar s of
        None \<Rightarrow>
          map_option (map_sum id (\<lambda>t. \<lparr>instant_of = t, run_day = wall_date (to_wall (sched_zone s) t),
              skipped = None\<rparr>))
            (next_after (sched_zone s) (expr s) instant)
      | Some c \<Rightarrow>
          (case business_rule (expr s) of
             Inl e \<Rightarrow> Some (Inl e)
           | Inr rule \<Rightarrow>
               search (day_tick s c rule instant) search_days
                 (wall_date (to_wall (sched_zone s) instant))))"

text \<open>
  \<open>Schedule.first_run\<close>. The search goes on from the last microsecond of a skipped tick's day in
  the schedule's own zone.
\<close>

partial_function (option) first_run_loop ::
  "schedule \<Rightarrow> int \<Rightarrow> tick \<Rightarrow> (cron_error + tick option) option" where
  "first_run_loop s horizon t =
     (if instant_of t > horizon then Some (Inr None)
      else if skipped t = None then Some (Inr (Some t))
      else if int (run_day t) = date_max then Some (Inl DateOverflow)
      else
        (case next_tick s (to_utc (sched_zone s) (int (run_day t + 1) * day_us - 1)) of
           None \<Rightarrow> None
         | Some res \<Rightarrow> (case res of Inl e \<Rightarrow> Some (Inl e) | Inr t' \<Rightarrow> first_run_loop s horizon t')))"

declare first_run_loop.simps [code]

definition first_run :: "schedule \<Rightarrow> int \<Rightarrow> nat \<Rightarrow> (cron_error + tick option) option" where
  "first_run s instant n =
     (case next_tick s instant of
        None \<Rightarrow> None
      | Some (Inl e) \<Rightarrow> Some (Inl e)
      | Some (Inr t) \<Rightarrow> first_run_loop s (instant + int n * day_us) t)"

section \<open>Backfills\<close>

text \<open>\<^verbatim>\<open>schedule_ticks.backfill_dates\<close>, for the calendar and policy the pipeline's row has.\<close>

definition backfill_dates ::
  "(calendar \<times> closed_policy) option \<Rightarrow> nat \<Rightarrow> nat \<Rightarrow> cron_error + (nat \<times> string option) list" where
  "backfill_dates cal first final =
     (let ds = [first ..< final + 1] in
      case cal of
        None \<Rightarrow> Inr (map (\<lambda>d. (d, None)) ds)
      | Some (c, MoveTick) \<Rightarrow>
          bind_err (fold_err (\<lambda>d moved.
              if closed_day c d = None then Inr (d # moved)
              else bind_err (next_business_day c d) (\<lambda>n. Inr (n # moved))) ds [])
            (\<lambda>moved. Inr (map (\<lambda>d. (d, None)) (sorted_set moved)))
      | Some (c, SkipTick) \<Rightarrow> Inr (map (\<lambda>d. (d, closed_day c d)) ds))"

end
