(* ===== verification/Run_Keys.thy ===== *)
theory Run_Keys
  imports Calendars
begin

text \<open>
  The key of a scheduled run: \<open>schedule:\<close> and the tick's instant as \<open>datetime.isoformat\<close> writes
  it in UTC. Distinct ticks have distinct keys: dates, numbers and the whole text are read back.
\<close>

definition two :: "int \<Rightarrow> string" where
  "two k = padded 2 (digits (nat k))"

definition second_us :: int where "second_us = 1000000"

text \<open>The microseconds are written only where there are some.\<close>

definition iso_instant :: "int \<Rightarrow> string" where
  "iso_instant t =
     (let us = t mod day_us; fraction = us mod second_us in
      iso_day (wall_date t) @ ''T'' @ two (us div (60 * minute_us)) @ '':''
        @ two (us div minute_us mod 60) @ '':'' @ two (us div second_us mod 60)
        @ (if fraction = 0 then [] else ''.'' @ padded 6 (digits (nat fraction))) @ ''+00:00'')"

definition schedule_key :: "int \<Rightarrow> string" where
  "schedule_key t = ''schedule:'' @ iso_instant t"

section \<open>Reading back\<close>

definition is_digit :: "char \<Rightarrow> bool" where
  "is_digit c \<longleftrightarrow> digit_value c \<noteq> None"

lemma digit_value_char: "n < 10 \<Longrightarrow> digit_value (char_of (48 + n)) = Some n"
  by (simp add: digit_value_def of_char_of Let_def)

lemma digits_value_append:
  "list_all is_digit s \<Longrightarrow> digits_value acc (s @ s') =
    (case digits_value acc s of None \<Rightarrow> None | Some k \<Rightarrow> digits_value k s')"
  by (induction s arbitrary: acc) (auto simp: is_digit_def)

lemma digits_read: "list_all is_digit (digits n) \<and> digits_value 0 (digits n) = Some n"
proof (induction n rule: digits.induct)
  case (1 n)
  show ?case
  proof (cases "n < 10")
    case True
    then show ?thesis using digit_value_char[of n]
      by (subst (1 2) digits.simps) (simp add: is_digit_def)
  next
    case False
    with 1 have "list_all is_digit (digits (n div 10))" "digits_value 0 (digits (n div 10)) = Some (n div 10)"
      by auto
    with False digit_value_char[of "n mod 10"] show ?thesis
      by (subst (1 2) digits.simps) (simp add: is_digit_def digits_value_append)
  qed
qed

lemma padded_read: "list_all is_digit (padded w (digits n)) \<and> digits_value 0 (padded w (digits n)) = Some n"
proof -
  have "digit_value CHR ''0'' = Some 0" by code_simp
  then have "list_all is_digit (replicate k CHR ''0'') \<and> digits_value 0 (replicate k CHR ''0'') = Some 0" for k
    by (induction k) (auto simp: is_digit_def)
  with digits_read[of n] show ?thesis by (simp add: padded_def digits_value_append)
qed

lemma padded_inject: "padded w (digits m) = padded w (digits n) \<Longrightarrow> m = n"
  by (metis padded_read option.inject)

text \<open>A number is read up to the first character that is no digit.\<close>

lemma number_then:
  assumes "list_all is_digit a" and "list_all is_digit b" and "a @ c # x = b @ d # y"
    and "\<not> is_digit c" and "\<not> is_digit d"
  shows "a = b \<and> c = d \<and> x = y"
proof -
  have "takeWhile is_digit (a @ c # x) = a" "takeWhile is_digit (b @ d # y) = b"
    using assms(1,2,4,5) by (simp_all add: takeWhile_append list_all_iff)
  with assms(3) have "a = b" by metis
  with assms(3) show ?thesis by simp
qed

lemma padded_then:
  assumes "padded w (digits m) @ c # x = padded w (digits n) @ d # y"
    and "\<not> is_digit c" and "\<not> is_digit d"
  shows "m = n \<and> c = d \<and> x = y"
  using number_then[OF _ _ assms] padded_read padded_inject by metis

lemma marks_are_no_digits [simp]:
  "\<not> is_digit CHR ''-''" "\<not> is_digit CHR ''T''" "\<not> is_digit CHR '':''" "\<not> is_digit CHR ''.''"
  "\<not> is_digit CHR ''+''"
  by code_simp+

section \<open>Dates\<close>

lemma month_day_total: "month_day m ls n = (m', d) \<Longrightarrow> m \<le> m' \<and> n = sum_list (take (m' - m) ls) + d"
proof (induction m ls n rule: month_day.induct)
  case (2 m l ls n)
  show ?case
  proof (cases "n \<le> l \<or> ls = []")
    case False
    with 2 have "m + 1 \<le> m'" "n - l = sum_list (take (m' - (m + 1)) ls) + d" by auto
    moreover from this(1) have "m' - m = Suc (m' - (m + 1))" by simp
    ultimately show ?thesis using False by simp linarith
  qed (use 2 in auto)
qed simp

lemma find_year_first: "y \<le> find_year y n \<and> n \<le> days_before (find_year y n)
    \<and> (\<forall>k. y \<le> k \<and> k < find_year y n \<longrightarrow> days_before k < n)"
proof (induction y n rule: find_year.induct)
  case (1 y n)
  note step = find_year.simps[of y n]
  show ?case
  proof (cases "n \<le> days_before y")
    case False
    with 1 have IH: "y + 1 \<le> find_year (y + 1) n" "n \<le> days_before (find_year (y + 1) n)"
      "\<forall>k. y + 1 \<le> k \<and> k < find_year (y + 1) n \<longrightarrow> days_before k < n" by auto
    have "days_before k < n" if "y \<le> k" "k < find_year (y + 1) n" for k
      using that IH(3) False by (cases "k = y") auto
    with IH False step show ?thesis by auto
  qed (simp add: step)
qed

lemma year_of_ordinal:
  assumes "0 < n"
  shows "days_before (year_of n - 1) < n"
proof -
  let ?k = "n div 366"
  note first = find_year_first[of ?k n]
  show ?thesis
  proof (cases "find_year ?k n = ?k")
    case True
    have "?k - 1 = 0 \<or> days_before (?k - 1) < n"
    proof (cases ?k)
      case (Suc j)
      have "days_before j \<le> 366 * j" unfolding days_before_def by linarith
      moreover have "366 * Suc j \<le> n" using Suc by (metis div_times_less_eq_dividend mult.commute)
      ultimately show ?thesis using Suc by simp
    qed simp
    then show ?thesis unfolding year_of_def True using assms by (auto simp: days_before_def)
  next
    case False
    with first have "?k \<le> find_year ?k n - 1" "find_year ?k n - 1 < find_year ?k n" by auto
    with first show ?thesis unfolding year_of_def by blast
  qed
qed

text \<open>A date's year, month and day give its ordinal back.\<close>

lemma date_of_ordinal:
  assumes "0 < n" and "date_of n = (y, m, d)"
  shows "n = month_start y m + d"
proof -
  from assms(2) have y: "y = year_of n"
    and md: "month_day 1 (month_lengths (int y)) (n - days_before (y - 1)) = (m, d)"
    by (auto simp: date_of_def Let_def split: prod.splits)
  from month_day_total[OF md] year_of_ordinal[OF assms(1)] show ?thesis
    unfolding y month_start_def by linarith
qed

section \<open>Distinct keys\<close>

lemma iso_day_then:
  assumes "0 < m" and "0 < n" and "iso_day m @ ''T'' @ x = iso_day n @ ''T'' @ y"
  shows "m = n \<and> x = y"
proof -
  obtain a b c where m: "date_of m = (a, b, c)" by (metis prod_cases3)
  obtain a' b' c' where n: "date_of n = (a', b', c')" by (metis prod_cases3)
  from assms(3) have "padded 4 (digits a) @ CHR ''-'' # padded 2 (digits b) @ CHR ''-'' # padded 2 (digits c) @ CHR ''T'' # x
      = padded 4 (digits a') @ CHR ''-'' # padded 2 (digits b') @ CHR ''-'' # padded 2 (digits c') @ CHR ''T'' # y"
    by (simp add: iso_day_def m n isoformat_def)
  then have "a = a'" "b = b'" "c = c'" "x = y"
    by (auto dest!: padded_then)
  with date_of_ordinal[OF assms(1) m] date_of_ordinal[OF assms(2) n] show ?thesis by simp
qed

lemma two_then:
  assumes "two j @ c # x = two k @ d # y" and "0 \<le> j" and "0 \<le> k" and "\<not> is_digit c" and "\<not> is_digit d"
  shows "j = k \<and> c = d \<and> x = y"
  using padded_then[OF assms(1)[unfolded two_def] assms(4,5)] assms(2,3) by auto

text \<open>The time of day is put together again from its parts.\<close>

lemma time_of_day:
  fixes us :: int
  shows "us = us div (60 * minute_us) * (60 * minute_us) + us div minute_us mod 60 * minute_us
     + us div second_us mod 60 * second_us + us mod second_us"
proof -
  have "us div minute_us = us div (60 * minute_us) * 60 + us div minute_us mod 60"
    using div_mult_mod_eq[of "us div minute_us" 60] by (simp add: zdiv_zmult2_eq[symmetric] mult.commute minute_us_def)
  moreover have "us div second_us = us div minute_us * 60 + us div second_us mod 60"
    using div_mult_mod_eq[of "us div second_us" 60]
    by (simp add: zdiv_zmult2_eq[symmetric] minute_us_def second_us_def)
  moreover have "us = us div second_us * second_us + us mod second_us" by simp
  ultimately show ?thesis unfolding minute_us_def second_us_def by linarith
qed

lemma iso_instant_inject:
  assumes "day_us \<le> t" and "day_us \<le> u" and eq: "iso_instant t = iso_instant u"
  shows "t = u"
proof -
  let ?f = "\<lambda>t. t mod day_us mod second_us"
  let ?rest = "\<lambda>t. (if ?f t = 0 then [] else ''.'' @ padded 6 (digits (nat (?f t)))) @ ''+00:00''"
  have pos: "0 < wall_date t" if "day_us \<le> t" for t
    using that zdiv_mono1[of day_us t day_us] by (simp add: wall_date_def day_us_def)
  have nonneg: "0 \<le> t mod day_us" "0 \<le> ?f t" for t by (simp_all add: day_us_def second_us_def)
  have parts: "0 \<le> t mod day_us div (60 * minute_us)" "0 \<le> t mod day_us div minute_us mod 60"
      "0 \<le> t mod day_us div second_us mod 60" for t
    using nonneg(1)[of t] by (simp_all add: pos_imp_zdiv_nonneg_iff minute_us_def)
  obtain c x where tx: "?rest t = c # x" "\<not> is_digit c" by (cases "?f t = 0") auto
  obtain d y where uy: "?rest u = d # y" "\<not> is_digit d" by (cases "?f u = 0") auto
  from eq[unfolded iso_instant_def Let_def] iso_day_then[OF pos[OF assms(1)] pos[OF assms(2)]]
  have date: "wall_date t = wall_date u"
    and rest: "two (t mod day_us div (60 * minute_us)) @ CHR '':'' # two (t mod day_us div minute_us mod 60)
        @ CHR '':'' # two (t mod day_us div second_us mod 60) @ c # x
      = two (u mod day_us div (60 * minute_us)) @ CHR '':'' # two (u mod day_us div minute_us mod 60)
        @ CHR '':'' # two (u mod day_us div second_us mod 60) @ d # y"
    unfolding tx(1)[symmetric] uy(1)[symmetric] by (simp_all only: append_Cons append_Nil append_assoc)
  from two_then[OF rest parts(1) parts(1)] have h: "t mod day_us div (60 * minute_us) = u mod day_us div (60 * minute_us)"
    and rest: "two (t mod day_us div minute_us mod 60) @ CHR '':'' # two (t mod day_us div second_us mod 60) @ c # x
      = two (u mod day_us div minute_us mod 60) @ CHR '':'' # two (u mod day_us div second_us mod 60) @ d # y"
    by simp_all
  from two_then[OF rest parts(2) parts(2)] have m: "t mod day_us div minute_us mod 60 = u mod day_us div minute_us mod 60"
    and rest: "two (t mod day_us div second_us mod 60) @ c # x = two (u mod day_us div second_us mod 60) @ d # y"
    by simp_all
  from two_then[OF rest parts(3) parts(3) tx(2) uy(2)]
  have s: "t mod day_us div second_us mod 60 = u mod day_us div second_us mod 60" and "c # x = d # y" by simp_all
  then have "?rest t = ?rest u" using tx(1) uy(1) by simp
  then have "?f t = ?f u"
    using nonneg(2)[of t] nonneg(2)[of u]
    by (auto split: if_splits dest!: padded_then padded_inject)
  with h m s have "t mod day_us = u mod day_us"
    using time_of_day[of "t mod day_us"] time_of_day[of "u mod day_us"] by simp
  moreover from date assms(1,2) have "t div day_us = u div day_us"
    by (simp add: wall_date_def pos_imp_zdiv_nonneg_iff day_us_def)
  ultimately show "t = u" by (metis div_mult_mod_eq)
qed

lemma schedule_key_inject: "day_us \<le> t \<Longrightarrow> day_us \<le> u \<Longrightarrow> schedule_key t = schedule_key u \<Longrightarrow> t = u"
  using iso_instant_inject by (simp add: schedule_key_def)

end
