(* ===== verification/Tick_Order.thy ===== *)
theory Tick_Order
  imports Calendars
begin

text \<open>
  The order of a schedule's ticks: what is assumed of a time zone, the instants of a day's wall
  times in it, and that the search of \<^verbatim>\<open>Schedule.next_tick\<close> finds the earliest tick.
\<close>

section \<open>Rules that were read\<close>

definition rule_ok :: "cron_rule \<Rightarrow> bool" where
  "rule_ok r \<longleftrightarrow> sorted (minutes r) \<and> set (minutes r) \<subseteq> {0..59} \<and> sorted (hours r)
     \<and> distinct (hours r) \<and> set (hours r) \<subseteq> {0..23}"

lemma field_part_range: "field_part low high names part = Some xs \<Longrightarrow> set xs \<subseteq> {low..high}"
  unfolding field_part_def py_range_def
  by (auto split: prod.splits option.splits if_splits)

lemma field_values_range: "field_values low high names parts = Some xs \<Longrightarrow> set xs \<subseteq> {low..high}"
proof (induction parts arbitrary: xs)
  case (Cons part parts)
  from Cons.prems obtain ys zs where "field_part low high names part = Some ys"
    "field_values low high names parts = Some zs" "xs = ys @ zs"
    by (auto split: option.splits)
  with field_part_range Cons.IH show ?case by fastforce
qed simp

lemma parse_field_ok:
  "parse_field low high names field = Some xs \<Longrightarrow> high \<noteq> 7 \<Longrightarrow>
    sorted xs \<and> distinct xs \<and> set xs \<subseteq> {low..high}"
  by (auto simp: parse_field_def dest: field_values_range[THEN subsetD])

lemma five_read:
  "(case (a, b, c, d, w) of
      (Some mi, Some ho, Some da, Some mo, Some wd) \<Rightarrow>
        if g da mo then Inl e
        else Inr \<lparr>minutes = mi, hours = ho, days = da, months = mo, weekdays = wd, day_or = either\<rparr>
    | _ \<Rightarrow> Inl e) = Inr r \<Longrightarrow> a = Some (minutes r) \<and> b = Some (hours r)"
  by (cases a; cases b; cases c; cases d; cases w) (auto split: if_splits)

lemma guarded_bind:
  "(if b then Inl e else bind_err m f) = Inr r \<Longrightarrow> \<exists>x. m = Inr x \<and> f x = Inr r"
  by (auto simp: err_simps split: if_splits)

lemma parse_fields:
  assumes "parse e = Inr r"
  obtains f g where "parse_field 0 59 Map.empty f = Some (minutes r)"
    and "parse_field 0 23 Map.empty g = Some (hours r)"
proof -
  show thesis
    using guarded_bind[OF assms[unfolded parse_def Let_def]]
    by - (elim exE conjE, drule five_read, elim conjE, rule that)
qed

lemma parse_ok: "parse e = Inr r \<Longrightarrow> rule_ok r"
  by (erule parse_fields) (auto simp: rule_ok_def dest!: parse_field_ok)

section \<open>Zones\<close>

text \<open>A wall time that exists in a zone.\<close>

definition valid :: "zone \<Rightarrow> int \<Rightarrow> bool" where
  "valid z w \<longleftrightarrow> to_wall z (to_utc z w) = w"

definition whole_minute :: "int \<Rightarrow> int" where
  "whole_minute w = w div minute_us * minute_us"

text \<open>
  What the library relies on in a zone: every instant's wall time exists and is read as its first
  instant; wall times that exist are in the order of their first instants; gaps start and end on
  whole minutes; and every gap ends.
\<close>

definition regular_zone :: "zone \<Rightarrow> bool" where
  "regular_zone z \<longleftrightarrow>
     (\<forall>i. valid z (to_wall z i) \<and> to_utc z (to_wall z i) \<le> i)
     \<and> (\<forall>v w. valid z v \<and> valid z w \<and> v \<le> w \<longrightarrow> to_utc z v \<le> to_utc z w)
     \<and> (\<forall>w. valid z w \<longrightarrow> valid z (whole_minute w))
     \<and> (\<forall>w. \<exists>k. valid z (w + int k * minute_us))"

lemma valid_wall_step:
  "valid z (w + int k * minute_us) \<Longrightarrow>
    \<exists>j \<le> k. valid_wall z w = Some (w + int j * minute_us) \<and> valid z (w + int j * minute_us)
      \<and> (\<forall>i < j. \<not> valid z (w + int i * minute_us))"
proof (induction k arbitrary: w)
  case 0
  then show ?case by (subst valid_wall.simps) (simp add: valid_def)
next
  case (Suc k)
  show ?case
  proof (cases "valid z w")
    case True
    then have "valid_wall z w = Some w" by (subst valid_wall.simps) (simp add: valid_def)
    with True show ?thesis by (intro exI[of _ 0]) simp
  next
    case False
    then have step: "valid_wall z w = valid_wall z (w + minute_us)"
      by (subst valid_wall.simps) (simp add: valid_def)
    have shift: "w + int (Suc n) * minute_us = w + minute_us + int n * minute_us" for n
      by (simp add: algebra_simps)
    from Suc.prems have "valid z (w + minute_us + int k * minute_us)" by (simp only: shift)
    from Suc.IH[OF this] obtain j where j: "j \<le> k"
      "valid_wall z w = Some (w + int (Suc j) * minute_us)" "valid z (w + int (Suc j) * minute_us)"
      "\<forall>i < j. \<not> valid z (w + int (Suc i) * minute_us)"
      unfolding step shift by blast
    have "\<not> valid z (w + int i * minute_us)" if "i < Suc j" for i
      using that j(4) False by (cases i) auto
    with j show ?thesis by (intro exI[of _ "Suc j"]) simp
  qed
qed

text \<open>The instant a wall minute fires at, in a zone where it does.\<close>

definition fire :: "zone \<Rightarrow> int \<Rightarrow> int" where
  "fire z w = to_utc z (the (valid_wall z w))"

definition on_minute :: "int \<Rightarrow> bool" where
  "on_minute w \<longleftrightarrow> w mod minute_us = 0"

lemma on_minute_diff:
  assumes "on_minute v" and "on_minute w" and "v \<le> w"
  obtains k where "w = v + int k * minute_us"
proof -
  from assms(1,2) have "minute_us dvd w - v" by (auto simp: on_minute_def)
  then obtain q where q: "w - v = minute_us * q" by (auto elim: dvdE)
  with assms(3) have "0 \<le> q" by (auto simp: minute_us_def)
  with q that[of "nat q"] show thesis by (simp add: algebra_simps)
qed

lemma wall_fires:
  assumes z: "regular_zone z"
  obtains j where "valid_wall z w = Some (w + int j * minute_us)" and "valid z (w + int j * minute_us)"
    and "fire z w = to_utc z (w + int j * minute_us)" and "\<forall>i < j. \<not> valid z (w + int i * minute_us)"
proof -
  from z obtain k where "valid z (w + int k * minute_us)" unfolding regular_zone_def by blast
  from valid_wall_step[OF this] that show thesis by (auto simp: fire_def)
qed

lemma fire_before:
  assumes z: "regular_zone z" and "on_minute w" and "w \<le> v" and "valid z v"
  shows "fire z w \<le> to_utc z v"
proof -
  let ?f = "whole_minute v"
  have f: "valid z ?f" "?f \<le> v" "on_minute ?f"
    using z assms(4) div_mult_mod_eq[of v minute_us] pos_mod_sign[of minute_us v]
    by (auto simp: regular_zone_def whole_minute_def on_minute_def minute_us_def)
  have "w = w div minute_us * minute_us"
    using assms(2) div_mult_mod_eq[of w minute_us] by (simp add: on_minute_def)
  moreover have "w div minute_us \<le> v div minute_us"
    using assms(3) by (simp add: zdiv_mono1 minute_us_def)
  ultimately have "w \<le> ?f" by (simp add: whole_minute_def minute_us_def)
  with assms(2) f(3) obtain k where k: "?f = w + int k * minute_us" by (rule on_minute_diff)
  obtain j where j: "valid z (w + int j * minute_us)" "fire z w = to_utc z (w + int j * minute_us)"
    "\<forall>i < j. \<not> valid z (w + int i * minute_us)" by (rule wall_fires[OF z])
  from j(3) f(1) k have "j \<le> k" by (metis not_le)
  then have "w + int j * minute_us \<le> v" using k f(2) by (simp add: minute_us_def)
  with z j(1,2) assms(4) show ?thesis by (auto simp: regular_zone_def)
qed

lemma fire_mono:
  assumes z: "regular_zone z" and "on_minute v" and "v \<le> w"
  shows "fire z v \<le> fire z w"
proof -
  obtain j where "valid z (w + int j * minute_us)" "fire z w = to_utc z (w + int j * minute_us)"
    by (rule wall_fires[OF z])
  moreover have "v \<le> w + int j * minute_us" using assms(3) by (simp add: minute_us_def)
  ultimately show ?thesis using fire_before[OF z assms(2)] by simp
qed

lemma day_ticks_fire:
  assumes z: "regular_zone z"
  shows "day_ticks z r dt = Some (map (fire z) (walls_of r dt))"
proof -
  have "all_some (map (valid_wall z) ws) = Some (map (\<lambda>w. the (valid_wall z w)) ws)" for ws
  proof (induction ws)
    case (Cons w ws)
    obtain j where "valid_wall z w = Some (w + int j * minute_us)" by (rule wall_fires[OF z])
    with Cons show ?case by simp
  qed simp
  then show ?thesis by (simp add: day_ticks_def fire_def comp_def)
qed

section \<open>The ticks of a day\<close>

lemma walls_range:
  assumes "rule_ok r" and "w \<in> set (walls_of r dt)"
  shows "on_minute w" and "int dt * day_us \<le> w" and "w < int (dt + 1) * day_us"
proof -
  from assms obtain h m where hm: "0 \<le> h" "h \<le> 23" "0 \<le> m" "m \<le> 59"
    and w: "w = int dt * day_us + (h * 60 + m) * minute_us"
    by (auto simp: rule_ok_def walls_of_def subset_eq)
  have day: "int dt * day_us = (int dt * 1440) * minute_us" by (simp add: day_us_def minute_us_def)
  show "on_minute w" unfolding w day on_minute_def by (simp flip: distrib_right)
  show "int dt * day_us \<le> w" "w < int (dt + 1) * day_us"
    using hm unfolding w by (simp_all add: day_us_def minute_us_def)
qed

lemma sorted_walls:
  assumes "rule_ok r"
  shows "sorted (walls_of r dt)"
proof -
  have "sorted (concat (map (\<lambda>h. map (\<lambda>m. c + (h * 60 + m) * minute_us) ms) hs))"
    if "sorted ms" "set ms \<subseteq> {0..59}" "sorted hs" "distinct hs" for c and ms hs :: "int list"
    using that(3,4)
  proof (induction hs)
    case (Cons h hs)
    have "sorted (map (\<lambda>m. c + (h * 60 + m) * minute_us) ms)"
      unfolding sorted_map by (rule sorted_wrt_mono_rel[OF _ that(1)]) (simp add: minute_us_def)
    moreover have "c + (h * 60 + m) * minute_us \<le> c + (h' * 60 + m') * minute_us" if "h' \<in> set hs" "m \<in> set ms" "m' \<in> set ms" for h' m m'
    proof -
      from Cons.prems that(1) have "h \<noteq> h'" "h \<le> h'" by auto
      moreover have "m \<le> 59" "0 \<le> m'" using that \<open>set ms \<subseteq> {0..59}\<close> by auto
      ultimately show ?thesis by (simp add: minute_us_def)
    qed
    ultimately show ?case using Cons by (auto simp: sorted_append)
  qed simp
  with assms show ?thesis by (simp add: walls_of_def rule_ok_def)
qed

text \<open>The first of a sorted list of instants that lies after a given one is the least such.\<close>

lemma find_least:
  assumes "sorted xs"
  shows "find (\<lambda>t. t > i) xs = Some t \<Longrightarrow> t \<in> set xs \<and> i < t \<and> (\<forall>u \<in> set xs. i < u \<longrightarrow> t \<le> u)"
    and "find (\<lambda>t. t > i) xs = None \<Longrightarrow> \<forall>u \<in> set xs. u \<le> i"
  using assms by (induction xs) (auto split: if_splits)

text \<open>What a finished search has looked at.\<close>

lemma search_found:
  "search on_day n d = Some (Inr t) \<Longrightarrow>
    \<exists>k. d \<le> k \<and> k < d + n \<and> on_day k = Inr (Some (Some t)) \<and> (\<forall>j. d \<le> j \<and> j < k \<longrightarrow> on_day j = Inr (Some None))"
proof (induction n arbitrary: d)
  case (Suc n)
  show ?case
  proof (cases "on_day d = Inr (Some None)")
    case True
    with Suc.prems have "search on_day n (d + 1) = Some (Inr t)" by (auto split: if_splits)
    from Suc.IH[OF this] obtain k where "d + 1 \<le> k" "k < d + 1 + n" "on_day k = Inr (Some (Some t))"
      "\<forall>j. d + 1 \<le> j \<and> j < k \<longrightarrow> on_day j = Inr (Some None)" by blast
    moreover have "j = d \<or> d + 1 \<le> j" if "d \<le> j" for j using that by auto
    ultimately show ?thesis using True by (intro exI[of _ k]) (metis add_Suc_right add_Suc add_leD1 Suc_eq_plus1)
  next
    case False
    with Suc.prems show ?thesis by (intro exI[of _ d]) (auto split: sum.splits option.splits)
  qed
qed simp

lemma search_finds:
  assumes "d \<le> k" and "k < d + n" and "int k \<le> date_max" and "on_day k = Inr (Some (Some x))"
    and "\<And>j. d \<le> j \<Longrightarrow> j < k \<Longrightarrow> \<exists>y. on_day j = Inr (Some y)"
  shows "\<exists>t. search on_day n d = Some (Inr t)"
  using assms
proof (induction n arbitrary: d)
  case (Suc n)
  show ?case
  proof (cases "d = k")
    case False
    with Suc.prems(1,5) obtain y where y: "on_day d = Inr (Some y)" "d + 1 \<le> k" by force
    have "\<exists>t. search on_day n (d + 1) = Some (Inr t)"
      by (rule Suc.IH) (use Suc.prems y(2) in auto)
    with y Suc.prems(3) show ?thesis by (cases y) auto
  qed (use Suc.prems in simp)
qed simp

section \<open>The ticks of a schedule\<close>

text \<open>Whether a day has ticks, and why they are skipped, with or without a calendar.\<close>

definition day_due :: "schedule \<Rightarrow> nat \<Rightarrow> cron_error + string option" where
  "day_due s dt =
     (case sched_calendar s of
        None \<Rightarrow> bind_err (matches_day (expr s) dt) (\<lambda>matches. Inr (if matches then Some [] else None))
      | Some c \<Rightarrow> bind_err (business_rule (expr s)) (\<lambda>rule. due s c rule dt))"

text \<open>The instants at which a schedule has a tick.\<close>

definition tick_on :: "schedule \<Rightarrow> nat \<Rightarrow> int \<Rightarrow> bool" where
  "tick_on s dt u \<longleftrightarrow> (\<exists>reason r. day_due s dt = Inr (Some reason) \<and> parse (expr s) = Inr r
     \<and> u \<in> fire (sched_zone s) ` set (walls_of r dt))"

text \<open>The days a search from an instant looks at.\<close>

definition searched :: "schedule \<Rightarrow> int \<Rightarrow> nat \<Rightarrow> bool" where
  "searched s i dt \<longleftrightarrow> (let first = wall_date (to_wall (sched_zone s) i) in
     first \<le> dt \<and> dt < first + search_days \<and> int dt \<le> date_max)"

text \<open>What the search finds on one day, as both kinds of schedule compute it.\<close>

definition day_result :: "schedule \<Rightarrow> int \<Rightarrow> nat \<Rightarrow> cron_error + (int \<times> string) option option" where
  "day_result s i dt =
     bind_err (day_due s dt) (\<lambda>reason.
       case reason of
         None \<Rightarrow> Inr (Some None)
       | Some reason \<Rightarrow>
           bind_err (parse (expr s)) (\<lambda>r.
             Inr (map_option (\<lambda>ts. map_option (\<lambda>t. (t, reason)) (find (\<lambda>t. t > i) ts))
                  (day_ticks (sched_zone s) r dt))))"

lemma day_result_ticks:
  assumes z: "regular_zone (sched_zone s)"
  shows "day_result s i dt = Inr (Some (Some (t, reason))) \<Longrightarrow>
      day_due s dt = Inr (Some reason) \<and> tick_on s dt t \<and> i < t \<and> (\<forall>u. tick_on s dt u \<and> i < u \<longrightarrow> t \<le> u)"
    and "day_result s i dt = Inr (Some None) \<Longrightarrow> tick_on s dt u \<Longrightarrow> u \<le> i"
    and "day_result s i dt \<noteq> Inr None"
proof -
  have sorted: "sorted (map (fire (sched_zone s)) (walls_of r dt))" if "parse (expr s) = Inr r" for r
  proof -
    from that have ok: "rule_ok r" by (rule parse_ok)
    have "v \<in> set (walls_of r dt) \<Longrightarrow> v \<le> w \<Longrightarrow> fire (sched_zone s) v \<le> fire (sched_zone s) w" for v w
      using fire_mono[OF z walls_range(1)[OF ok]] by blast
    then show ?thesis
      unfolding sorted_map by (rule sorted_wrt_mono_rel[OF _ sorted_walls[OF ok]])
  qed
  have result: "day_result s i dt = Inr (Some (map_option (\<lambda>t. (t, reason))
      (find (\<lambda>t. t > i) (map (fire (sched_zone s)) (walls_of r dt)))))"
    if "day_due s dt = Inr (Some reason)" and "parse (expr s) = Inr r" for reason r
    using that by (simp add: day_result_def day_ticks_fire[OF z])
  have ticks: "tick_on s dt u \<longleftrightarrow> u \<in> set (map (fire (sched_zone s)) (walls_of r dt))"
    if "day_due s dt = Inr (Some reason)" and "parse (expr s) = Inr r" for reason r u
    using that by (simp add: tick_on_def)
  show "day_result s i dt \<noteq> Inr None"
    by (auto simp: day_result_def day_ticks_fire[OF z] err_simps split: option.splits)
  {
    assume found: "day_result s i dt = Inr (Some (Some (t, reason)))"
    then obtain r where r: "parse (expr s) = Inr r" and d: "day_due s dt = Inr (Some reason)"
      by (auto simp: day_result_def err_simps split: option.splits)
    from found have "find (\<lambda>t. t > i) (map (fire (sched_zone s)) (walls_of r dt)) = Some t"
      by (simp add: result[OF d r])
    from find_least(1)[OF sorted[OF r] this] d
    show "day_due s dt = Inr (Some reason) \<and> tick_on s dt t \<and> i < t
        \<and> (\<forall>u. tick_on s dt u \<and> i < u \<longrightarrow> t \<le> u)"
      unfolding ticks[OF d r] by blast
  }
  assume none: "day_result s i dt = Inr (Some None)" and on: "tick_on s dt u"
  from on obtain reason r where d: "day_due s dt = Inr (Some reason)" and r: "parse (expr s) = Inr r"
    by (auto simp: tick_on_def)
  from none have "find (\<lambda>t. t > i) (map (fire (sched_zone s)) (walls_of r dt)) = None"
    by (simp add: result[OF d r])
  from find_least(2)[OF sorted[OF r] this] on show "u \<le> i" unfolding ticks[OF d r] by blast
qed

text \<open>Ticks of later days are later, and those of days before an instant's day are not after it.\<close>

lemma tick_on_mono:
  assumes z: "regular_zone (sched_zone s)" and "tick_on s d u" and "tick_on s d' u'" and "d < d'"
  shows "u \<le> u'"
proof -
  from assms(2,3) obtain r w w' where r: "parse (expr s) = Inr r" and w: "w \<in> set (walls_of r d)"
    "w' \<in> set (walls_of r d')" "u = fire (sched_zone s) w" "u' = fire (sched_zone s) w'"
    by (auto simp: tick_on_def)
  note ok = parse_ok[OF r]
  have "int (d + 1) * day_us \<le> int d' * day_us" using assms(4) by (simp add: day_us_def)
  with walls_range(3)[OF ok w(1)] walls_range(2)[OF ok w(2)] have "w \<le> w'" by simp
  then show ?thesis unfolding w(3,4) by (rule fire_mono[OF z walls_range(1)[OF ok w(1)]])
qed

lemma tick_on_past:
  assumes z: "regular_zone (sched_zone s)" and "tick_on s d u"
    and "d < wall_date (to_wall (sched_zone s) i)"
  shows "u \<le> i"
proof -
  let ?v = "to_wall (sched_zone s) i"
  from assms(2) obtain r w where r: "parse (expr s) = Inr r" and w: "w \<in> set (walls_of r d)"
    "u = fire (sched_zone s) w" by (auto simp: tick_on_def)
  note ok = parse_ok[OF r]
  from assms(3) have "int d + 1 \<le> ?v div day_us" by (auto simp: wall_date_def)
  then have "(int d + 1) * day_us \<le> ?v div day_us * day_us" by (simp add: day_us_def)
  also have "\<dots> \<le> ?v" using div_mult_mod_eq[of ?v day_us] by (simp add: day_us_def)
  finally have "w \<le> ?v" using walls_range(3)[OF ok w(1)] by (simp add: add.commute)
  moreover from z have "valid (sched_zone s) ?v" "to_utc (sched_zone s) ?v \<le> i"
    unfolding regular_zone_def by blast+
  ultimately show ?thesis
    using fire_before[OF z walls_range(1)[OF ok w(1)]] w(2) by force
qed

section \<open>The search of \<open>next_tick\<close>\<close>

text \<open>Both kinds of schedule search the days in the same way.\<close>

definition first_day :: "schedule \<Rightarrow> int \<Rightarrow> nat" where
  "first_day s i = wall_date (to_wall (sched_zone s) i)"

definition tick_of :: "schedule \<Rightarrow> nat \<Rightarrow> int \<times> string \<Rightarrow> tick" where
  "tick_of s dt p = \<lparr>instant_of = fst p,
     run_day = (if sched_calendar s = None then wall_date (to_wall (sched_zone s) (fst p)) else dt),
     skipped = (if snd p = [] then None else Some (snd p))\<rparr>"

definition on_day :: "schedule \<Rightarrow> int \<Rightarrow> nat \<Rightarrow> cron_error + tick option option" where
  "on_day s i dt = map_sum id (map_option (map_option (tick_of s dt))) (day_result s i dt)"

lemma search_map:
  "search (\<lambda>d. map_sum id (map_option (map_option f)) (g d)) n d
     = map_option (map_sum id f) (search g n d)"
  by (induction n arbitrary: d) (simp_all split: sum.split option.split)

lemma on_day_nothing: "on_day s i dt = Inr (Some None) \<longleftrightarrow> day_result s i dt = Inr (Some None)"
  by (cases "day_result s i dt") (auto simp: on_day_def)

lemma next_tick_search:
  assumes "\<not> is_err (business_rule (expr s))"
    and "sched_calendar s = None \<Longrightarrow> business_rule (expr s) = Inr None \<and> \<not> is_err (parse (expr s))"
  shows "next_tick s i = search (on_day s i) search_days (first_day s i)"
proof (cases "sched_calendar s")
  case (Some c)
  from assms(1) obtain rule where rule: "business_rule (expr s) = Inr rule"
    by (auto simp: is_err_def split: sum.splits)
  have "day_tick s c rule i d = on_day s i d" for d
    by (cases "due s c rule d"; cases "parse (expr s)")
       (auto simp: day_tick_def on_day_def day_result_def day_due_def Some rule tick_of_def
          option.map_comp comp_def split: option.split)
  then have "day_tick s c rule i = on_day s i" by (rule ext)
  then show ?thesis by (simp add: next_tick_def Some rule first_day_def)
next
  case None
  from assms(2)[OF None] obtain r where r: "business_rule (expr s) = Inr None" "parse (expr s) = Inr r"
    by (auto simp: is_err_def split: sum.splits)
  let ?tick = "\<lambda>t. \<lparr>instant_of = t, run_day = wall_date (to_wall (sched_zone s) t), skipped = None\<rparr>"
  let ?found = "\<lambda>d. if rule_matches r d
      then Inr (map_option (find (\<lambda>t. t > i)) (day_ticks (sched_zone s) r d)) else Inr (Some None)"
  have "map_sum id (map_option (map_option ?tick)) (?found d) = on_day s i d" for d
    by (auto simp: on_day_def day_result_def day_due_def None r matches_day_def tick_of_def
        option.map_comp comp_def split: option.split)
  then have "(\<lambda>d. map_sum id (map_option (map_option ?tick)) (?found d)) = on_day s i" by (rule ext)
  then show ?thesis
    unfolding next_tick_def None next_after_def r sum.case option.case first_day_def search_map[symmetric]
    by (rule arg_cong)
qed

text \<open>A tick that was returned: the search succeeded on its day, and found nothing before it.\<close>

lemma next_tick_readable:
  assumes "next_tick s i = Some (Inr t)"
  shows "\<not> is_err (business_rule (expr s))"
    and "sched_calendar s = None \<Longrightarrow> business_rule (expr s) = Inr None \<and> \<not> is_err (parse (expr s))"
  using assms
  by (auto simp: next_tick_def next_after_def is_err_def split: option.splits sum.splits)

lemma next_tick_found:
  assumes "next_tick s i = Some (Inr t)"
  obtains d reason where "first_day s i \<le> d" and "t = tick_of s d (instant_of t, reason)"
    and "day_result s i d = Inr (Some (Some (instant_of t, reason)))"
    and "\<forall>j. first_day s i \<le> j \<and> j < d \<longrightarrow> day_result s i j = Inr (Some None)"
proof -
  from assms have "search (on_day s i) search_days (first_day s i) = Some (Inr t)"
    using next_tick_search next_tick_readable[OF assms] by metis
  from search_found[OF this] obtain d where d: "first_day s i \<le> d" "on_day s i d = Inr (Some (Some t))"
    and before: "\<forall>j. first_day s i \<le> j \<and> j < d \<longrightarrow> on_day s i j = Inr (Some None)" by blast
  from d(2) obtain p where p: "day_result s i d = Inr (Some (Some p))" "t = tick_of s d p"
    by (auto simp: on_day_def map_sum_def split: sum.splits)
  show thesis
  proof (rule that[of d "snd p"])
    show "t = tick_of s d (instant_of t, snd p)" "day_result s i d = Inr (Some (Some (instant_of t, snd p)))"
      using p by (simp_all add: tick_of_def)
    show "\<forall>j. first_day s i \<le> j \<and> j < d \<longrightarrow> day_result s i j = Inr (Some None)"
      using before by (simp add: on_day_nothing)
  qed (rule d(1))
qed

lemma next_tick_exists:
  assumes z: "regular_zone (sched_zone s)"
    and rule: "\<not> is_err (business_rule (expr s))"
    and plain: "sched_calendar s = None \<Longrightarrow> business_rule (expr s) = Inr None"
    and read: "\<And>dt. searched s i dt \<Longrightarrow> \<not> is_err (day_due s dt)"
    and d: "searched s i d" "tick_on s d u" "i < u"
  shows "\<exists>t. next_tick s i = Some (Inr t)"
proof -
  from d(2) obtain r reason where r: "parse (expr s) = Inr r" and "day_due s d = Inr (Some reason)"
    by (auto simp: tick_on_def)
  then have some: "\<exists>y. day_result s i dt = Inr (Some y)" if "searched s i dt" for dt
    using read[OF that] by (auto simp: day_result_def day_ticks_fire[OF z] is_err_def r split: sum.splits option.splits)
  have "day_result s i d \<noteq> Inr (Some None)"
    using day_result_ticks(2)[OF z _ d(2), of i] d(3) by auto
  with some[OF d(1)] obtain p where "day_result s i d = Inr (Some (Some p))" by auto
  then have "on_day s i d = Inr (Some (Some (tick_of s d p)))" by (simp add: on_day_def)
  moreover have "\<exists>y. on_day s i j = Inr (Some y)" if "first_day s i \<le> j" "j < d" for j
  proof -
    from that d(1) have "searched s i j" by (simp add: searched_def first_day_def Let_def)
    from some[OF this] show ?thesis by (auto simp: on_day_def)
  qed
  ultimately have "\<exists>t. search (on_day s i) search_days (first_day s i) = Some (Inr t)"
    using d(1) by (intro search_finds[where k = d]) (auto simp: searched_def first_day_def Let_def)
  moreover have "next_tick s i = search (on_day s i) search_days (first_day s i)"
    by (rule next_tick_search[OF rule]) (simp add: plain r is_err_def)
  ultimately show ?thesis by simp
qed

section \<open>A zone with a gap\<close>

text \<open>A zone that loses the hour from a wall time on, and its schedule on business days.\<close>

definition gap_zone :: "int \<Rightarrow> zone" where
  "gap_zone gap = \<lparr>to_wall = (\<lambda>i. if i < gap then i else i + 60 * minute_us),
     to_utc = (\<lambda>w. if w < gap + 60 * minute_us then w else w - 60 * minute_us)\<rparr>"

lemma gap_zone_valid: "valid (gap_zone gap) w \<longleftrightarrow> w < gap \<or> gap + 60 * minute_us \<le> w"
  by (auto simp: valid_def gap_zone_def minute_us_def)

lemma gap_zone_regular:
  assumes "on_minute gap"
  shows "regular_zone (gap_zone gap)"
proof -
  from assms obtain g where g: "gap = g * minute_us"
    using div_mult_mod_eq[of gap minute_us] by (metis add.right_neutral on_minute_def)
  have floor: "whole_minute w \<le> w" for w
    using div_mult_mod_eq[of w minute_us] pos_mod_sign[of minute_us w]
    by (simp add: whole_minute_def minute_us_def)
  have keep: "gap + 60 * minute_us \<le> whole_minute w" if "gap + 60 * minute_us \<le> w" for w
  proof -
    from that have "(g + 60) * minute_us div minute_us \<le> w div minute_us"
      unfolding g by (intro zdiv_mono1) (simp_all add: algebra_simps minute_us_def)
    then show ?thesis unfolding g whole_minute_def by (simp add: minute_us_def)
  qed
  have "valid (gap_zone gap) (w + int (if w < gap then 0 else 60) * minute_us)" for w
    by (auto simp: gap_zone_valid)
  then have ends: "\<exists>k. valid (gap_zone gap) (w + int k * minute_us)" for w by blast
  show ?thesis
    unfolding regular_zone_def gap_zone_valid
    by (intro conjI allI ends[unfolded gap_zone_valid])
       (use floor keep in \<open>auto simp: gap_zone_def minute_us_def intro: order.strict_trans1\<close>)
qed

definition demo_gap :: int where "demo_gap = 36 * day_us + 120 * minute_us"

definition demo_schedule :: schedule where
  "demo_schedule = \<lparr>expr = ''30 2 * * *'', sched_zone = gap_zone demo_gap,
     sched_calendar = Some \<lparr>code = ''BANK'', weekend = {5, 6}, holidays = [(33, None)]\<rparr>,
     policy = MoveTick\<rparr>"

lemma next_tick_least:
  assumes z: "regular_zone (sched_zone s)" and "next_tick s i = Some (Inr t)"
  shows "i < instant_of t
     \<and> (\<exists>d reason. day_due s d = Inr (Some reason) \<and> tick_on s d (instant_of t)
          \<and> t = tick_of s d (instant_of t, reason))
     \<and> (\<forall>d u. tick_on s d u \<and> i < u \<longrightarrow> instant_of t \<le> u)"
proof (intro conjI impI)
  from assms(2) obtain d reason where d: "first_day s i \<le> d" "t = tick_of s d (instant_of t, reason)"
    and result: "day_result s i d = Inr (Some (Some (instant_of t, reason)))"
    and before: "\<forall>j. first_day s i \<le> j \<and> j < d \<longrightarrow> day_result s i j = Inr (Some None)"
    by (rule next_tick_found)
  note on = day_result_ticks(1)[OF z result]
  show "i < instant_of t" and "\<exists>d reason. day_due s d = Inr (Some reason) \<and> tick_on s d (instant_of t)
      \<and> t = tick_of s d (instant_of t, reason)"
    using on d(2) by blast+
  show "\<forall>d u. tick_on s d u \<and> i < u \<longrightarrow> instant_of t \<le> u"
  proof (intro allI impI, elim conjE)
    fix d' u
    assume u: "tick_on s d' u" "i < u"
    have "\<not> d' < first_day s i" using tick_on_past[OF z u(1)] u(2) by (force simp: first_day_def)
    moreover have "\<not> (first_day s i \<le> d' \<and> d' < d)"
      using before day_result_ticks(2)[OF z _ u(1)] u(2) by force
    ultimately consider "d' = d" | "d < d'" by linarith
    then show "instant_of t \<le> u"
      by cases (use on u tick_on_mono[OF z _ u(1)] in blast)+
  qed
qed

section \<open>Properties\<close>


text \<open>
  The tick of the Monday on which the hour from 02:00 is lost, for a holiday and a weekend before
  it: once, at the end of the gap.
\<close>

lemma demo_zone: "regular_zone (sched_zone demo_schedule)"
proof -
  have "on_minute demo_gap" by code_simp
  then show ?thesis by (simp add: demo_schedule_def gap_zone_regular)
qed


end
