(* ===== verification/Schedules.thy ===== *)
theory Schedules
  imports Lifecycle_Claims Restart Run_Keys Tick_Order
begin

text \<open>
  The controller's schedules: \<^verbatim>\<open>controller/schedules.py\<close> with the persisted boundary of
  \<^verbatim>\<open>engine/schedule_ticks.py\<close>, and the restarts of \<^verbatim>\<open>controller/restarts.py\<close>. Each tick is created in
  a transaction of its own, so a failure leaves the database as far as it came: an operation's
  result is paired with the database. The zone database and the readers of \<open>datetime.fromisoformat\<close>
  and \<open>date.fromisoformat\<close> are arguments; the stop event is left out (it is never set).
\<close>

datatype schedule_error =
    CronError cron_error | UnknownZone string | BadStartDate string | BadRunKey string
  | RestartError restart_error | TickError lifecycle_error | EmptyDeque

section \<open>The persisted boundary\<close>

text \<open>A row of \<open>controller_schedules\<close>; its calendar is the one \<open>load_calendar\<close> has read.\<close>

record schedule_row =
  sr_pipeline :: int
  sr_schedule :: "string option"
  sr_timezone :: "string option"
  sr_project_timezone :: string
  sr_start_date :: "string option"
  sr_created :: "instant option"
  sr_resumed :: "instant option"
  sr_last_key :: "string option"
  sr_calendar :: "calendar option"
  sr_closed_policy :: closed_policy
  sr_catchup :: bool
  sr_max_catchup :: nat
  sr_skip_overlap :: bool
  sr_pending :: bool

definition remove_prefix :: "string \<Rightarrow> string \<Rightarrow> string" where
  "remove_prefix p s = (if starts_with p s then drop (length p) s else s)"

definition zone_name :: "schedule_row \<Rightarrow> string" where
  "zone_name row = (case sr_timezone row of Some name \<Rightarrow> name | None \<Rightarrow> sr_project_timezone row)"

text \<open>
  \<open>cursor\<close>: where the search for ticks goes on. \<open>read_instant\<close> gives a time and
  its offset from UTC, which a naive time has not.
\<close>

definition cursor ::
  "(string \<Rightarrow> zone option) \<Rightarrow> (string \<Rightarrow> nat option) \<Rightarrow> (string \<Rightarrow> (int \<times> int option) option)
    \<Rightarrow> instant \<Rightarrow> schedule_row \<Rightarrow> schedule_error + zone \<times> instant" where
  "cursor zones read_date read_instant now row =
     (case zones (zone_name row) of
        None \<Rightarrow> Inl (UnknownZone (zone_name row))
      | Some z \<Rightarrow>
          bind_err (case sr_start_date row of
                      Some text \<Rightarrow>
                        (case read_date (take 10 text) of
                           None \<Rightarrow> Inl (BadStartDate text)
                         | Some d \<Rightarrow> Inr (to_utc z (int d * day_us) - 1))
                    | None \<Rightarrow> Inr (case sr_created row of Some c \<Rightarrow> c | None \<Rightarrow> now)) (\<lambda>start.
          let start = (case sr_resumed row of Some r \<Rightarrow> max start r | None \<Rightarrow> start) in
          case sr_last_key row of
            None \<Rightarrow> Inr (z, start)
          | Some key \<Rightarrow>
              (case read_instant (remove_prefix ''schedule:'' key) of
                 None \<Rightarrow> Inl (BadRunKey key)
               | Some (previous, offset) \<Rightarrow>
                   if offset \<noteq> Some 0 \<or> \<not> starts_with ''schedule:'' key then Inl (BadRunKey key)
                   else Inr (z, max start previous))))"

definition schedule_of :: "schedule_row \<Rightarrow> string \<Rightarrow> zone \<Rightarrow> schedule" where
  "schedule_of row e z = \<lparr>expr = e, sched_zone = z, sched_calendar = sr_calendar row,
     policy = sr_closed_policy row\<rparr>"

section \<open>One tick\<close>

text \<open>\<open>_create_tick\<close>: nothing where the tick has a run; a reason records it as skipped.\<close>

definition has_key :: "engine_db \<Rightarrow> int \<Rightarrow> string \<Rightarrow> bool" where
  "has_key db p key \<longleftrightarrow> list_ex (\<lambda>r. r_pipeline r = p \<and> r_key r = key) (db_runs db)"

definition new_run_note :: "int \<Rightarrow> run_status \<Rightarrow> intervention" where
  "new_run_note k st = \<lparr>i_run = k, i_task = None, i_action = OtherIntervention,
     i_to_status = Some st, i_pause = None\<rparr>"

definition tick_status :: "string option \<Rightarrow> run_status" where
  "tick_status reason = (if reason = None \<or> reason = Some [] then RunQueued else RunSkipped)"

definition create_tick ::
  "instant \<Rightarrow> int \<Rightarrow> tick \<Rightarrow> string option \<Rightarrow> engine_db \<Rightarrow> lifecycle_error + engine_db" where
  "create_tick now p t reason db =
     (let key = schedule_key (instant_of t); st = tick_status reason in
      if has_key db p key then Inr db
      else
        bind_err (create_run now p key TrigSchedule st db) (\<lambda>(k, db).
          Inr (db\<lparr>db_interventions := db_interventions db @ [new_run_note k st]\<rparr>)))"

section \<open>Catching up\<close>

definition missed :: string where
  "missed = ''missed while no controller was running''"

definition still_active :: string where
  "still_active = ''previous run still active''"

text \<open>The deque of retained ticks, and what one due tick does to it.\<close>

definition retain_tick ::
  "instant \<Rightarrow> int \<Rightarrow> nat \<Rightarrow> tick \<Rightarrow> tick list \<Rightarrow> engine_db \<Rightarrow> schedule_error + tick list \<times> engine_db" where
  "retain_tick now p count t kept db =
     (case skipped t of
        Some reason \<Rightarrow>
          (case create_tick now p t (Some reason) db of
             Inl e \<Rightarrow> Inl (TickError e) | Inr db \<Rightarrow> Inr (kept, db))
      | None \<Rightarrow>
          if length kept = count then
            (case kept of
               [] \<Rightarrow> Inl EmptyDeque
             | oldest # rest \<Rightarrow>
                 (case create_tick now p oldest (Some missed) db of
                    Inl e \<Rightarrow> Inl (TickError e) | Inr db \<Rightarrow> Inr (rest @ [t], db)))
          else Inr (kept @ [t], db))"

lemma find_after: "find (\<lambda>t. t > i) xs = Some t \<Longrightarrow> (i::int) < t"
  by (auto dest: find_SomeD)

lemma next_tick_after: "next_tick s i = Some (Inr t) \<Longrightarrow> i < instant_of t"
  by (erule next_tick_found)
     (auto simp: day_result_def err_simps split: option.splits dest!: find_after)

function catch_up ::
  "schedule \<Rightarrow> instant \<Rightarrow> int \<Rightarrow> nat \<Rightarrow> tick \<Rightarrow> tick list \<Rightarrow> engine_db
    \<Rightarrow> ((schedule_error + tick \<times> tick list) \<times> engine_db) option" where
  "catch_up s now p count t kept db =
     (if instant_of t > now then Some (Inr (t, kept), db)
      else
        (case retain_tick now p count t kept db of
           Inl e \<Rightarrow> Some (Inl e, db)
         | Inr (kept, db) \<Rightarrow>
             (case next_tick s (instant_of t) of
                None \<Rightarrow> None
              | Some (Inl e) \<Rightarrow> Some (Inl (CronError e), db)
              | Some (Inr t) \<Rightarrow> catch_up s now p count t kept db)))"
  by pat_completeness auto
termination
  by (relation "measure (\<lambda>(s, now, p, count, t, kept, db). nat (now + 1 - instant_of t))")
     (auto dest: next_tick_after)

declare catch_up.simps [simp del]

text \<open>The retained ticks are queued, oldest first.\<close>

fun create_ticks ::
  "instant \<Rightarrow> int \<Rightarrow> string option \<Rightarrow> tick list \<Rightarrow> engine_db \<Rightarrow> (schedule_error + unit) \<times> engine_db" where
  "create_ticks now p reason [] db = (Inr (), db)"
| "create_ticks now p reason (t # ts) db =
     (case create_tick now p t reason db of
        Inl e \<Rightarrow> (Inl (TickError e), db)
      | Inr db \<Rightarrow> create_ticks now p reason ts db)"

section \<open>\<open>Schedules.refresh\<close>\<close>

text \<open>What a cached deadline was computed from; a zone is known by its name.\<close>

type_synonym signature =
  "string \<times> string \<times> calendar option \<times> closed_policy \<times> string option \<times> string option \<times> instant option"

definition signature_of :: "schedule_row \<Rightarrow> string \<Rightarrow> signature" where
  "signature_of row e = (e, zone_name row, sr_calendar row, sr_closed_policy row, sr_start_date row,
     sr_last_key row, sr_resumed row)"

record schedules =
  deadlines :: "int \<rightharpoonup> signature \<times> instant"
  engine :: engine_db

definition catchup_count :: "schedule_row \<Rightarrow> nat" where
  "catchup_count row = (if sr_catchup row then sr_max_catchup row else 1)"

definition overlap_reason :: "schedule_row \<Rightarrow> string option" where
  "overlap_reason row = (if sr_pending row \<and> sr_skip_overlap row then Some still_active else None)"

definition cached :: "schedules \<Rightarrow> schedule_row \<Rightarrow> string \<Rightarrow> instant \<Rightarrow> bool" where
  "cached st row e now = (case deadlines st (sr_pipeline row) of
     None \<Rightarrow> False | Some (sign, tick) \<Rightarrow> sign = signature_of row e \<and> tick > now)"

definition refresh_schedule ::
  "(schedule_row \<Rightarrow> schedule_error + zone \<times> instant) \<Rightarrow> int set \<Rightarrow> instant \<Rightarrow> schedule_row \<Rightarrow> schedules
    \<Rightarrow> ((schedule_error + unit) \<times> schedules) option" where
  "refresh_schedule boundary paused now row st =
     (case sr_schedule row of
        None \<Rightarrow> Some (Inr (), st)
      | Some e \<Rightarrow>
          if sr_pipeline row \<in> paused then Some (Inr (), st)
          else
            (case boundary row of
               Inl err \<Rightarrow> Some (Inl err, st)
             | Inr (z, start) \<Rightarrow>
                 if cached st row e now then Some (Inr (), st)
                 else
                   (let s = schedule_of row e z in
                    case next_tick s start of
                      None \<Rightarrow> None
                    | Some (Inl err) \<Rightarrow> Some (Inl (CronError err), st)
                    | Some (Inr t) \<Rightarrow>
                        (case catch_up s now (sr_pipeline row) (catchup_count row) t [] (engine st) of
                           None \<Rightarrow> None
                         | Some (Inl err, db) \<Rightarrow> Some (Inl err, st\<lparr>engine := db\<rparr>)
                         | Some (Inr (t, kept), db) \<Rightarrow>
                             (case create_ticks now (sr_pipeline row) (overlap_reason row) kept db of
                                (Inl err, db) \<Rightarrow> Some (Inl err, st\<lparr>engine := db\<rparr>)
                              | (Inr _, db) \<Rightarrow>
                                  Some (Inr (), st\<lparr>engine := db, deadlines :=
                                    (deadlines st)(sr_pipeline row \<mapsto>
                                      (signature_of row e, instant_of t))\<rparr>))))))"

fun refresh_rows ::
  "(schedule_row \<Rightarrow> schedules \<Rightarrow> ((schedule_error + unit) \<times> schedules) option) \<Rightarrow> schedule_row list
    \<Rightarrow> schedules \<Rightarrow> ((schedule_error + unit) \<times> schedules) option" where
  "refresh_rows f [] st = Some (Inr (), st)"
| "refresh_rows f (row # rows) st =
     (case f row st of
        None \<Rightarrow> None
      | Some (Inl e, st) \<Rightarrow> Some (Inl e, st)
      | Some (Inr _, st) \<Rightarrow> refresh_rows f rows st)"

definition refresh_schedules ::
  "(schedule_row \<Rightarrow> schedule_error + zone \<times> instant) \<Rightarrow> string \<Rightarrow> int set \<Rightarrow> instant
    \<Rightarrow> schedule_row list \<Rightarrow> schedules \<Rightarrow> ((schedule_error + unit) \<times> schedules) option" where
  "refresh_schedules boundary allowed paused now rows st =
     (case schedule_allowed allowed of
        Inl e \<Rightarrow> Some (Inl (RestartError e), st)
      | Inr False \<Rightarrow> Some (Inr (), st)
      | Inr True \<Rightarrow>
          (let active = set (map sr_pipeline (filter (\<lambda>r. sr_schedule r \<noteq> None) rows)) in
           refresh_rows (refresh_schedule boundary paused now) rows
             (st\<lparr>deadlines := (\<lambda>p. if p \<in> active then deadlines st p else None)\<rparr>)))"

section \<open>Restarts\<close>

text \<open>A row of \<open>controller_restarts\<close>: a pipeline whose last run ended with nothing after it.\<close>

record restart_row =
  rr_pipeline :: int
  rr_condition :: string
  rr_last_run :: int
  rr_last_status :: run_status
  rr_ended :: instant

definition cooldown :: int where "cooldown = 15000000"

record restarts =
  reported :: "(int \<times> string) set"
  restart_db :: engine_db

definition restart_due ::
  "run_status set \<Rightarrow> instant \<Rightarrow> restart_row \<Rightarrow> restarts \<Rightarrow> bool \<times> restarts" where
  "restart_due allowed now row st =
     (case restart_statuses (rr_condition row) of
        Inl _ \<Rightarrow> (False, st\<lparr>reported := insert (rr_pipeline row, rr_condition row) (reported st)\<rparr>)
      | Inr wanted \<Rightarrow>
          (rr_last_status row \<in> wanted \<and> rr_last_status row \<in> allowed
             \<and> now \<ge> rr_ended row + cooldown, st))"

definition restart_key :: "int \<Rightarrow> string" where
  "restart_key run = ''restart:'' @ int_str run"

text \<open>A second controller loses on the key, which is no error.\<close>

definition restart_run :: "instant \<Rightarrow> restart_row \<Rightarrow> engine_db \<Rightarrow> schedule_error + engine_db" where
  "restart_run now row db =
     (case create_run now (rr_pipeline row) (restart_key (rr_last_run row)) TrigRestart RunQueued db of
        Inl (StaleCreation _ _) \<Rightarrow> Inr db
      | Inl e \<Rightarrow> Inl (TickError e)
      | Inr (k, db) \<Rightarrow>
          Inr (db\<lparr>db_interventions := db_interventions db @ [new_run_note k RunQueued]\<rparr>))"

fun restart_rows ::
  "run_status set \<Rightarrow> instant \<Rightarrow> restart_row list \<Rightarrow> restarts \<Rightarrow> (schedule_error + unit) \<times> restarts" where
  "restart_rows allowed now [] st = (Inr (), st)"
| "restart_rows allowed now (row # rows) st =
     (case restart_due allowed now row st of
        (False, st) \<Rightarrow> restart_rows allowed now rows st
      | (True, st) \<Rightarrow>
          (case restart_run now row (restart_db st) of
             Inl e \<Rightarrow> (Inl e, st)
           | Inr db \<Rightarrow> restart_rows allowed now rows (st\<lparr>restart_db := db\<rparr>)))"

definition refresh_restarts ::
  "string \<Rightarrow> instant \<Rightarrow> restart_row list \<Rightarrow> restarts \<Rightarrow> (schedule_error + unit) \<times> restarts" where
  "refresh_restarts allowed now rows st =
     (case restart_statuses allowed of
        Inl e \<Rightarrow> (Inl (RestartError e), st)
      | Inr statuses \<Rightarrow>
          if statuses = {} then (Inr (), st) else restart_rows statuses now rows st)"

end
