(* ===== verification/Catch_Up.thy ===== *)
theory Catch_Up
  imports Schedules
begin

text \<open>
  What a refresh of a schedule records: the ticks that are due, each once, the last runnable ones
  queued. The transactions of a catch-up are a list of ticks with reasons; what they add to the
  run log is stated for lists of them and put together.
\<close>

section \<open>Creating ticks\<close>

definition recorded :: "int \<Rightarrow> (tick \<times> string option) set \<Rightarrow> engine_db \<Rightarrow> engine_db \<Rightarrow> bool" where
  "recorded p cmds db db' \<longleftrightarrow> lifecycle_inv db'
     \<and> (\<exists>rows. db_runs db' = db_runs db @ rows \<and> (\<forall>r \<in> set rows. r_pipeline r = p
          \<and> (\<exists>(t, reason) \<in> cmds. r_key r = schedule_key (instant_of t)
               \<and> \<not> has_key db p (r_key r) \<and> r_status r = tick_status reason)))
     \<and> (\<forall>(t, reason) \<in> cmds. has_key db' p (schedule_key (instant_of t)))"

lemma recorded_none: "lifecycle_inv db \<Longrightarrow> recorded p {} db db"
  by (simp add: recorded_def)

lemma has_key_append: "db_runs db' = db_runs db @ rows \<Longrightarrow> has_key db p k \<Longrightarrow> has_key db' p k"
  by (simp add: has_key_def)

lemma recorded_trans:
  assumes "recorded p a db db1" and "recorded p b db1 db2"
  shows "recorded p (a \<union> b) db db2"
proof -
  from assms(1) obtain rows where 1: "db_runs db1 = db_runs db @ rows" "\<forall>r \<in> set rows. r_pipeline r = p
      \<and> (\<exists>(t, reason) \<in> a. r_key r = schedule_key (instant_of t)
           \<and> \<not> has_key db p (r_key r) \<and> r_status r = tick_status reason)"
    and done1: "\<forall>(t, reason) \<in> a. has_key db1 p (schedule_key (instant_of t))"
    unfolding recorded_def by blast
  from assms(2) obtain rows' where 2: "db_runs db2 = db_runs db1 @ rows'" "\<forall>r \<in> set rows'. r_pipeline r = p
      \<and> (\<exists>(t, reason) \<in> b. r_key r = schedule_key (instant_of t)
           \<and> \<not> has_key db1 p (r_key r) \<and> r_status r = tick_status reason)"
    and done2: "\<forall>(t, reason) \<in> b. has_key db2 p (schedule_key (instant_of t))" and "lifecycle_inv db2"
    unfolding recorded_def by blast
  have "r_pipeline r = p \<and> (\<exists>(t, reason) \<in> a \<union> b. r_key r = schedule_key (instant_of t)
      \<and> \<not> has_key db p (r_key r) \<and> r_status r = tick_status reason)" if "r \<in> set (rows @ rows')" for r
    using that 1(2) 2(2) has_key_append[OF 1(1)] by fastforce
  moreover have "db_runs db2 = db_runs db @ (rows @ rows')" by (simp add: 1(1) 2(1))
  moreover have "\<forall>(t, reason) \<in> a \<union> b. has_key db2 p (schedule_key (instant_of t))"
    using done1 done2 has_key_append[OF 2(1)] by fast
  ultimately show ?thesis using \<open>lifecycle_inv db2\<close> unfolding recorded_def by blast
qed

lemma run_keys_append:
  "run_keys db \<Longrightarrow> \<not> has_key db (r_pipeline row) (r_key row) \<Longrightarrow> db_runs db' = db_runs db @ [row] \<Longrightarrow> run_keys db'"
  by (auto simp: run_keys_def has_key_def list_ex_iff)

lemma create_tick_records:
  assumes inv: "lifecycle_inv db"
  shows "\<exists>db'. create_tick now p t reason db = Inr db' \<and> recorded p {(t, reason)} db db'"
proof (cases "has_key db p (schedule_key (instant_of t))")
  case True
  with inv show ?thesis by (simp add: create_tick_def Let_def recorded_def)
next
  case False
  let ?key = "schedule_key (instant_of t)" and ?st = "tick_status reason"
  let ?row = "new_run now (db_next_run db) p ?key ?st"
  let ?db = "db\<lparr>db_runs := db_runs db @ [?row], db_next_run := db_next_run db + 1\<rparr>"
  let ?made = "if ?st = RunSkipped then ?db else pin now p (db_next_run db) ?db"
  have row: "r_pipeline ?row = p" "r_key ?row = ?key" "r_status ?row = ?st" by (simp_all add: new_run_def)
  have st: "?st \<noteq> RunInProgress" "?st \<in> {RunInProgress, RunQueued, RunSkipped}"
    by (auto simp: tick_status_def)
  from inv have idx: "one_active_run db" "run_keys db"
    using lifecycle_inv_indexes by blast+
  have "one_active_run ?db" using idx(1) st(1) row(3) by (simp add: one_active_run_def)
  moreover have "run_keys ?db" using False row by (intro run_keys_append[OF idx(2), of ?row]) simp_all
  ultimately have made: "create_run now p ?key TrigSchedule ?st db = Inr (db_next_run db, ?made)"
    using st(2) by (simp add: create_run_def Let_def)
  let ?db' = "?made\<lparr>db_interventions := db_interventions ?made @ [new_run_note (db_next_run db) ?st]\<rparr>"
  have "create_tick now p t reason db = Inr ?db'"
    using False made by (simp add: create_tick_def Let_def)
  moreover have "lifecycle_inv ?db'" using create_run_keeps[OF inv made] by simp
  moreover have runs: "db_runs ?db' = db_runs db @ [?row]" by (simp add: pin_def)
  moreover have "has_key ?db' p ?key" unfolding has_key_def runs by (simp add: row)
  ultimately show ?thesis using False row by (simp add: recorded_def)
qed

lemma create_ticks_records:
  "lifecycle_inv db \<Longrightarrow>
    \<exists>db'. create_ticks now p reason ts db = (Inr (), db') \<and> recorded p ((\<lambda>t. (t, reason)) ` set ts) db db'"
proof (induction ts arbitrary: db)
  case Nil
  then show ?case by (simp add: recorded_none)
next
  case (Cons t ts)
  from create_tick_records[OF Cons.prems] obtain db1 where
    1: "create_tick now p t reason db = Inr db1" "recorded p {(t, reason)} db db1" by blast
  then have "lifecycle_inv db1" by (simp add: recorded_def)
  from Cons.IH[OF this] obtain db2 where
    2: "create_ticks now p reason ts db1 = (Inr (), db2)" "recorded p ((\<lambda>t. (t, reason)) ` set ts) db1 db2"
    by blast
  from recorded_trans[OF 1(2) 2(2)] 1(1) 2(1) show ?case by simp
qed

section \<open>The ticks that are due\<close>

text \<open>The ticks from one on that are due, up to the first that is not.\<close>

inductive due_ticks :: "schedule \<Rightarrow> instant \<Rightarrow> tick \<Rightarrow> tick list \<Rightarrow> tick \<Rightarrow> bool" for s now where
  later: "now < instant_of t \<Longrightarrow> due_ticks s now t [] t"
| due: "instant_of t \<le> now \<Longrightarrow> next_tick s (instant_of t) = Some (Inr t') \<Longrightarrow> due_ticks s now t' ts d
    \<Longrightarrow> due_ticks s now t (t # ts) d"

definition runnable :: "tick list \<Rightarrow> tick list" where
  "runnable ts = filter (\<lambda>t. skipped t = None) ts"

text \<open>The last \<open>count\<close> of a list.\<close>

definition newest :: "nat \<Rightarrow> 'a list \<Rightarrow> 'a list" where
  "newest count xs = drop (length xs - count) xs"

definition older :: "nat \<Rightarrow> 'a list \<Rightarrow> 'a list" where
  "older count xs = take (length xs - count) xs"

lemma newest_older [simp]: "set (older count xs) \<union> set (newest count xs) = set xs"
  unfolding older_def newest_def set_append[symmetric] by simp

definition skip_commands :: "tick list \<Rightarrow> (tick \<times> string option) set" where
  "skip_commands ts = {(t, skipped t) |t. t \<in> set ts \<and> skipped t \<noteq> None}"

lemma catch_up_records:
  assumes "due_ticks s now t ts d" and "0 < count" and "length kept \<le> count" and "lifecycle_inv db"
  shows "\<exists>db'. catch_up s now p count t kept db
        = Some (Inr (d, newest count (kept @ runnable ts)), db')
      \<and> recorded p (skip_commands ts \<union> (\<lambda>t. (t, Some missed)) ` set (older count (kept @ runnable ts))) db db'"
  using assms(1,3,4)
proof (induction arbitrary: kept db)
  case (later t)
  then show ?case
    by (subst catch_up.simps) (simp add: runnable_def newest_def older_def skip_commands_def recorded_none)
next
  case (due t t' ts d)
  have step: "catch_up s now p count t kept db =
      catch_up s now p count t' kept' db'" if "retain_tick now p count t kept db = Inr (kept', db')" for kept' db'
    using due.hyps that by (subst catch_up.simps) simp
  show ?case
  proof (cases "skipped t")
    case (Some reason)
    from create_tick_records[OF due.prems(2)] obtain db1 where
      1: "create_tick now p t (Some reason) db = Inr db1" "recorded p {(t, Some reason)} db db1" by blast
    then have "lifecycle_inv db1" by (simp add: recorded_def)
    from due.IH[OF due.prems(1) this] obtain db2 where
      2: "catch_up s now p count t' kept db1 = Some (Inr (d, newest count (kept @ runnable ts)), db2)"
      "recorded p (skip_commands ts \<union> (\<lambda>t. (t, Some missed)) ` set (older count (kept @ runnable ts))) db1 db2"
      by blast
    have "skip_commands (t # ts) = insert (t, Some reason) (skip_commands ts)"
      using Some by (auto simp: skip_commands_def)
    with recorded_trans[OF 1(2) 2(2)] have "recorded p (skip_commands (t # ts)
        \<union> (\<lambda>t. (t, Some missed)) ` set (older count (kept @ runnable (t # ts)))) db db2"
      using Some by (simp add: runnable_def)
    moreover have "retain_tick now p count t kept db = Inr (kept, db1)"
      using Some 1(1) by (simp add: retain_tick_def)
    ultimately show ?thesis using step 2(1) Some by (simp add: runnable_def)
  next
    case None
    then have runs: "kept @ runnable (t # ts) = (kept @ [t]) @ runnable ts"
      and skips: "skip_commands (t # ts) = skip_commands ts"
      by (auto simp: runnable_def skip_commands_def)
    show ?thesis
    proof (cases "length kept = count")
      case False
      with None have "retain_tick now p count t kept db = Inr (kept @ [t], db)"
        by (simp add: retain_tick_def)
      from step[OF this] due.IH[of "kept @ [t]" db] False due.prems show ?thesis
        unfolding runs skips by simp
    next
      case True
      with assms(2) obtain old rest where kept: "kept = old # rest" by (cases kept) auto
      from create_tick_records[OF due.prems(2)] obtain db1 where
        1: "create_tick now p old (Some missed) db = Inr db1" "recorded p {(old, Some missed)} db db1" by blast
      then have "lifecycle_inv db1" by (simp add: recorded_def)
      with due.IH[of "rest @ [t]" db1] True kept obtain db2 where
        2: "catch_up s now p count t' (rest @ [t]) db1
          = Some (Inr (d, newest count ((rest @ [t]) @ runnable ts)), db2)"
        "recorded p (skip_commands ts
           \<union> (\<lambda>t. (t, Some missed)) ` set (older count ((rest @ [t]) @ runnable ts))) db1 db2"
        by auto
      have "newest count (kept @ t # xs) = newest count (rest @ t # xs)"
        and "older count (kept @ t # xs) = old # older count (rest @ t # xs)" for xs
        using True unfolding kept newest_def older_def by (simp_all add: Suc_diff_le)
      then have last_ones: "newest count (kept @ runnable (t # ts)) = newest count ((rest @ [t]) @ runnable ts)"
        and first_ones: "set (older count (kept @ runnable (t # ts)))
          = insert old (set (older count ((rest @ [t]) @ runnable ts)))"
        unfolding runs by simp_all
      have "retain_tick now p count t kept db = Inr (rest @ [t], db1)"
        using None True kept 1(1) by (simp add: retain_tick_def)
      from step[OF this] 2(1) recorded_trans[OF 1(2) 2(2)] show ?thesis
        unfolding last_ones first_ones skips by simp
    qed
  qed
qed

lemma due_ticks_bounds:
  "due_ticks s now t ts d \<Longrightarrow> now < instant_of d
    \<and> (\<forall>u \<in> set ts. instant_of t \<le> instant_of u \<and> instant_of u \<le> now)
    \<and> distinct ts \<and> inj_on instant_of (set ts)"
proof (induction rule: due_ticks.induct)
  case (due t t' ts d)
  from next_tick_after[OF due.hyps(2)] due.IH have "\<forall>u \<in> set ts. instant_of t < instant_of u" by force
  with due show ?case by (auto simp: inj_on_def)
qed simp

text \<open>No tick of the schedule is missing.\<close>

lemma due_ticks_complete:
  assumes "due_ticks s now t ts d" and "regular_zone (sched_zone s)"
    and "tick_on s dt u" and "instant_of t \<le> u" and "u \<le> now"
  shows "u \<in> instant_of ` set ts"
  using assms(1,4)
proof (induction rule: due_ticks.induct)
  case (due t t' ts d)
  show ?case
  proof (cases "u = instant_of t")
    case False
    with due.prems have "instant_of t < u" by simp
    with next_tick_least[OF assms(2) due.hyps(2)] assms(3) have "instant_of t' \<le> u" by blast
    with due.IH show ?thesis by simp
  qed simp
qed (use assms(5) in simp)

lemma next_tick_reason:
  assumes "next_tick s i = Some (Inr t)"
  shows "skipped t \<noteq> Some []"
proof -
  from assms obtain d reason where "t = tick_of s d (instant_of t, reason)" by (rule next_tick_found)
  from arg_cong[OF this, of skipped] show ?thesis by (simp add: tick_of_def split: if_splits)
qed

lemma due_ticks_reasons:
  "due_ticks s now t ts d \<Longrightarrow> skipped t \<noteq> Some [] \<Longrightarrow> \<forall>u \<in> set ts. skipped u \<noteq> Some []"
  by (induction rule: due_ticks.induct) (auto dest: next_tick_reason)

lemma older_newest_disjoint: "distinct xs \<Longrightarrow> set (older count xs) \<inter> set (newest count xs) = {}"
  unfolding older_def newest_def by (simp add: set_take_disj_set_drop_if_distinct)

text \<open>The commands of a catch-up and of what it retained: every due tick, the retained ones queued.\<close>

definition refresh_commands :: "nat \<Rightarrow> string option \<Rightarrow> tick list \<Rightarrow> (tick \<times> string option) set" where
  "refresh_commands count reason ts = skip_commands ts
     \<union> (\<lambda>t. (t, Some missed)) ` set (older count (runnable ts))
     \<union> (\<lambda>t. (t, reason)) ` set (newest count (runnable ts))"

lemma refresh_commands_ticks: "fst ` refresh_commands count reason ts = set ts"
proof -
  have "fst ` refresh_commands count reason ts
      = {t \<in> set ts. skipped t \<noteq> None} \<union> (set (older count (runnable ts)) \<union> set (newest count (runnable ts)))"
  proof -
    have "fst ` skip_commands ts = {t \<in> set ts. skipped t \<noteq> None}"
      unfolding skip_commands_def by force
    then show ?thesis
      unfolding refresh_commands_def image_Un image_image fst_conv image_ident Un_assoc by (rule arg_cong)
  qed
  also have "\<dots> = set ts" unfolding newest_older by (auto simp: runnable_def)
  finally show ?thesis .
qed

lemma refresh_commands_status:
  assumes "(t, why) \<in> refresh_commands count reason ts" and "distinct ts"
    and "\<forall>u \<in> set ts. skipped u \<noteq> Some []"
  shows "tick_status why = (if t \<in> set (newest count (runnable ts)) \<and> (reason = None \<or> reason = Some [])
    then RunQueued else RunSkipped)"
proof -
  have d: "set (older count (runnable ts)) \<inter> set (newest count (runnable ts)) = {}"
    using assms(2) by (intro older_newest_disjoint) (simp add: runnable_def)
  have r: "skipped u = None" if "u \<in> set (newest count (runnable ts))" for u
  proof -
    from that have "u \<in> set (runnable ts)" using newest_older[of count "runnable ts"] by blast
    then show ?thesis by (simp add: runnable_def)
  qed
  from assms(1) consider "(t, why) \<in> skip_commands ts"
    | "t \<in> set (older count (runnable ts))" "why = Some missed"
    | "t \<in> set (newest count (runnable ts))" "why = reason"
    by (auto simp: refresh_commands_def)
  then show ?thesis
  proof cases
    case 1
    then have "why = skipped t" "t \<in> set ts" "skipped t \<noteq> None" by (auto simp: skip_commands_def)
    with r assms(3) show ?thesis by (auto simp: tick_status_def)
  next
    case 2
    with d show ?thesis by (auto simp: tick_status_def missed_def)
  qed (auto simp: tick_status_def)
qed

lemma refresh_records:
  assumes ticks: "next_tick (schedule_of row e z) start = Some (Inr t)" "due_ticks (schedule_of row e z) now t ts d"
    and row: "sr_schedule row = Some e" "sr_pipeline row \<notin> paused" "boundary row = Inr (z, start)"
      "\<not> cached st row e now" "0 < catchup_count row"
    and inv: "lifecycle_inv (engine st)"
  shows "\<exists>db. refresh_schedule boundary paused now row st = Some (Inr (), st\<lparr>engine := db, deadlines :=
        (deadlines st)(sr_pipeline row \<mapsto> (signature_of row e, instant_of d))\<rparr>)
      \<and> recorded (sr_pipeline row) (refresh_commands (catchup_count row) (overlap_reason row) ts) (engine st) db"
proof -
  from catch_up_records[OF ticks(2) row(5) _ inv, of "[]" "sr_pipeline row"] obtain db1 where
    1: "catch_up (schedule_of row e z) now (sr_pipeline row) (catchup_count row) t [] (engine st)
      = Some (Inr (d, newest (catchup_count row) (runnable ts)), db1)"
    "recorded (sr_pipeline row) (skip_commands ts
      \<union> (\<lambda>t. (t, Some missed)) ` set (older (catchup_count row) (runnable ts))) (engine st) db1"
    by auto
  then have "lifecycle_inv db1" by (simp add: recorded_def)
  from create_ticks_records[OF this] obtain db2 where
    2: "create_ticks now (sr_pipeline row) (overlap_reason row) (newest (catchup_count row) (runnable ts)) db1
      = (Inr (), db2)"
    "recorded (sr_pipeline row) ((\<lambda>t. (t, overlap_reason row)) ` set (newest (catchup_count row) (runnable ts))) db1 db2"
    by blast
  from row ticks(1) 1(1) 2(1) recorded_trans[OF 1(2) 2(2)] show ?thesis
    by (intro exI[of _ db2]) (simp add: refresh_schedule_def refresh_commands_def)
qed

lemma due_keys_inject:
  assumes "next_tick s start = Some (Inr t)" and "due_ticks s now t ts d" and "day_us \<le> start"
  shows "inj_on (\<lambda>u. schedule_key (instant_of u)) (set ts)"
proof (rule inj_onI)
  note bounds = due_ticks_bounds[OF assms(2)]
  have late: "day_us \<le> instant_of u" if "u \<in> set ts" for u
    using that bounds next_tick_after[OF assms(1)] assms(3) by fastforce
  fix u v assume uv: "u \<in> set ts" "v \<in> set ts" "schedule_key (instant_of u) = schedule_key (instant_of v)"
  then have "instant_of u = instant_of v" using schedule_key_inject late by blast
  with bounds uv show "u = v" by (auto dest: inj_onD)
qed

lemma due_ticks_whole:
  assumes "next_tick s start = Some (Inr t)" and "due_ticks s now t ts d" and "regular_zone (sched_zone s)"
    and "tick_on s dt u" and "start < u" and "u \<le> now"
  shows "u \<in> instant_of ` set ts"
proof -
  from next_tick_least[OF assms(3,1)] assms(4,5) have "instant_of t \<le> u" by blast
  from due_ticks_complete[OF assms(2,3,4) this assms(6)] show ?thesis .
qed

section \<open>Properties\<close>


section \<open>A catch-up over a weekend and a gap\<close>

text \<open>The ticks of a rule that was read, with a calendar whose closed days are skipped.\<close>

definition rule_tick :: "cron_rule \<Rightarrow> calendar \<Rightarrow> zone \<Rightarrow> int \<Rightarrow> nat \<Rightarrow> cron_error + tick option option" where
  "rule_tick r c z i dt = Inr (if rule_matches r dt
     then map_option (\<lambda>ts. map_option (\<lambda>t. \<lparr>instant_of = t, run_day = dt, skipped = closed_day c dt\<rparr>)
            (find (\<lambda>t. t > i) ts)) (day_ticks z r dt)
     else Some None)"

lemma closed_reason: "closed_day c dt \<noteq> Some []"
  by (simp add: closed_day_def split: option.split)

lemma next_tick_rule:
  assumes "parse (expr s) = Inr r" and "business_rule (expr s) = Inr None"
    and "sched_calendar s = Some c" and "policy s = SkipTick"
  shows "next_tick s i = search (rule_tick r c (sched_zone s) i) search_days (wall_date (to_wall (sched_zone s) i))"
proof -
  have "day_tick s c None i dt = rule_tick r c (sched_zone s) i dt" for dt
    using closed_reason[of c dt]
    by (cases "closed_day c dt") (auto simp: day_tick_def due_def rule_tick_def matches_day_def assms)
  then have "day_tick s c None i = rule_tick r c (sched_zone s) i" by (rule ext)
  then show ?thesis by (simp add: next_tick_def assms)
qed

definition demo_row :: schedule_row where
  "demo_row = \<lparr>sr_pipeline = 7, sr_schedule = Some ''0 2 * * *'', sr_timezone = None,
     sr_project_timezone = ''UTC'', sr_start_date = None, sr_created = Some (34 * day_us),
     sr_resumed = None, sr_last_key = None,
     sr_calendar = Some \<lparr>code = ''BANK'', weekend = {5, 6}, holidays = []\<rparr>,
     sr_closed_policy = SkipTick, sr_catchup = False, sr_max_catchup = 1, sr_skip_overlap = False,
     sr_pending = False\<rparr>"

definition demo_rule :: cron_rule where
  "demo_rule = \<lparr>minutes = [0], hours = [2], days = [1..31], months = [1..12], weekdays = [0..6],
     day_or = False\<rparr>"

definition demo_now :: instant where "demo_now = 37 * day_us + 120 * minute_us"

definition demo_tick :: "nat \<Rightarrow> int \<Rightarrow> tick" where
  "demo_tick dt at_minute = \<lparr>instant_of = int dt * day_us + at_minute * minute_us, run_day = dt,
     skipped = closed_day \<lparr>code = ''BANK'', weekend = {5, 6}, holidays = []\<rparr> dt\<rparr>"

definition demo_plan :: schedule where
  "demo_plan = schedule_of demo_row ''0 2 * * *'' (gap_zone demo_gap)"

lemma demo_rule_read: "parse ''0 2 * * *'' = Inr demo_rule"
  by code_simp

lemma demo_next:
  "next_tick demo_plan i = search (rule_tick demo_rule \<lparr>code = ''BANK'', weekend = {5, 6}, holidays = []\<rparr>
     (gap_zone demo_gap) i) search_days (wall_date (to_wall (gap_zone demo_gap) i))"
proof -
  have "business_rule ''0 2 * * *'' = Inr None" by code_simp
  with demo_rule_read show ?thesis
    by (subst next_tick_rule) (simp_all add: demo_plan_def schedule_of_def demo_row_def)
qed

lemma demo_ticks:
  "next_tick demo_plan (34 * day_us) = Some (Inr (demo_tick 34 120))"
  "next_tick demo_plan (instant_of (demo_tick 34 120)) = Some (Inr (demo_tick 35 120))"
  "next_tick demo_plan (instant_of (demo_tick 35 120)) = Some (Inr (demo_tick 36 120))"
  "next_tick demo_plan (instant_of (demo_tick 36 120)) = Some (Inr (demo_tick 37 60))"
  "next_tick demo_plan (instant_of (demo_tick 37 60)) = Some (Inr (demo_tick 38 60))"
  unfolding demo_next by code_simp+

lemma demo_due: "due_ticks demo_plan demo_now (demo_tick 34 120)
    [demo_tick 34 120, demo_tick 35 120, demo_tick 36 120, demo_tick 37 60] (demo_tick 38 60)"
proof -
  have at: "instant_of (demo_tick 34 120) \<le> demo_now" "instant_of (demo_tick 35 120) \<le> demo_now"
    "instant_of (demo_tick 36 120) \<le> demo_now" "instant_of (demo_tick 37 60) \<le> demo_now"
    "demo_now < instant_of (demo_tick 38 60)"
    by code_simp+
  note one = due_ticks.later[OF at(5)]
  note two = due_ticks.due[OF at(4) demo_ticks(5) one]
  note three = due_ticks.due[OF at(3) demo_ticks(4) two]
  show ?thesis by (rule due_ticks.due[OF at(1) demo_ticks(2) due_ticks.due[OF at(2) demo_ticks(3) three]])
qed


end
