(* ===== verification/Windows.thy ===== *)
theory Windows
  imports Lifecycle "HOL-Library.AList"
begin

text \<open>
  Timestamp windows: \<^verbatim>\<open>engine/timestamp_windows.py\<close> and \<^verbatim>\<open>engine/repository/offsets.py\<close> with
  their queries, the window and watermark operations of \<^verbatim>\<open>engine/task_store.py\<close>, the release of
  \<^verbatim>\<open>control_flow._cancel_event_tasks\<close> and the reset of \<^verbatim>\<open>interventions.reset_offset\<close>. The text of a
  timestamp is its instant; any other stored text stands for itself and is refused by \<open>as_utc\<close>.
\<close>

datatype offset_type = OffNumber | OffText | OffTimestamp | OffPartitions

datatype stored_value = Stamp instant | OtherText string

fun as_utc :: "stored_value \<Rightarrow> instant option" where
  "as_utc (Stamp t) = Some t"
| "as_utc (OtherText _) = None"

text \<open>A row of \<open>AUD_TASK_OFFSET_TRACKER\<close>, and the watermark columns of a task run's row.\<close>

record tracker =
  tk_type :: offset_type
  tk_value :: "stored_value option"
  tk_owner :: "int option"
  tk_upper :: "instant option"
  tk_updated :: instant

record windows =
  w_trackers :: "(int \<times> tracker) list"
  w_ranges :: "int \<rightharpoonup> stored_value \<times> stored_value"

record window_definition =
  initial_type :: offset_type
  initial_value :: "stored_value option"
  has_sources :: bool
  backfill :: bool

datatype window_error =
    ClockBehind instant | NoRecordedStart int | WindowHeld int | BadCursor | BadPendingCursor
  | WindowReversed instant instant | WindowConflict instant | RangeChanged | SeveralRows
  | StaleCommit int | OffsetBusy int | WindowPending int | WindowAttempt lifecycle_error

definition fetch_task_offset :: "windows \<Rightarrow> int \<Rightarrow> tracker option" where
  "fetch_task_offset ws task = map_of (w_trackers ws) task"

text \<open>\<open>checked_clock\<close>: the Engine clock must not lie before a recorded write or pending bound.\<close>

definition checked_clock :: "instant \<Rightarrow> windows \<Rightarrow> window_error + instant" where
  "checked_clock now ws =
     (if list_ex (\<lambda>(_, k). now < tk_updated k \<or> (case tk_upper k of None \<Rightarrow> False | Some u \<Rightarrow> now < u))
           (w_trackers ws)
      then Inl (ClockBehind now) else Inr now)"

definition put_tracker :: "int \<Rightarrow> tracker \<Rightarrow> windows \<Rightarrow> windows" where
  "put_tracker task k ws = ws\<lparr>w_trackers := AList.update task k (w_trackers ws)\<rparr>"

definition save_task_offset ::
  "instant \<Rightarrow> int \<Rightarrow> offset_type \<Rightarrow> stored_value option \<Rightarrow> windows \<Rightarrow> window_error + windows" where
  "save_task_offset now task ty v ws =
     bind_err (checked_clock now ws) (\<lambda>now.
       Inr (put_tracker task \<lparr>tk_type = ty, tk_value = v, tk_owner = None, tk_upper = None,
              tk_updated = now\<rparr> ws))"

text \<open>\<open>window_reserve\<close>: only a cursor nobody holds.\<close>

definition window_reserve :: "int \<Rightarrow> int \<Rightarrow> instant \<Rightarrow> windows \<Rightarrow> windows" where
  "window_reserve task tr high ws =
     (case fetch_task_offset ws task of
        Some k \<Rightarrow> if tk_owner k = None
                  then put_tracker task (k\<lparr>tk_owner := Some tr, tk_upper := Some high\<rparr>) ws else ws
      | None \<Rightarrow> ws)"

section \<open>Admission\<close>

definition utc_or :: "window_error \<Rightarrow> stored_value option \<Rightarrow> window_error + instant" where
  "utc_or e v = (case v of None \<Rightarrow> Inl e | Some v \<Rightarrow> (case as_utc v of None \<Rightarrow> Inl e | Some t \<Rightarrow> Inr t))"

definition range_of :: "stored_value \<times> stored_value \<Rightarrow> window_error + instant \<times> instant" where
  "range_of r = bind_err (utc_or BadCursor (Some (fst r))) (\<lambda>low.
     bind_err (utc_or BadCursor (Some (snd r))) (\<lambda>high. Inr (low, high)))"

text \<open>
  \<open>admit_window\<close>; \<open>sources\<close> are the starts of the source pipelines' attempts that may still write
  (\<open>window_sources\<close>), read where the definition names sources.
\<close>

definition admit_window ::
  "instant \<Rightarrow> instant list \<Rightarrow> int \<Rightarrow> int \<Rightarrow> instant \<Rightarrow> window_definition \<Rightarrow> windows
    \<Rightarrow> window_error + (instant \<times> instant) \<times> windows" where
  "admit_window now sources task tr started d ws =
     bind_err (checked_clock now ws) (\<lambda>now.
     let previous = w_ranges ws tr;
         before = (if backfill d then None else fetch_task_offset ws task) in
     if previous \<noteq> None \<and> backfill d then bind_err (range_of (the previous)) (\<lambda>w. Inr (w, ws))
     else if before \<noteq> None \<and> tk_owner (the before) \<noteq> None then
       (if tk_owner (the before) \<noteq> Some tr then Inl (WindowHeld (the (tk_owner (the before))))
        else
          (case (tk_value (the before), tk_upper (the before)) of
             (Some v, Some bound) \<Rightarrow>
               bind_err (utc_or BadCursor (Some (case previous of None \<Rightarrow> v | Some r \<Rightarrow> fst r)))
                 (\<lambda>low. Inr ((low, bound), ws))
           | _ \<Rightarrow> Inl BadPendingCursor))
     else
       bind_err (utc_or BadCursor (case before of None \<Rightarrow> initial_value d | Some k \<Rightarrow> tk_value k)) (\<lambda>low.
       let high = fold min (if has_sources d then sources else []) (min started now) in
       if high < low then Inl (WindowReversed low high)
       else
         bind_err (case previous of
                     None \<Rightarrow> Inr (low, high)
                   | Some r \<Rightarrow> bind_err (range_of r) (\<lambda>(frozen_low, frozen_high).
                       if low \<notin> {frozen_low, frozen_high} then Inl (WindowConflict low)
                       else Inr (frozen_low, frozen_high))) (\<lambda>w.
           if backfill d then Inr (w, ws)
           else
             bind_err (if before = None then save_task_offset now task (initial_type d) (initial_value d) ws
                       else Inr ws) (\<lambda>ws.
               Inr (w, window_reserve task tr (snd w) ws)))))"

section \<open>Recording, committing and releasing\<close>

text \<open>\<open>check_pending_range\<close>: a range reported for a pending window must be the admitted one.\<close>

definition check_pending_range ::
  "int \<Rightarrow> stored_value \<Rightarrow> stored_value \<Rightarrow> windows \<Rightarrow> window_error + unit" where
  "check_pending_range tr low high ws =
     (case w_ranges ws tr of
        None \<Rightarrow> Inr ()
      | Some (from_value, _) \<Rightarrow>
          (case filter (\<lambda>(_, k). tk_owner k = Some tr) (w_trackers ws) of
             [] \<Rightarrow> Inr ()
           | [(_, k)] \<Rightarrow>
               (case (as_utc low, as_utc from_value, as_utc high) of
                  (Some l, Some f, Some h) \<Rightarrow>
                    if l = f \<and> Some h = tk_upper k then Inr () else Inl RangeChanged
                | _ \<Rightarrow> Inl RangeChanged)
           | _ \<Rightarrow> Inl SeveralRows))"

text \<open>The attempt a report comes from: running, owned, its lease live.\<close>

definition running_attempt :: "engine_db \<Rightarrow> instant \<Rightarrow> int \<Rightarrow> int \<Rightarrow> string \<Rightarrow> bool" where
  "running_attempt db now k tr owner \<longleftrightarrow>
     (case row_of a_id k (db_attempts db) of
        None \<Rightarrow> False
      | Some a \<Rightarrow> a_task_run a = tr \<and> a_status a = AttRunning \<and> a_owner a = Some owner
                  \<and> lease_live (a_lease a) now)"

definition record_watermark_range ::
  "engine_db \<Rightarrow> instant \<Rightarrow> int \<Rightarrow> int \<Rightarrow> string \<Rightarrow> stored_value \<Rightarrow> stored_value \<Rightarrow> windows
    \<Rightarrow> window_error + windows" where
  "record_watermark_range db now k tr owner low high ws =
     bind_err (check_pending_range tr low high ws) (\<lambda>_.
       if running_attempt db now k tr owner
       then Inr (if latest_attempt db tr = Some k
                 then ws\<lparr>w_ranges := (w_ranges ws)(tr \<mapsto> (low, high))\<rparr> else ws)
       else Inl (WindowAttempt (StaleTask tr)))"

definition recorded_start :: "engine_db \<Rightarrow> int \<Rightarrow> int \<Rightarrow> window_error + instant" where
  "recorded_start db k tr =
     (case find (\<lambda>a. a_id a = k \<and> a_task_run a = tr) (db_attempts db) of
        None \<Rightarrow> Inl (NoRecordedStart tr)
      | Some a \<Rightarrow> (case a_started_at a of None \<Rightarrow> Inl (NoRecordedStart tr) | Some t \<Rightarrow> Inr t))"

text \<open>The fence of \<open>TaskStore._assert\<close>: a live claim owned by the caller, of its own task run.\<close>

definition fence :: "engine_db \<Rightarrow> instant \<Rightarrow> int \<Rightarrow> int \<Rightarrow> string \<Rightarrow> window_error + unit" where
  "fence db now k tr owner =
     (case row_of a_id k (db_attempts db) of
        Some a \<Rightarrow>
          if held_status (a_status a) \<and> a_owner a = Some owner \<and> lease_live (a_lease a) now
             \<and> a_task_run a = tr
          then Inr () else Inl (WindowAttempt (StaleAttempt k))
      | None \<Rightarrow> Inl (WindowAttempt (StaleAttempt k)))"

definition task_window ::
  "engine_db \<Rightarrow> instant \<Rightarrow> instant list \<Rightarrow> int \<Rightarrow> int \<Rightarrow> string \<Rightarrow> int \<Rightarrow> window_definition \<Rightarrow> windows
    \<Rightarrow> window_error + (instant \<times> instant) \<times> windows" where
  "task_window db now sources k tr owner task d ws =
     bind_err (fence db now k tr owner) (\<lambda>_.
     bind_err (recorded_start db k tr) (\<lambda>started.
     bind_err (admit_window now sources task tr started d ws) (\<lambda>(w, ws).
     bind_err (record_watermark_range db now k tr owner (Stamp (fst w)) (Stamp (snd w)) ws) (\<lambda>ws.
     Inr (w, ws)))))"

definition task_watermark ::
  "engine_db \<Rightarrow> instant \<Rightarrow> int \<Rightarrow> int \<Rightarrow> string \<Rightarrow> stored_value \<Rightarrow> stored_value \<Rightarrow> windows
    \<Rightarrow> window_error + windows" where
  "task_watermark db now k tr owner low high ws =
     bind_err (fence db now k tr owner) (\<lambda>_. record_watermark_range db now k tr owner low high ws)"

text \<open>\<open>commit_task_offset\<close>, in the transaction that ends the owner's attempt.\<close>

definition commit_task_offset ::
  "instant \<Rightarrow> int \<Rightarrow> int \<Rightarrow> offset_type \<Rightarrow> stored_value option \<Rightarrow> windows \<Rightarrow> window_error + windows" where
  "commit_task_offset now task tr ty v ws =
     (case fetch_task_offset ws task of
        None \<Rightarrow> save_task_offset now task ty v ws
      | Some k \<Rightarrow>
          if tk_owner k = None then save_task_offset now task ty v ws
          else if tk_owner k \<noteq> Some tr \<or> ty \<noteq> tk_type k \<or> v = None
                  \<or> as_utc (the v) = None \<or> as_utc (the v) \<noteq> tk_upper k
          then Inl (StaleCommit tr)
          else save_task_offset now task ty v ws)"

text \<open>\<open>window_release_scope\<close>: the task runs of a run, or of one task of it, give up their windows.\<close>

definition window_release_scope :: "engine_db \<Rightarrow> int \<Rightarrow> int option \<Rightarrow> windows \<Rightarrow> windows" where
  "window_release_scope db run task ws =
     (let scope = map t_id (filter (\<lambda>t. t_run t = run \<and> (task = None \<or> task = Some (t_task t)))
            (db_tasks db)) in
      ws\<lparr>w_trackers := map (\<lambda>(key, k).
           (key, if \<exists>tr \<in> set scope. tk_owner k = Some tr then k\<lparr>tk_owner := None, tk_upper := None\<rparr> else k))
         (w_trackers ws)\<rparr>)"

text \<open>\<open>reset_offset\<close>; \<open>wanted\<close> is the checked new cursor.\<close>

definition reset_offset ::
  "nat \<Rightarrow> instant \<Rightarrow> int \<Rightarrow> offset_type \<times> stored_value option \<Rightarrow> windows \<Rightarrow> window_error + windows" where
  "reset_offset active now task wanted ws =
     (if active \<noteq> 0 then Inl (OffsetBusy task)
      else
        (case fetch_task_offset ws task of
           Some k \<Rightarrow>
             (case tk_owner k of
                Some tr \<Rightarrow> Inl (WindowPending tr)
              | None \<Rightarrow> save_task_offset now task (fst wanted) (snd wanted) ws)
         | None \<Rightarrow> save_task_offset now task (fst wanted) (snd wanted) ws))"

end
