(* ===== verification/Window_Claims.thy ===== *)
theory Window_Claims
  imports Windows Lifecycle_Theorems
begin

text \<open>
  The histories of timestamp windows: the windows a task committed follow one another from its
  cursor's origin to its cursor, so no instant is left out, and an admitted window is frozen for
  the task run that holds it.
\<close>

section \<open>The tracker\<close>

lemma fetch_put: "fetch_task_offset (put_tracker task k ws) t = (if t = task then Some k else fetch_task_offset ws t)"
  by (simp add: fetch_task_offset_def put_tracker_def update_conv')

lemma put_ranges [simp]: "w_ranges (put_tracker task k ws) = w_ranges ws"
  by (simp add: put_tracker_def)

lemma save_Inr: "save_task_offset now task ty v ws = Inr ws' \<Longrightarrow>
    ws' = put_tracker task \<lparr>tk_type = ty, tk_value = v, tk_owner = None, tk_upper = None, tk_updated = now\<rparr> ws"
  by (auto simp: save_task_offset_def checked_clock_def split: if_splits)

definition cursor_of :: "windows \<Rightarrow> int \<Rightarrow> instant option" where
  "cursor_of ws task = (case fetch_task_offset ws task of
     None \<Rightarrow> None | Some k \<Rightarrow> (case tk_value k of Some (Stamp t) \<Rightarrow> Some t | _ \<Rightarrow> None))"

text \<open>The live attempt whose report is recorded is its task run's latest.\<close>

lemma running_is_latest:
  assumes "reachable capacity db" and "running_attempt db now k tr owner"
  shows "latest_attempt db tr = Some k"
proof -
  from reachable_safe[OF assms(1)] have wi: "work_inv db" by (simp add: lifecycle_inv_def)
  from assms(2) obtain a where a: "a \<in> set (db_attempts db)" "a_id a = k" "a_task_run a = tr" "live a"
    by (auto simp: running_attempt_def live_def live_status_def dest!: row_of_Some split: option.splits)
  let ?p = "\<lambda>b. a_task_run b = tr \<and> \<not> newer_attempt db tr (a_number b)"
  have "?p a" using live_is_latest[OF wi a(1,4)] a(3) by simp
  with a(1) obtain b where b: "find ?p (db_attempts db) = Some b"
    by (cases "find ?p (db_attempts db)") (auto simp: find_None_iff)
  from find_SomeD[OF b] have "b \<in> set (db_attempts db)" "a_task_run b = tr" "\<not> newer_attempt db tr (a_number b)"
    by simp_all
  moreover from this a \<open>?p a\<close> have "a_number a = a_number b"
    by (auto simp: newer_attempt_iff not_less intro: antisym)
  moreover from reachable_safe[OF assms(1)] have "attempt_numbers db" by (rule lifecycle_inv_indexes)
  ultimately have "b = a" using a(1,3) by (auto simp: attempt_numbers_def distinct_map inj_on_def)
  with b a(2) show ?thesis by (simp add: latest_attempt_def)
qed

lemma record_Inr:
  assumes "reachable capacity db" and "record_watermark_range db now k tr owner low high ws = Inr ws'"
  shows "ws' = ws\<lparr>w_ranges := (w_ranges ws)(tr \<mapsto> (low, high))\<rparr> \<and> check_pending_range tr low high ws = Inr ()"
  using assms running_is_latest[OF assms(1), of now k tr owner]
  by (auto simp: record_watermark_range_def err_simps split: if_splits)

text \<open>The holder of a recorded window reports that window, or nothing.\<close>

lemma check_pending_same:
  assumes "check_pending_range tr low high ws = Inr ()" and "fetch_task_offset ws task = Some k"
    and "tk_owner k = Some tr" and "tk_upper k = Some h" and "w_ranges ws tr = Some (Stamp l, v)"
  shows "as_utc low = Some l \<and> as_utc high = Some h"
proof -
  have "(task, k) \<in> set (w_trackers ws)"
    using assms(2) by (auto simp: fetch_task_offset_def dest: map_of_SomeD)
  with assms(3) have row: "(task, k) \<in> set (filter (\<lambda>(_, k). tk_owner k = Some tr) (w_trackers ws))" by simp
  show ?thesis
  proof (cases "filter (\<lambda>(_, k). tk_owner k = Some tr) (w_trackers ws)")
    case Nil
    with row show ?thesis by (metis list.set(1) empty_iff)
  next
    case (Cons r rs)
    with assms(1,5) have "rs = []"
      by (cases rs) (auto simp: check_pending_range_def)
    with Cons row have "r = (task, k)" by (metis list.set(1,2) singletonD)
    with Cons \<open>rs = []\<close> assms(1,4,5) show ?thesis
      by (auto simp: check_pending_range_def split: option.splits if_splits)
  qed
qed

lemma as_utc_Some: "as_utc v = Some t \<longleftrightarrow> v = Stamp t"
  by (cases v) auto

section \<open>What an admission does\<close>

lemma reserve_free:
  assumes "fetch_task_offset ws task = Some k" and "tk_owner k = None"
  shows "window_reserve task tr high ws = put_tracker task (k\<lparr>tk_owner := Some tr, tk_upper := Some high\<rparr>) ws"
  using assms by (simp add: window_reserve_def)

lemma utc_or_Inr [err_simps]: "utc_or e v = Inr t \<longleftrightarrow> v = Some (Stamp t)"
  by (auto simp: utc_or_def as_utc_Some split: option.splits)

lemma range_of_Inr [err_simps]: "range_of r = Inr w \<longleftrightarrow> r = (Stamp (fst w), Stamp (snd w))"
  by (cases r; cases w) (auto simp: range_of_def err_simps)

text \<open>The admitted window: the recorded one, or from the cursor up to the bounds.\<close>

definition window_high :: "instant \<Rightarrow> instant list \<Rightarrow> instant \<Rightarrow> window_definition \<Rightarrow> instant" where
  "window_high now sources started d = fold min (if has_sources d then sources else []) (min started now)"

lemma fold_min_le: "fold min xs b \<le> (b :: 'a :: linorder) \<and> (\<forall>x \<in> set xs. fold min xs b \<le> x)"
proof (induction xs arbitrary: b)
  case (Cons x xs)
  from Cons.IH[of "min x b"] show ?case by auto
qed simp

lemma window_high_le:
  "window_high now sources started d \<le> now \<and> window_high now sources started d \<le> started
    \<and> (has_sources d \<longrightarrow> (\<forall>s \<in> set sources. window_high now sources started d \<le> s))"
  using fold_min_le[of "if has_sources d then sources else []" "min started now"]
  by (auto simp: window_high_def)

definition window_at ::
  "windows \<Rightarrow> int \<Rightarrow> instant \<Rightarrow> instant \<Rightarrow> instant \<times> instant \<Rightarrow> bool" where
  "window_at ws tr low high w \<longleftrightarrow> low \<le> high \<and>
     (case w_ranges ws tr of
        None \<Rightarrow> w = (low, high)
      | Some r \<Rightarrow> r = (Stamp (fst w), Stamp (snd w)) \<and> low \<in> {fst w, snd w})"

lemma admit_fresh:
  assumes "admit_window now sources task tr started d ws = Inr (w, ws')" and "\<not> backfill d"
    and "case fetch_task_offset ws task of None \<Rightarrow> True | Some k \<Rightarrow> tk_owner k = None"
  shows "\<exists>low k. window_at ws tr low (window_high now sources started d) w
     \<and> fetch_task_offset ws' task = Some k \<and> tk_value k = Some (Stamp low)
     \<and> tk_owner k = Some tr \<and> tk_upper k = Some (snd w) \<and> w_ranges ws' = w_ranges ws
     \<and> (\<forall>t. t \<noteq> task \<longrightarrow> fetch_task_offset ws' t = fetch_task_offset ws t)
     \<and> (case fetch_task_offset ws task of None \<Rightarrow> initial_value d = Some (Stamp low)
        | Some k \<Rightarrow> tk_value k = Some (Stamp low))"
proof (cases "fetch_task_offset ws task")
  case None
  let ?k = "\<lparr>tk_type = initial_type d, tk_value = initial_value d, tk_owner = None, tk_upper = None, tk_updated = now\<rparr>"
  from assms(1) None obtain low where low: "initial_value d = Some (Stamp low)"
    and at: "window_at ws tr low (window_high now sources started d) w"
    and ws': "ws' = window_reserve task tr (snd w) (put_tracker task ?k ws)"
    by (auto simp: admit_window_def assms(2) err_simps Let_def checked_clock_def window_at_def window_high_def
        not_less split: if_splits option.splits dest!: save_Inr)
  have "fetch_task_offset (put_tracker task ?k ws) task = Some ?k" by (simp add: fetch_put)
  from reserve_free[OF this] have "ws' = put_tracker task (?k\<lparr>tk_owner := Some tr, tk_upper := Some (snd w)\<rparr>)
      (put_tracker task ?k ws)"
    unfolding ws' by simp
  with at low None show ?thesis by (simp add: fetch_put)
next
  case (Some k)
  with assms(3) have free: "tk_owner k = None" by simp
  with assms(1) Some obtain low where low: "tk_value k = Some (Stamp low)"
    and at: "window_at ws tr low (window_high now sources started d) w"
    and ws': "ws' = window_reserve task tr (snd w) ws"
    by (auto simp: admit_window_def assms(2) err_simps Let_def checked_clock_def window_at_def window_high_def
        not_less split: if_splits option.splits)
  from reserve_free[OF Some free] at low Some ws' show ?thesis by (simp add: fetch_put)
qed

lemma admit_held:
  assumes "admit_window now sources task tr started d ws = Inr (w, ws')" and "\<not> backfill d"
    and "fetch_task_offset ws task = Some k" and "tk_owner k = Some tr'"
  shows "tr' = tr \<and> ws' = ws \<and> tk_upper k = Some (snd w)
    \<and> (case w_ranges ws tr of None \<Rightarrow> tk_value k = Some (Stamp (fst w)) | Some r \<Rightarrow> fst r = Stamp (fst w))"
  using assms
  by (auto simp: admit_window_def err_simps Let_def checked_clock_def split: if_splits option.splits)

lemma admit_backfill:
  "admit_window now sources task tr started d ws = Inr (w, ws') \<Longrightarrow> backfill d \<Longrightarrow> ws' = ws"
  by (auto simp: admit_window_def err_simps Let_def split: if_splits option.splits)

lemma task_window_Inr:
  assumes "reachable capacity db" and "task_window db now sources k tr owner task d ws = Inr (w, ws')"
  obtains ws1 started where "admit_window now sources task tr started d ws = Inr (w, ws1)"
    and "ws' = ws1\<lparr>w_ranges := (w_ranges ws1)(tr \<mapsto> (Stamp (fst w), Stamp (snd w)))\<rparr>"
    and "check_pending_range tr (Stamp (fst w)) (Stamp (snd w)) ws1 = Inr ()"
    and "recorded_start db k tr = Inr started"
  using assms(2) record_Inr[OF assms(1)]
  by (auto simp: task_window_def err_simps)

section \<open>Histories\<close>

text \<open>
  The history of one task's cursor: its origin, the value the cursor was last given from outside a
  window, and the windows committed since, oldest first. \<open>task_of\<close> is the task of a task run, which
  never changes; every operation of every task runs, at any moment, in any order.
\<close>

definition committed ::
  "int \<Rightarrow> windows \<Rightarrow> windows \<Rightarrow> instant option \<times> (instant \<times> instant) list
    \<Rightarrow> instant option \<times> (instant \<times> instant) list" where
  "committed task ws ws' h =
     (case fetch_task_offset ws task of
        None \<Rightarrow> (cursor_of ws' task, [])
      | Some k \<Rightarrow>
          (case tk_owner k of
             None \<Rightarrow> (cursor_of ws' task, [])
           | Some tr \<Rightarrow>
               (case w_ranges ws tr of
                  Some (Stamp l, Stamp u) \<Rightarrow> (fst h, snd h @ [(l, u)])
                | _ \<Rightarrow> (cursor_of ws' task, []))))"

inductive window_history ::
  "(engine_db \<Rightarrow> attempt_row \<Rightarrow> bool) \<Rightarrow> (int \<Rightarrow> int) \<Rightarrow> int \<Rightarrow> windows \<Rightarrow> instant option \<times> (instant \<times> instant) list \<Rightarrow> bool"
  for capacity :: "engine_db \<Rightarrow> attempt_row \<Rightarrow> bool" and task_of :: "int \<Rightarrow> int" and task :: int where
  start: "window_history capacity task_of task \<lparr>w_trackers = [], w_ranges = Map.empty\<rparr> (None, [])"
| window: "window_history capacity task_of task ws h \<Longrightarrow> reachable capacity db \<Longrightarrow>
    task_window db now sources k tr owner (task_of tr) d ws = Inr (w, ws') \<Longrightarrow>
    window_history capacity task_of task ws'
      (if fetch_task_offset ws task = None then (cursor_of ws' task, []) else h)"
| watermark: "window_history capacity task_of task ws h \<Longrightarrow> reachable capacity db \<Longrightarrow>
    task_watermark db now k tr owner low high ws = Inr ws' \<Longrightarrow>
    window_history capacity task_of task ws' h"
| commit: "window_history capacity task_of task ws h \<Longrightarrow>
    commit_task_offset now (task_of tr) tr ty v ws = Inr ws' \<Longrightarrow>
    window_history capacity task_of task ws' (if task_of tr = task then committed task ws ws' h else h)"
| release: "window_history capacity task_of task ws h \<Longrightarrow>
    window_history capacity task_of task (window_release_scope db run only ws) h"
| reset: "window_history capacity task_of task ws h \<Longrightarrow>
    reset_offset active now task' wanted ws = Inr ws' \<Longrightarrow>
    window_history capacity task_of task ws' (if task' = task then (cursor_of ws' task, []) else h)"

text \<open>Each committed window starts at the cursor it found, or ends there and is read again.\<close>

fun tiles :: "instant \<Rightarrow> (instant \<times> instant) list \<Rightarrow> instant \<Rightarrow> bool" where
  "tiles c [] c' \<longleftrightarrow> c = c'"
| "tiles c ((l, u) # rest) c' \<longleftrightarrow> (l = c \<or> u = c) \<and> tiles u rest c'"

lemma tiles_snoc: "tiles c (rest @ [(l, u)]) c' \<longleftrightarrow> (\<exists>m. tiles c rest m \<and> (l = m \<or> u = m)) \<and> u = c'"
  by (induction rest arbitrary: c) auto

lemma tiles_cover:
  "tiles c rest c' \<Longrightarrow> c \<le> t \<Longrightarrow> t < c' \<Longrightarrow> \<exists>(l, u) \<in> set rest. l \<le> t \<and> t < u"
proof (induction rest arbitrary: c)
  case (Cons w rest)
  obtain l u where w: "w = (l, u)" by (cases w)
  show ?case
  proof (cases "u \<le> t")
    case True
    with Cons.IH[of u] Cons.prems(1,3) show ?thesis by (auto simp: w)
  next
    case False
    with Cons.prems(1,2) show ?thesis by (auto simp: w)
  qed
qed auto

definition holds_window :: "(int \<Rightarrow> int) \<Rightarrow> int \<Rightarrow> windows \<Rightarrow> bool" where
  "holds_window task_of task ws \<longleftrightarrow>
     (case fetch_task_offset ws task of
        None \<Rightarrow> True
      | Some k \<Rightarrow>
          (case tk_owner k of
             None \<Rightarrow> True
           | Some tr \<Rightarrow> task_of tr = task \<and> (\<exists>l u c. w_ranges ws tr = Some (Stamp l, Stamp u)
               \<and> tk_upper k = Some u \<and> tk_value k = Some (Stamp c) \<and> (l = c \<or> u = c))))"

definition follows :: "int \<Rightarrow> windows \<Rightarrow> instant option \<times> (instant \<times> instant) list \<Rightarrow> bool" where
  "follows task ws h \<longleftrightarrow>
     (case cursor_of ws task of
        None \<Rightarrow> snd h = []
      | Some c \<Rightarrow> (\<exists>origin. fst h = Some origin \<and> tiles origin (snd h) c))"

lemma fetch_ranges [simp]: "fetch_task_offset (ws\<lparr>w_ranges := f\<rparr>) t = fetch_task_offset ws t"
  by (simp add: fetch_task_offset_def)

lemma cursor_ranges [simp]: "cursor_of (ws\<lparr>w_ranges := f\<rparr>) t = cursor_of ws t"
  by (simp add: cursor_of_def)

lemma follows_ranges [simp]: "follows task (ws\<lparr>w_ranges := f\<rparr>) h = follows task ws h"
  by (simp add: follows_def)

text \<open>Recording a checked range leaves a pending window as it was admitted.\<close>

lemma record_keeps_window:
  assumes "holds_window task_of task ws" and "check_pending_range tr low high ws = Inr ()"
  shows "holds_window task_of task (ws\<lparr>w_ranges := (w_ranges ws)(tr \<mapsto> (low, high))\<rparr>)"
proof (cases "\<exists>k. fetch_task_offset ws task = Some k \<and> tk_owner k = Some tr")
  case True
  then obtain k where k: "fetch_task_offset ws task = Some k" "tk_owner k = Some tr" by blast
  with assms(1) obtain l u c where w: "w_ranges ws tr = Some (Stamp l, Stamp u)" "tk_upper k = Some u"
      "tk_value k = Some (Stamp c)" "l = c \<or> u = c" "task_of tr = task"
    by (auto simp: holds_window_def)
  from check_pending_same[OF assms(2) k w(2,1)] k w show ?thesis
    by (simp add: holds_window_def as_utc_Some)
next
  case False
  with assms(1) show ?thesis by (auto simp: holds_window_def split: option.splits)
qed

lemma reversed_inr: "a = Inr x \<Longrightarrow> (\<And>y. a = Inr y \<Longrightarrow> P y) \<Longrightarrow> P x"
  by simp

lemma window_at_low: "window_at ws tr low high w \<Longrightarrow> fst w = low \<or> snd w = low"
  by (auto simp: window_at_def split: option.splits)

text \<open>A successful window of a task, its cursor free.\<close>

lemma free_window_steps:
  assumes "reachable capacity db" and "task_window db now sources k tr owner task d ws = Inr (w, ws')"
    and "\<not> backfill d" and "case fetch_task_offset ws task of None \<Rightarrow> True | Some k \<Rightarrow> tk_owner k = None"
  obtains started low k' where
    "window_at ws tr low (window_high now sources started d) w"
    "fetch_task_offset ws' task = Some k'" "tk_value k' = Some (Stamp low)" "tk_owner k' = Some tr"
    "tk_upper k' = Some (snd w)" "w_ranges ws' tr = Some (Stamp (fst w), Stamp (snd w))"
    "\<forall>t. t \<noteq> task \<longrightarrow> fetch_task_offset ws' t = fetch_task_offset ws t"
    "\<forall>t. t \<noteq> tr \<longrightarrow> w_ranges ws' t = w_ranges ws t"
    "fetch_task_offset ws task \<noteq> None \<longrightarrow> cursor_of ws task = Some low"
    "fetch_task_offset ws task = None \<longrightarrow> initial_value d = Some (Stamp low)"
    "recorded_start db k tr = Inr started"
proof -
  from task_window_Inr[OF assms(1,2)] obtain ws1 started where
    admitted: "admit_window now sources task tr started d ws = Inr (w, ws1)"
    and ws': "ws' = ws1\<lparr>w_ranges := (w_ranges ws1)(tr \<mapsto> (Stamp (fst w), Stamp (snd w)))\<rparr>"
    and start: "recorded_start db k tr = Inr started"
    by metis
  from admit_fresh[OF admitted assms(3,4)] obtain low k' where
    at: "window_at ws tr low (window_high now sources started d) w"
    and fetch: "fetch_task_offset ws1 task = Some k'" "tk_value k' = Some (Stamp low)"
      "tk_owner k' = Some tr" "tk_upper k' = Some (snd w)"
    and same: "w_ranges ws1 = w_ranges ws" "\<forall>t. t \<noteq> task \<longrightarrow> fetch_task_offset ws1 t = fetch_task_offset ws t"
    and low: "case fetch_task_offset ws task of None \<Rightarrow> initial_value d = Some (Stamp low)
        | Some k \<Rightarrow> tk_value k = Some (Stamp low)"
    by blast
  show ?thesis
    by (rule that[of low started k']) (use at fetch same low start in \<open>auto simp: ws' cursor_of_def split: option.splits\<close>)
qed

lemma window_keeps:
  assumes "holds_window task_of task ws" and "follows task ws h" and "reachable capacity db"
    and "task_window db now sources k tr owner (task_of tr) d ws = Inr (w, ws')"
  shows "holds_window task_of task ws'
    \<and> follows task ws' (if fetch_task_offset ws task = None then (cursor_of ws' task, []) else h)"
proof -
  from task_window_Inr[OF assms(3,4)] obtain ws1 started where
    admitted: "admit_window now sources (task_of tr) tr started d ws = Inr (w, ws1)"
    and ws': "ws' = ws1\<lparr>w_ranges := (w_ranges ws1)(tr \<mapsto> (Stamp (fst w), Stamp (snd w)))\<rparr>"
    and checked: "check_pending_range tr (Stamp (fst w)) (Stamp (snd w)) ws1 = Inr ()"
    by metis
  show ?thesis
  proof (cases "backfill d \<or> (\<exists>k tr'. fetch_task_offset ws (task_of tr) = Some k \<and> tk_owner k = Some tr')")
    case True
    then have "ws1 = ws"
      using admit_held[OF admitted] admit_backfill[OF admitted] by blast
    moreover from assms(2) have "follows task ws (if fetch_task_offset ws task = None then (cursor_of ws task, []) else h)"
      by (auto simp: follows_def cursor_of_def)
    ultimately show ?thesis
      using record_keeps_window[OF assms(1)] checked ws' by (auto split: if_splits)
  next
    case False
    then have free: "case fetch_task_offset ws (task_of tr) of None \<Rightarrow> True | Some k \<Rightarrow> tk_owner k = None"
      by (auto split: option.splits)
    from False have "\<not> backfill d" by simp
    obtain started low k' where
      at: "window_at ws tr low (window_high now sources started d) w"
      and fetch: "fetch_task_offset ws' (task_of tr) = Some k'" "tk_value k' = Some (Stamp low)"
        "tk_owner k' = Some tr" "tk_upper k' = Some (snd w)" "w_ranges ws' tr = Some (Stamp (fst w), Stamp (snd w))"
      and same: "\<forall>t. t \<noteq> task_of tr \<longrightarrow> fetch_task_offset ws' t = fetch_task_offset ws t"
        "\<forall>t. t \<noteq> tr \<longrightarrow> w_ranges ws' t = w_ranges ws t"
      and low: "fetch_task_offset ws (task_of tr) \<noteq> None \<longrightarrow> cursor_of ws (task_of tr) = Some low"
      by (rule free_window_steps[OF assms(3,4) \<open>\<not> backfill d\<close> free])
    show ?thesis
    proof (cases "task_of tr = task")
      case True
      with fetch window_at_low[OF at] have "holds_window task_of task ws'" by (auto simp: holds_window_def)
      moreover from True fetch have "cursor_of ws' task = Some low" by (simp add: cursor_of_def)
      ultimately show ?thesis using assms(2) low True by (auto simp: follows_def)
    next
      case False
      with same have f: "fetch_task_offset ws' task = fetch_task_offset ws task" by simp
      then have c: "cursor_of ws' task = cursor_of ws task" by (simp add: cursor_of_def)
      from assms(1) False same(2) have "holds_window task_of task ws'"
        unfolding holds_window_def f by (auto split: option.splits)
      moreover from assms(2) f have "follows task ws' (if fetch_task_offset ws task = None then (cursor_of ws' task, []) else h)"
        unfolding follows_def c by (auto simp: cursor_of_def)
      ultimately show ?thesis by blast
    qed
  qed
qed

lemma record_keeps:
  assumes "holds_window task_of task ws" and "follows task ws h" and "reachable capacity db"
    and "task_watermark db now k tr owner low high ws = Inr ws'"
  shows "holds_window task_of task ws' \<and> follows task ws' h"
proof -
  from assms(4) have "record_watermark_range db now k tr owner low high ws = Inr ws'"
    by (auto simp: task_watermark_def err_simps)
  from record_Inr[OF assms(3) this] record_keeps_window[OF assms(1)] assms(2) show ?thesis by auto
qed

text \<open>A cursor written from outside a window.\<close>

lemma saved_keeps:
  assumes "holds_window task_of task ws" and "follows task ws h" and "save_task_offset now t ty v ws = Inr ws'"
  shows "holds_window task_of task ws' \<and> (t \<noteq> task \<longrightarrow> follows task ws' h) \<and> follows task ws' (cursor_of ws' task, [])
     \<and> (t = task \<longrightarrow> cursor_of ws' task = (case v of Some (Stamp c) \<Rightarrow> Some c | _ \<Rightarrow> None))"
  using assms(1,2)
  by (auto simp: save_Inr[OF assms(3)] holds_window_def follows_def cursor_of_def fetch_put
      split: option.splits stored_value.splits)

lemma commit_keeps:
  assumes "holds_window task_of task ws" and "follows task ws h"
    and "commit_task_offset now t tr ty v ws = Inr ws'"
  shows "holds_window task_of task ws' \<and> follows task ws' (if t = task then committed task ws ws' h else h)"
proof -
  from assms(3) have saved: "save_task_offset now t ty v ws = Inr ws'"
    by (auto simp: commit_task_offset_def split: option.splits if_splits)
  note kept = saved_keeps[OF assms(1,2) saved]
  show ?thesis
  proof (cases "t = task \<and> (\<exists>k. fetch_task_offset ws task = Some k \<and> tk_owner k \<noteq> None)")
    case False
    with kept show ?thesis by (auto simp: committed_def split: option.splits)
  next
    case True
    then obtain k tr' where k: "fetch_task_offset ws task = Some k" "tk_owner k = Some tr'" and t: "t = task" by blast
    with assms(1) obtain l u c where w: "w_ranges ws tr' = Some (Stamp l, Stamp u)" "tk_upper k = Some u"
        "tk_value k = Some (Stamp c)" "l = c \<or> u = c"
      by (auto simp: holds_window_def)
    from assms(3) k t w have "v = Some (Stamp u)"
      by (auto simp: commit_task_offset_def as_utc_Some split: if_splits)
    with kept t have now: "cursor_of ws' task = Some u" by simp
    from assms(2) k w obtain origin where "fst h = Some origin" "tiles origin (snd h) c"
      by (auto simp: follows_def cursor_of_def)
    with now k w kept t show ?thesis by (auto simp: follows_def committed_def tiles_snoc)
  qed
qed

lemma map_of_values: "map_of (map (\<lambda>(key, k). (key, f k)) xs) t = map_option f (map_of xs t)"
  by (induction xs) auto

lemma release_keeps:
  assumes "holds_window task_of task ws" and "follows task ws h"
  shows "holds_window task_of task (window_release_scope db run only ws)
    \<and> follows task (window_release_scope db run only ws) h"
proof -
  obtain f where f: "\<And>k. f k = k \<or> f k = k\<lparr>tk_owner := None, tk_upper := None\<rparr>"
    and ws': "window_release_scope db run only ws = ws\<lparr>w_trackers := map (\<lambda>(key, k). (key, f k)) (w_trackers ws)\<rparr>"
    by (rule that[of "\<lambda>k. if \<exists>tr \<in> set (map t_id (filter (\<lambda>t. t_run t = run \<and> (only = None \<or> only = Some (t_task t))) (db_tasks db))).
          tk_owner k = Some tr then k\<lparr>tk_owner := None, tk_upper := None\<rparr> else k"])
      (simp_all add: window_release_scope_def Let_def)
  have fetch: "fetch_task_offset (window_release_scope db run only ws) task = map_option f (fetch_task_offset ws task)"
    by (simp add: ws' fetch_task_offset_def map_of_values)
  have ranges: "w_ranges (window_release_scope db run only ws) = w_ranges ws" by (simp add: ws')
  show ?thesis
  proof (cases "fetch_task_offset ws task")
    case None
    with assms fetch show ?thesis by (simp add: holds_window_def follows_def cursor_of_def)
  next
    case (Some k)
    with assms fetch ranges show ?thesis
      using f[of k] by (auto simp: holds_window_def follows_def cursor_of_def split: option.splits)
  qed
qed

theorem history_keeps:
  "window_history capacity task_of task ws h \<Longrightarrow> holds_window task_of task ws \<and> follows task ws h"
proof (induction rule: window_history.induct)
  case start
  show ?case by (simp add: holds_window_def follows_def cursor_of_def fetch_task_offset_def)
next
  case window
  then show ?case using window_keeps by blast
next
  case watermark
  then show ?case using record_keeps by blast
next
  case commit
  then show ?case using commit_keeps by metis
next
  case release
  then show ?case using release_keeps by blast
next
  case (reset ws h active now task' wanted ws')
  from reset.hyps(2) have "save_task_offset now task' (fst wanted) (snd wanted) ws = Inr ws'"
    by (auto simp: reset_offset_def split: if_splits option.splits)
  from saved_keeps[OF _ _ this, of task_of task h] reset.IH show ?case by auto
qed

section \<open>The properties\<close>

text \<open>
  C26. No instant is left out of the windows of a task: in every history of windows, watermark
  reports, commits, releases and resets, of all tasks, each committed window starts at the cursor
  it found or ends there (a task run that reads its own window again), and every instant from the
  cursor's origin up to the cursor lies in a committed window.
\<close>

theorem windows_tile:
  assumes "window_history capacity task_of task ws (first, committed_windows)"
    and "cursor_of ws task = Some c"
  shows "\<exists>origin. first = Some origin \<and> tiles origin committed_windows c
    \<and> (\<forall>t. origin \<le> t \<and> t < c \<longrightarrow> (\<exists>(l, u) \<in> set committed_windows. l \<le> t \<and> t < u))"
proof -
  from history_keeps[OF assms(1)] assms(2) obtain origin
    where "first = Some origin" "tiles origin committed_windows c"
    by (auto simp: follows_def)
  with tiles_cover show ?thesis by blast
qed

definition demo_running :: engine_db where
  "demo_running = projr (start_attempt 10 1 ''worker'' demo_claimed)"

definition demo_reader :: window_definition where
  "demo_reader = \<lparr>initial_type = OffTimestamp, initial_value = Some (Stamp 5), has_sources = True, backfill = False\<rparr>"

definition no_windows :: windows where
  "no_windows = \<lparr>w_trackers = [], w_ranges = Map.empty\<rparr>"

definition demo_window :: "(instant \<times> instant) \<times> windows" where
  "demo_window = projr (task_window demo_running 20 [12, 8] 1 1 ''worker'' 70 demo_reader no_windows)"

definition demo_done :: windows where
  "demo_done = projr (commit_task_offset 30 70 1 OffTimestamp (Some (Stamp 8)) (snd demo_window))"

lemma demo_running_reachable: "reachable any_capacity demo_running"
proof -
  have "\<not> is_err (start_attempt 10 1 ''worker'' demo_claimed)" by code_simp
  from lifecycle_step.start[OF Inr_projr[OF this]]
  have "lifecycle_step any_capacity demo_claimed demo_running" by (simp add: demo_running_def)
  with demo_reachable(2) show ?thesis unfolding reachable_def by (rule rtranclp.rtrancl_into_rtrancl)
qed

lemma demo_window_admitted:
  "task_window demo_running 20 [12, 8] 1 1 ''worker'' 70 demo_reader no_windows = Inr ((5, 8), snd demo_window)"
proof -
  have "\<not> is_err (task_window demo_running 20 [12, 8] 1 1 ''worker'' 70 demo_reader no_windows)" by code_simp
  moreover have "fst demo_window = (5, 8)" by code_simp
  ultimately show ?thesis unfolding demo_window_def by (metis Inr_projr prod.collapse)
qed

lemma demo_window_history: "window_history any_capacity (\<lambda>_. 70) 70 (snd demo_window) (Some 5, [])"
proof -
  have "window_history any_capacity (\<lambda>_. 70) 70 no_windows (None, [])"
    unfolding no_windows_def by (rule window_history.start)
  from window_history.window[OF this demo_running_reachable demo_window_admitted]
  have "window_history any_capacity (\<lambda>_. 70) 70 (snd demo_window) (cursor_of (snd demo_window) 70, [])"
    by (simp add: no_windows_def fetch_task_offset_def)
  moreover have "cursor_of (snd demo_window) 70 = Some 5" by code_simp
  ultimately show ?thesis by simp
qed

theorem windows_tile_witness:
  "cursor_of demo_done 70 = Some 8 \<and> (\<exists>(l, u) \<in> set [(5 :: int, 8 :: int)]. l \<le> 7 \<and> 7 < u) \<and> tiles 5 [(5, 8)] 8"
proof -
  have "\<not> is_err (commit_task_offset 30 70 1 OffTimestamp (Some (Stamp 8)) (snd demo_window))" by code_simp
  then have "commit_task_offset 30 70 1 OffTimestamp (Some (Stamp 8)) (snd demo_window) = Inr demo_done"
    unfolding demo_done_def by (rule Inr_projr)
  from window_history.commit[OF demo_window_history this]
  have "window_history any_capacity (\<lambda>_. 70) 70 demo_done (committed 70 (snd demo_window) demo_done (Some 5, []))" by simp
  moreover have "committed 70 (snd demo_window) demo_done (Some 5, []) = (Some 5, [(5, 8)])" by code_simp
  ultimately have "window_history any_capacity (\<lambda>_. 70) 70 demo_done (Some 5, [(5, 8)])" by simp
  moreover have "cursor_of demo_done 70 = Some 8" by code_simp
  ultimately show ?thesis using windows_tile[of any_capacity "\<lambda>_. 70" 70 demo_done "Some 5" "[(5, 8)]" 8] by simp
qed

text \<open>
  C27. A pending window is frozen. While a task run holds the cursor of its task, a successful
  request for a window comes from that task run, whatever attempt, clock, sources or definition it
  comes with, answers the recorded range with the reserved upper bound, and changes nothing.
\<close>

theorem window_frozen:
  assumes "window_history capacity task_of (task_of tr) ws h" and "reachable capacity db"
    and "fetch_task_offset ws (task_of tr) = Some held" and "tk_owner held = Some holder"
    and "task_window db now sources k tr owner (task_of tr) d ws = Inr (w, ws')" and "\<not> backfill d"
  shows "holder = tr \<and> ws' = ws \<and> w_ranges ws tr = Some (Stamp (fst w), Stamp (snd w))
    \<and> tk_upper held = Some (snd w)"
proof -
  obtain ws1 started where admitted: "admit_window now sources (task_of tr) tr started d ws = Inr (w, ws1)"
    and ws': "ws' = ws1\<lparr>w_ranges := (w_ranges ws1)(tr \<mapsto> (Stamp (fst w), Stamp (snd w)))\<rparr>"
    by (rule task_window_Inr[OF assms(2,5)])
  from admit_held[OF admitted assms(6,3,4)] have same: "holder = tr" "ws1 = ws" "tk_upper held = Some (snd w)"
    and low: "case w_ranges ws tr of None \<Rightarrow> tk_value held = Some (Stamp (fst w)) | Some r \<Rightarrow> fst r = Stamp (fst w)"
    by simp_all
  from history_keeps[OF assms(1)] assms(3,4) same low
  have range: "w_ranges ws tr = Some (Stamp (fst w), Stamp (snd w))" by (auto simp: holds_window_def)
  then have "(w_ranges ws)(tr \<mapsto> (Stamp (fst w), Stamp (snd w))) = w_ranges ws" by (rule map_upd_triv)
  with ws' same range show ?thesis by simp
qed

theorem window_frozen_witness:
  "w_ranges (snd demo_window) 1 = Some (Stamp 5, Stamp 8)
    \<and> task_window demo_running 40 [] 1 1 ''worker'' 70 demo_reader (snd demo_window) = Inr ((5, 8), snd demo_window)"
proof -
  let ?again = "task_window demo_running 40 [] 1 1 ''worker'' 70 demo_reader (snd demo_window)"
  have "\<not> is_err ?again" and first: "fst (projr ?again) = (5, 8)" by code_simp+
  then have again: "?again = Inr ((5, 8), snd (projr ?again))" by (metis Inr_projr prod.collapse)
  have "map_option tk_owner (fetch_task_offset (snd demo_window) 70) = Some (Some 1)" by code_simp
  then obtain held where "fetch_task_offset (snd demo_window) 70 = Some held" "tk_owner held = Some 1" by auto
  from window_frozen[OF demo_window_history demo_running_reachable this again]
  have "snd (projr ?again) = snd demo_window \<and> w_ranges (snd demo_window) 1 = Some (Stamp 5, Stamp 8)"
    by (simp add: demo_reader_def)
  with again show ?thesis by simp
qed

text \<open>
  A window that is not a replay starts at the task's cursor, or at the definition's start when
  the task has none, and ends no later than the clock, the attempt's start, and the start of every
  source attempt that may still write; it is recorded and reserved for the task run.
\<close>

theorem window_bounded:
  assumes "reachable capacity db" and "task_window db now sources k tr owner task d ws = Inr (w, ws')"
    and "\<not> backfill d" and "w_ranges ws tr = None"
    and "case fetch_task_offset ws task of None \<Rightarrow> True | Some held \<Rightarrow> tk_owner held = None"
  shows "\<exists>started. recorded_start db k tr = Inr started
    \<and> fst w \<le> snd w \<and> snd w \<le> now \<and> snd w \<le> started \<and> (has_sources d \<longrightarrow> (\<forall>s \<in> set sources. snd w \<le> s))
    \<and> (case fetch_task_offset ws task of None \<Rightarrow> initial_value d = Some (Stamp (fst w))
        | Some _ \<Rightarrow> cursor_of ws task = Some (fst w))
    \<and> w_ranges ws' tr = Some (Stamp (fst w), Stamp (snd w))
    \<and> map_option tk_owner (fetch_task_offset ws' task) = Some (Some tr)"
proof -
  obtain started low k' where at: "window_at ws tr low (window_high now sources started d) w"
    and new: "fetch_task_offset ws' task = Some k'" "tk_owner k' = Some tr"
      "w_ranges ws' tr = Some (Stamp (fst w), Stamp (snd w))"
    and from_cursor: "fetch_task_offset ws task \<noteq> None \<longrightarrow> cursor_of ws task = Some low"
      "fetch_task_offset ws task = None \<longrightarrow> initial_value d = Some (Stamp low)"
    and start: "recorded_start db k tr = Inr started"
    by (rule free_window_steps[OF assms(1-3,5)])
  from at assms(4) have w: "w = (low, window_high now sources started d)" "low \<le> window_high now sources started d"
    by (simp_all add: window_at_def)
  show ?thesis
    using w new from_cursor start window_high_le[of now sources started d]
    by (auto split: option.splits)
qed

end
