(* ===== verification/Controls.thy ===== *)
theory Controls
  imports Windows Cron
begin

text \<open>
  Scoped controls of runs and tasks: \<^verbatim>\<open>engine/controls.py\<close> with its queries,
  \<^verbatim>\<open>execution/control_flow.py\<close>, and the acceptance of a request in
  \<^verbatim>\<open>services/operations/controls.py\<close> and \<^verbatim>\<open>recovery.py\<close>. The dispatch fence itself
  (\<open>blocked\<close>, \<open>assert_dispatch\<close>) is part of the lifecycle; the rows of a request extend the
  columns the fence reads. Messages, reasons and actors are left out.
\<close>

datatype control_status = CtlRequested | CtlAcknowledged | CtlCompleted

datatype acknowledgement = ProcessEnded | QueriesEnded

record control_row = control_request +
  k_key :: string
  k_status :: control_status
  k_pinned :: "int list"
  k_acknowledged :: "instant option"
  k_completed :: "instant option"

text \<open>
  The Engine DB with the control tables: the observed endings of attempts, the attempts whose
  process was recorded (a \<^verbatim>\<open>PID\<close>), the event waits and the probes in flight, each of a task
  under a run.
\<close>

record control_db =
  c_db :: engine_db
  c_windows :: windows
  c_requests :: "control_row list"
  c_next :: int
  c_acks :: "((int \<times> acknowledgement) \<times> instant) list"
  c_processes :: "int list"
  c_event_waits :: "(int \<times> int) list"
  c_probes :: "(int \<times> int) list"

text \<open>\<open>ControlAttempt\<close>: an attempt with the endings observed of it.\<close>

record control_attempt =
  x_id :: int
  x_status :: attempt_status
  x_process_ended :: "instant option"
  x_queries_ended :: "instant option"
  x_task :: int

datatype control_error =
    CtlLifecycle lifecycle_error
  | CtlPending "int list"
  | CtlNotEnded
  | CtlRunStatus int run_status
  | CtlIsolated int
  | CtlRunFenced int
  | CtlScopeUsage
  | CtlUnacknowledged "int list"
  | CtlKeyTaken string int
  | CtlUnfinished int
  | CtlNotStored control_action
  | CtlMissingRun int

definition lifted :: "lifecycle_error + 'a \<Rightarrow> control_error + 'a" where
  "lifted m = (case m of Inl e \<Rightarrow> Inl (CtlLifecycle e) | Inr x \<Rightarrow> Inr x)"

section \<open>Reading attempts\<close>

definition in_scope :: "engine_db \<Rightarrow> int \<Rightarrow> int option \<Rightarrow> attempt_row \<Rightarrow> bool" where
  "in_scope db run task a \<longleftrightarrow> list_ex (\<lambda>t. t_id t = a_task_run a \<and> t_run t = run
     \<and> (task = None \<or> task = Some (t_task t))) (db_tasks db)"

definition ended_at :: "control_db \<Rightarrow> int \<Rightarrow> acknowledgement \<Rightarrow> instant option" where
  "ended_at c k kind = map_of (c_acks c) (k, kind)"

definition task_of_attempt :: "engine_db \<Rightarrow> attempt_row \<Rightarrow> int" where
  "task_of_attempt db a = (case row_of t_id (a_task_run a) (db_tasks db) of None \<Rightarrow> 0 | Some t \<Rightarrow> t_task t)"

definition control_attempt :: "control_db \<Rightarrow> attempt_row \<Rightarrow> control_attempt" where
  "control_attempt c a = \<lparr>x_id = a_id a, x_status = a_status a,
     x_process_ended = ended_at c (a_id a) ProcessEnded,
     x_queries_ended = ended_at c (a_id a) QueriesEnded, x_task = task_of_attempt (c_db c) a\<rparr>"

definition scope_attempts :: "control_db \<Rightarrow> int \<Rightarrow> int option \<Rightarrow> control_attempt list" where
  "scope_attempts c run task = map (control_attempt c) (filter (\<lambda>a. in_scope (c_db c) run task a
     \<and> (live_status (a_status a)
        \<or> ((a_id a \<in> set (c_processes c) \<or> a_status a = AttLost)
           \<and> (ended_at c (a_id a) ProcessEnded = None \<or> ended_at c (a_id a) QueriesEnded = None))))
     (db_attempts (c_db c)))"

text \<open>\<open>affected\<close> reads the pinned attempts, never a newer retry.\<close>

definition affected :: "control_db \<Rightarrow> int list \<Rightarrow> control_attempt list" where
  "affected c ids = map (control_attempt c) (filter (\<lambda>a. a_id a \<in> set ids) (db_attempts (c_db c)))"

definition awaiting_endings :: "control_attempt \<Rightarrow> bool" where
  "awaiting_endings x \<longleftrightarrow> live_status (x_status x) \<or> x_process_ended x = None \<or> x_queries_ended x = None"

section \<open>Writing requests and observations\<close>

text \<open>An observation never replaces an earlier one.\<close>

definition acknowledge :: "instant \<Rightarrow> int \<Rightarrow> acknowledgement \<Rightarrow> control_db \<Rightarrow> control_db" where
  "acknowledge now k kind c =
     (if ended_at c k kind = None then c\<lparr>c_acks := c_acks c @ [((k, kind), now)]\<rparr> else c)"

definition observe_exit :: "instant \<Rightarrow> int \<Rightarrow> bool \<Rightarrow> control_db \<Rightarrow> control_db" where
  "observe_exit now k queries_ended c =
     fold (acknowledge now k) (ProcessEnded # (if queries_ended then [QueriesEnded] else [])) c"

definition update_control :: "instant \<Rightarrow> int \<Rightarrow> control_status \<Rightarrow> control_db \<Rightarrow> control_db" where
  "update_control now k st c = c\<lparr>c_requests := map (\<lambda>r.
     if k_id r = k \<and> k_status r \<noteq> CtlCompleted
     then r\<lparr>k_status := st,
            k_acknowledged := (case k_acknowledged r of None \<Rightarrow> Some now | Some t \<Rightarrow> Some t),
            k_completed := (if st = CtlCompleted then Some now else None)\<rparr>
     else r) (c_requests c)\<rparr>"

definition unfinished :: "control_db \<Rightarrow> int \<Rightarrow> int option \<Rightarrow> int list" where
  "unfinished c run task = map k_id (filter (\<lambda>r. k_run r = run \<and> k_status r \<noteq> CtlCompleted
     \<and> (task = None \<or> k_task r = task \<or> k_task r = None)) (c_requests c))"

definition latest_control :: "control_db \<Rightarrow> int \<Rightarrow> int option \<Rightarrow> control_row option" where
  "latest_control c run task = find (\<lambda>r. k_run r = run \<and> k_task r = task) (rev (c_requests c))"

section \<open>Accepting a request\<close>

text \<open>
  What the configuration and the metadata say: whether a query adapter confirms server-side
  endings, whether ending the process ends its queries, which tasks run Python,
  \<open>run_scopes.check_task\<close>, and \<open>restart_selection\<close> (no selection restarts the whole run;
  a selection says whether it needs the exclusive slot).
\<close>

record control_world =
  q_adapter :: bool
  q_local :: bool
  q_python :: "int \<Rightarrow> bool"
  q_refusal :: "int \<Rightarrow> int \<Rightarrow> lifecycle_error option"
  q_selection :: "control_error + bool option"

record scoped_request =
  q_key :: "string option"
  q_run :: int
  q_task :: "int option"
  q_action :: control_action

definition recovery_actions :: "control_action list" where
  "recovery_actions = [CtlRecover, CtlRestart]"

definition immediate_actions :: "control_action list" where
  "immediate_actions = [CtlHold, CtlRelease, CtlRunPaused] @ recovery_actions"

definition check_recovery ::
  "control_world \<Rightarrow> control_db \<Rightarrow> run_row \<Rightarrow> control_action \<Rightarrow> int option \<Rightarrow> control_error + unit" where
  "check_recovery w c r action task =
     (let run = r_id r; st = r_status r in
      if r_owner r \<noteq> None \<or> unfinished c run task \<noteq> []
         \<or> list_ex awaiting_endings (scope_attempts c run task)
      then Inl CtlNotEnded
      else if action = CtlRestart then
        (if st \<notin> {RunSuccess, RunFailed, RunCancelled, RunSkipped} then Inl (CtlRunStatus run st)
         else bind_err (q_selection w) (\<lambda>_. Inr ()))
      else if st \<in> {RunSuccess, RunSkipped, RunQueued} then Inl (CtlRunStatus run st)
      else if task \<noteq> None \<and> st \<noteq> RunInProgress \<and> \<not> r_selected r then Inl (CtlIsolated run)
      else if task \<noteq> None \<and> scope_command (c_db c) run None \<noteq> None then Inl (CtlRunFenced run)
      else Inr ())"

definition check_query_control ::
  "control_world \<Rightarrow> control_action \<Rightarrow> control_attempt list \<Rightarrow> control_error + unit" where
  "check_query_control w action attempts =
     (let unknown = filter (\<lambda>x. q_python w (x_task x) \<and> x_status x \<noteq> AttQueued) attempts;
          unsafe = filter (\<lambda>x. x_status x \<noteq> AttQueued \<and> \<not> q_local w) attempts in
      if q_adapter w then Inr ()
      else if action = CtlStop \<and> \<not> q_local w \<and> unknown \<noteq> [] then Inl (CtlUnacknowledged (map x_id unknown))
      else if action \<notin> {CtlStop, CtlAbort} then Inr ()
      else if unsafe \<noteq> [] then Inl (CtlUnacknowledged (map x_id unsafe))
      else Inr ())"

definition check_control ::
  "control_world \<Rightarrow> control_db \<Rightarrow> scoped_request \<Rightarrow> run_row \<Rightarrow> control_error + control_attempt list" where
  "check_control w c q r =
     bind_err (if q_action q \<in> set recovery_actions then check_recovery w c r (q_action q) (q_task q)
               else if q_action q = CtlRunPaused \<and> q_task q \<noteq> None then Inl CtlScopeUsage
               else if r_status r \<notin> {RunQueued, RunInProgress} then Inl (CtlRunStatus (r_id r) (r_status r))
               else Inr ()) (\<lambda>_.
     let attempts = filter (\<lambda>x. live_status (x_status x) \<or> x_status x = AttLost
           \<or> x_process_ended x = None \<or> x_queries_ended x = None) (scope_attempts c (r_id r) (q_task q));
         pending = unfinished c (r_id r) (q_task q) in
     if q_action q \<in> {CtlHold, CtlRelease} \<and> pending \<noteq> [] then Inl (CtlPending pending)
     else bind_err (check_query_control w (q_action q) attempts) (\<lambda>_. Inr attempts))"

text \<open>\<open>_existing\<close>: a key answers its own request only; a scope repeats its latest action once.\<close>

definition existing_control ::
  "control_db \<Rightarrow> scoped_request \<Rightarrow> control_error + int option" where
  "existing_control c q =
     (case (case q_key q of None \<Rightarrow> None | Some key \<Rightarrow> find (\<lambda>r. k_key r = key) (c_requests c)) of
        Some r \<Rightarrow>
          if (k_run r, k_task r, k_action r) \<noteq> (q_run q, q_task q, q_action q)
          then Inl (CtlKeyTaken (k_key r) (k_id r)) else Inr (Some (k_id r))
      | None \<Rightarrow>
          (case latest_control c (q_run q) (q_task q) of
             None \<Rightarrow> Inr None
           | Some r \<Rightarrow>
               if k_action r = q_action q \<and> \<not> (q_action q \<in> set recovery_actions \<and> q_key q \<noteq> None)
               then Inr (Some (k_id r))
               else if k_status r \<noteq> CtlCompleted
                  \<and> (q_action q \<in> {CtlHold, CtlRelease} \<or> (k_action r = CtlAbort \<and> q_action q = CtlStop))
               then Inl (CtlUnfinished (k_id r))
               else Inr None))"

definition new_control :: "instant \<Rightarrow> string \<Rightarrow> scoped_request \<Rightarrow> control_attempt list \<Rightarrow> int \<Rightarrow> control_row" where
  "new_control now key q attempts k =
     (let immediate = q_action q \<in> set immediate_actions in
      \<lparr>k_id = k, k_run = q_run q, k_task = q_task q, k_action = q_action q, k_key = key,
       k_status = (if immediate then CtlCompleted else CtlRequested),
       k_pinned = (if immediate then [] else map x_id attempts),
       k_acknowledged = (if immediate then Some now else None),
       k_completed = (if immediate then Some now else None)\<rparr>)"

definition add_control :: "control_row \<Rightarrow> control_db \<Rightarrow> control_db" where
  "add_control r c = c\<lparr>c_requests := c_requests c @ [r], c_next := c_next c + 1,
     c_db := (c_db c)\<lparr>db_controls := db_controls (c_db c) @ [control_request.truncate r]\<rparr>\<rparr>"

text \<open>\<open>_insert\<close>; \<open>uuid\<close> is the key of a request without one. A key in use inserts nothing.\<close>

definition insert_control ::
  "instant \<Rightarrow> string \<Rightarrow> scoped_request \<Rightarrow> control_attempt list \<Rightarrow> control_db \<Rightarrow> control_error + int \<times> control_db"
where
  "insert_control now uuid q attempts c =
     (let key = (case q_key q of None \<Rightarrow> uuid | Some k \<Rightarrow> if k = '''' then uuid else k) in
      if q_action q \<in> {CtlPause, CtlResume} then Inl (CtlNotStored (q_action q))
      else if list_ex (\<lambda>r. k_key r = key) (c_requests c)
      then bind_err (existing_control c q) (\<lambda>found.
        case found of None \<Rightarrow> Inl (CtlKeyTaken key 0) | Some k \<Rightarrow> Inr (k, c))
      else Inr (c_next c, add_control (new_control now key q attempts (c_next c)) c))"

definition restart_key :: "int \<Rightarrow> string" where
  "restart_key k = ''control-restart:'' @ digits (nat k)"

definition prepare_recovery ::
  "instant \<Rightarrow> control_world \<Rightarrow> run_row \<Rightarrow> control_action \<Rightarrow> int \<Rightarrow> control_db \<Rightarrow> control_error + control_db" where
  "prepare_recovery now w r action k c =
     (if action = CtlRecover then
        (if r_status r = RunInProgress then Inr c
         else bind_err (lifted (reopen_run (r_id r) None (c_db c))) (\<lambda>db. Inr (c\<lparr>c_db := db\<rparr>)))
      else bind_err (q_selection w) (\<lambda>scope.
        bind_err (lifted (case scope of
            None \<Rightarrow> create_run now (r_pipeline r) (restart_key k) TrigManual RunQueued (c_db c)
          | Some exclusive \<Rightarrow> create_manual_run now (r_pipeline r) (restart_key k) exclusive (c_db c)))
          (\<lambda>(_, db). Inr (c\<lparr>c_db := db\<rparr>))))"

text \<open>The transaction of \<open>request_control\<close>; the flag says that the request is new.\<close>

definition accept_control ::
  "instant \<Rightarrow> control_world \<Rightarrow> string \<Rightarrow> scoped_request \<Rightarrow> control_db \<Rightarrow> control_error + (int \<times> bool) \<times> control_db"
where
  "accept_control now w uuid q c =
     (case row_of r_id (q_run q) (db_runs (c_db c)) of
        None \<Rightarrow> Inl (CtlMissingRun (q_run q))
      | Some r \<Rightarrow>
          bind_err (case q_task q of None \<Rightarrow> Inr ()
                    | Some t \<Rightarrow> (case q_refusal w (q_run q) t of None \<Rightarrow> Inr () | Some e \<Rightarrow> Inl (CtlLifecycle e))) (\<lambda>_.
          bind_err (existing_control c q) (\<lambda>found. case found of
            Some k \<Rightarrow> Inr ((k, False), c)
          | None \<Rightarrow>
              bind_err (check_control w c q r) (\<lambda>attempts.
              bind_err (insert_control now uuid q attempts c) (\<lambda>(k, c1).
              bind_err (if q_action q \<in> set recovery_actions then prepare_recovery now w r (q_action q) k c1
                        else Inr c1) (\<lambda>c2. Inr ((k, True), c2)))))))"

section \<open>Observing endings\<close>

text \<open>The event waits of a scope give up their windows and end as cancelled.\<close>

definition event_tasks :: "control_db \<Rightarrow> int \<Rightarrow> int option \<Rightarrow> int list" where
  "event_tasks c run task = map snd (filter (\<lambda>(r, t). r = run \<and> (task = None \<or> task = Some t)) (c_event_waits c))"

definition event_probes :: "control_db \<Rightarrow> int \<Rightarrow> int option \<Rightarrow> (int \<times> int) list" where
  "event_probes c run task = filter (\<lambda>(r, t). r = run \<and> t \<in> set (event_tasks c run task)) (c_probes c)"

definition cancel_event_task ::
  "instant \<Rightarrow> control_world \<Rightarrow> int \<Rightarrow> int \<Rightarrow> engine_db \<Rightarrow> lifecycle_error + engine_db" where
  "cancel_event_task now w run task db =
     bind_err (find_or_create_task_run now (q_refusal w run task) task run db) (\<lambda>(b, db1).
       if b_status b = RunInProgress
       then finish_task_run now (b_task_run b) ''CANCELLED'' (plain_report (Some ''event wait cancelled'') None)
              None None db1
       else Inr db1)"

definition cancel_event_tasks ::
  "instant \<Rightarrow> control_world \<Rightarrow> int \<Rightarrow> int option \<Rightarrow> control_db \<Rightarrow> lifecycle_error + control_db" where
  "cancel_event_tasks now w run task c =
     bind_err (fold_err (cancel_event_task now w run) (event_tasks c run task) (c_db c)) (\<lambda>db.
       Inr (c\<lparr>c_db := db, c_windows := window_release_scope (c_db c) run task (c_windows c)\<rparr>))"

text \<open>A queued attempt has no process: it is cancelled and its exit observed at once.\<close>

definition cancel_queued ::
  "instant \<Rightarrow> control_attempt \<Rightarrow> control_db \<Rightarrow> lifecycle_error + control_db" where
  "cancel_queued now x c =
     (if x_status x = AttQueued
      then bind_err (cancel_attempt now (x_id x) ''control'' None (c_db c)) (\<lambda>db.
             Inr (observe_exit now (x_id x) True (c\<lparr>c_db := db\<rparr>)))
      else Inr c)"

definition complete_control ::
  "instant \<Rightarrow> control_world \<Rightarrow> control_row \<Rightarrow> control_db \<Rightarrow> lifecycle_error + control_db" where
  "complete_control now w r c =
     bind_err (cancel_event_tasks now w (k_run r) (k_task r) c) (\<lambda>c1.
     bind_err (if k_task r = None then
                 (case row_of r_id (k_run r) (db_runs (c_db c1)) of
                    None \<Rightarrow> Inl (MissingRow (k_run r))
                  | Some run \<Rightarrow>
                      if r_status run \<in> {RunQueued, RunInProgress}
                      then cancel_pipeline_run now (k_run r) (c_db c1) else Inr (c_db c1))
               else Inr (c_db c1)) (\<lambda>db.
     Inr (update_control now (k_id r) CtlCompleted (c1\<lparr>c_db := db\<rparr>))))"

text \<open>One turn of \<open>advance\<close>: the transaction over one pending request.\<close>

definition advance_one ::
  "instant \<Rightarrow> control_world \<Rightarrow> bool \<Rightarrow> int \<Rightarrow> control_db \<Rightarrow> lifecycle_error + control_db" where
  "advance_one now w observed k c =
     (case find (\<lambda>r. k_id r = k) (c_requests c) of
        None \<Rightarrow> Inl (MissingRow k)
      | Some r \<Rightarrow>
          if k_status r = CtlCompleted then Inr c
          else bind_err (fold_err (cancel_queued now) (affected c (k_pinned r)) c) (\<lambda>c1.
            if event_probes c1 (k_run r) (k_task r) \<noteq> [] then Inr (update_control now k CtlAcknowledged c1)
            else if list_ex awaiting_endings (affected c1 (k_pinned r))
              then Inr (if observed then update_control now k CtlAcknowledged c1 else c1)
            else complete_control now w r c1))"

text \<open>
  \<open>advance\<close> over the requests pending at its start, each in a transaction of its own: an error
  ends the loop and keeps what was committed. \<open>clear\<close> says which probes the confirmed takeovers of
  \<open>_clear_stale_probes\<close> leave.
\<close>

fun advance_loop ::
  "instant \<Rightarrow> control_world \<Rightarrow> bool \<Rightarrow> (control_row \<Rightarrow> (int \<times> int) list \<Rightarrow> (int \<times> int) list)
     \<Rightarrow> control_row list \<Rightarrow> control_db \<Rightarrow> lifecycle_error option \<times> control_db" where
  "advance_loop now w observed clear [] c = (None, c)"
| "advance_loop now w observed clear (r # rest) c =
     (let c1 = c\<lparr>c_probes := clear r (c_probes c)\<rparr> in
      case advance_one now w observed (k_id r) c1 of
        Inl e \<Rightarrow> (Some e, c1)
      | Inr c2 \<Rightarrow> advance_loop now w observed clear rest c2)"

definition pending_controls :: "control_db \<Rightarrow> int option \<Rightarrow> control_row list" where
  "pending_controls c run = filter (\<lambda>r. k_status r \<noteq> CtlCompleted \<and> (run = None \<or> run = Some (k_run r))) (c_requests c)"

definition advance ::
  "instant \<Rightarrow> control_world \<Rightarrow> bool \<Rightarrow> (control_row \<Rightarrow> (int \<times> int) list \<Rightarrow> (int \<times> int) list)
     \<Rightarrow> int option \<Rightarrow> control_db \<Rightarrow> lifecycle_error option \<times> control_db" where
  "advance now w observed clear run c = advance_loop now w observed clear (pending_controls c run) c"

text \<open>
  \<open>process_ended\<close>: another host, or a process without a recorded identity, proves nothing; a
  different birth does, and so does a process that is gone or a zombie.
\<close>

datatype process_probe = ProcZombie | ProcOther | ProcMissing | ProcDenied

definition process_ended ::
  "string \<Rightarrow> string option \<times> int option \<times> string option \<Rightarrow> (int \<Rightarrow> string option) \<Rightarrow> (int \<Rightarrow> process_probe) \<Rightarrow> bool" where
  "process_ended here recorded birth probe =
     (case recorded of
        (Some host, Some pid, Some start) \<Rightarrow>
          if host \<noteq> here then False
          else (case birth pid of
                  Some b \<Rightarrow> b \<noteq> start
                | None \<Rightarrow> probe pid \<in> {ProcZombie, ProcMissing})
      | _ \<Rightarrow> False)"

text \<open>\<open>reconcile_endings\<close>; \<open>gone\<close> is the verdict of \<open>process_ended\<close> on an attempt.\<close>

definition observe_gone ::
  "instant \<Rightarrow> control_world \<Rightarrow> (control_attempt \<Rightarrow> bool) \<Rightarrow> int list \<Rightarrow> int option \<Rightarrow> int option
     \<Rightarrow> control_db \<Rightarrow> control_db" where
  "observe_gone now w gone ids pipeline task c =
     (let requests = filter (\<lambda>r. k_status r \<noteq> CtlCompleted \<and> (pipeline = None
            \<or> pipeline = map_option r_pipeline (row_of r_id (k_run r) (db_runs (c_db c))))) (c_requests c);
          pending = ids @ map x_id (filter (\<lambda>x. task = None \<or> task = Some (x_task x))
            (concat (map (\<lambda>r. affected c (k_pinned r)) requests))) in
      fold (\<lambda>x. observe_exit now (x_id x) (q_local w))
        (filter (\<lambda>x. \<not> live_status (x_status x) \<and> gone x) (affected c pending)) c)"

definition reconcile_endings ::
  "instant \<Rightarrow> control_world \<Rightarrow> (control_row \<Rightarrow> (int \<times> int) list \<Rightarrow> (int \<times> int) list)
     \<Rightarrow> (control_attempt \<Rightarrow> bool) \<Rightarrow> int list \<Rightarrow> int option \<Rightarrow> int option
     \<Rightarrow> control_db \<Rightarrow> lifecycle_error option \<times> control_db" where
  "reconcile_endings now w clear gone ids pipeline task c =
     advance now w True clear None (observe_gone now w gone ids pipeline task c)"

text \<open>\<open>request_control\<close>: the accepted fence is committed before anything is observed.\<close>

definition request_control ::
  "instant \<Rightarrow> control_world \<Rightarrow> (control_row \<Rightarrow> (int \<times> int) list \<Rightarrow> (int \<times> int) list) \<Rightarrow> string
     \<Rightarrow> scoped_request \<Rightarrow> control_db \<Rightarrow> (control_error + int) \<times> control_db" where
  "request_control now w clear uuid q c =
     (case accept_control now w uuid q c of
        Inl e \<Rightarrow> (Inl e, c)
      | Inr ((k, new), c1) \<Rightarrow>
          if \<not> new then (Inr k, c1)
          else (case advance now w False clear (Some (q_run q)) c1 of
                  (Some e, c2) \<Rightarrow> (Inl (CtlLifecycle e), c2)
                | (None, c2) \<Rightarrow> (Inr k, c2)))"

definition abort_requested :: "engine_db \<Rightarrow> int \<Rightarrow> int \<Rightarrow> bool" where
  "abort_requested db run task \<longleftrightarrow> list_ex (\<lambda>scope. scope_command db run scope \<in> {Some CtlStop, Some CtlAbort})
     [None, Some task]"

end
