(* ===== verification/Control_Inv.thy ===== *)
theory Control_Inv
  imports Controls Lifecycle_Theorems
begin

text \<open>
  What every lifecycle operation does to the scopes of attempts, the transition system of the
  controls over it, and its invariant: the pinned attempts of a completed stop have ended with
  evidence, and a stop in force has pinned every live attempt of its scope.
\<close>

section \<open>Scopes of attempts\<close>

definition task_keys :: "engine_db \<Rightarrow> (int \<times> int \<times> int) list" where
  "task_keys db = map (\<lambda>t. (t_id t, t_run t, t_task t)) (db_tasks db)"

lemma in_scope_iff: "in_scope db run task a \<longleftrightarrow>
    (\<exists>k. (a_task_run a, run, k) \<in> set (task_keys db) \<and> (task = None \<or> task = Some k))"
  by (force simp: in_scope_def task_keys_def list_ex_iff)

lemma guard_run_tasks: "guard_run db k g upd = Inr db' \<Longrightarrow> db_tasks db' = db_tasks db"
  by (auto simp: guard_run_def split: option.splits)

lemma guard_attempt_tasks: "guard_attempt_row db k g upd = Inr db' \<Longrightarrow> db_tasks db' = db_tasks db"
  by (auto simp: guard_attempt_row_def split: option.splits)

lemma cas_task_keys:
  assumes "compare_and_set t_id k g upd rows = Some rows'" and "task_write upd"
  shows "map (\<lambda>t. (t_id t, t_run t, t_task t)) rows' = map (\<lambda>t. (t_id t, t_run t, t_task t)) rows"
  using assms by (auto simp: compare_and_set_def task_write_def split: if_splits)

lemma guard_task_keys: "guard_task_row db k g upd = Inr db' \<Longrightarrow> task_write upd \<Longrightarrow> task_keys db' = task_keys db"
  by (auto simp: guard_task_row_def task_keys_def dest: cas_task_keys split: option.splits)

lemma sync_task_keys: "sync_attempt_summary k db = Inr db' \<Longrightarrow> task_keys db' = task_keys db"
  by (auto simp: sync_attempt_summary_def task_keys_def task_write_def summary_of_def dest!: cas_task_keys
      split: option.splits)

lemma task_keys_same: "db_tasks db' = db_tasks db \<Longrightarrow> task_keys db' = task_keys db"
  by (simp add: task_keys_def)

text \<open>The identities of attempts; only \<open>queue_attempt\<close> adds one, only a claim claims one.\<close>

definition attempt_ids :: "engine_db \<Rightarrow> int list" where
  "attempt_ids db = map a_id (db_attempts db)"

definition untimed :: "attempt_row \<Rightarrow> bool" where
  "untimed a \<longleftrightarrow> \<not> live_status (a_status a) \<and> a_ended_at a = None"

definition kept_attempt :: "attempt_row \<Rightarrow> attempt_row \<Rightarrow> bool" where
  "kept_attempt a a' \<longleftrightarrow> a_id a' = a_id a \<and> (a_status a' = AttClaimed \<longrightarrow> a_status a = AttClaimed)
     \<and> (untimed a' \<longrightarrow> untimed a)"

lemma kept_refl [simp]: "kept_attempt a a"
  by (simp add: kept_attempt_def)

lemma kept_all_refl [simp]: "list_all2 kept_attempt xs xs"
  by (simp add: list_all2_refl)

lemma kept_trans: "list_all2 kept_attempt xs ys \<Longrightarrow> list_all2 kept_attempt ys zs \<Longrightarrow> list_all2 kept_attempt xs zs"
  by (erule (1) list_all2_trans[rotated]) (auto simp: kept_attempt_def)

lemma kept_ids: "list_all2 kept_attempt xs ys \<Longrightarrow> map a_id ys = map a_id xs"
  by (induction rule: list_all2_induct) (auto simp: kept_attempt_def)

lemma guard_attempt_kept:
  assumes "guard_attempt_row db k g upd = Inr db'" and "\<And>a. kept_attempt a (upd a)"
  shows "list_all2 kept_attempt (db_attempts db) (db_attempts db')"
proof -
  from assms(1) have "db_attempts db' = map (\<lambda>a. if a_id a = k \<and> g a then upd a else a) (db_attempts db)"
    by (auto simp: guard_attempt_row_def compare_and_set_def split: option.splits if_splits)
  with assms(2) show ?thesis by (simp add: list_all2_map2 list_all2_same)
qed

text \<open>What an operation leaves as it was: the attempts there are, and the scope of each.\<close>

definition same_shape :: "engine_db \<Rightarrow> engine_db \<Rightarrow> bool" where
  "same_shape db db' \<longleftrightarrow> list_all2 kept_attempt (db_attempts db) (db_attempts db') \<and> task_keys db' = task_keys db"

lemma same_shape_refl [simp]: "same_shape db db"
  by (simp add: same_shape_def)

lemma same_shape_trans: "same_shape a b \<Longrightarrow> same_shape b c \<Longrightarrow> same_shape a c"
  by (auto simp: same_shape_def intro: kept_trans)

lemma same_shape_ids: "same_shape db db' \<Longrightarrow> attempt_ids db' = attempt_ids db"
  by (simp add: same_shape_def attempt_ids_def kept_ids)

lemma rows_same_shape: "db_attempts db' = db_attempts db \<Longrightarrow> db_tasks db' = db_tasks db \<Longrightarrow> same_shape db db'"
  by (simp add: same_shape_def task_keys_def)

lemma guard_run_shape: "guard_run db k g upd = Inr db' \<Longrightarrow> same_shape db db'"
  by (rule rows_same_shape) (erule guard_run_attempts, erule guard_run_tasks)

lemma guard_attempt_shape:
  "guard_attempt_row db k g upd = Inr db' \<Longrightarrow> (\<And>a. kept_attempt a (upd a)) \<Longrightarrow> same_shape db db'"
  unfolding same_shape_def by (rule conjI, rule guard_attempt_kept, assumption, assumption)
    (rule task_keys_same, erule guard_attempt_tasks)

lemma guard_task_shape: "guard_task_row db k g upd = Inr db' \<Longrightarrow> task_write upd \<Longrightarrow> same_shape db db'"
  unfolding same_shape_def by (frule guard_task_attempts, drule guard_task_keys) simp_all

lemma sync_shape: "sync_attempt_summary k db = Inr db' \<Longrightarrow> same_shape db db'"
  unfolding same_shape_def using sync_attempts[of k db db'] sync_task_keys[of k db db'] by simp

lemma record_attempt_failure_shape:
  assumes "record_attempt_failure k f overwrite db = Inr db'"
  shows "same_shape db db'"
proof (cases "db' = db")
  case False
  with assms obtain row :: attempt_row where "guard_attempt_row db k
      (\<lambda>a. live_status (a_status a) \<and> (a_failure_source a = None \<or> overwrite))
      (with_failure (a_retry_on row) f) = Inr db'"
    by (auto simp: record_attempt_failure_def split: option.splits sum.splits if_splits)
  then show ?thesis by (rule guard_attempt_shape) (simp add: with_failure_def kept_attempt_def untimed_def)
qed simp

lemma end_attempt_shape:
  assumes "end_attempt now k g st out db = Inr db'" and st: "st \<noteq> AttClaimed"
  shows "same_shape db db'"
proof -
  from assms(1) obtain db1 db2 where r: "record_attempt_ending k st (o_retryable out) db = Inr db1"
    and g: "guard_attempt_row db1 k g (ended now st out) = Inr db2"
    and s: "sync_attempt_summary k db2 = Inr db'"
    by (auto simp: end_attempt_def err_simps)
  from r have "same_shape db db1"
    by (auto simp: record_attempt_ending_def Let_def split: if_splits intro: record_attempt_failure_shape)
  moreover from g have "same_shape db1 db2" by (rule guard_attempt_shape) (simp add: ended_def kept_attempt_def untimed_def st)
  ultimately show ?thesis using sync_shape[OF s] same_shape_trans by blast
qed

lemma ending_shapes:
  "finish_attempt now k ast owner out db = Inr db' \<Longrightarrow> same_shape db db'"
  "time_out_attempt now k owner' err text db = Inr db' \<Longrightarrow> same_shape db db'"
  "cancel_attempt now k err text db = Inr db' \<Longrightarrow> same_shape db db'"
  "lose_attempt now k own msg db = Inr db' \<Longrightarrow> same_shape db db'"
  by (auto simp: finish_attempt_def time_out_attempt_def cancel_attempt_def lose_attempt_def
      split: if_splits intro: end_attempt_shape)

text \<open>A claim claims the one attempt it names, in a scope without a fence.\<close>

lemma claim_keeps_scopes:
  assumes "claim_with_capacity capacity now k own lease_at wait db = Inr (b, db')"
  shows "attempt_ids db' = attempt_ids db \<and> task_keys db' = task_keys db
    \<and> (db' = db \<or> guard_attempt k db = Inr ())
    \<and> (\<forall>a \<in> set (db_attempts db'). a_id a = k \<or> a \<in> set (db_attempts db))"
proof (cases "db' = db")
  case False
  with assms obtain g db1 where g: "guard_attempt_row db k g (\<lambda>a. a\<lparr>a_status := AttClaimed, a_owner := own,
      a_lease := lease_at, a_claimed_at := Some now, a_error := None\<rparr>) = Inr db1"
    and s: "sync_attempt_summary k db1 = Inr db'" and free: "guard_attempt k db = Inr ()"
    by (auto simp: claim_with_capacity_def err_simps split: sum.splits if_splits)
  from g have "db_attempts db1 = map (\<lambda>a. if a_id a = k \<and> g a then a\<lparr>a_status := AttClaimed, a_owner := own,
      a_lease := lease_at, a_claimed_at := Some now, a_error := None\<rparr> else a) (db_attempts db)"
    by (auto simp: guard_attempt_row_def compare_and_set_def split: option.splits if_splits)
  with sync_attempts[OF s] sync_task_keys[OF s] task_keys_same[OF guard_attempt_tasks[OF g]] free
  show ?thesis by (auto simp: attempt_ids_def)
qed simp

lemma start_shape:
  assumes "start_attempt now k owner db = Inr db'"
  shows "same_shape db db'"
proof -
  from assms obtain g db1 where g: "guard_attempt_row db k g
      (\<lambda>a. a\<lparr>a_status := AttRunning, a_started_at := Some now\<rparr>) = Inr db1"
    and s: "sync_attempt_summary k db1 = Inr db'"
    by (auto simp: start_attempt_def err_simps)
  have "same_shape db db1" by (rule guard_attempt_shape[OF g]) (simp add: kept_attempt_def untimed_def live_status_def)
  then show ?thesis by (rule same_shape_trans) (rule sync_shape[OF s])
qed

lemma renew_shape: "renew_lease now k owner lease db = Inr db' \<Longrightarrow> same_shape db db'"
  unfolding renew_lease_def by (erule guard_attempt_shape) (simp add: kept_attempt_def untimed_def)

lemma policy_shape:
  assumes "set_attempt_retry_policy k policy overwrite db = Inr db'"
  shows "same_shape db db'"
proof (cases "db' = db")
  case False
  with assms obtain g where "guard_attempt_row db k g (\<lambda>a. a\<lparr>a_retry_on := Some policy\<rparr>) = Inr db'"
    by (auto simp: set_attempt_retry_policy_def split: sum.splits if_splits)
  then show ?thesis by (rule guard_attempt_shape) (simp add: kept_attempt_def untimed_def)
qed simp

lemma mapped_tasks_shape:
  "task_write upd \<Longrightarrow> same_shape db (db\<lparr>db_tasks := map (\<lambda>t. if p t then upd t else t) (db_tasks db)\<rparr>)"
  by (auto simp: same_shape_def task_keys_def task_write_def)

lemma finish_task_shape: "finish_task_run now tr text out att own db = Inr db' \<Longrightarrow> same_shape db db'"
  by (auto simp: finish_task_run_def err_simps split: option.splits
      intro: ending_shapes intro!: mapped_tasks_shape simp: task_write_def)

lemma mark_task_shape:
  assumes "mark_task_run now tr st error rows db = Inr db'"
  shows "same_shape db db'"
proof -
  from assms obtain db1 where one: "(case active_attempt db tr of None \<Rightarrow> Inr db
        | Some a \<Rightarrow> cancel_attempt now (a_id a) error None db) = Inr db1"
      and g: "guard_task_row db1 tr (\<lambda>_. \<not> live_of db1 tr)
         (\<lambda>t. t\<lparr>t_status := st, t_end := Some now, t_error := Some error,
                t_counts := (if st = RunSuccess
                  then (t_counts t)\<lparr>c_target_count := rows, c_rows_written := rows\<rparr>
                  else t_counts t)\<rparr>) = Inr db'"
    unfolding mark_task_run_def bind_err_Inr_iff by blast
  from one have "same_shape db db1" by (auto split: option.splits intro: ending_shapes)
  then show ?thesis
    by (rule same_shape_trans) (rule guard_task_shape[OF g], simp add: task_write_def)
qed

lemma run_shapes:
  "admit_run now k db = Inr db' \<Longrightarrow> same_shape db db'"
  "start_run k owner lease db = Inr db' \<Longrightarrow> same_shape db db'"
  "renew_run_lease now k owner lease db = Inr db' \<Longrightarrow> same_shape db db'"
  "finish_run now k st own sla db = Inr db' \<Longrightarrow> same_shape db db'"
  "mark_run now k st own db = Inr db' \<Longrightarrow> same_shape db db'"
  "lock_active_run k db = Inr db' \<Longrightarrow> same_shape db db'"
  by (auto simp: admit_run_def start_run_def renew_run_lease_def finish_run_def mark_run_def
      lock_active_run_def split: if_splits intro: guard_run_shape)

lemma other_shapes:
  "create_run now p key tr st db = Inr (j, db') \<Longrightarrow> same_shape db db'"
  "same_shape db (select_tasks k ex db)"
  "same_shape db (pause_summary tr' count db)"
  by (auto simp: create_run_def pin_def select_tasks_def pause_summary_def Let_def same_shape_def
      task_keys_def split: if_splits)

lemma silent_shapes:
  "release_run_lease now k owner' expired db = (b, db') \<Longrightarrow> same_shape db db'"
  "mark_sla_breached now k db = (b, db') \<Longrightarrow> same_shape db db'"
  by (auto simp: release_run_lease_def mark_sla_breached_def split: sum.splits intro: guard_run_shape)

lemma cancel_run_shape: "cancel_pipeline_run now k db = Inr db' \<Longrightarrow> same_shape db db'"
  by (auto simp: cancel_pipeline_run_def split: option.splits intro: run_shapes)

lemma reopen_shape:
  assumes "reopen_run k own db = Inr db'"
  shows "same_shape db db'"
proof -
  from assms obtain g u db1 noted where "guard_run db k g u = Inr db1" "db' = db1\<lparr>db_interventions := noted\<rparr>"
    by (auto simp: reopen_run_def err_simps split: option.splits if_splits)
  with guard_run_shape[of db k g u db1] show ?thesis by (simp add: same_shape_def task_keys_def)
qed

lemma set_task_log_shape: "set_task_log now tr k owner text db = Inr db' \<Longrightarrow> same_shape db db'"
  by (auto simp: set_task_log_def same_shape_def task_keys_def task_write_def
      split: option.splits dest!: cas_task_keys)

section \<open>One lifecycle operation\<close>

text \<open>
  Every attempt keeps its scope; an attempt that is new, or newly claimed, belongs only to scopes
  without a fence.
\<close>

definition unfenced_scopes :: "engine_db \<Rightarrow> engine_db \<Rightarrow> attempt_row \<Rightarrow> bool" where
  "unfenced_scopes db db' a \<longleftrightarrow> (\<forall>run task. in_scope db' run task a \<longrightarrow> scope_command db run task = None)"

definition scopes_evolve :: "engine_db \<Rightarrow> engine_db \<Rightarrow> bool" where
  "scopes_evolve db db' \<longleftrightarrow>
     (\<forall>a \<in> set (db_attempts db'). a_id a \<in> set (attempt_ids db) \<or> unfenced_scopes db db' a)
     \<and> (\<forall>a \<in> set (db_attempts db'). a_status a = AttClaimed \<longrightarrow> unfenced_scopes db db' a
          \<or> (\<exists>b \<in> set (db_attempts db). a_id b = a_id a \<and> a_status b = AttClaimed))
     \<and> (\<forall>a \<in> set (db_attempts db). \<forall>run task. in_scope db' run task a = in_scope db run task a)"

lemma same_shape_scopes:
  assumes "same_shape db db'"
  shows "scopes_evolve db db'"
proof -
  have "a_id a \<in> set (attempt_ids db)" if "a \<in> set (db_attempts db')" for a
    using that unfolding same_shape_ids[OF assms, symmetric] by (simp add: attempt_ids_def)
  moreover from assms have "in_scope db' run task a = in_scope db run task a" for run task a
    unfolding same_shape_def in_scope_iff by simp
  moreover have "\<exists>b \<in> set (db_attempts db). a_id b = a_id a \<and> a_status b = AttClaimed"
    if a: "a \<in> set (db_attempts db')" "a_status a = AttClaimed" for a
  proof -
    from a(1) obtain n where n: "n < length (db_attempts db')" "a = db_attempts db' ! n" by (auto simp: in_set_conv_nth)
    with assms have "n < length (db_attempts db)" "kept_attempt (db_attempts db ! n) a"
      by (auto simp: same_shape_def list_all2_conv_all_nth)
    with a(2) show ?thesis by (auto simp: kept_attempt_def intro!: bexI[OF _ nth_mem])
  qed
  ultimately show ?thesis by (auto simp: scopes_evolve_def)
qed

lemma bind_scopes:
  assumes inv: "lifecycle_inv db" and "find_or_create_task_run now refusal task run db = Inr (b, db')"
  shows "scopes_evolve db db'"
proof (cases "db' = db")
  case False
  with assms(2) have db': "db' = db\<lparr>db_tasks := db_tasks db @ [new_task_run now (db_next_task db) task run],
       db_next_task := db_next_task db + 1\<rparr>"
    by (auto simp: find_or_create_task_run_def split: option.splits)
  have wi: "work_inv db" using inv by (simp add: lifecycle_inv_def)
  have old: "a_task_run a \<noteq> db_next_task db" if "a \<in> set (db_attempts db)" for a
    using work_inv_fits[OF wi that] work_inv_tasks[OF wi] by (force simp: tasks.table_def)
  show ?thesis
    unfolding scopes_evolve_def db' by (auto simp: attempt_ids_def in_scope_def new_task_run_def dest: old)
qed (simp add: same_shape_scopes)

lemma delete_scopes:
  assumes "delete_skipped_task_run tr db = Inr db'"
  shows "scopes_evolve db db'"
  using assms
  by (auto simp: delete_skipped_task_run_def Let_def scopes_evolve_def attempt_ids_def in_scope_def list_ex_iff
      split: if_splits)

lemma unfenced: "assert_dispatch run task db = Inr () \<Longrightarrow>
    scope_command db run None = None \<and> scope_command db run (Some task) = None"
  by (auto simp: assert_dispatch_def split: option.splits)

lemma queue_scopes:
  assumes inv: "lifecycle_inv db" and q: "queue_attempt now tr nb previous db = Inr (k, db')"
  shows "scopes_evolve db db'"
proof -
  from q obtain db1 db2 where g: "guard_task tr db = Inr ()" and r: "reserve_attempt now tr previous db = Inr db1"
    and i: "insert_attempt now tr nb db1 = Inr (k, db2)" and s: "sync_attempt_summary k db2 = Inr db'"
    by (auto simp: queue_attempt_def err_simps)
  from i obtain number where "db_attempts db2 = db_attempts db1 @ [new_attempt now (db_next_attempt db1) tr number nb]"
      and "db_tasks db2 = db_tasks db1"
    by (auto simp: insert_attempt_def Let_def split: option.splits if_splits)
  moreover have "a_task_run (new_attempt now (db_next_attempt db1) tr number nb) = tr" for number
    by (simp add: new_attempt_def)
  ultimately obtain a where a: "a_task_run a = tr" "db_attempts db2 = db_attempts db1 @ [a]"
      "db_tasks db2 = db_tasks db1" by blast
  from r have keys: "task_keys db1 = task_keys db" and att: "db_attempts db1 = db_attempts db"
    unfolding reserve_attempt_def
    by (auto simp: reserve_row_def task_write_def intro: guard_task_keys guard_task_attempts)
  from i obtain t1 where "row_of t_id tr (db_tasks db1) = Some t1"
    by (auto simp: insert_attempt_def split: option.splits)
  then have "(tr, t_run t1, t_task t1) \<in> set (task_keys db)"
    unfolding keys[symmetric] by (force simp: task_keys_def dest: row_of_Some)
  then obtain t where t: "t \<in> set (db_tasks db)" "t_id t = tr" by (auto simp: task_keys_def)
  from inv have table: "tasks.table (db_next_task db) (db_tasks db)"
    by (simp add: lifecycle_inv_def work_inv_tasks)
  with t g have free: "assert_dispatch (t_run t) (t_task t) db = Inr ()"
    using tasks.table_row[OF table t(1)] by (simp add: guard_task_def)
  have same_keys: "task_keys db' = task_keys db"
    using sync_task_keys[OF s] a(3) keys by (simp add: task_keys_def)
  have "scope_command db run task = None" if "in_scope db' run task a" for run task
  proof -
    from that obtain t' where t': "t' \<in> set (db_tasks db)" "t_id t' = tr" "t_run t' = run"
        "task = None \<or> task = Some (t_task t')"
      unfolding in_scope_iff same_keys by (auto simp: task_keys_def a(1))
    then have "t' = t" using tasks.table_same[OF table t'(1) t(1)] t(2) by simp
    with t' unfenced[OF free] show ?thesis by auto
  qed
  moreover have "db_attempts db' = db_attempts db @ [a]" using sync_attempts[OF s] a(2) att by simp
  moreover have "in_scope db' run task b = in_scope db run task b" for run task b
    by (simp add: in_scope_iff same_keys)
  ultimately show ?thesis by (auto simp: scopes_evolve_def unfenced_scopes_def attempt_ids_def)
qed

lemma claim_scopes:
  assumes inv: "lifecycle_inv db" and c: "claim_with_capacity capacity now k own lease_at wait db = Inr (b, db')"
  shows "scopes_evolve db db'"
proof -
  note kept = claim_keeps_scopes[OF c]
  have same: "in_scope db' run task a = in_scope db run task a" for run task a
    using kept by (simp add: in_scope_iff)
  have "unfenced_scopes db db' a" if a: "a \<in> set (db_attempts db')" "a_id a = k" "db' \<noteq> db" for a
    unfolding unfenced_scopes_def same
  proof (intro allI impI)
    fix run task assume "in_scope db run task a"
    then obtain t where t: "t \<in> set (db_tasks db)" "t_id t = a_task_run a" "t_run t = run"
        "task = None \<or> task = Some (t_task t)" by (auto simp: in_scope_def list_ex_iff)
    from a(1) have "a_id a \<in> set (attempt_ids db')" by (simp add: attempt_ids_def)
    with a(2) kept have "k \<in> set (attempt_ids db)" by simp
    then obtain a0 where a0: "a0 \<in> set (db_attempts db)" "a_id a0 = k" by (auto simp: attempt_ids_def)
    have "a_task_run a = a_task_run a0"
      using claim_with_capacity_evolves[OF inv c] a0 a(1,2) claim_with_capacity_keeps[OF inv c]
      unfolding attempts_evolve_def
      by (metis attempts.table_same lifecycle_inv_def work_inv_attempts)
    moreover have tables: "tasks.table (db_next_task db) (db_tasks db)" "attempts.table (db_next_attempt db) (db_attempts db)"
      using inv by (simp_all add: lifecycle_inv_def work_inv_tasks work_inv_attempts)
    ultimately have "assert_dispatch (t_run t) (t_task t) db = Inr ()"
      using kept a(3) attempts.table_row[OF tables(2) a0(1)] tasks.table_row[OF tables(1) t(1)] a0(2) t(2)
      by (simp add: guard_attempt_def guard_task_def)
    from unfenced[OF this] t(3,4) show "scope_command db run task = None" by auto
  qed
  note free = this
  have "a_id a \<in> set (attempt_ids db)" if "a \<in> set (db_attempts db')" for a
  proof -
    from that have "a_id a \<in> set (attempt_ids db')" by (simp add: attempt_ids_def)
    with kept show ?thesis by simp
  qed
  with kept same free show ?thesis
    unfolding scopes_evolve_def by (cases "db' = db") auto
qed

lemma frame_shapes:
  "same_shape db (db\<lparr>db_controls := cs\<rparr>)" "same_shape db (db\<lparr>db_interventions := noted\<rparr>)"
  "same_shape db (db\<lparr>db_pauses := ps\<rparr>)"
  by (simp_all add: same_shape_def task_keys_def)

lemma lifecycle_step_scopes:
  assumes inv: "lifecycle_inv db" and s: "lifecycle_step capacity db db'"
  shows "scopes_evolve db db'"
  using s
  by cases (blast intro: same_shape_scopes bind_scopes[OF inv] delete_scopes queue_scopes[OF inv] run_shapes
      other_shapes silent_shapes cancel_run_shape reopen_shape policy_shape claim_scopes[OF inv] start_shape renew_shape
      record_attempt_failure_shape ending_shapes finish_task_shape mark_task_shape set_task_log_shape frame_shapes)+

section \<open>The transition system of the controls\<close>

text \<open>
  Lifecycle operations, recorded processes, event waits and probes, windows and observations of
  endings come from other components at any moment; the operations of the controls follow.
\<close>

inductive control_step ::
  "(engine_db \<Rightarrow> attempt_row \<Rightarrow> bool) \<Rightarrow> control_db \<Rightarrow> control_db \<Rightarrow> bool" for capacity where
  lifecycle: "lifecycle_step capacity (c_db c) db \<Longrightarrow> db_controls db = db_controls (c_db c) \<Longrightarrow>
    control_step capacity c (c\<lparr>c_db := db\<rparr>)"
| environment: "control_step capacity c
    (c\<lparr>c_windows := ws, c_processes := ps, c_event_waits := waits, c_probes := probes\<rparr>)"
| observe: "control_step capacity c (acknowledge now k kind c)"
| request: "request_control now w clear uuid q c = (res, c') \<Longrightarrow> control_step capacity c c'"
| advance: "advance now w observed clear run c = (e, c') \<Longrightarrow> control_step capacity c c'"
| reconcile: "reconcile_endings now w clear gone ids pipeline task c = (e, c') \<Longrightarrow> control_step capacity c c'"

definition empty_controls :: control_db where
  "empty_controls = \<lparr>c_db = empty_db, c_windows = \<lparr>w_trackers = [], w_ranges = Map.empty\<rparr>, c_requests = [],
     c_next = 1, c_acks = [], c_processes = [], c_event_waits = [], c_probes = []\<rparr>"

definition controls_reachable :: "(engine_db \<Rightarrow> attempt_row \<Rightarrow> bool) \<Rightarrow> control_db \<Rightarrow> bool" where
  "controls_reachable capacity c \<longleftrightarrow> (control_step capacity)\<^sup>*\<^sup>* empty_controls c"

section \<open>The invariant\<close>

definition has_ended :: "control_db \<Rightarrow> attempt_row \<Rightarrow> bool" where
  "has_ended c a \<longleftrightarrow> \<not> live_status (a_status a) \<and> ended_at c (a_id a) ProcessEnded \<noteq> None
     \<and> ended_at c (a_id a) QueriesEnded \<noteq> None"

text \<open>A stop or abort that no later command of its scope has replaced.\<close>

definition in_force :: "engine_db \<Rightarrow> control_request \<Rightarrow> bool" where
  "in_force db r \<longleftrightarrow> r \<in> set (db_controls db) \<and> k_action r \<in> {CtlStop, CtlAbort}
     \<and> \<not> list_ex (\<lambda>n. k_run n = k_run r \<and> k_id n > k_id r \<and> k_task n = k_task r
            \<and> k_action n \<in> {CtlHold, CtlRelease, CtlStop, CtlAbort, CtlRecover}) (db_controls db)"

definition request_ok :: "control_db \<Rightarrow> control_row \<Rightarrow> bool" where
  "request_ok c r \<longleftrightarrow> set (k_pinned r) \<subseteq> set (attempt_ids (c_db c))
     \<and> (k_status r = CtlCompleted \<longrightarrow>
          (\<forall>a \<in> set (db_attempts (c_db c)). a_id a \<in> set (k_pinned r) \<longrightarrow> has_ended c a))
     \<and> (in_force (c_db c) (control_request.truncate r) \<longrightarrow>
          (\<forall>a \<in> set (db_attempts (c_db c)). live_status (a_status a) \<and> in_scope (c_db c) (k_run r) (k_task r) a
             \<longrightarrow> a_id a \<in> set (k_pinned r)))"

definition control_inv :: "(engine_db \<Rightarrow> attempt_row \<Rightarrow> bool) \<Rightarrow> control_db \<Rightarrow> bool" where
  "control_inv capacity c \<longleftrightarrow> reachable capacity (c_db c)
     \<and> db_controls (c_db c) = map control_request.truncate (c_requests c)
     \<and> sorted_wrt (<) (map k_id (c_requests c)) \<and> (\<forall>r \<in> set (c_requests c). k_id r < c_next c)
     \<and> (\<forall>r \<in> set (c_requests c). request_ok c r)"

lemma control_invD:
  assumes "control_inv capacity c"
  shows control_inv_reachable: "reachable capacity (c_db c)"
    and control_inv_rows: "db_controls (c_db c) = map control_request.truncate (c_requests c)"
    and control_inv_ids: "sorted_wrt (<) (map k_id (c_requests c))"
    and control_inv_next: "r \<in> set (c_requests c) \<Longrightarrow> k_id r < c_next c"
    and control_inv_ok: "r \<in> set (c_requests c) \<Longrightarrow> request_ok c r"
  using assms unfolding control_inv_def by blast+

lemma truncate_simps [simp]:
  "k_id (control_request.truncate r) = k_id r" "k_run (control_request.truncate r) = k_run r"
  "k_task (control_request.truncate r) = k_task r" "k_action (control_request.truncate r) = k_action r"
  by (simp_all add: control_request.truncate_def)

lemma in_force_fenced: "in_force db r \<Longrightarrow> scope_command db (k_run r) (k_task r) \<noteq> None"
  unfolding in_force_def scope_command_def by (auto simp: find_None_iff)

lemma reachable_step: "reachable capacity db \<Longrightarrow> lifecycle_step capacity db db' \<Longrightarrow> reachable capacity db'"
  unfolding reachable_def by (rule rtranclp.rtrancl_into_rtrancl)

text \<open>Attempts only move, and a new one starts in a scope without a fence.\<close>

lemma old_attempt:
  assumes inv: "lifecycle_inv db" and s: "lifecycle_step capacity db db'"
    and a: "a \<in> set (db_attempts db')" "a_id a \<in> set (attempt_ids db)"
  obtains b where "b \<in> set (db_attempts db)" "a_id b = a_id a" "a_task_run b = a_task_run a"
    "attempt_move (a_status b) (a_status a)" "live b \<or> a = b"
proof -
  from a(2) obtain b where b: "b \<in> set (db_attempts db)" "a_id b = a_id a" by (auto simp: attempt_ids_def)
  with lifecycle_step_evolves[OF inv s] obtain a' where a': "a' \<in> set (db_attempts db')" "a_id a' = a_id b"
      "a_task_run a' = a_task_run b" "attempt_move (a_status b) (a_status a')" "\<not> live b \<longrightarrow> a' = b"
    unfolding attempts_evolve_def by blast
  from lifecycle_step_keeps[OF inv s] have "attempts.table (db_next_attempt db') (db_attempts db')"
    by (simp add: lifecycle_inv_def work_inv_attempts)
  from attempts.table_same[OF this a'(1) a(1)] a'(2) b(2) have "a' = a" by simp
  with a' b that show ?thesis by auto
qed

lemma ids_kept:
  assumes "lifecycle_inv db" and "lifecycle_step capacity db db'"
  shows "set (attempt_ids db) \<subseteq> set (attempt_ids db')"
proof
  fix k assume "k \<in> set (attempt_ids db)"
  then obtain a where "a \<in> set (db_attempts db)" "a_id a = k" by (auto simp: attempt_ids_def)
  with lifecycle_step_evolves[OF assms] obtain a' where "a' \<in> set (db_attempts db')" "a_id a' = k"
    unfolding attempts_evolve_def by metis
  then show "k \<in> set (attempt_ids db')" by (auto simp: attempt_ids_def)
qed

lemma move_live: "attempt_move s s' \<Longrightarrow> live_status s' \<Longrightarrow> live_status s"
  by (cases s) (auto simp: live_status_def)

lemma request_ok_move:
  assumes inv: "lifecycle_inv (c_db c)" and s: "lifecycle_step capacity (c_db c) db"
    and same: "db_controls db = db_controls (c_db c)" and ok: "request_ok c r"
  shows "request_ok (c\<lparr>c_db := db\<rparr>) r"
proof -
  let ?c = "c\<lparr>c_db := db\<rparr>"
  from ok have pinned: "set (k_pinned r) \<subseteq> set (attempt_ids (c_db c))" by (simp add: request_ok_def)
  have acks: "ended_at ?c k kind = ended_at c k kind" for k kind by (simp add: ended_at_def)
  have "has_ended ?c a" if completed: "k_status r = CtlCompleted" and a: "a \<in> set (db_attempts db)" "a_id a \<in> set (k_pinned r)" for a
  proof -
    from a pinned have "a_id a \<in> set (attempt_ids (c_db c))" by blast
    with a(1) obtain b where b: "b \<in> set (db_attempts (c_db c))" "a_id b = a_id a" "live b \<or> a = b"
      by (rule old_attempt[OF inv s])
    from ok completed b(1,2) a(2) have "has_ended c b" by (simp add: request_ok_def)
    with b(3) show ?thesis by (simp add: has_ended_def acks live_def)
  qed
  moreover have "a_id a \<in> set (k_pinned r)"
    if force: "in_force db (control_request.truncate r)" and a: "a \<in> set (db_attempts db)" "live_status (a_status a)"
      "in_scope db (k_run r) (k_task r) a" for a
  proof -
    have force': "in_force (c_db c) (control_request.truncate r)" using force by (simp add: in_force_def same)
    from lifecycle_step_scopes[OF inv s] a(1,3) in_force_fenced[OF force']
    have "a_id a \<in> set (attempt_ids (c_db c))" by (auto simp: scopes_evolve_def unfenced_scopes_def)
    with a(1) obtain b where b: "b \<in> set (db_attempts (c_db c))" "a_id b = a_id a" "a_task_run b = a_task_run a"
      "attempt_move (a_status b) (a_status a)" by (rule old_attempt[OF inv s])
    have "in_scope db (k_run r) (k_task r) b" using a(3) b(3) by (simp add: in_scope_def)
    then have "in_scope (c_db c) (k_run r) (k_task r) b"
      using lifecycle_step_scopes[OF inv s] b(1) by (simp add: scopes_evolve_def)
    with ok force' b move_live[OF b(4) a(2)] show ?thesis by (auto simp: request_ok_def)
  qed
  ultimately show ?thesis
    using pinned ids_kept[OF inv s] unfolding request_ok_def by auto
qed

lemma control_inv_move:
  assumes inv: "control_inv capacity c" and s: "lifecycle_step capacity (c_db c) db"
    and same: "db_controls db = db_controls (c_db c)"
  shows "control_inv capacity (c\<lparr>c_db := db\<rparr>)"
proof -
  have li: "lifecycle_inv (c_db c)" by (rule reachable_safe[OF control_inv_reachable[OF inv]])
  show ?thesis
    unfolding control_inv_def
    using reachable_step[OF control_inv_reachable[OF inv] s] control_inv_rows[OF inv] same
      control_inv_ids[OF inv] control_inv_next[OF inv] request_ok_move[OF li s same control_inv_ok[OF inv]]
    by simp
qed

section \<open>Writes of the control tables\<close>

lemma ended_at_acknowledge: "ended_at c k kind \<noteq> None \<Longrightarrow> ended_at (acknowledge now j kind' c) k kind = ended_at c k kind"
  by (auto simp: acknowledge_def ended_at_def map_add_def split: option.splits)

lemma acknowledge_tables [simp]:
  "c_db (acknowledge now j kind c) = c_db c" "c_requests (acknowledge now j kind c) = c_requests c"
  "c_next (acknowledge now j kind c) = c_next c" "c_windows (acknowledge now j kind c) = c_windows c"
  "c_event_waits (acknowledge now j kind c) = c_event_waits c" "c_probes (acknowledge now j kind c) = c_probes c"
  by (simp_all add: acknowledge_def)

lemma has_ended_acknowledge: "has_ended c a \<Longrightarrow> has_ended (acknowledge now j kind c) a"
  by (simp add: has_ended_def ended_at_acknowledge)

lemma control_inv_acknowledge: "control_inv capacity c \<Longrightarrow> control_inv capacity (acknowledge now j kind c)"
  by (auto simp: control_inv_def request_ok_def intro: has_ended_acknowledge)

lemma control_inv_observe: "control_inv capacity c \<Longrightarrow> control_inv capacity (observe_exit now j queries c)"
  by (simp add: observe_exit_def control_inv_acknowledge)

lemma control_inv_frame:
  "control_inv capacity (c\<lparr>c_windows := ws\<rparr>) = control_inv capacity c"
  "control_inv capacity (c\<lparr>c_processes := ps\<rparr>) = control_inv capacity c"
  "control_inv capacity (c\<lparr>c_event_waits := waits\<rparr>) = control_inv capacity c"
  "control_inv capacity (c\<lparr>c_probes := probes\<rparr>) = control_inv capacity c"
  by (simp_all add: control_inv_def request_ok_def has_ended_def ended_at_def)

lemma update_control_rows:
  "map control_request.truncate (c_requests (update_control now k st c)) = map control_request.truncate (c_requests c)"
  "map k_id (c_requests (update_control now k st c)) = map k_id (c_requests c)"
  "c_db (update_control now k st c) = c_db c" "c_next (update_control now k st c) = c_next c"
  by (auto simp: update_control_def control_request.truncate_def)

lemma update_control_row:
  assumes "r \<in> set (c_requests (update_control now k st c))"
  obtains r0 where "r0 \<in> set (c_requests c)" "k_pinned r = k_pinned r0" "k_run r = k_run r0" "k_task r = k_task r0"
    "control_request.truncate r = control_request.truncate r0" "k_id r = k_id r0"
    "k_status r = k_status r0 \<or> (k_id r0 = k \<and> k_status r = st)"
  using assms by (auto simp: update_control_def control_request.truncate_def split: if_splits)

text \<open>A request may be completed once its pinned attempts have ended with evidence.\<close>

lemma control_inv_update:
  assumes inv: "control_inv capacity c"
    and done_ok: "\<And>r a. st = CtlCompleted \<Longrightarrow> r \<in> set (c_requests c) \<Longrightarrow> k_id r = k \<Longrightarrow>
      a \<in> set (db_attempts (c_db c)) \<Longrightarrow> a_id a \<in> set (k_pinned r) \<Longrightarrow> has_ended c a"
  shows "control_inv capacity (update_control now k st c)"
proof -
  let ?c = "update_control now k st c"
  have ends: "has_ended ?c a = has_ended c a" for a
    by (simp add: has_ended_def ended_at_def update_control_def)
  have "request_ok ?c r \<and> k_id r < c_next c" if "r \<in> set (c_requests ?c)" for r
  proof -
    from that obtain r0 where r0: "r0 \<in> set (c_requests c)" "k_pinned r = k_pinned r0" "k_run r = k_run r0" "k_task r = k_task r0"
      "control_request.truncate r = control_request.truncate r0" "k_id r = k_id r0"
      "k_status r = k_status r0 \<or> (k_id r0 = k \<and> k_status r = st)" by (rule update_control_row)
    from control_inv_ok[OF inv r0(1)] control_inv_next[OF inv r0(1)] done_ok[OF _ r0(1)] r0
    show ?thesis by (auto simp: request_ok_def update_control_rows ends)
  qed
  with control_invD(1-3)[OF inv] show ?thesis
    unfolding control_inv_def update_control_rows by simp
qed

lemma control_inv_add:
  assumes inv: "control_inv capacity c" and new: "k_id r = c_next c"
    and pinned: "set (k_pinned r) \<subseteq> set (attempt_ids (c_db c))"
    and immediate: "k_status r = CtlCompleted \<Longrightarrow> k_pinned r = []"
    and covers: "\<And>a. k_action r \<in> {CtlStop, CtlAbort} \<Longrightarrow> a \<in> set (db_attempts (c_db c)) \<Longrightarrow>
      live_status (a_status a) \<Longrightarrow> in_scope (c_db c) (k_run r) (k_task r) a \<Longrightarrow> a_id a \<in> set (k_pinned r)"
  shows "control_inv capacity (add_control r c)"
proof -
  let ?c = "add_control r c"
  have step: "lifecycle_step capacity (c_db c) (c_db ?c)"
    by (simp add: add_control_def lifecycle_step.control)
  have tables: "db_attempts (c_db ?c) = db_attempts (c_db c)" "db_tasks (c_db ?c) = db_tasks (c_db c)"
      "c_acks ?c = c_acks c" "c_requests ?c = c_requests c @ [r]" "c_next ?c = c_next c + 1"
      "db_controls (c_db ?c) = db_controls (c_db c) @ [control_request.truncate r]"
    by (simp_all add: add_control_def)
  have ends: "has_ended ?c a = has_ended c a" for a by (simp add: has_ended_def ended_at_def tables)
  have scope: "in_scope (c_db ?c) run task a = in_scope (c_db c) run task a" for run task a
    by (simp add: in_scope_def tables)
  have "in_force (c_db c) (control_request.truncate s)"
    if "s \<in> set (c_requests c)" "in_force (c_db ?c) (control_request.truncate s)" for s
    using that unfolding in_force_def tables control_inv_rows[OF inv] by auto
  then have old: "request_ok ?c s" if "s \<in> set (c_requests c)" for s
    using control_inv_ok[OF inv that] that by (auto simp: request_ok_def ends scope tables attempt_ids_def)
  have "request_ok ?c r"
    using pinned immediate covers by (auto simp: request_ok_def in_force_def scope tables attempt_ids_def)
  moreover have "sorted_wrt (<) (map k_id (c_requests c @ [r]))"
    using control_inv_ids[OF inv] control_inv_next[OF inv] new by (auto simp: sorted_wrt_append)
  ultimately show ?thesis
    unfolding control_inv_def tables(4-6)
    using reachable_step[OF control_inv_reachable[OF inv] step] control_inv_rows[OF inv] old
      control_inv_next[OF inv] new by (force simp: less_imp_le order.strict_trans)
qed

section \<open>Operations that leave the controls alone\<close>

lemma guard_controls:
  "guard_run db k g u = Inr db' \<Longrightarrow> db_controls db' = db_controls db"
  "guard_task_row db k gt ut = Inr db' \<Longrightarrow> db_controls db' = db_controls db"
  "guard_attempt_row db k ga ua = Inr db' \<Longrightarrow> db_controls db' = db_controls db"
  "sync_attempt_summary k db = Inr db' \<Longrightarrow> db_controls db' = db_controls db"
  by (auto simp: guard_run_def guard_task_row_def guard_attempt_row_def sync_attempt_summary_def split: option.splits)

lemma record_failure_controls: "record_attempt_failure k f overwrite db = Inr db' \<Longrightarrow> db_controls db' = db_controls db"
  by (auto simp: record_attempt_failure_def dest!: guard_controls split: option.splits sum.splits if_splits)

lemma end_attempt_controls: "end_attempt now k g st out db = Inr db' \<Longrightarrow> db_controls db' = db_controls db"
  by (auto simp: end_attempt_def record_attempt_ending_def Let_def err_simps
      dest!: guard_controls record_failure_controls split: if_splits)

lemma operation_controls:
  "cancel_attempt now k err tail db = Inr db' \<Longrightarrow> db_controls db' = db_controls db"
  "find_or_create_task_run now refusal task run db = Inr (b, db') \<Longrightarrow> db_controls db' = db_controls db"
  "finish_task_run now tr text out None own db = Inr db' \<Longrightarrow> db_controls db' = db_controls db"
  "finish_run now k st owner sla db = Inr db' \<Longrightarrow> db_controls db' = db_controls db"
  "cancel_pipeline_run now k db = Inr db' \<Longrightarrow> db_controls db' = db_controls db"
  "reopen_run k owner' db = Inr db' \<Longrightarrow> db_controls db' = db_controls db"
  "create_run now p key tr' st' db = Inr (j, db') \<Longrightarrow> db_controls db' = db_controls db"
  "admit_run now k db = Inr db' \<Longrightarrow> db_controls db' = db_controls db"
  "db_controls (select_tasks k ex db) = db_controls db"
  by (auto simp: cancel_attempt_def find_or_create_task_run_def finish_task_run_def finish_run_def
      cancel_pipeline_run_def reopen_run_def create_run_def admit_run_def select_tasks_def pin_def Let_def err_simps
      dest!: guard_controls end_attempt_controls split: if_splits option.splits)

section \<open>The operations of the controls\<close>

text \<open>States with the same requests, on the way through one transaction.\<close>

definition same_requests :: "(engine_db \<Rightarrow> attempt_row \<Rightarrow> bool) \<Rightarrow> control_db \<Rightarrow> control_db \<Rightarrow> bool" where
  "same_requests capacity c c' \<longleftrightarrow> control_inv capacity c' \<and> c_requests c' = c_requests c \<and> c_next c' = c_next c"

lemma observe_requests [simp]:
  "c_requests (observe_exit now j queries c) = c_requests c" "c_next (observe_exit now j queries c) = c_next c"
  "c_db (observe_exit now j queries c) = c_db c" "c_event_waits (observe_exit now j queries c) = c_event_waits c"
  "c_probes (observe_exit now j queries c) = c_probes c"
  by (simp_all add: observe_exit_def)

lemma cancel_queued_keeps:
  assumes "same_requests capacity c0 c" and "cancel_queued now x c = Inr c'"
  shows "same_requests capacity c0 c'"
proof (cases "x_status x = AttQueued")
  case True
  with assms(2) obtain db where db: "cancel_attempt now (x_id x) ''control'' None (c_db c) = Inr db"
      and c': "c' = observe_exit now (x_id x) True (c\<lparr>c_db := db\<rparr>)"
    by (auto simp: cancel_queued_def err_simps)
  from assms(1) have inv: "control_inv capacity c" by (simp add: same_requests_def)
  have "control_inv capacity (c\<lparr>c_db := db\<rparr>)"
    by (rule control_inv_move[OF inv lifecycle_step.cancel[OF db] operation_controls(1)[OF db]])
  with assms(1) show ?thesis by (simp add: same_requests_def c' control_inv_observe)
next
  case False
  with assms show ?thesis by (simp add: cancel_queued_def)
qed

text \<open>Writes of the lifecycle that leave attempts and controls alone.\<close>

definition quiet_step :: "(engine_db \<Rightarrow> attempt_row \<Rightarrow> bool) \<Rightarrow> engine_db \<Rightarrow> engine_db \<Rightarrow> bool" where
  "quiet_step capacity db db' \<longleftrightarrow> lifecycle_step capacity db db'
     \<and> db_attempts db' = db_attempts db \<and> db_controls db' = db_controls db"

definition beside_attempts :: "(engine_db \<Rightarrow> attempt_row \<Rightarrow> bool) \<Rightarrow> engine_db \<Rightarrow> engine_db \<Rightarrow> bool" where
  "beside_attempts capacity = (quiet_step capacity)\<^sup>*\<^sup>*"

lemma beside_trans: "beside_attempts capacity a b \<Longrightarrow> beside_attempts capacity b d \<Longrightarrow> beside_attempts capacity a d"
  unfolding beside_attempts_def by (rule rtranclp_trans)

lemma beside_refl [simp]: "beside_attempts capacity db db"
  by (simp add: beside_attempts_def)

lemma beside_step:
  "lifecycle_step capacity db db' \<Longrightarrow> db_attempts db' = db_attempts db \<Longrightarrow> db_controls db' = db_controls db
    \<Longrightarrow> beside_attempts capacity db db'"
  unfolding beside_attempts_def quiet_step_def by blast

lemma beside_keeps:
  assumes "beside_attempts capacity (c_db c) db" and "control_inv capacity c"
  shows "control_inv capacity (c\<lparr>c_db := db\<rparr>) \<and> db_attempts db = db_attempts (c_db c)
     \<and> db_controls db = db_controls (c_db c)"
  using assms(1)[unfolded beside_attempts_def]
proof (induction rule: rtranclp_induct)
  case base
  with assms(2) show ?case by simp
next
  case (step x y)
  then have "lifecycle_step capacity (c_db (c\<lparr>c_db := x\<rparr>)) y" "db_controls y = db_controls (c_db (c\<lparr>c_db := x\<rparr>))"
    by (simp_all add: quiet_step_def)
  from control_inv_move[OF _ this] step show ?case by (simp add: quiet_step_def)
qed

lemma finish_unattempted: "finish_task_run now tr text out None own db = Inr db' \<Longrightarrow> db_attempts db' = db_attempts db"
  by (auto simp: finish_task_run_def split: option.splits)

lemma cancel_event_task_beside:
  assumes "cancel_event_task now w run task db = Inr db'"
  shows "beside_attempts capacity db db'"
proof -
  from assms obtain b db1 where b: "find_or_create_task_run now (q_refusal w run task) task run db = Inr (b, db1)"
    and f: "db' = db1 \<or> finish_task_run now (b_task_run b) ''CANCELLED''
      (plain_report (Some ''event wait cancelled'') None) None None db1 = Inr db'"
    by (auto simp: cancel_event_task_def err_simps split: if_splits)
  have "beside_attempts capacity db db1"
    by (rule beside_step[OF lifecycle_step.bind[OF b] unmoved_attempts(12)[OF b] operation_controls(2)[OF b]])
  moreover have "beside_attempts capacity db1 db'"
    using f beside_step[OF lifecycle_step.finish_task finish_unattempted operation_controls(3)] by fastforce
  ultimately show ?thesis by (rule beside_trans)
qed

lemma cancel_event_tasks_keeps:
  assumes "control_inv capacity c" and "cancel_event_tasks now w run task c = Inr c'"
  shows "same_requests capacity c c' \<and> db_attempts (c_db c') = db_attempts (c_db c) \<and> c_acks c' = c_acks c"
proof -
  from assms(2) obtain db where db: "fold_err (cancel_event_task now w run) (event_tasks c run task) (c_db c) = Inr db"
    and c': "c' = c\<lparr>c_db := db, c_windows := window_release_scope (c_db c) run task (c_windows c)\<rparr>"
    by (auto simp: cancel_event_tasks_def err_simps)
  have "beside_attempts capacity (c_db c) db"
    using db by (rule fold_err_invariant) (auto intro: cancel_event_task_beside beside_trans)
  from beside_keeps[OF this assms(1)] show ?thesis
    using control_inv_frame(1)[where c = "c\<lparr>c_db := db\<rparr>" and capacity = capacity] by (simp add: same_requests_def c')
qed

lemma complete_control_keeps:
  assumes inv: "control_inv capacity c" and r: "r \<in> set (c_requests c)"
    and ended: "\<And>a. a \<in> set (db_attempts (c_db c)) \<Longrightarrow> a_id a \<in> set (k_pinned r) \<Longrightarrow> has_ended c a"
    and c': "complete_control now w r c = Inr c'"
  shows "control_inv capacity c'"
proof -
  obtain c1 db where c1: "cancel_event_tasks now w (k_run r) (k_task r) c = Inr c1"
    and db: "db = c_db c1 \<or> cancel_pipeline_run now (k_run r) (c_db c1) = Inr db"
    and c'_def: "c' = update_control now (k_id r) CtlCompleted (c1\<lparr>c_db := db\<rparr>)"
    using c' unfolding complete_control_def bind_err_Inr_iff
    by (elim exE conjE) (auto split: if_splits option.splits)
  note kept = cancel_event_tasks_keeps[OF inv c1]
  have "beside_attempts capacity (c_db c1) db"
    using db beside_step[OF lifecycle_step.cancel_run unmoved_attempts'(2) operation_controls(5)] by fastforce
  from beside_keeps[OF this] kept have moved: "control_inv capacity (c1\<lparr>c_db := db\<rparr>)"
      "db_attempts db = db_attempts (c_db c)" "c_requests c1 = c_requests c"
    by (simp_all add: same_requests_def)
  show ?thesis
    unfolding c'_def
  proof (rule control_inv_update[OF moved(1)])
    fix s a assume s: "s \<in> set (c_requests (c1\<lparr>c_db := db\<rparr>))" "k_id s = k_id r"
      and a: "a \<in> set (db_attempts (c_db (c1\<lparr>c_db := db\<rparr>)))" "a_id a \<in> set (k_pinned s)"
    from s moved(3) r control_inv_ids[OF inv] have "s = r"
      by (auto simp: strict_sorted_iff distinct_map dest: inj_onD)
    with a moved(2) ended[of a] kept show "has_ended (c1\<lparr>c_db := db\<rparr>) a"
      by (simp add: has_ended_def ended_at_def)
  qed
qed

text \<open>What the check before completion says of the attempts.\<close>

lemma not_awaiting:
  assumes "\<not> list_ex awaiting_endings (affected c ids)" and "a \<in> set (db_attempts (c_db c))" and "a_id a \<in> set ids"
  shows "has_ended c a"
  using assms by (auto simp: affected_def list_ex_iff awaiting_endings_def control_attempt_def has_ended_def)

lemma advance_one_keeps:
  assumes inv: "control_inv capacity c" and adv: "advance_one now w observed k c = Inr c'"
  shows "control_inv capacity c'"
proof -
  from adv obtain r where r: "find (\<lambda>r. k_id r = k) (c_requests c) = Some r"
    by (auto simp: advance_one_def split: option.splits)
  from find_SomeD[OF r] have rk: "r \<in> set (c_requests c)" "k_id r = k" by simp_all
  show ?thesis
  proof (cases "k_status r = CtlCompleted")
    case True
    with adv r inv show ?thesis by (simp add: advance_one_def)
  next
    case False
    with adv r obtain c1 where c1: "fold_err (cancel_queued now) (affected c (k_pinned r)) c = Inr c1"
      and rest: "(if event_probes c1 (k_run r) (k_task r) \<noteq> [] then Inr (update_control now k CtlAcknowledged c1)
            else if list_ex awaiting_endings (affected c1 (k_pinned r))
              then Inr (if observed then update_control now k CtlAcknowledged c1 else c1)
            else complete_control now w r c1) = Inr c'"
      by (auto simp: advance_one_def err_simps)
    have "same_requests capacity c c1"
      using c1 by (rule fold_err_invariant) (use inv in \<open>auto simp: same_requests_def[of _ c c] intro: cancel_queued_keeps\<close>)
    then have inv1: "control_inv capacity c1" and r1: "r \<in> set (c_requests c1)"
      using rk by (simp_all add: same_requests_def)
    have update: "control_inv capacity (update_control now k CtlAcknowledged c1)"
      by (rule control_inv_update[OF inv1]) simp
    show ?thesis
    proof (cases "event_probes c1 (k_run r) (k_task r) \<noteq> [] \<or> list_ex awaiting_endings (affected c1 (k_pinned r))")
      case True
      with rest update inv1 show ?thesis by (auto split: if_splits)
    next
      case False
      with rest complete_control_keeps[OF inv1 r1 not_awaiting] show ?thesis by auto
    qed
  qed
qed

lemma advance_loop_keeps:
  "control_inv capacity c \<Longrightarrow> advance_loop now w observed clear rs c = (e, c') \<Longrightarrow> control_inv capacity c'"
proof (induction rs arbitrary: c)
  case (Cons r rs)
  let ?c = "c\<lparr>c_probes := clear r (c_probes c)\<rparr>"
  have inv: "control_inv capacity ?c" using Cons.prems(1) by (simp add: control_inv_frame)
  show ?case
  proof (cases "advance_one now w observed (k_id r) ?c")
    case (Inl err)
    with Cons.prems(2) inv show ?thesis by simp
  next
    case (Inr c2)
    with Cons.prems(2) have "advance_loop now w observed clear rs c2 = (e, c')" by simp
    with Cons.IH[OF advance_one_keeps[OF inv Inr]] show ?thesis .
  qed
qed simp

lemma advance_keeps: "control_inv capacity c \<Longrightarrow> advance now w observed clear run c = (e, c') \<Longrightarrow> control_inv capacity c'"
  unfolding advance_def by (rule advance_loop_keeps)

lemma observe_gone_keeps: "control_inv capacity c \<Longrightarrow> control_inv capacity (observe_gone now w gone ids pipeline task c)"
proof -
  have "control_inv capacity c \<Longrightarrow> control_inv capacity (fold (\<lambda>x. observe_exit now (x_id x) queries) xs c)" for xs queries
    by (induction xs arbitrary: c) (simp_all add: control_inv_observe)
  then show "control_inv capacity c \<Longrightarrow> control_inv capacity (observe_gone now w gone ids pipeline task c)"
    by (simp add: observe_gone_def Let_def)
qed

section \<open>Acceptance\<close>

text \<open>What \<open>check_control\<close> returns covers every live attempt of the scope.\<close>

lemma check_control_attempts:
  assumes "check_control w c q r = Inr attempts"
  shows "set (map x_id attempts) \<subseteq> set (attempt_ids (c_db c))
    \<and> (\<forall>a \<in> set (db_attempts (c_db c)). live_status (a_status a) \<and> in_scope (c_db c) (r_id r) (q_task q) a
         \<longrightarrow> a_id a \<in> set (map x_id attempts))"
proof -
  from assms have attempts: "attempts = filter (\<lambda>x. live_status (x_status x) \<or> x_status x = AttLost
           \<or> x_process_ended x = None \<or> x_queries_ended x = None) (scope_attempts c (r_id r) (q_task q))"
    by (auto simp: check_control_def Let_def err_simps split: if_splits)
  show ?thesis
    unfolding attempts by (auto simp: scope_attempts_def control_attempt_def attempt_ids_def image_iff)
qed

lemma insert_control_new:
  assumes "insert_control now uuid q attempts c = Inr (k, c')"
  shows "c' = c \<or> (\<exists>key. k = c_next c \<and> c' = add_control (new_control now key q attempts k) c)"
  using assms by (auto simp: insert_control_def Let_def err_simps split: if_splits option.splits)

lemma new_control_simps [simp]:
  "k_id (new_control now key q attempts k) = k" "k_run (new_control now key q attempts k) = q_run q"
  "k_task (new_control now key q attempts k) = q_task q" "k_action (new_control now key q attempts k) = q_action q"
  "k_key (new_control now key q attempts k) = key"
  by (simp_all add: new_control_def Let_def)

lemma lifted_Inr [err_simps]: "lifted m = Inr x \<longleftrightarrow> m = Inr x"
  by (simp add: lifted_def split: sum.splits)

lemma prepare_recovery_beside:
  assumes p: "prepare_recovery now w r action k c = Inr c'"
  shows "\<exists>db. beside_attempts capacity (c_db c) db \<and> c' = c\<lparr>c_db := db\<rparr>"
proof (cases "action = CtlRecover")
  case True
  show ?thesis
  proof (cases "r_status r = RunInProgress")
    case True
    with p \<open>action = CtlRecover\<close> show ?thesis by (intro exI[of _ "c_db c"]) (simp add: prepare_recovery_def)
  next
    case False
    with p True obtain db where db: "reopen_run (r_id r) None (c_db c) = Inr db" and "c' = c\<lparr>c_db := db\<rparr>"
      by (auto simp: prepare_recovery_def lifted_def err_simps split: sum.splits)
    with beside_step[OF lifecycle_step.reopen[OF db] unmoved_attempts'(1)[OF db] operation_controls(6)[OF db]]
    show ?thesis by blast
  qed
next
  case False
  with p obtain scope j db where c': "c' = c\<lparr>c_db := db\<rparr>"
    and made: "(case scope of
          None \<Rightarrow> create_run now (r_pipeline r) (restart_key k) TrigManual RunQueued (c_db c)
        | Some exclusive \<Rightarrow> create_manual_run now (r_pipeline r) (restart_key k) exclusive (c_db c)) = Inr (j, db)"
    by (auto simp: prepare_recovery_def err_simps)
  have "beside_attempts capacity (c_db c) db"
  proof (cases scope)
    case None
    with made have m: "create_run now (r_pipeline r) (restart_key k) TrigManual RunQueued (c_db c) = Inr (j, db)" by simp
    show ?thesis by (rule beside_step[OF lifecycle_step.create[OF m] unmoved_attempts(1)[OF m] operation_controls(7)[OF m]])
  next
    case (Some ex)
    with made obtain db1 where m: "create_run now (r_pipeline r) (restart_key k) TrigManual RunQueued (c_db c) = Inr (j, db1)"
      and a: "admit_run now j (select_tasks j ex db1) = Inr db"
      by (auto simp: create_manual_run_def err_simps)
    have "beside_attempts capacity (c_db c) db1"
      by (rule beside_step[OF lifecycle_step.create[OF m] unmoved_attempts(1)[OF m] operation_controls(7)[OF m]])
    moreover have "beside_attempts capacity db1 (select_tasks j ex db1)"
      by (rule beside_step[OF lifecycle_step.select unmoved_attempts(2) operation_controls(9)])
    moreover have "beside_attempts capacity (select_tasks j ex db1) db"
      by (rule beside_step[OF lifecycle_step.admit[OF a] unmoved_attempts(4)[OF a] operation_controls(8)[OF a]])
    ultimately show ?thesis by (blast intro: beside_trans)
  qed
  with c' show ?thesis by blast
qed

lemma prepare_recovery_keeps:
  assumes "control_inv capacity c" and "prepare_recovery now w r action k c = Inr c'"
  shows "control_inv capacity c'"
  using prepare_recovery_beside[OF assms(2), of capacity] beside_keeps[OF _ assms(1)] by blast

lemma accept_parts:
  assumes "accept_control now w uuid q c = Inr ((k, new), c')"
  obtains (old) "c' = c" "\<not> new" "existing_control c q = Inr (Some k)"
    | (new) r attempts c1 where "new" "row_of r_id (q_run q) (db_runs (c_db c)) = Some r"
      "existing_control c q = Inr None" "check_control w c q r = Inr attempts"
      "insert_control now uuid q attempts c = Inr (k, c1)"
      "(if q_action q \<in> set recovery_actions then prepare_recovery now w r (q_action q) k c1 else Inr c1) = Inr c'"
proof (cases "row_of r_id (q_run q) (db_runs (c_db c))")
  case None
  with assms show ?thesis by (simp add: accept_control_def)
next
  case (Some r)
  from assms obtain found where found: "existing_control c q = Inr found"
    and rest: "(case found of Some k \<Rightarrow> Inr ((k, False), c)
          | None \<Rightarrow>
              bind_err (check_control w c q r) (\<lambda>attempts.
              bind_err (insert_control now uuid q attempts c) (\<lambda>(k, c1).
              bind_err (if q_action q \<in> set recovery_actions then prepare_recovery now w r (q_action q) k c1
                        else Inr c1) (\<lambda>c2. Inr ((k, True), c2))))) = Inr ((k, new), c')"
    unfolding accept_control_def Some option.case bind_err_Inr_iff by blast
  show ?thesis
  proof (cases found)
    case (Some j)
    with rest found show ?thesis by (auto intro: old)
  next
    case None
    with rest obtain attempts c1 where "check_control w c q r = Inr attempts" "insert_control now uuid q attempts c = Inr (k, c1)"
      "(if q_action q \<in> set recovery_actions then prepare_recovery now w r (q_action q) k c1 else Inr c1) = Inr c'" "new"
      unfolding None option.case bind_err_Inr_iff by (auto simp: err_simps)
    with Some found None show ?thesis using that(2) by blast
  qed
qed

lemma accept_keeps:
  assumes inv: "control_inv capacity c" and acc: "accept_control now w uuid q c = Inr ((k, new), c')"
  shows "control_inv capacity c'"
  using acc
proof (cases rule: accept_parts)
  case old
  with inv show ?thesis by simp
next
  case (new r attempts c1)
  from new(2) have r: "r_id r = q_run q" by (auto dest: row_of_Some)
  note covered = check_control_attempts[OF new(4)]
  have "control_inv capacity (add_control (new_control now key q attempts (c_next c)) c)" for key
    by (rule control_inv_add[OF inv])
      (use covered r in \<open>auto simp: new_control_def Let_def immediate_actions_def recovery_actions_def split: if_splits\<close>)
  with insert_control_new[OF new(5)] inv have "control_inv capacity c1" by auto
  with new(6) show ?thesis by (auto split: if_splits intro: prepare_recovery_keeps)
qed

lemma request_keeps:
  assumes inv: "control_inv capacity c" and "request_control now w clear uuid q c = (res, c')"
  shows "control_inv capacity c'"
proof (cases "accept_control now w uuid q c")
  case (Inl e)
  with assms show ?thesis by (simp add: request_control_def)
next
  case (Inr x)
  obtain k new c1 where x: "x = ((k, new), c1)" by (metis prod.collapse)
  have "control_inv capacity c1" using accept_keeps[OF inv] Inr x by blast
  then show ?thesis
    using assms(2) Inr x advance_keeps[of capacity c1 now w False clear "Some (q_run q)"]
    by (auto simp: request_control_def split: if_splits prod.splits option.splits)
qed

lemma control_step_keeps:
  assumes inv: "control_inv capacity c" and s: "control_step capacity c c'"
  shows "control_inv capacity c'"
  using s
proof cases
  case (lifecycle db)
  then show ?thesis using control_inv_move[OF inv] by simp
next
  case environment
  with inv show ?thesis by (simp add: control_inv_def request_ok_def has_ended_def ended_at_def)
next
  case observe
  with inv show ?thesis by (simp add: control_inv_acknowledge)
next
  case request
  then show ?thesis using request_keeps[OF inv] by blast
next
  case advance
  then show ?thesis using advance_keeps[OF inv] by blast
next
  case reconcile
  then show ?thesis unfolding reconcile_endings_def using advance_keeps[OF observe_gone_keeps[OF inv]] by blast
qed

interpretation controls: safe_system "control_step capacity" "control_inv capacity"
  by unfold_locales (rule control_step_keeps)

lemma empty_controls_inv: "control_inv capacity empty_controls"
  by (simp add: control_inv_def empty_controls_def reachable_def empty_db_def)

lemma controls_safe: "controls_reachable capacity c \<Longrightarrow> control_inv capacity c"
  unfolding controls_reachable_def by (rule controls.reachable_inv[OF _ empty_controls_inv])

end
