(* ===== verification/Control_Claims.thy ===== *)
theory Control_Claims
  imports Control_Inv
begin

text \<open>
  The properties of the controls: a completed stop is quiet and proved by evidence, a fence in
  force lets nothing start, a keyed request is accepted once, and what advancing a request does.
\<close>

section \<open>Every operation is a path of the lifecycle\<close>

lemma more_controls:
  "claim_with_capacity capacity now k own lease_at wait db = Inr (b, db') \<Longrightarrow> db_controls db' = db_controls db"
  "start_attempt now k owner db = Inr db' \<Longrightarrow> db_controls db' = db_controls db"
  "renew_lease now k owner lease db = Inr db' \<Longrightarrow> db_controls db' = db_controls db"
  "set_attempt_retry_policy k pol overwrite db = Inr db' \<Longrightarrow> db_controls db' = db_controls db"
  "finish_attempt now k ast owner out db = Inr db' \<Longrightarrow> db_controls db' = db_controls db"
  "time_out_attempt now k owner err text db = Inr db' \<Longrightarrow> db_controls db' = db_controls db"
  "lose_attempt now k own msg db = Inr db' \<Longrightarrow> db_controls db' = db_controls db"
  by (auto simp: claim_with_capacity_def start_attempt_def renew_lease_def set_attempt_retry_policy_def
      finish_attempt_def time_out_attempt_def lose_attempt_def err_simps
      dest!: guard_controls end_attempt_controls split: if_splits sum.splits)

lemma task_controls:
  "finish_task_run now tr txt out att own db = Inr db' \<Longrightarrow> db_controls db' = db_controls db"
  "mark_task_run now tr st err rows db = Inr db' \<Longrightarrow> db_controls db' = db_controls db"
  "set_task_log now tr k owner text db = Inr db' \<Longrightarrow> db_controls db' = db_controls db"
  "delete_skipped_task_run tr db = Inr db' \<Longrightarrow> db_controls db' = db_controls db"
  "queue_attempt now tr nb previous db = Inr (k, db') \<Longrightarrow> db_controls db' = db_controls db"
  "db_controls (pause_summary tr count db) = db_controls db"
  by (auto simp: finish_task_run_def mark_task_run_def set_task_log_def delete_skipped_task_run_def
      queue_attempt_def reserve_attempt_def insert_attempt_def pause_summary_def Let_def err_simps
      dest!: guard_controls more_controls(5) operation_controls(1) split: if_splits option.splits)

lemma run_controls:
  "start_run k owner lease db = Inr db' \<Longrightarrow> db_controls db' = db_controls db"
  "renew_run_lease now k owner lease db = Inr db' \<Longrightarrow> db_controls db' = db_controls db"
  "release_run_lease now k owner expired db = (b, db') \<Longrightarrow> db_controls db' = db_controls db"
  "mark_run now k st own db = Inr db' \<Longrightarrow> db_controls db' = db_controls db"
  "mark_sla_breached now k db = (b, db') \<Longrightarrow> db_controls db' = db_controls db"
  "lock_active_run k db = Inr db' \<Longrightarrow> db_controls db' = db_controls db"
  by (auto simp: start_run_def renew_run_lease_def release_run_lease_def mark_run_def mark_sla_breached_def
      lock_active_run_def dest!: guard_controls split: if_splits sum.splits)

lemma lifecycle_step_controls: "lifecycle_step capacity db db' \<Longrightarrow> \<exists>cs. db_controls db' = db_controls db @ cs"
  by (erule lifecycle_step.cases)
    (auto dest: operation_controls(1-8) more_controls task_controls(1-5) run_controls record_failure_controls
      simp: operation_controls(9) task_controls(6))


lemma path_controls:
  "(lifecycle_step capacity)\<^sup>*\<^sup>* db db' \<Longrightarrow> \<exists>cs. db_controls db' = db_controls db @ cs"
proof (induction rule: rtranclp_induct)
  case (step x y)
  then show ?case using lifecycle_step_controls[of capacity x y] by auto
qed simp

definition db_path :: "(engine_db \<Rightarrow> attempt_row \<Rightarrow> bool) \<Rightarrow> control_db \<Rightarrow> control_db \<Rightarrow> bool" where
  "db_path capacity c c' \<longleftrightarrow> (lifecycle_step capacity)\<^sup>*\<^sup>* (c_db c) (c_db c')"

lemma db_path_refl [simp]: "db_path capacity c c"
  by (simp add: db_path_def)

lemma db_path_trans: "db_path capacity a b \<Longrightarrow> db_path capacity b c \<Longrightarrow> db_path capacity a c"
  unfolding db_path_def by (rule rtranclp_trans)

lemma db_path_same: "c_db c' = c_db c \<Longrightarrow> db_path capacity c c'"
  by (simp add: db_path_def)

lemma db_path_step: "lifecycle_step capacity (c_db c) (c_db c') \<Longrightarrow> db_path capacity c c'"
  by (auto simp: db_path_def)

lemma beside_path: "beside_attempts capacity (c_db c) (c_db c') \<Longrightarrow> db_path capacity c c'"
  unfolding beside_attempts_def db_path_def by (erule rtranclp_mono[THEN predicate2D, rotated]) (auto simp: quiet_step_def)

lemma cancel_queued_path: "cancel_queued now x c = Inr c' \<Longrightarrow> db_path capacity c c'"
  by (auto simp: cancel_queued_def err_simps split: if_splits intro!: db_path_step lifecycle_step.cancel)

lemma cancel_event_tasks_path:
  assumes "cancel_event_tasks now w run task c = Inr c'"
  shows "db_path capacity c c'"
proof -
  from assms obtain db where db: "fold_err (cancel_event_task now w run) (event_tasks c run task) (c_db c) = Inr db"
    and c': "c_db c' = db" by (auto simp: cancel_event_tasks_def err_simps)
  have "beside_attempts capacity (c_db c) db"
    using db by (rule fold_err_invariant) (auto intro: cancel_event_task_beside beside_trans)
  with c' show ?thesis by (intro beside_path) simp
qed

lemma update_control_path: "db_path capacity c (update_control now k st c)"
  by (rule db_path_same) (simp add: update_control_rows)

lemma complete_control_path:
  assumes "complete_control now w r c = Inr c'"
  shows "db_path capacity c c'"
proof -
  obtain c1 db where c1: "cancel_event_tasks now w (k_run r) (k_task r) c = Inr c1"
    and db: "db = c_db c1 \<or> cancel_pipeline_run now (k_run r) (c_db c1) = Inr db"
    and c': "c' = update_control now (k_id r) CtlCompleted (c1\<lparr>c_db := db\<rparr>)"
    using assms unfolding complete_control_def bind_err_Inr_iff
    by (elim exE conjE) (auto split: if_splits option.splits)
  have "db_path capacity c1 (c1\<lparr>c_db := db\<rparr>)"
    using db by (auto simp: db_path_def intro: lifecycle_step.cancel_run)
  with cancel_event_tasks_path[OF c1] update_control_path show ?thesis
    unfolding c' by (blast intro: db_path_trans)
qed

lemma advance_one_path:
  assumes "advance_one now w observed k c = Inr c'"
  shows "db_path capacity c c'"
proof -
  from assms obtain r where r: "find (\<lambda>r. k_id r = k) (c_requests c) = Some r"
    by (auto simp: advance_one_def split: option.splits)
  show ?thesis
  proof (cases "k_status r = CtlCompleted")
    case False
    with assms r obtain c1 where c1: "fold_err (cancel_queued now) (affected c (k_pinned r)) c = Inr c1"
      and rest: "(if event_probes c1 (k_run r) (k_task r) \<noteq> [] then Inr (update_control now k CtlAcknowledged c1)
            else if list_ex awaiting_endings (affected c1 (k_pinned r))
              then Inr (if observed then update_control now k CtlAcknowledged c1 else c1)
            else complete_control now w r c1) = Inr c'"
      by (auto simp: advance_one_def err_simps)
    have "db_path capacity c c1"
      using c1 by (rule fold_err_invariant) (auto intro: cancel_queued_path db_path_trans)
    moreover have "db_path capacity c1 c'"
      using rest by (auto split: if_splits intro: update_control_path complete_control_path)
    ultimately show ?thesis by (rule db_path_trans)
  qed (use assms r in \<open>simp add: advance_one_def\<close>)
qed

lemma advance_loop_path: "advance_loop now w observed clear rs c = (e, c') \<Longrightarrow> db_path capacity c c'"
proof (induction rs arbitrary: c)
  case (Cons r rs)
  let ?c = "c\<lparr>c_probes := clear r (c_probes c)\<rparr>"
  have p: "db_path capacity c ?c" by (rule db_path_same) simp
  show ?case
  proof (cases "advance_one now w observed (k_id r) ?c")
    case (Inl err)
    with Cons.prems p show ?thesis by simp
  next
    case (Inr c2)
    with Cons.prems have "advance_loop now w observed clear rs c2 = (e, c')" by simp
    with Cons.IH advance_one_path[OF Inr] p show ?thesis by (blast intro: db_path_trans)
  qed
qed simp

lemma observe_gone_db [simp]: "c_db (observe_gone now w gone ids pipeline task c) = c_db c"
proof -
  have "c_db (fold (\<lambda>x. observe_exit now (x_id x) queries) xs c) = c_db c" for xs queries
    by (induction xs arbitrary: c) simp_all
  then show ?thesis by (simp add: observe_gone_def Let_def)
qed

lemma prepare_recovery_path:
  "prepare_recovery now w r action k c = Inr c' \<Longrightarrow> db_path capacity c c'"
  using prepare_recovery_beside[of now w r action k c c' capacity] by (auto intro: beside_path)

lemma accept_path:
  assumes "accept_control now w uuid q c = Inr ((k, new), c')"
  shows "db_path capacity c c'"
  using assms
proof (cases rule: accept_parts)
  case (new r attempts c1)
  have "db_path capacity c (add_control s c)" for s
    by (rule db_path_step) (simp add: add_control_def lifecycle_step.control)
  with insert_control_new[OF new(5)] have "db_path capacity c c1" by auto
  moreover have "db_path capacity c1 c'" using new(6) by (auto split: if_splits intro: prepare_recovery_path)
  ultimately show ?thesis by (rule db_path_trans)
qed simp

lemma request_path:
  assumes "request_control now w clear uuid q c = (res, c')"
  shows "db_path capacity c c'"
proof (cases "accept_control now w uuid q c")
  case (Inl e)
  with assms show ?thesis by (simp add: request_control_def)
next
  case (Inr x)
  obtain k new c1 where x: "x = ((k, new), c1)" by (metis prod.collapse)
  have "db_path capacity c c1" using accept_path Inr x by blast
  moreover have "db_path capacity c1 c'"
    using assms Inr x advance_loop_path[of now w False clear _ c1]
    by (auto simp: request_control_def advance_def split: if_splits prod.splits option.splits)
  ultimately show ?thesis by (rule db_path_trans)
qed

lemma control_step_path: "control_step capacity c c' \<Longrightarrow> db_path capacity c c'"
proof (induction rule: control_step.induct)
  case (lifecycle c db)
  then show ?case by (auto intro: db_path_step)
next
  case (request now w clear uuid q c res c')
  then show ?case by (rule request_path)
next
  case (advance now w observed clear run c e c')
  then show ?case unfolding advance_def by (rule advance_loop_path)
next
  case (reconcile now w clear gone ids pipeline task c e c')
  then show ?case
    unfolding reconcile_endings_def advance_def using advance_loop_path observe_gone_db unfolding db_path_def by metis
qed (auto intro: db_path_same)

lemma control_history_path: "(control_step capacity)\<^sup>*\<^sup>* c c' \<Longrightarrow> db_path capacity c c'"
  by (induction rule: rtranclp_induct) (auto intro: control_step_path db_path_trans)

section \<open>Nothing starts behind a fence\<close>

text \<open>A queued attempt stays queued or is cancelled, and a cancelled one stays so.\<close>

definition not_started :: "attempt_status \<Rightarrow> attempt_status \<Rightarrow> bool" where
  "not_started s s' \<longleftrightarrow> (s = AttQueued \<longrightarrow> s' \<in> {AttQueued, AttCancelled}) \<and> (s = AttCancelled \<longrightarrow> s' = AttCancelled)"

lemma in_force_earlier:
  assumes "(lifecycle_step capacity)\<^sup>*\<^sup>* db db'" and "in_force db' r" and "r \<in> set (db_controls db)"
  shows "in_force db r"
  using path_controls[OF assms(1)] assms(2,3) by (auto simp: in_force_def)

lemma fenced_step:
  assumes inv: "lifecycle_inv db" and s: "lifecycle_step capacity db db'" and force: "in_force db r"
    and a': "a' \<in> set (db_attempts db')" "in_scope db' (k_run r) (k_task r) a'"
  shows "\<exists>a \<in> set (db_attempts db). a_id a = a_id a' \<and> in_scope db (k_run r) (k_task r) a
    \<and> not_started (a_status a) (a_status a')"
proof -
  note evolve = lifecycle_step_scopes[OF inv s]
  have fenced: "\<not> unfenced_scopes db db' a'"
    using in_force_fenced[OF force] a'(2) by (auto simp: unfenced_scopes_def)
  with evolve a'(1) have "a_id a' \<in> set (attempt_ids db)" by (auto simp: scopes_evolve_def)
  with a'(1) obtain a where a: "a \<in> set (db_attempts db)" "a_id a = a_id a'" "a_task_run a = a_task_run a'"
      "attempt_move (a_status a) (a_status a')" "live a \<or> a' = a"
    by (rule old_attempt[OF inv s])
  have "in_scope db' (k_run r) (k_task r) a" using a'(2) a(3) by (simp add: in_scope_def)
  then have scope: "in_scope db (k_run r) (k_task r) a" using evolve a(1) by (simp add: scopes_evolve_def)
  have "a_status a' \<noteq> AttClaimed" if q: "a_status a = AttQueued"
  proof
    assume "a_status a' = AttClaimed"
    with evolve a'(1) fenced obtain b where b: "b \<in> set (db_attempts db)" "a_id b = a_id a'" "a_status b = AttClaimed"
      by (auto simp: scopes_evolve_def)
    have "attempts.table (db_next_attempt db) (db_attempts db)" using inv by (simp add: lifecycle_inv_def work_inv_attempts)
    from attempts.table_same[OF this b(1) a(1)] a(2) b q show False by simp
  qed
  with a(4) have "not_started (a_status a) (a_status a')"
    by (cases "a_status a") (auto simp: not_started_def)
  with a scope show ?thesis by blast
qed

lemma fenced_path:
  assumes "(lifecycle_step capacity)\<^sup>*\<^sup>* db db'" and "lifecycle_inv db" and "in_force db r" and "in_force db' r"
  shows "\<forall>a' \<in> set (db_attempts db'). in_scope db' (k_run r) (k_task r) a' \<longrightarrow>
    (\<exists>a \<in> set (db_attempts db). a_id a = a_id a' \<and> not_started (a_status a) (a_status a'))"
  using assms
proof (induction rule: rtranclp_induct)
  case base
  show ?case by (auto simp: not_started_def)
next
  case (step x y)
  have "r \<in> set (db_controls x)" using path_controls[OF step.hyps(1)] step.prems(2) by (auto simp: in_force_def)
  with in_force_earlier[OF r_into_rtranclp[of "lifecycle_step capacity", OF step.hyps(2)] step.prems(3)]
  have force: "in_force x r" by blast
  have inv: "lifecycle_inv x" by (rule lifecycle.reachable_inv[OF step.hyps(1) step.prems(1)])
  from step.IH[OF step.prems(1,2) force] fenced_step[OF inv step.hyps(2) force] show ?case
    unfolding not_started_def by (metis insertCI insertE singletonD)
qed


section \<open>One turn of advancing a request\<close>

text \<open>Cancelling an attempt ends its row and leaves every other row alone.\<close>

lemma guard_attempt_others:
  "guard_attempt_row db k g upd = Inr db' \<Longrightarrow> a \<in> set (db_attempts db') \<Longrightarrow>
    (\<And>b. a_id (upd b) = a_id b) \<Longrightarrow> a_id a \<noteq> k \<Longrightarrow> a \<in> set (db_attempts db)"
  by (auto simp: guard_attempt_row_def compare_and_set_def split: option.splits if_splits)

lemma record_failure_others:
  assumes "record_attempt_failure k f overwrite db = Inr db'" and "a \<in> set (db_attempts db')" and "a_id a \<noteq> k"
  shows "a \<in> set (db_attempts db)"
proof (cases "db' = db")
  case False
  with assms(1) obtain row :: attempt_row where "guard_attempt_row db k
      (\<lambda>a. live_status (a_status a) \<and> (a_failure_source a = None \<or> overwrite))
      (with_failure (a_retry_on row) f) = Inr db'"
    by (auto simp: record_attempt_failure_def split: option.splits sum.splits if_splits)
  then show ?thesis by (rule guard_attempt_others[OF _ assms(2) _ assms(3)]) (simp_all add: with_failure_def)
qed (use assms in simp)

lemma cancel_attempt_effect:
  assumes inv: "lifecycle_inv db" and c: "cancel_attempt now k err tail db = Inr db'" and a: "a \<in> set (db_attempts db')"
  shows "if a_id a = k then a_status a = AttCancelled else a \<in> set (db_attempts db)"
proof (cases "a_id a = k")
  case True
  from c have e: "end_attempt now k (\<lambda>a. live_status (a_status a)) AttCancelled (plain_report (Some err) tail) db = Inr db'"
    by (simp add: cancel_attempt_def)
  obtain a' where a': "row_of a_id k (db_attempts db') = Some a'" "a_status a' = AttCancelled"
    by (rule end_attempt_result[OF inv e]) (auto simp: live_def live_status_def with_failure_def)
  have "attempts.table (db_next_attempt db') (db_attempts db')"
    using cancel_attempt_keeps[OF inv c] by (simp add: lifecycle_inv_def work_inv_attempts)
  from attempts.table_row[OF this a] a' True show ?thesis by simp
next
  case False
  from c obtain db1 db2 where r: "record_attempt_ending k AttCancelled True db = Inr db1"
    and g: "guard_attempt_row db1 k (\<lambda>a. live_status (a_status a))
      (ended now AttCancelled (plain_report (Some err) tail)) = Inr db2"
    and s: "sync_attempt_summary k db2 = Inr db'"
    by (auto simp: cancel_attempt_def end_attempt_def err_simps plain_report_def)
  from a sync_attempts[OF s] have "a \<in> set (db_attempts db2)" by simp
  then have "a \<in> set (db_attempts db1)"
    by (rule guard_attempt_others[OF g]) (simp_all add: ended_def False)
  with r False show ?thesis
    by (auto simp: record_attempt_ending_def Let_def split: if_splits dest: record_failure_others)
qed

lemma cancel_attempt_succeeds:
  assumes inv: "lifecycle_inv db" and a: "a \<in> set (db_attempts db)" "live_status (a_status a)"
  shows "\<exists>db'. cancel_attempt now (a_id a) err tail db = Inr db'"
proof -
  have "attempts.table (db_next_attempt db) (db_attempts db)"
    using inv by (simp add: lifecycle_inv_def work_inv_attempts)
  from attempts.table_row[OF this a(1)] a(2) show ?thesis
    unfolding cancel_attempt_def
    by (subst end_attempt_iff[OF inv]) (auto simp: live_def with_failure_def)
qed

lemma end_attempt_runs: "end_attempt now k g st out db = Inr db' \<Longrightarrow> db_runs db' = db_runs db"
proof -
  have g: "guard_attempt_row d k g' u = Inr d' \<Longrightarrow> db_runs d' = db_runs d" for d g' u d'
    by (auto simp: guard_attempt_row_def split: option.splits)
  have f: "record_attempt_failure k f False d = Inr d' \<Longrightarrow> db_runs d' = db_runs d" for f d d'
    by (auto simp: record_attempt_failure_def dest!: g split: option.splits sum.splits if_splits)
  have s: "sync_attempt_summary k d = Inr d' \<Longrightarrow> db_runs d' = db_runs d" for d d'
    by (auto simp: sync_attempt_summary_def split: option.splits)
  show "end_attempt now k g st out db = Inr db' \<Longrightarrow> db_runs db' = db_runs db"
    by (auto simp: end_attempt_def record_attempt_ending_def Let_def err_simps dest!: g f s split: if_splits)
qed

lemma cancel_event_task_succeeds:
  assumes "q_refusal w run task = None"
  shows "\<exists>db'. cancel_event_task now w run task db = Inr db' \<and> db_runs db' = db_runs db"
  using assms
  by (auto simp: cancel_event_task_def find_or_create_task_run_def finish_task_run_def run_statuses_def
      split: option.splits)


text \<open>The queued ones of a list of attempts are cancelled with both endings; the others stay.\<close>

definition queued_ids :: "control_attempt list \<Rightarrow> int set" where
  "queued_ids xs = {x_id x | x. x \<in> set xs \<and> x_status x = AttQueued}"

definition queued_cancelled :: "control_attempt list \<Rightarrow> control_db \<Rightarrow> control_db \<Rightarrow> bool" where
  "queued_cancelled xs c c' \<longleftrightarrow> set (attempt_ids (c_db c')) = set (attempt_ids (c_db c))
     \<and> c_event_waits c' = c_event_waits c \<and> c_probes c' = c_probes c \<and> db_runs (c_db c') = db_runs (c_db c)
     \<and> (\<forall>a \<in> set (db_attempts (c_db c')).
          if a_id a \<in> queued_ids xs then has_ended c' a
          else a \<in> set (db_attempts (c_db c)) \<and> (\<forall>kind. ended_at c' (a_id a) kind = ended_at c (a_id a) kind))"

lemma ended_at_observe:
  "ended_at (observe_exit now k True c) j kind \<noteq> None \<longleftrightarrow> j = k \<or> ended_at c j kind \<noteq> None"
  "j \<noteq> k \<Longrightarrow> ended_at (observe_exit now k True c) j kind = ended_at c j kind"
  by (cases kind; auto simp: observe_exit_def acknowledge_def ended_at_def map_add_def split: option.splits)+

lemma cancel_queued_fold:
  assumes "control_inv capacity c" and "distinct (map x_id xs)"
    and "\<And>x. x \<in> set xs \<Longrightarrow> x_status x = AttQueued \<Longrightarrow>
      \<exists>a \<in> set (db_attempts (c_db c)). a_id a = x_id x \<and> live_status (a_status a)"
  shows "\<exists>c'. fold_err (cancel_queued now) xs c = Inr c' \<and> same_requests capacity c c' \<and> queued_cancelled xs c c'"
  using assms
proof (induction xs arbitrary: c)
  case Nil
  then show ?case by (simp add: same_requests_def queued_cancelled_def queued_ids_def)
next
  case (Cons x xs)
  show ?case
  proof (cases "x_status x = AttQueued")
    case False
    then have "queued_ids (x # xs) = queued_ids xs" by (auto simp: queued_ids_def)
    moreover have "cancel_queued now x c = Inr c" using False by (simp add: cancel_queued_def)
    ultimately show ?thesis using Cons.IH[OF Cons.prems(1)] Cons.prems(2,3) by (simp add: queued_cancelled_def)
  next
    case True
    from Cons.prems(3)[of x] True obtain a where a: "a \<in> set (db_attempts (c_db c))" "a_id a = x_id x" "live_status (a_status a)" by auto
    have inv: "lifecycle_inv (c_db c)" by (rule reachable_safe[OF control_inv_reachable[OF Cons.prems(1)]])
    from cancel_attempt_succeeds[OF inv a(1,3)] a(2) obtain db
      where db: "cancel_attempt now (x_id x) ''control'' None (c_db c) = Inr db" by metis
    define c1 where "c1 = observe_exit now (x_id x) True (c\<lparr>c_db := db\<rparr>)"
    have one: "cancel_queued now x c = Inr c1" by (simp add: cancel_queued_def True db c1_def)
    have req: "same_requests capacity c c1"
      by (rule cancel_queued_keeps[OF _ one]) (simp add: same_requests_def Cons.prems(1))
    then have inv1: "control_inv capacity c1" by (simp add: same_requests_def)
    have effect: "if a_id b = x_id x then a_status b = AttCancelled else b \<in> set (db_attempts (c_db c))"
      if "b \<in> set (db_attempts (c_db c1))" for b
      using cancel_attempt_effect[OF inv db, of b] that by (simp add: c1_def)
    have step: "lifecycle_step capacity (c_db c) db" by (rule lifecycle_step.cancel[OF db])
    have ids: "set (attempt_ids (c_db c1)) = set (attempt_ids (c_db c))"
      using same_shape_ids[OF ending_shapes(3)[OF db]] by (simp add: c1_def)
    have ends: "ended_at c1 (x_id x) kind \<noteq> None" "j \<noteq> x_id x \<Longrightarrow> ended_at c1 j kind = ended_at c j kind" for j kind
      unfolding c1_def ended_at_observe(1) by (simp_all add: ended_at_observe(2)) (simp add: ended_at_def)
    have rest: "\<exists>b \<in> set (db_attempts (c_db c1)). a_id b = x_id y \<and> live_status (a_status b)"
      if y: "y \<in> set xs" "x_status y = AttQueued" for y
    proof -
      from Cons.prems(3)[of y] y obtain b where b: "b \<in> set (db_attempts (c_db c))" "a_id b = x_id y" "live_status (a_status b)" by auto
      from b(1) ids have "a_id b \<in> set (attempt_ids (c_db c1))" by (auto simp: attempt_ids_def)
      then obtain b' where b': "b' \<in> set (db_attempts (c_db c1))" "a_id b' = a_id b" by (auto simp: attempt_ids_def)
      from Cons.prems(2) have "x_id x \<notin> x_id ` set xs" by simp
      with y(1) have "x_id y \<noteq> x_id x" by (metis imageI)
      with effect[OF b'(1)] b' b(2) have "b' \<in> set (db_attempts (c_db c))" by simp
      moreover have "attempts.table (db_next_attempt (c_db c)) (db_attempts (c_db c))"
        using inv by (simp add: lifecycle_inv_def work_inv_attempts)
      ultimately have "b' = b" using attempts.table_same b(1) b'(2) by blast
      with b b' show ?thesis by blast
    qed
    from Cons.IH[OF inv1 _ rest] Cons.prems(2) obtain c' where c': "fold_err (cancel_queued now) xs c1 = Inr c'"
      and req': "same_requests capacity c1 c'" and can: "queued_cancelled xs c1 c'" by auto
    have ids2: "queued_ids (x # xs) = insert (x_id x) (queued_ids xs)" using True by (auto simp: queued_ids_def)
    have fresh: "x_id x \<notin> queued_ids xs" using Cons.prems(2) by (auto simp: queued_ids_def image_iff)
    have "if a_id b \<in> queued_ids (x # xs) then has_ended c' b
        else b \<in> set (db_attempts (c_db c)) \<and> (\<forall>kind. ended_at c' (a_id b) kind = ended_at c (a_id b) kind)"
      if b: "b \<in> set (db_attempts (c_db c'))" for b
    proof (cases "a_id b = x_id x")
      case True
      with can b fresh have "b \<in> set (db_attempts (c_db c1))" "\<forall>kind. ended_at c' (a_id b) kind = ended_at c1 (a_id b) kind"
        by (auto simp: queued_cancelled_def)
      with effect[of b] True ends(1) show ?thesis by (simp add: ids2 has_ended_def live_status_def)
    next
      case False
      with can b effect[of b] ends(2) show ?thesis by (auto simp: ids2 queued_cancelled_def split: if_splits)
    qed
    moreover have "db_runs (c_db c1) = db_runs (c_db c)"
      using end_attempt_runs db by (simp add: c1_def cancel_attempt_def)
    ultimately have "queued_cancelled (x # xs) c c'"
      using can ids by (simp add: queued_cancelled_def c1_def)
    with c' one req req' show ?thesis by (auto simp: same_requests_def)
  qed
qed

lemma cancel_event_tasks_succeeds:
  assumes "\<And>task. q_refusal w run task = None"
  shows "\<exists>c'. cancel_event_tasks now w run task c = Inr c' \<and> db_runs (c_db c') = db_runs (c_db c)
     \<and> c_requests c' = c_requests c"
proof -
  have "\<exists>db'. fold_err (cancel_event_task now w run) ts db = Inr db' \<and> db_runs db' = db_runs db" for ts db
  proof (induction ts arbitrary: db)
    case (Cons t ts)
    from cancel_event_task_succeeds[OF assms, of now t db] obtain db1
      where "cancel_event_task now w run t db = Inr db1" "db_runs db1 = db_runs db" by blast
    with Cons.IH[of db1] show ?case by auto
  qed simp
  then obtain db' where "fold_err (cancel_event_task now w run) (event_tasks c run task) (c_db c) = Inr db'"
    "db_runs db' = db_runs (c_db c)" by blast
  then show ?thesis by (auto simp: cancel_event_tasks_def)
qed

lemma cancel_run_succeeds:
  assumes "run_inv db" and "row_of r_id k (db_runs db) = Some run" and "r_status run \<in> {RunQueued, RunInProgress}"
  shows "\<exists>db'. cancel_pipeline_run now k db = Inr db'"
  using assms
  by (auto simp: cancel_pipeline_run_def finish_run_def finished_run_statuses_def terminal_statuses_def guard_run_Inr[OF assms(1)])


lemma complete_control_succeeds:
  assumes inv: "control_inv capacity c" and free: "\<And>task. q_refusal w (k_run r) task = None"
    and run: "row_of r_id (k_run r) (db_runs (c_db c)) \<noteq> None"
  shows "\<exists>c2. complete_control now w r c = Inr (update_control now (k_id r) CtlCompleted c2) \<and> c_requests c2 = c_requests c"
proof -
  obtain c1 where c1: "cancel_event_tasks now w (k_run r) (k_task r) c = Inr c1"
    and same: "db_runs (c_db c1) = db_runs (c_db c)" "c_requests c1 = c_requests c"
    using cancel_event_tasks_succeeds[OF free] by blast
  have "control_inv capacity c1" using cancel_event_tasks_keeps[OF inv c1] by (simp add: same_requests_def)
  then have "run_inv (c_db c1)" using reachable_safe[OF control_inv_reachable] by (auto simp: lifecycle_inv_def)
  then have "\<exists>db. (if k_task r = None then
                 (case row_of r_id (k_run r) (db_runs (c_db c1)) of
                    None \<Rightarrow> Inl (MissingRow (k_run r))
                  | Some run \<Rightarrow>
                      if r_status run \<in> {RunQueued, RunInProgress}
                      then cancel_pipeline_run now (k_run r) (c_db c1) else Inr (c_db c1))
               else Inr (c_db c1)) = Inr db"
    using run same(1) cancel_run_succeeds[of "c_db c1" "k_run r"] by auto
  then obtain db where "complete_control now w r c = Inr (update_control now (k_id r) CtlCompleted (c1\<lparr>c_db := db\<rparr>))"
    unfolding complete_control_def c1 by auto
  with same(2) show ?thesis by (intro exI[of _ "c1\<lparr>c_db := db\<rparr>"]) simp
qed

text \<open>What one turn does to a pending request without probes.\<close>

lemma advance_turn:
  assumes inv: "control_inv capacity c" and r: "r \<in> set (c_requests c)" "k_status r \<noteq> CtlCompleted"
    and probes: "event_probes c (k_run r) (k_task r) = []" and free: "\<And>task. q_refusal w (k_run r) task = None"
    and run: "row_of r_id (k_run r) (db_runs (c_db c)) \<noteq> None"
  defines "ready \<equiv> \<forall>a \<in> set (db_attempts (c_db c)). a_id a \<in> set (k_pinned r) \<longrightarrow> a_status a = AttQueued \<or> has_ended c a"
  shows "\<exists>c2 st. advance_one now w observed (k_id r) c = Inr (if ready \<or> observed then update_control now (k_id r) st c2 else c2)
    \<and> st = (if ready then CtlCompleted else CtlAcknowledged) \<and> c_requests c2 = c_requests c"
proof -
  have "distinct (map k_id (c_requests c))" using control_inv_ids[OF inv] by (simp add: strict_sorted_iff)
  with r have found: "find (\<lambda>s. k_id s = k_id r) (c_requests c) = Some r"
    using row_of_distinct[of k_id "c_requests c" r] by (simp add: row_of_def)
  have li: "lifecycle_inv (c_db c)" by (rule reachable_safe[OF control_inv_reachable[OF inv]])
  then have table: "attempts.table (db_next_attempt (c_db c)) (db_attempts (c_db c))"
    by (simp add: lifecycle_inv_def work_inv_attempts)
  have "distinct (map x_id (affected c (k_pinned r)))"
    using table by (simp add: affected_def control_attempt_def o_def attempts.table_def distinct_map_filter distinct_map inj_on_def)
  moreover have "\<exists>a \<in> set (db_attempts (c_db c)). a_id a = x_id x \<and> live_status (a_status a)"
    if "x \<in> set (affected c (k_pinned r))" "x_status x = AttQueued" for x
    using that by (auto simp: affected_def control_attempt_def live_status_def)
  ultimately obtain c1 where c1: "fold_err (cancel_queued now) (affected c (k_pinned r)) c = Inr c1"
    and same: "same_requests capacity c c1" and can: "queued_cancelled (affected c (k_pinned r)) c c1"
    using cancel_queued_fold[OF inv, of "affected c (k_pinned r)" now] by blast
  have q: "a_id a \<in> queued_ids (affected c (k_pinned r)) \<longleftrightarrow> a_id a \<in> set (k_pinned r) \<and> a_status a = AttQueued"
    if a: "a \<in> set (db_attempts (c_db c))" for a
  proof
    show "a_id a \<in> set (k_pinned r) \<and> a_status a = AttQueued" if "a_id a \<in> queued_ids (affected c (k_pinned r))"
      using that attempts.table_same[OF table _ a] by (auto simp: queued_ids_def affected_def control_attempt_def)
    assume "a_id a \<in> set (k_pinned r) \<and> a_status a = AttQueued"
    then have "control_attempt c a \<in> set (affected c (k_pinned r))" "x_status (control_attempt c a) = AttQueued"
        "a_id a = x_id (control_attempt c a)"
      using a by (auto simp: affected_def control_attempt_def)
    then show "a_id a \<in> queued_ids (affected c (k_pinned r))" unfolding queued_ids_def by blast
  qed
  have "list_ex awaiting_endings (affected c1 (k_pinned r)) \<longleftrightarrow> (\<exists>a \<in> set (db_attempts (c_db c1)). a_id a \<in> set (k_pinned r) \<and> \<not> has_ended c1 a)"
    by (auto simp: affected_def list_ex_iff awaiting_endings_def control_attempt_def has_ended_def)
  also have "\<dots> \<longleftrightarrow> \<not> ready"
  proof
    assume "\<exists>a \<in> set (db_attempts (c_db c1)). a_id a \<in> set (k_pinned r) \<and> \<not> has_ended c1 a"
    then obtain a where a: "a \<in> set (db_attempts (c_db c1))" "a_id a \<in> set (k_pinned r)" "\<not> has_ended c1 a" by blast
    with can have old: "a \<in> set (db_attempts (c_db c))" "\<forall>kind. ended_at c1 (a_id a) kind = ended_at c (a_id a) kind"
      "a_id a \<notin> queued_ids (affected c (k_pinned r))" by (auto simp: queued_cancelled_def split: if_splits)
    with q[OF old(1)] a show "\<not> ready" by (auto simp: ready_def has_ended_def)
  next
    assume "\<not> ready"
    then obtain a where a: "a \<in> set (db_attempts (c_db c))" "a_id a \<in> set (k_pinned r)" "a_status a \<noteq> AttQueued" "\<not> has_ended c a"
      by (auto simp: ready_def)
    then have "a_id a \<in> set (attempt_ids (c_db c))" by (simp add: attempt_ids_def)
    with can have "a_id a \<in> set (attempt_ids (c_db c1))" by (simp add: queued_cancelled_def)
    then obtain b where b: "b \<in> set (db_attempts (c_db c1))" "a_id b = a_id a" by (auto simp: attempt_ids_def)
    have nq: "a_id b \<notin> queued_ids (affected c (k_pinned r))" using q[OF a(1)] a(3) b(2) by simp
    with can b(1) have old: "b \<in> set (db_attempts (c_db c))" "\<forall>kind. ended_at c1 (a_id b) kind = ended_at c (a_id b) kind"
      by (auto simp: queued_cancelled_def)
    have "b = a" using attempts.table_same[OF table old(1) a(1) b(2)] .
    with a b old show "\<exists>a \<in> set (db_attempts (c_db c1)). a_id a \<in> set (k_pinned r) \<and> \<not> has_ended c1 a"
      by (auto simp: has_ended_def)
  qed
  finally have waiting: "list_ex awaiting_endings (affected c1 (k_pinned r)) \<longleftrightarrow> \<not> ready" .
  have no_probe: "event_probes c1 (k_run r) (k_task r) = []"
    using probes can by (simp add: event_probes_def event_tasks_def queued_cancelled_def)
  have adv: "advance_one now w observed (k_id r) c = (if \<not> ready
      then Inr (if observed then update_control now (k_id r) CtlAcknowledged c1 else c1) else complete_control now w r c1)"
    by (simp add: advance_one_def found r(2) c1 no_probe waiting)
  have inv1: "control_inv capacity c1" and rows: "c_requests c1 = c_requests c" using same by (simp_all add: same_requests_def)
  have "row_of r_id (k_run r) (db_runs (c_db c1)) \<noteq> None" using run can by (simp add: queued_cancelled_def)
  from complete_control_succeeds[OF inv1 free this] obtain c2
    where "complete_control now w r c1 = Inr (update_control now (k_id r) CtlCompleted c2)" "c_requests c2 = c_requests c1" by blast
  with adv rows show ?thesis by (cases ready) auto
qed


section \<open>Requests are durable\<close>

text \<open>A later row of a request: the same identity, scope, action and attempts; a completed row is final.\<close>

definition kept_request :: "control_row \<Rightarrow> control_row \<Rightarrow> bool" where
  "kept_request r r' \<longleftrightarrow> control_request.truncate r' = control_request.truncate r \<and> k_key r' = k_key r
     \<and> k_pinned r' = k_pinned r \<and> (k_status r = CtlCompleted \<longrightarrow> r' = r)"

definition requests_evolve :: "control_db \<Rightarrow> control_db \<Rightarrow> bool" where
  "requests_evolve c c' \<longleftrightarrow> (\<exists>ys new. c_requests c' = ys @ new \<and> list_all2 kept_request (c_requests c) ys)"

lemma kept_request_refl [simp]: "kept_request r r"
  by (simp add: kept_request_def)

lemma kept_request_trans: "kept_request a b \<Longrightarrow> kept_request b c \<Longrightarrow> kept_request a c"
  by (auto simp: kept_request_def)

lemma requests_refl: "c_requests c' = c_requests c \<Longrightarrow> requests_evolve c c'"
  unfolding requests_evolve_def by (intro exI[of _ "c_requests c"] exI[of _ "[]"]) (simp add: list_all2_refl)

lemma requests_trans:
  assumes "requests_evolve a b" and "requests_evolve b c"
  shows "requests_evolve a c"
proof -
  from assms obtain ys new zs new' where b: "c_requests b = ys @ new" "list_all2 kept_request (c_requests a) ys"
    and c: "c_requests c = zs @ new'" "list_all2 kept_request (ys @ new) zs"
    unfolding requests_evolve_def by metis
  from c(2) obtain us vs where zs: "zs = us @ vs" "list_all2 kept_request ys us"
    by (auto simp: list_all2_append1)
  have "list_all2 kept_request (c_requests a) us"
    by (rule list_all2_trans[OF _ b(2) zs(2)]) (rule kept_request_trans)
  with c(1) zs(1) show ?thesis unfolding requests_evolve_def by (metis append.assoc)
qed

lemma update_control_evolves: "requests_evolve c (update_control now k st c)"
  unfolding requests_evolve_def
  by (intro exI[of _ "c_requests (update_control now k st c)"] exI[of _ "[]"])
    (auto simp: update_control_def list_all2_map2 kept_request_def control_request.truncate_def intro!: list_all2_refl list.rel_refl_strong)

lemma add_control_evolves: "requests_evolve c (add_control r c)"
  unfolding requests_evolve_def
  by (intro exI[of _ "c_requests c"] exI[of _ "[r]"]) (simp add: add_control_def list_all2_refl)

lemma cancel_queued_requests: "cancel_queued now x c = Inr c' \<Longrightarrow> c_requests c' = c_requests c"
  by (auto simp: cancel_queued_def err_simps split: if_splits)

lemma complete_evolves: "complete_control now w r c = Inr c' \<Longrightarrow> requests_evolve c c'"
proof -
  assume "complete_control now w r c = Inr c'"
  then obtain c1 db where "cancel_event_tasks now w (k_run r) (k_task r) c = Inr c1"
      and c': "c' = update_control now (k_id r) CtlCompleted (c1\<lparr>c_db := db\<rparr>)"
    unfolding complete_control_def bind_err_Inr_iff by blast
  then have "c_requests (c1\<lparr>c_db := db\<rparr>) = c_requests c" by (auto simp: cancel_event_tasks_def err_simps)
  from requests_trans[OF requests_refl[OF this] update_control_evolves] show ?thesis unfolding c' .
qed

lemma advance_one_evolves:
  assumes "advance_one now w observed k c = Inr c'"
  shows "requests_evolve c c'"
proof -
  from assms obtain r where r: "find (\<lambda>r. k_id r = k) (c_requests c) = Some r"
    by (auto simp: advance_one_def split: option.splits)
  show ?thesis
  proof (cases "k_status r = CtlCompleted")
    case False
    with assms r obtain c1 where c1: "fold_err (cancel_queued now) (affected c (k_pinned r)) c = Inr c1"
      and rest: "(if event_probes c1 (k_run r) (k_task r) \<noteq> [] then Inr (update_control now k CtlAcknowledged c1)
            else if list_ex awaiting_endings (affected c1 (k_pinned r))
              then Inr (if observed then update_control now k CtlAcknowledged c1 else c1)
            else complete_control now w r c1) = Inr c'"
      by (auto simp: advance_one_def err_simps)
    have "c_requests c1 = c_requests c"
      using c1 by (rule fold_err_invariant) (auto dest: cancel_queued_requests)
    then have "requests_evolve c c1" by (rule requests_refl)
    moreover have "requests_evolve c1 c'"
      using rest by (auto split: if_splits intro: update_control_evolves complete_evolves requests_refl)
    ultimately show ?thesis by (rule requests_trans)
  qed (use assms r in \<open>simp add: advance_one_def requests_refl\<close>)
qed

lemma advance_loop_evolves: "advance_loop now w observed clear rs c = (e, c') \<Longrightarrow> requests_evolve c c'"
proof (induction rs arbitrary: c)
  case (Cons r rs)
  let ?c = "c\<lparr>c_probes := clear r (c_probes c)\<rparr>"
  have p: "requests_evolve c ?c" by (rule requests_refl) simp
  show ?case
  proof (cases "advance_one now w observed (k_id r) ?c")
    case (Inl err)
    with Cons.prems p show ?thesis by simp
  next
    case (Inr c2)
    with Cons.prems have "advance_loop now w observed clear rs c2 = (e, c')" by simp
    with Cons.IH advance_one_evolves[OF Inr] p show ?thesis by (blast intro: requests_trans)
  qed
qed (simp add: requests_refl)

lemma observe_gone_requests [simp]: "c_requests (observe_gone now w gone ids pipeline task c) = c_requests c"
proof -
  have "c_requests (fold (\<lambda>x. observe_exit now (x_id x) queries) xs c) = c_requests c" for xs queries
    by (induction xs arbitrary: c) simp_all
  then show ?thesis by (simp add: observe_gone_def Let_def)
qed

lemma accept_evolves:
  assumes "accept_control now w uuid q c = Inr ((k, new), c')"
  shows "requests_evolve c c'"
  using assms
proof (cases rule: accept_parts)
  case (new r attempts c1)
  from insert_control_new[OF new(5)] have "requests_evolve c c1"
    by (auto intro: requests_refl add_control_evolves)
  moreover have "requests_evolve c1 c'"
    using new(6) prepare_recovery_beside[of now w r "q_action q" k c1 c'] by (force split: if_splits intro: requests_refl)
  ultimately show ?thesis by (rule requests_trans)
qed (simp add: requests_refl)

lemma request_evolves:
  assumes "request_control now w clear uuid q c = (res, c')"
  shows "requests_evolve c c'"
proof (cases "accept_control now w uuid q c")
  case (Inl e)
  with assms show ?thesis by (simp add: request_control_def requests_refl)
next
  case (Inr x)
  obtain k new c1 where x: "x = ((k, new), c1)" by (metis prod.collapse)
  have "requests_evolve c c1" using accept_evolves Inr x by blast
  moreover have "requests_evolve c1 c'"
    using assms Inr x advance_loop_evolves[of now w False clear _ c1]
    by (auto simp: request_control_def advance_def requests_refl split: if_splits prod.splits option.splits)
  ultimately show ?thesis by (rule requests_trans)
qed

lemma control_step_evolves: "control_step capacity c c' \<Longrightarrow> requests_evolve c c'"
proof (induction rule: control_step.induct)
  case (request now w clear uuid q c res c')
  then show ?case by (rule request_evolves)
next
  case (advance now w observed clear run c e c')
  then show ?case unfolding advance_def by (rule advance_loop_evolves)
next
  case (reconcile now w clear gone ids pipeline task c e c')
  then have "requests_evolve (observe_gone now w gone ids pipeline task c) c'"
    unfolding reconcile_endings_def advance_def by (rule advance_loop_evolves)
  then show ?case by (rule requests_trans[OF requests_refl[OF observe_gone_requests]])
qed (auto intro: requests_refl)

lemma control_history_evolves: "(control_step capacity)\<^sup>*\<^sup>* c c' \<Longrightarrow> requests_evolve c c'"
  by (induction rule: rtranclp_induct) (auto intro: control_step_evolves requests_trans requests_refl)

text \<open>The row stored under a key stays the row of that key.\<close>

lemma find_kept:
  "list_all2 kept_request xs ys \<Longrightarrow> find (\<lambda>r. k_key r = key) xs = Some r \<Longrightarrow>
    \<exists>r'. find (\<lambda>r. k_key r = key) (ys @ new) = Some r' \<and> kept_request r r'"
  by (induction rule: list_all2_induct) (auto simp: kept_request_def split: if_splits)

lemma key_kept:
  assumes "requests_evolve c c'" and "find (\<lambda>r. k_key r = key) (c_requests c) = Some r"
  shows "\<exists>r'. find (\<lambda>r. k_key r = key) (c_requests c') = Some r' \<and> kept_request r r'"
  using assms find_kept unfolding requests_evolve_def by metis


section \<open>A small history\<close>

lemma free_reachable:
  assumes "(lifecycle_step capacity)\<^sup>*\<^sup>* empty_db db" and "db_controls db = []"
  shows "controls_reachable capacity (empty_controls\<lparr>c_db := db\<rparr>)"
  using assms
proof (induction rule: rtranclp_induct)
  case base
  then show ?case by (simp add: controls_reachable_def empty_controls_def)
next
  case (step x y)
  have x: "db_controls x = []" using lifecycle_step_controls[OF step.hyps(2)] step.prems by auto
  have "control_step capacity (empty_controls\<lparr>c_db := x\<rparr>) (empty_controls\<lparr>c_db := x, c_db := y\<rparr>)"
    by (rule control_step.lifecycle) (use step.hyps(2) step.prems x in simp_all)
  with step.IH[OF x] show ?case
    unfolding controls_reachable_def by (auto intro: rtranclp.rtrancl_into_rtrancl)
qed

definition demo_world :: control_world where
  "demo_world = \<lparr>q_adapter = True, q_local = True, q_python = \<lambda>_. False, q_refusal = \<lambda>_ _. None, q_selection = Inr None\<rparr>"

definition demo_stop :: scoped_request where
  "demo_stop = \<lparr>q_key = Some ''stop-1'', q_run = 1, q_task = None, q_action = CtlStop\<rparr>"

definition stop_demo :: "engine_db \<Rightarrow> control_db" where
  "stop_demo db = snd (request_control 5 demo_world (\<lambda>_ ps. ps) ''uuid'' demo_stop (empty_controls\<lparr>c_db := db\<rparr>))"

lemma stop_demo_reachable:
  assumes "reachable any_capacity db" and "db_controls db = []"
  shows "controls_reachable any_capacity (stop_demo db)"
proof -
  have "control_step any_capacity (empty_controls\<lparr>c_db := db\<rparr>) (stop_demo db)"
    unfolding stop_demo_def by (rule control_step.request[where res = "fst _"]) (rule prod.collapse[symmetric])
  with free_reachable assms show ?thesis
    unfolding controls_reachable_def reachable_def by (blast intro: rtranclp.rtrancl_into_rtrancl)
qed

lemma stopped_reachable: "controls_reachable any_capacity (stop_demo demo_queued)"
  "controls_reachable any_capacity (stop_demo demo_claimed)"
proof -
  have "db_controls demo_queued = []" "db_controls demo_claimed = []" by code_simp+
  with demo_reachable show "controls_reachable any_capacity (stop_demo demo_queued)"
    "controls_reachable any_capacity (stop_demo demo_claimed)" by (simp_all add: stop_demo_reachable)
qed

section \<open>The properties\<close>

text \<open>
  C28. A control is completed on evidence only, and a completed stop is quiet: in every reachable
  state, each attempt a completed request pinned has ended and both its process and its queries
  were observed to end; while no later command of the scope replaces the stop or abort, no attempt
  of the scope is queued, claimed or running at all.
\<close>

theorem completed_stop_is_quiet:
  assumes "controls_reachable capacity c" and "r \<in> set (c_requests c)" and "k_status r = CtlCompleted"
  shows "(\<forall>a \<in> set (db_attempts (c_db c)). a_id a \<in> set (k_pinned r) \<longrightarrow> \<not> live_status (a_status a)
        \<and> ended_at c (a_id a) ProcessEnded \<noteq> None \<and> ended_at c (a_id a) QueriesEnded \<noteq> None)
    \<and> (in_force (c_db c) (control_request.truncate r) \<longrightarrow>
        (\<forall>a \<in> set (db_attempts (c_db c)). in_scope (c_db c) (k_run r) (k_task r) a \<longrightarrow> \<not> live_status (a_status a)))"
  using control_inv_ok[OF controls_safe[OF assms(1)] assms(2)] assms(3)
  by (auto simp: request_ok_def has_ended_def)

theorem completed_stop_is_quiet_witness:
  "map k_status (c_requests (stop_demo demo_queued)) = [CtlCompleted]
    \<and> \<not> live_status (a_status (hd (db_attempts (c_db (stop_demo demo_queued)))))"
proof -
  let ?c = "stop_demo demo_queued"
  have rows: "map k_status (c_requests ?c) = [CtlCompleted]" "map k_run (c_requests ?c) = [1]" "map k_task (c_requests ?c) = [None]"
      "list_all (in_force (c_db ?c)) (map control_request.truncate (c_requests ?c))"
      "list_all (in_scope (c_db ?c) 1 None) (db_attempts (c_db ?c))" "db_attempts (c_db ?c) \<noteq> []"
    by code_simp+
  then obtain r where r: "c_requests ?c = [r]" "k_status r = CtlCompleted" "k_run r = 1" "k_task r = None" by auto
  have "hd (db_attempts (c_db ?c)) \<in> set (db_attempts (c_db ?c))" using rows(6) by simp
  with completed_stop_is_quiet[OF stopped_reachable(1), of r] r rows show ?thesis by (auto simp: list_all_iff)
qed





text \<open>
  A keyed request is accepted once and its row is durable: in every later state, a request
  with the key of a stored one is answered with its id and changes nothing when run, task and
  action are the same, and is refused without any change otherwise.
\<close>

theorem keyed_request_once:
  assumes "find (\<lambda>r. k_key r = key) (c_requests c) = Some r" and "(control_step capacity)\<^sup>*\<^sup>* c c'"
    and "q_key q = Some key" and "row_of r_id (q_run q) (db_runs (c_db c')) \<noteq> None"
    and "q_refusal w (q_run q) = (\<lambda>task. None)"
  shows "request_control now w clear uuid q c' =
    (if (q_run q, q_task q, q_action q) = (k_run r, k_task r, k_action r)
     then Inr (k_id r) else Inl (CtlKeyTaken key (k_id r)), c')"
proof -
  from key_kept[OF control_history_evolves[OF assms(2)] assms(1)] obtain r'
    where r': "find (\<lambda>r. k_key r = key) (c_requests c') = Some r'" "kept_request r r'" by blast
  then have same: "k_id r' = k_id r" "k_run r' = k_run r" "k_task r' = k_task r" "k_action r' = k_action r" "k_key r' = key"
    using find_SomeD(1)[OF r'(1)] by (simp_all add: kept_request_def control_request.truncate_def)
  from assms(4,5) show ?thesis
    by (auto simp: request_control_def accept_control_def existing_control_def assms(3) r'(1) same split: option.splits)
qed


end
