(* ===== verification/Items.thy ===== *)
theory Items
  imports Windows
begin

text \<open>
  Items of a fanned-out task: \<^verbatim>\<open>core/items.py\<close>, \<^verbatim>\<open>core/item_offsets.py\<close>, \<^verbatim>\<open>engine/items.py\<close> and
  \<^verbatim>\<open>engine/item_offsets.py\<close> with their queries, the item operations of \<^verbatim>\<open>engine/task_store.py\<close> and
  \<^verbatim>\<open>services/operations/items.py\<close>. The table \<^verbatim>\<open>AUD_TASK_ITEMS\<close> is append-only: its rows are a
  list in the order of \<^verbatim>\<open>ITEM_RECORD_ID\<close>. Timestamps are instants, a count is an integer or absent,
  and the masking of secrets in error texts is a parameter.
\<close>

section \<open>Evidence\<close>

datatype item_status =
    ItemQueued | ItemRunning | ItemSuccess | ItemFailed | ItemSkipped | ItemCancelRequested | ItemCancelled

datatype item_action = ItemCancel | ItemRerun | ItemMark

datatype script_kind = Ingestion | Utility

record item_record =
  v_key :: string
  v_number :: int
  v_status :: item_status
  v_rows :: "int option"
  v_error :: "string option"
  v_started :: "instant option"
  v_ended :: "instant option"
  v_report :: string
  v_attempt :: "int option"
  v_position :: "int option"

text \<open>A row of the table; \<^verbatim>\<open>CREATED_BY\<close> and \<^verbatim>\<open>CREATED_AT\<close> are left out.\<close>

record item_row =
  h_run :: int
  h_attempt :: int
  h_record :: item_record

record item_decision =
  j_run :: int
  j_task :: int
  j_action :: item_action
  j_key :: string
  j_from :: item_status
  j_to :: item_status
  j_rows :: int

text \<open>The Engine DB with the item table and the audited decisions about items.\<close>

record item_db =
  e_db :: engine_db
  e_items :: "item_row list"
  e_decisions :: "item_decision list"

datatype item_error =
    BadItemKey string | BadItemNumbers string | BadItemPosition string | BadReportId string
  | BadItemStatus string item_status | TooManyItems int | ForeignOffset string | OutOfBigint string int
  | PositionBehind string int int
  | ItemConflict string | ItemUnregistered string | ItemStillRunning string | ItemWrongNumber string int
  | ItemNoLiveAttempt string | ItemNotRunning string item_status | ReportDiffers string | NoEvidence
  | ItemFence int | ItemIntegrity
  | ItemNoAttempt | ItemTaskActive run_status | NoItemsSelected | ItemOutcomeUnknown string
  | ItemLive string item_status | ItemUsage | ItemMissingRun

section \<open>Keys, numbers and report identities\<close>

definition valid_item_key :: "string \<Rightarrow> bool" where
  "valid_item_key k \<longleftrightarrow> 1 \<le> int (length k) \<and> int (length k) \<le> 512 \<and> CHR 0x00 \<notin> set k"

fun check_keys :: "string list \<Rightarrow> string list \<Rightarrow> item_error option" where
  "check_keys seen [] = None"
| "check_keys seen (k # ks) =
     (if \<not> valid_item_key k \<or> k \<in> set seen then Some (BadItemKey k) else check_keys (k # seen) ks)"

definition bounded_keys :: "string list \<Rightarrow> int \<Rightarrow> item_error + string list" where
  "bounded_keys items maximum =
     (let keys = take (nat (maximum + 1)) items
      in if int (length keys) > maximum then Inl (TooManyItems maximum)
         else (case check_keys [] keys of Some e \<Rightarrow> Inl e | None \<Rightarrow> Inr keys))"

definition validate_numbers :: "item_record \<Rightarrow> item_error option" where
  "validate_numbers e =
     (if (case v_rows e of None \<Rightarrow> False | Some n \<Rightarrow> n < 0) \<or> v_number e < 0
      then Some (BadItemNumbers (v_key e)) else None)"

text \<open>\<open>uuid.UUID(text)\<close>: 32 hexadecimal digits between optional braces and hyphens.\<close>

function erased :: "string \<Rightarrow> string \<Rightarrow> string" where
  "erased pat s = (case s of [] \<Rightarrow> []
     | c # cs \<Rightarrow> if pat \<noteq> [] \<and> starts_with pat s then erased pat (drop (length pat) s) else c # erased pat cs)"
  by pat_completeness auto
termination by (relation "measure (\<lambda>(_, s). length s)") auto

definition hex_char :: "char \<Rightarrow> bool" where
  "hex_char c \<longleftrightarrow> (let n = of_char c :: nat in
     (48 \<le> n \<and> n \<le> 57) \<or> (65 \<le> n \<and> n \<le> 70) \<or> (97 \<le> n \<and> n \<le> 102))"

fun hex_rest :: "string \<Rightarrow> bool" where
  "hex_rest [] = True"
| "hex_rest [c] = hex_char c"
| "hex_rest (c # d # cs) = (if hex_char c then hex_rest (d # cs) else c = CHR ''_'' \<and> hex_char d \<and> hex_rest cs)"

definition hex_int :: "string \<Rightarrow> bool" where
  "hex_int raw =
     (let s = strip raw;
          s = (case s of CHR ''+'' # t \<Rightarrow> t | CHR ''-'' # t \<Rightarrow> t | t \<Rightarrow> t);
          s = (if starts_with ''0x'' s \<or> starts_with ''0X'' s
               then (case drop 2 s of CHR ''_'' # t \<Rightarrow> t | t \<Rightarrow> t) else s)
      in (case s of [] \<Rightarrow> False | c # cs \<Rightarrow> hex_char c \<and> hex_rest cs))"

definition brace :: "char \<Rightarrow> bool" where
  "brace c \<longleftrightarrow> c = CHR ''{'' \<or> c = CHR ''}''"

definition uuid_text :: "string \<Rightarrow> bool" where
  "uuid_text value =
     (let s = erased ''uuid:'' (erased ''urn:'' value);
          s = rev (dropWhile brace (rev (dropWhile brace s)));
          s = erased ''-'' s
      in int (length s) = 32 \<and> hex_int s)"

definition validate_report_id :: "string \<Rightarrow> item_error option" where
  "validate_report_id value =
     (if int (length value) > 36 \<or> \<not> uuid_text value then Some (BadReportId value) else None)"

text \<open>\<open>mask_error\<close>: \<open>[:4096]\<close> of the masked text.\<close>

definition mask_error :: "(string \<Rightarrow> string) \<Rightarrow> string option \<Rightarrow> string option" where
  "mask_error hide e = map_option (\<lambda>t. take 4096 (hide t)) e"

section \<open>Latest evidence\<close>

definition done_statuses :: "item_status list" where
  "done_statuses = [ItemSuccess, ItemSkipped, ItemCancelled]"

definition observed_status :: "item_status \<Rightarrow> attempt_status \<Rightarrow> item_status" where
  "observed_status st att =
     (if att = AttCancelled \<and> st \<in> {ItemRunning, ItemQueued} then ItemCancelled
      else if \<not> held_status att \<and> st = ItemRunning then ItemFailed
      else if \<not> held_status att \<and> st = ItemCancelRequested \<and> att \<noteq> AttLost then ItemCancelled
      else st)"

text \<open>\<^verbatim>\<open>item_latest.sql\<close>: rows no later row of their key supersedes, joined with their attempts.\<close>

definition same_item :: "item_row \<Rightarrow> item_row \<Rightarrow> bool" where
  "same_item r n \<longleftrightarrow> h_run n = h_run r \<and> v_key (h_record n) = v_key (h_record r)"

fun unsuperseded :: "(item_row \<Rightarrow> item_row \<Rightarrow> bool) \<Rightarrow> item_row list \<Rightarrow> item_row list" where
  "unsuperseded by [] = []"
| "unsuperseded by (r # rs) =
     (if list_ex (by r) rs then unsuperseded by rs else r # unsuperseded by rs)"

definition observe :: "attempt_row \<Rightarrow> item_row \<Rightarrow> item_record" where
  "observe a r = (let v = h_record r in
     v\<lparr>v_status := observed_status (v_status v) (a_status a),
       v_ended := (if v_status v = ItemCancelRequested
                      \<and> a_status a \<notin> {AttClaimed, AttRunning, AttLost}
                   then (case v_ended v of None \<Rightarrow> a_ended_at a | Some t \<Rightarrow> Some t)
                   else v_ended v),
       v_attempt := Some (h_attempt r)\<rparr>)"

definition joined :: "item_db \<Rightarrow> item_row \<Rightarrow> item_record option" where
  "joined s r = map_option (\<lambda>a. observe a r) (row_of a_id (h_attempt r) (db_attempts (e_db s)))"

definition latest_items :: "item_db \<Rightarrow> int \<Rightarrow> string option \<Rightarrow> item_record list" where
  "latest_items s tr key =
     List.map_filter (joined s) (sort_key (\<lambda>r. v_key (h_record r))
       (filter (\<lambda>r. h_run r = tr \<and> (key = None \<or> key = Some (v_key (h_record r))))
         (unsuperseded same_item (e_items s))))"

text \<open>The first row of a query about one key.\<close>

definition evidence :: "item_db \<Rightarrow> int \<Rightarrow> string \<Rightarrow> item_record option" where
  "evidence s tr key = (case latest_items s tr (Some key) of [] \<Rightarrow> None | v # _ \<Rightarrow> Some v)"

section \<open>Appending\<close>

text \<open>The constraints of the table: what an insert has to satisfy.\<close>

definition item_columns :: "item_record \<Rightarrow> bool" where
  "item_columns v \<longleftrightarrow> 1 \<le> int (length (v_key v)) \<and> int (length (v_key v)) \<le> 512
     \<and> v_number v \<ge> 0
     \<and> (case v_rows v of None \<Rightarrow> True | Some n \<Rightarrow> n \<ge> 0)
     \<and> (case v_position v of None \<Rightarrow> True
        | Some p \<Rightarrow> p \<ge> 0 \<and> v_status v \<in> {ItemSuccess, ItemSkipped})"

definition insertable :: "item_db \<Rightarrow> item_row \<Rightarrow> bool" where
  "insertable s r \<longleftrightarrow> item_columns (h_record r)
     \<and> \<not> list_ex (\<lambda>n. v_report (h_record n) = v_report (h_record r)) (e_items s)
     \<and> list_ex (\<lambda>t. t_id t = h_run r) (db_tasks (e_db s))
     \<and> list_ex (\<lambda>a. a_id a = h_attempt r) (db_attempts (e_db s))"

text \<open>
  \<open>append\<close>: \<open>fresh\<close> is the value of \<open>uuid4()\<close>, used where the event names no report.
\<close>

definition stored :: "(string \<Rightarrow> string) \<Rightarrow> instant \<Rightarrow> string \<Rightarrow> int \<Rightarrow> item_record \<Rightarrow> item_record" where
  "stored hide now fresh att v =
     (let v = v\<lparr>v_report := (if v_report v = [] then fresh else v_report v), v_attempt := Some att,
                v_error := mask_error hide (v_error v)\<rparr>
      in if v_status v = ItemRunning then v\<lparr>v_started := Some now, v_ended := None\<rparr>
         else if v_status v \<in> set (ItemFailed # done_statuses) then v\<lparr>v_ended := Some now\<rparr>
         else v)"

definition append_item ::
  "(string \<Rightarrow> string) \<Rightarrow> instant \<Rightarrow> string \<Rightarrow> int \<Rightarrow> int \<Rightarrow> item_record \<Rightarrow> item_db
     \<Rightarrow> item_error + item_record \<times> item_db" where
  "append_item hide now fresh tr att e s =
     (let v = stored hide now fresh att e; r = \<lparr>h_run = tr, h_attempt = att, h_record = v\<rparr>
      in if insertable s r then Inr (v, s\<lparr>e_items := e_items s @ [r]\<rparr>)
         else Inl (ItemConflict (v_key e)))"

section \<open>Reports\<close>

definition prevents_start :: "item_record \<Rightarrow> bool" where
  "prevents_start old \<longleftrightarrow>
     v_status old \<in> set (ItemCancelRequested # done_statuses)
     \<and> \<not> (v_status old = ItemCancelled \<and> v_ended old = None)"

definition report_row :: "item_db \<Rightarrow> string \<Rightarrow> item_row option" where
  "report_row s rep = find (\<lambda>r. v_report (h_record r) = rep) (e_items s)"

text \<open>\<open>check_duplicate\<close>: the recorded observation is the one reported again.\<close>

definition duplicate_matches ::
  "(string \<Rightarrow> string) \<Rightarrow> item_row \<Rightarrow> int \<Rightarrow> int \<Rightarrow> item_record \<Rightarrow> bool" where
  "duplicate_matches hide r tr att e \<longleftrightarrow> (let old = h_record r in
     h_run r = tr \<and> h_attempt r = att \<and> v_key old = v_key e \<and> v_number old = v_number e
     \<and> v_rows old = v_rows e \<and> v_error old = mask_error hide (v_error e)
     \<and> v_position old = (if v_status old = ItemCancelled then None else v_position e)
     \<and> (v_status old = v_status e
        \<or> v_status old = ItemCancelled \<and> v_status e \<in> {ItemSuccess, ItemFailed}))"

definition check_event :: "item_record \<Rightarrow> item_error option" where
  "check_event e =
     (if \<not> valid_item_key (v_key e) then Some (BadItemKey (v_key e))
      else case validate_numbers e of Some x \<Rightarrow> Some x
      | None \<Rightarrow>
        (if (case v_position e of None \<Rightarrow> False | Some p \<Rightarrow> p < 0 \<or> v_status e \<noteq> ItemSuccess)
         then Some (BadItemPosition (v_key e)) else validate_report_id (v_report e)))"

text \<open>
  \<open>record\<close> for an event that is no duplicate: what to append, or the evidence that already
  answers a start.
\<close>

definition judge_event ::
  "int \<Rightarrow> item_record \<Rightarrow> item_record option \<Rightarrow> item_error + (item_record + item_record)" where
  "judge_event att e old =
     (if v_status e = ItemRunning then
        (case old of None \<Rightarrow> Inl (ItemUnregistered (v_key e))
         | Some p \<Rightarrow>
             if prevents_start p then Inr (Inl p)
             else if v_status p = ItemRunning then Inl (ItemStillRunning (v_key e))
             else if v_number e \<noteq> v_number p + 1 then Inl (ItemWrongNumber (v_key e) (v_number p + 1))
             else Inr (Inr e))
      else if v_status e \<in> {ItemSuccess, ItemFailed} then
        (case old of None \<Rightarrow> Inl (ItemNoLiveAttempt (v_key e))
         | Some p \<Rightarrow>
             if v_attempt p \<noteq> Some att \<or> v_number p \<noteq> v_number e then Inl (ItemNoLiveAttempt (v_key e))
             else if v_status p = ItemCancelRequested
             then Inr (Inr (e\<lparr>v_status := ItemCancelled, v_position := None\<rparr>))
             else if v_status p \<noteq> ItemRunning then Inl (ItemNotRunning (v_key e) (v_status p))
             else Inr (Inr e))
      else Inl (BadItemStatus (v_key e) (v_status e)))"

definition record_item ::
  "(string \<Rightarrow> string) \<Rightarrow> instant \<Rightarrow> string \<Rightarrow> int \<Rightarrow> int \<Rightarrow> item_record \<Rightarrow> item_db
     \<Rightarrow> item_error + item_record \<times> item_db" where
  "record_item hide now fresh tr att e s =
     (case check_event e of Some x \<Rightarrow> Inl x
      | None \<Rightarrow>
        (case report_row s (v_report e) of
           Some r \<Rightarrow>
             if duplicate_matches hide r tr att e
             then (case evidence s tr (v_key e) of None \<Rightarrow> Inl NoEvidence | Some p \<Rightarrow> Inr (p, s))
             else Inl (ReportDiffers (v_key e))
         | None \<Rightarrow>
             bind_err (judge_event att e (evidence s tr (v_key e))) (\<lambda>j.
               case j of Inl p \<Rightarrow> Inr (p, s)
               | Inr e' \<Rightarrow> append_item hide now fresh tr att e' s)))"

section \<open>Preparing the work list\<close>

text \<open>\<^verbatim>\<open>item_prepare.sql\<close>: one statement, which reads the table as it was before.\<close>

definition newest :: "item_db \<Rightarrow> int \<Rightarrow> string \<Rightarrow> item_row option" where
  "newest s tr key = find (\<lambda>r. h_run r = tr \<and> v_key (h_record r) = key) (rev (e_items s))"

definition prepared_row ::
  "item_db \<Rightarrow> instant \<Rightarrow> int \<Rightarrow> int \<Rightarrow> string \<times> string \<Rightarrow> item_row option" where
  "prepared_row s now tr att entry =
     (case newest s tr (fst entry) of
        None \<Rightarrow> Some \<lparr>h_run = tr, h_attempt = att, h_record =
          \<lparr>v_key = fst entry, v_number = 0, v_status = ItemQueued, v_rows = None, v_error = None,
           v_started = None, v_ended = None, v_report = snd entry, v_attempt = Some att,
           v_position = None\<rparr>\<rparr>
      | Some old \<Rightarrow>
          if v_status (h_record old) \<in> {ItemSuccess, ItemSkipped}
             \<and> (h_attempt old \<noteq> att \<or> v_status (h_record old) \<noteq> ItemSkipped)
          then Some \<lparr>h_run = tr, h_attempt = att, h_record = (h_record old)
                 \<lparr>v_status := ItemSkipped, v_ended := Some now, v_report := snd entry,
                  v_attempt := Some att\<rparr>\<rparr>
          else None)"

fun insert_items :: "item_row list \<Rightarrow> item_db \<Rightarrow> item_error + item_db" where
  "insert_items [] s = Inr s"
| "insert_items (r # rs) s =
     (if insertable s r then insert_items rs (s\<lparr>e_items := e_items s @ [r]\<rparr>) else Inl ItemIntegrity)"

definition prepare ::
  "instant \<Rightarrow> int \<Rightarrow> int \<Rightarrow> (string \<times> string) list \<Rightarrow> item_db \<Rightarrow> item_error + item_db" where
  "prepare now tr att entries s = insert_items (List.map_filter (prepared_row s now tr att) entries) s"

section \<open>The fenced store\<close>

text \<open>\<open>agent_state.fence\<close>: a live claim of the owner, with a lease that has not run out.\<close>

definition fence :: "instant \<Rightarrow> int \<Rightarrow> string \<Rightarrow> engine_db \<Rightarrow> item_error + int" where
  "fence now att owner db =
     (case row_of a_id att (db_attempts db) of
        Some a \<Rightarrow> if a_owner a = Some owner \<and> held_status (a_status a) \<and> lease_live (a_lease a) now
                  then Inr (a_task_run a) else Inl (ItemFence att)
      | None \<Rightarrow> Inl (ItemFence att))"

text \<open>\<open>TaskIdentity\<close> of an admitted attempt, as far as the item operations use it.\<close>

record task_identity =
  g_attempt :: int
  g_task_run :: int
  g_owner :: string

definition assert_identity :: "instant \<Rightarrow> task_identity \<Rightarrow> engine_db \<Rightarrow> item_error + unit" where
  "assert_identity now g db =
     bind_err (fence now (g_attempt g) (g_owner g) db) (\<lambda>tr.
       if tr \<noteq> g_task_run g then Inl (ItemFence (g_attempt g)) else Inr ())"

definition prepare_items ::
  "instant \<Rightarrow> task_identity \<Rightarrow> string list \<Rightarrow> string list \<Rightarrow> item_db \<Rightarrow> item_error + item_db" where
  "prepare_items now g keys fresh s =
     bind_err (bounded_keys keys 1000) (\<lambda>checked.
     bind_err (assert_identity now g (e_db s)) (\<lambda>_.
       prepare now (g_task_run g) (g_attempt g) (zip checked fresh) s))"

text \<open>
  \<open>item_offsets.position\<close>: values that are no mapping are \<open>None\<close>; a mapping lists its entries.
\<close>

definition item_position ::
  "string \<Rightarrow> (string \<times> int) list option \<Rightarrow> offset_type \<Rightarrow> (string \<times> int) list option
     \<Rightarrow> offset_type option \<Rightarrow> script_kind \<Rightarrow> item_error + int" where
  "item_position key values datatype committed committed_type kind =
     (case values of
        None \<Rightarrow> Inl (ForeignOffset key)
      | Some entries \<Rightarrow>
          if datatype \<noteq> OffPartitions \<or> set (map fst entries) \<noteq> {key} \<or> kind \<noteq> Ingestion
             \<or> (committed_type \<noteq> None \<and> committed_type \<noteq> Some OffPartitions)
          then Inl (ForeignOffset key)
          else
            (case map_of entries key of
               None \<Rightarrow> Inl (ForeignOffset key)
             | Some value \<Rightarrow>
                 if \<not> (0 \<le> value \<and> value < 2 ^ 63) then Inl (OutOfBigint key value)
                 else
                   (case (case committed of None \<Rightarrow> None | Some c \<Rightarrow> map_of c key) of
                      Some before \<Rightarrow>
                        if value < before then Inl (PositionBehind key value before) else Inr value
                    | None \<Rightarrow> Inr value)))"

text \<open>
  \<open>item_offsets.check\<close>: the stored offset of the task is its type and, for partitions, its
  positions; the script kind is that of the task's parameters.
\<close>

type_synonym stored_offset = "(offset_type \<times> (string \<times> int) list option) option"

definition check_offset :: "stored_offset \<Rightarrow> script_kind \<Rightarrow> item_record \<Rightarrow> item_error option" where
  "check_offset offset kind e =
     (case v_position e of None \<Rightarrow> None
      | Some p \<Rightarrow>
          (case item_position (v_key e) (Some [(v_key e, p)]) OffPartitions
                  (case offset of Some (OffPartitions, committed) \<Rightarrow> committed | _ \<Rightarrow> None)
                  (map_option fst offset) kind of
             Inl x \<Rightarrow> Some x | Inr _ \<Rightarrow> None))"

definition item_event ::
  "(string \<Rightarrow> string) \<Rightarrow> instant \<Rightarrow> string \<Rightarrow> task_identity \<Rightarrow> stored_offset \<Rightarrow> script_kind
     \<Rightarrow> item_record \<Rightarrow> item_db \<Rightarrow> item_error + item_record \<times> item_db" where
  "item_event hide now fresh g offset kind e s =
     bind_err (assert_identity now g (e_db s)) (\<lambda>_.
       case check_offset offset kind e of Some x \<Rightarrow> Inl x
       | None \<Rightarrow> record_item hide now fresh (g_task_run g) (g_attempt g) e s)"

section \<open>Operator decisions\<close>

text \<open>\<open>ItemControl\<close>: the task and run it names are those of the codes of the request.\<close>

record item_control =
  y_run :: int
  y_task :: int
  y_action :: item_action
  y_reason :: string
  y_key :: "string option"
  y_all_failed :: bool
  y_status :: "item_status option"
  y_rows :: int

definition check_item_control :: "item_control \<Rightarrow> bool" where
  "check_item_control q \<longleftrightarrow>
     y_run q \<ge> 1
     \<and> int (length (y_reason q)) \<le> 4096
     \<and> (y_all_failed q = (y_key q = None))
     \<and> (case y_key q of None \<Rightarrow> True | Some k \<Rightarrow> valid_item_key k)
     \<and> (y_action q = ItemMark \<longrightarrow> y_status q \<in> {Some ItemSuccess, Some ItemFailed, Some ItemSkipped})
     \<and> (y_action q \<noteq> ItemMark \<longrightarrow> y_status q = None \<and> y_rows q = 0)
     \<and> y_rows q \<ge> 0"

definition live_item :: "item_status \<Rightarrow> bool" where
  "live_item st \<longleftrightarrow> st = ItemRunning \<or> st = ItemCancelRequested"

definition decided_status :: "item_control \<Rightarrow> item_record \<Rightarrow> item_status" where
  "decided_status q old = (case y_action q of
       ItemCancel \<Rightarrow> if live_item (v_status old) then ItemCancelRequested else ItemCancelled
     | ItemRerun \<Rightarrow> ItemQueued
     | ItemMark \<Rightarrow> (case y_status q of None \<Rightarrow> ItemQueued | Some st \<Rightarrow> st))"

definition change ::
  "(string \<Rightarrow> string) \<Rightarrow> instant \<Rightarrow> int \<Rightarrow> int \<Rightarrow> item_control \<Rightarrow> item_record \<times> string \<Rightarrow> item_db
     \<Rightarrow> item_error + item_db" where
  "change hide now tr att q target s =
     (let (old, fresh) = target; live = live_item (v_status old); st = decided_status q old
      in if v_started old \<noteq> None \<and> v_ended old = None \<and> v_status old = ItemFailed
         then Inl (ItemOutcomeUnknown (v_key old))
         else if live \<and> y_action q \<noteq> ItemCancel then Inl (ItemLive (v_key old) (v_status old))
         else
           bind_err (append_item hide now fresh tr att
               (old\<lparr>v_status := st,
                    v_rows := (if y_action q = ItemMark then Some (y_rows q) else v_rows old),
                    v_error := Some (y_reason q), v_report := fresh,
                    v_ended := (if live then None else Some now)\<rparr>) s) (\<lambda>(_, s').
             Inr (s'\<lparr>e_decisions := e_decisions s' @
               [\<lparr>j_run = y_run q, j_task = y_task q, j_action = y_action q, j_key = v_key old,
                 j_from = v_status old, j_to = st, j_rows = y_rows q\<rparr>]\<rparr>)))"

text \<open>
  \<open>control\<close>: whether the task runs Python and whether the policy asks for a reason are the
  project's. The rerun that follows the commit is the ordinary rerun of a task.
\<close>

definition last_attempt :: "engine_db \<Rightarrow> int \<Rightarrow> int option" where
  "last_attempt db tr =
     (let ids = map a_id (filter (\<lambda>a. a_task_run a = tr) (db_attempts db))
      in if ids = [] then None else Some (fold max (tl ids) (hd ids)))"

definition selected_items :: "item_control \<Rightarrow> item_record list \<Rightarrow> item_record list" where
  "selected_items q records =
     filter (\<lambda>v. if y_all_failed q then v_status v = ItemFailed else Some (v_key v) = y_key q) records"

definition control_items ::
  "(string \<Rightarrow> string) \<Rightarrow> bool \<Rightarrow> (int \<Rightarrow> bool) \<Rightarrow> instant \<Rightarrow> item_control \<Rightarrow> string list \<Rightarrow> item_db
     \<Rightarrow> item_error + item_db" where
  "control_items hide strict python now q fresh s =
     (if \<not> check_item_control q \<or> (strict \<and> strip (y_reason q) = []) then Inl ItemUsage
      else
        (case find (\<lambda>t. t_run t = y_run q \<and> t_task t = y_task q) (db_tasks (e_db s)) of
           None \<Rightarrow> Inl ItemNoAttempt
         | Some t \<Rightarrow>
             (case last_attempt (e_db s) (t_id t) of
                None \<Rightarrow> Inl ItemNoAttempt
              | Some att \<Rightarrow>
                  if \<not> python (y_task q) then Inl ItemNoAttempt
                  else if y_action q = ItemRerun \<and> t_status t \<in> {RunQueued, RunInProgress}
                  then Inl (ItemTaskActive (t_status t))
                  else
                    (let selected = selected_items q (latest_items s (t_id t) None)
                     in if selected = [] then Inl NoItemsSelected
                        else fold_err (change hide now (t_id t) att q) (zip selected fresh) s))))"

section \<open>Counts\<close>

record item_progress =
  z_total :: int
  z_done :: int
  z_failed :: int
  z_skipped :: int
  z_measured :: int
  z_unmeasured :: int

definition status_count :: "item_status \<Rightarrow> item_record list \<Rightarrow> int" where
  "status_count st vs = int (length (filter (\<lambda>v. v_status v = st) vs))"

definition progress :: "item_record list \<Rightarrow> item_progress" where
  "progress vs =
     (let finished = status_count ItemSuccess vs + status_count ItemSkipped vs;
          unmeasured = int (length (filter (\<lambda>v. v_rows v = None)
            (filter (\<lambda>v. v_status v \<in> {ItemSuccess, ItemSkipped}) vs)))
      in \<lparr>z_total = int (length vs), z_done = finished,
          z_failed = status_count ItemFailed vs + status_count ItemCancelled vs,
          z_skipped = status_count ItemSkipped vs,
          z_measured = finished - unmeasured, z_unmeasured = unmeasured\<rparr>)"

text \<open>
  \<^verbatim>\<open>item_summaries.sql\<close> and \<^verbatim>\<open>item_attempt_summaries.sql\<close> count the same evidence in the
  database; a task run, or an attempt, without items has no row.
\<close>

definition failed_row :: "item_status \<Rightarrow> attempt_status \<Rightarrow> bool" where
  "failed_row st att \<longleftrightarrow> st \<in> {ItemFailed, ItemCancelled}
     \<or> st = ItemRunning \<and> \<not> held_status att
     \<or> st = ItemQueued \<and> att = AttCancelled
     \<or> st = ItemCancelRequested \<and> att \<notin> {AttClaimed, AttRunning, AttLost}"

definition count_rows :: "(item_row \<times> attempt_row) list \<Rightarrow> item_progress option" where
  "count_rows rows =
     (let n = (\<lambda>p. int (length (filter p rows)));
          kept = (\<lambda>r. v_status (h_record r) \<in> {ItemSuccess, ItemSkipped})
      in if rows = [] then None else Some
         \<lparr>z_total = int (length rows),
          z_done = n (\<lambda>(r, _). kept r),
          z_failed = n (\<lambda>(r, a). failed_row (v_status (h_record r)) (a_status a)),
          z_skipped = n (\<lambda>(r, _). v_status (h_record r) = ItemSkipped),
          z_measured = n (\<lambda>(r, _). kept r \<and> v_rows (h_record r) \<noteq> None),
          z_unmeasured = n (\<lambda>(r, _). kept r \<and> v_rows (h_record r) = None)\<rparr>)"

definition with_attempts :: "item_db \<Rightarrow> item_row list \<Rightarrow> (item_row \<times> attempt_row) list" where
  "with_attempts s rows = List.map_filter
     (\<lambda>r. map_option (Pair r) (row_of a_id (h_attempt r) (db_attempts (e_db s)))) rows"

definition item_summary :: "item_db \<Rightarrow> int \<Rightarrow> item_progress option" where
  "item_summary s tr = count_rows (with_attempts s
     (filter (\<lambda>r. h_run r = tr) (unsuperseded same_item (e_items s))))"

definition item_attempt_summary :: "item_db \<Rightarrow> int \<Rightarrow> int \<Rightarrow> item_progress option" where
  "item_attempt_summary s tr att = count_rows (with_attempts s
     (filter (\<lambda>r. h_run r = tr \<and> h_attempt r = att)
       (unsuperseded (\<lambda>r n. h_attempt n = h_attempt r \<and> v_key (h_record n) = v_key (h_record r))
         (e_items s))))"

end
