(* ===== verification/Item_Inv.thy ===== *)
theory Item_Inv
  imports Items Control_Inv
begin

text \<open>
  How attempts grow along the lifecycle, the transition system of items over it, and its
  invariant: every row of the item table is a legal successor of the row of its key before it.
\<close>

section \<open>Attempts grow\<close>

text \<open>
  A lifecycle operation keeps every attempt, queues at most new ones behind all that exist, and
  ends an attempt only together with the time of its ending.
\<close>

definition steady :: "attempt_row \<Rightarrow> attempt_row \<Rightarrow> bool" where
  "steady a a' \<longleftrightarrow> a_id a' = a_id a \<and> (untimed a' \<longrightarrow> untimed a)"

definition attempts_grow :: "engine_db \<Rightarrow> engine_db \<Rightarrow> bool" where
  "attempts_grow db db' \<longleftrightarrow> (\<exists>ys news. db_attempts db' = ys @ news
     \<and> list_all2 steady (db_attempts db) ys
     \<and> (\<forall>n \<in> set news. a_status n = AttQueued \<and> a_id n = db_next_attempt db))"

lemma same_shape_grow:
  assumes "same_shape db db'"
  shows "attempts_grow db db'"
proof -
  have "list_all2 steady (db_attempts db) (db_attempts db')"
    using assms unfolding same_shape_def
    by (elim conjE list_all2_mono) (simp add: kept_attempt_def steady_def)
  then show ?thesis unfolding attempts_grow_def by (intro exI[of _ "db_attempts db'"] exI[of _ "[]"]) simp
qed

lemma steady_refl [simp]: "list_all2 steady xs xs"
  by (simp add: list_all2_same steady_def)

lemma same_attempts_grow: "db_attempts db' = db_attempts db \<Longrightarrow> attempts_grow db db'"
  unfolding attempts_grow_def by (intro exI[of _ "db_attempts db'"] exI[of _ "[]"]) simp

lemma queue_grow:
  assumes "queue_attempt now tr nb previous db = Inr (k, db')"
  shows "attempts_grow db db'"
proof -
  from assms obtain db1 db2 where r: "reserve_attempt now tr previous db = Inr db1"
    and i: "insert_attempt now tr nb db1 = Inr (k, db2)" and s: "sync_attempt_summary k db2 = Inr db'"
    by (auto simp: queue_attempt_def err_simps)
  from i obtain number where new: "db_attempts db2 = db_attempts db1 @ [new_attempt now (db_next_attempt db1) tr number nb]"
    by (auto simp: insert_attempt_def Let_def split: option.splits if_splits)
  from r have "db_attempts db1 = db_attempts db" "db_next_attempt db1 = db_next_attempt db"
    unfolding reserve_attempt_def
    by (auto intro: guard_task_attempts simp: guard_task_row_def split: option.splits)
  with new sync_attempts[OF s] show ?thesis unfolding attempts_grow_def
    by (intro exI[of _ "db_attempts db"] exI[of _ "[new_attempt now (db_next_attempt db) tr number nb]"])
      (simp add: new_attempt_def)
qed

lemma claim_grow:
  assumes "claim_with_capacity capacity now k own lease_at wait db = Inr (b, db')"
  shows "attempts_grow db db'"
proof (cases "db' = db")
  case False
  with assms obtain g db1 where g: "guard_attempt_row db k g (\<lambda>a. a\<lparr>a_status := AttClaimed, a_owner := own,
      a_lease := lease_at, a_claimed_at := Some now, a_error := None\<rparr>) = Inr db1"
    and s: "sync_attempt_summary k db1 = Inr db'"
    by (auto simp: claim_with_capacity_def err_simps split: sum.splits if_splits)
  from g have "db_attempts db1 = map (\<lambda>a. if a_id a = k \<and> g a then a\<lparr>a_status := AttClaimed, a_owner := own,
      a_lease := lease_at, a_claimed_at := Some now, a_error := None\<rparr> else a) (db_attempts db)"
    by (auto simp: guard_attempt_row_def compare_and_set_def split: option.splits if_splits)
  with sync_attempts[OF s] have "list_all2 steady (db_attempts db) (db_attempts db')"
    by (simp add: list_all2_map2 list_all2_same steady_def untimed_def live_status_def)
  then show ?thesis unfolding attempts_grow_def by (intro exI[of _ "db_attempts db'"] exI[of _ "[]"]) simp
qed (simp add: same_attempts_grow)

lemma bind_grow: "find_or_create_task_run now refusal task run db = Inr (b, db') \<Longrightarrow> attempts_grow db db'"
  by (rule same_attempts_grow) (auto simp: find_or_create_task_run_def split: option.splits)

lemma delete_grow: "delete_skipped_task_run tr db = Inr db' \<Longrightarrow> attempts_grow db db'"
  by (rule same_attempts_grow) (auto simp: delete_skipped_task_run_def Let_def split: if_splits)

lemma lifecycle_step_grow:
  assumes s: "lifecycle_step capacity db db'"
  shows "attempts_grow db db'"
  using s
  by cases (blast intro: same_shape_grow bind_grow delete_grow queue_grow run_shapes
      other_shapes silent_shapes cancel_run_shape reopen_shape policy_shape claim_grow start_shape renew_shape
      record_attempt_failure_shape ending_shapes finish_task_shape mark_task_shape set_task_log_shape frame_shapes)+

text \<open>The attempts of an engine: what the items rely on.\<close>

definition attempts_ok :: "engine_db \<Rightarrow> bool" where
  "attempts_ok db \<longleftrightarrow> lifecycle_inv db
     \<and> (\<forall>a \<in> set (db_attempts db). \<not> untimed a)
     \<and> (\<forall>a \<in> set (db_attempts db). \<forall>b \<in> set (db_attempts db).
          live a \<and> a_task_run b = a_task_run a \<longrightarrow> a_id b \<le> a_id a)"

lemma attempts_ok_empty: "attempts_ok empty_db"
  by (simp add: attempts_ok_def empty_db_inv) (simp add: empty_db_def)

lemma grown_cases:
  assumes "attempts_grow db db'" and "a' \<in> set (db_attempts db')"
  obtains a where "a \<in> set (db_attempts db)" "steady a a'"
  | "a_status a' = AttQueued" "a_id a' = db_next_attempt db"
proof -
  from assms obtain ys news where g: "a' \<in> set ys \<or> a' \<in> set news" "list_all2 steady (db_attempts db) ys"
      "\<forall>n \<in> set news. a_status n = AttQueued \<and> a_id n = db_next_attempt db"
    by (auto simp: attempts_grow_def)
  from g(1) show thesis
  proof
    assume "a' \<in> set ys"
    then obtain i where "i < length ys" "a' = ys ! i" by (auto simp: in_set_conv_nth)
    with g(2) obtain a where "a \<in> set (db_attempts db)" "steady a a'"
      by (metis list_all2_conv_all_nth nth_mem)
    then show thesis by (rule that(1))
  next
    assume "a' \<in> set news"
    with g(3) show thesis by (intro that(2)) auto
  qed
qed

lemma live_iff: "live a = live_status (a_status a)"
  by (auto simp: live_def live_status_def)

lemma attempts_ok_step:
  assumes ok: "attempts_ok db" and s: "lifecycle_step capacity db db'"
  shows "attempts_ok db'"
proof -
  have inv: "lifecycle_inv db" using ok by (simp add: attempts_ok_def)
  have inv': "lifecycle_inv db'" by (rule lifecycle_step_keeps[OF inv s])
  have wi: "work_inv db" "work_inv db'" using inv inv' by (simp_all add: lifecycle_inv_def)
  note grow = lifecycle_step_grow[OF s]
  note ev = lifecycle_step_evolves[OF inv s, unfolded attempts_evolve_def]
  have "\<not> untimed a'" if "a' \<in> set (db_attempts db')" for a'
    using grow that
  proof (cases rule: grown_cases)
    case (1 a)
    with ok show ?thesis by (auto simp: attempts_ok_def steady_def)
  qed (simp add: untimed_def live_status_def)
  moreover have "a_id b' \<le> a_id a'" if a': "a' \<in> set (db_attempts db')" "live a'"
      and b': "b' \<in> set (db_attempts db')" "a_task_run b' = a_task_run a'" for a' b'
    using grow b'(1)
  proof (cases rule: grown_cases)
    case (1 b)
    note old = this
    have below: "a_id b < db_next_attempt db"
      using work_inv_attempts[OF wi(1)] 1(1) by (auto simp: attempts.table_def)
    from grow a'(1) show ?thesis
    proof (cases rule: grown_cases)
      case (1 a)
      obtain a2 where a2: "a2 \<in> set (db_attempts db')" "a_id a2 = a_id a" "a_task_run a2 = a_task_run a"
          "attempt_move (a_status a) (a_status a2)" using ev 1(1) by blast
      obtain b2 where b2: "b2 \<in> set (db_attempts db')" "a_id b2 = a_id b" "a_task_run b2 = a_task_run b"
        using ev old(1) by blast
      have table: "attempts.table (db_next_attempt db') (db_attempts db')" by (rule work_inv_attempts[OF wi(2)])
      have "a2 = a'" using attempts.table_same[OF table a2(1) a'(1)] a2(2) 1(2) by (simp add: steady_def)
      moreover have "b2 = b'" using attempts.table_same[OF table b2(1) b'(1)] b2(2) old(2) by (simp add: steady_def)
      moreover have "live a" using a2(4) a'(2) calculation(1) by (auto simp: live_iff dest: move_live)
      ultimately show ?thesis using ok 1(1) old(1) a2(2,3) b2(2,3) b'(2) by (auto simp: attempts_ok_def)
    next
      case 2
      with below old(2) show ?thesis by (simp add: steady_def)
    qed
  next
    case 2
    then have "live b'" by (simp add: live_iff live_status_def)
    then show ?thesis using live_attempt_unique[OF wi(2) a'(1) b'(1)] a'(2) b'(2) by simp
  qed
  ultimately show ?thesis using inv' by (auto simp: attempts_ok_def)
qed

interpretation item_attempts: safe_system "lifecycle_step capacity" attempts_ok
  by unfold_locales (rule attempts_ok_step)

section \<open>The newest row of a key\<close>

definition of_item :: "int \<Rightarrow> string \<Rightarrow> item_row \<Rightarrow> bool" where
  "of_item tr key r \<longleftrightarrow> h_run r = tr \<and> v_key (h_record r) = key"

abbreviation status_of :: "item_row \<Rightarrow> item_status" where
  "status_of r \<equiv> v_status (h_record r)"

abbreviation number_of :: "item_row \<Rightarrow> int" where
  "number_of r \<equiv> v_number (h_record r)"

definition newest_row :: "item_row list \<Rightarrow> int \<Rightarrow> string \<Rightarrow> item_row option" where
  "newest_row rows tr key = find (of_item tr key) (rev rows)"

lemma newest_rows: "newest s tr key = newest_row (e_items s) tr key"
  by (simp add: newest_def newest_row_def of_item_def[abs_def])

lemma find_append: "find P (xs @ ys) = (case find P xs of None \<Rightarrow> find P ys | Some x \<Rightarrow> Some x)"
  by (induction xs) auto

lemma newest_row_Nil [simp]: "newest_row [] tr key = None"
  by (simp add: newest_row_def)

lemma newest_row_snoc [simp]:
  "newest_row (rows @ [r]) tr key = (if of_item tr key r then Some r else newest_row rows tr key)"
  by (simp add: newest_row_def)

lemma newest_row_Cons:
  "newest_row (r # rows) tr key = (case newest_row rows tr key of
     None \<Rightarrow> if of_item tr key r then Some r else None | Some p \<Rightarrow> Some p)"
  by (simp add: newest_row_def find_append split: option.splits)

lemma newest_row_Some: "newest_row rows tr key = Some p \<Longrightarrow> p \<in> set rows \<and> of_item tr key p"
  unfolding newest_row_def find_Some_iff by (metis length_rev nth_mem set_rev)

lemma newest_row_None: "newest_row rows tr key = None \<longleftrightarrow> (\<forall>r \<in> set rows. \<not> of_item tr key r)"
  by (auto simp: newest_row_def find_None_iff)

lemma newest_row_split:
  assumes "newest_row rows tr key = Some p"
  obtains pre post where "rows = pre @ p # post" and "filter (of_item tr key) post = []" and "of_item tr key p"
  using assms
proof (induction rows arbitrary: thesis)
  case (Cons r rows)
  show ?case
  proof (cases "newest_row rows tr key")
    case None
    with Cons.prems(2) have "of_item tr key r" "p = r"
      by (auto simp: newest_row_Cons split: if_splits)
    with None show ?thesis by (intro Cons.prems(1)[of "[]" rows]) (auto simp: newest_row_None filter_empty_conv)
  next
    case (Some q)
    with Cons.prems(2) have "newest_row rows tr key = Some p" by (simp add: newest_row_Cons)
    from Cons.IH[OF _ this] obtain pre post where "rows = pre @ p # post" "filter (of_item tr key) post = []"
        "of_item tr key p" by blast
    then show ?thesis by (intro Cons.prems(1)[of "r # pre" post]) auto
  qed
qed simp

lemma unsuperseded_newest:
  "filter (of_item tr key) (unsuperseded same_item rows) =
     (case newest_row rows tr key of None \<Rightarrow> [] | Some r \<Rightarrow> [r])"
proof (induction rows)
  case (Cons r rows)
  have "list_ex (same_item r) rows \<longleftrightarrow> newest_row rows (h_run r) (v_key (h_record r)) \<noteq> None"
    by (auto simp: newest_row_None list_ex_iff same_item_def of_item_def)
  with Cons show ?case by (auto simp: newest_row_Cons of_item_def split: option.splits)
qed simp

lemma unsuperseded_subset: "set (unsuperseded by rows) \<subseteq> set rows"
  by (induction rows) auto

lemma evidence_newest: "evidence s tr key = Option.bind (newest s tr key) (joined s)"
proof -
  have "filter (\<lambda>r. h_run r = tr \<and> (Some key = None \<or> Some key = Some (v_key (h_record r))))
      (unsuperseded same_item (e_items s)) = (case newest s tr key of None \<Rightarrow> [] | Some r \<Rightarrow> [r])"
    unfolding newest_rows unsuperseded_newest[symmetric] by (rule filter_cong) (auto simp: of_item_def)
  then show ?thesis
    by (auto simp: evidence_def latest_items_def map_filter_simps split: option.splits)
qed

text \<open>What a query about all keys returns: the newest row of each key, once.\<close>

lemma unsuperseded_row:
  "r \<in> set (unsuperseded same_item rows) \<Longrightarrow> newest_row rows (h_run r) (v_key (h_record r)) = Some r"
proof -
  assume "r \<in> set (unsuperseded same_item rows)"
  then have "r \<in> set (filter (of_item (h_run r) (v_key (h_record r))) (unsuperseded same_item rows))"
    by (simp add: of_item_def)
  then show ?thesis by (simp only: unsuperseded_newest) (auto split: option.splits)
qed

lemma newest_unsuperseded: "newest_row rows tr key = Some r \<Longrightarrow> r \<in> set (unsuperseded same_item rows)"
  using arg_cong[OF unsuperseded_newest[of tr key rows], of set] by auto

lemma unsuperseded_distinct:
  "distinct (map (\<lambda>r. (h_run r, v_key (h_record r))) (unsuperseded same_item rows))"
proof (induction rows)
  case (Cons r rows)
  have "(h_run r, v_key (h_record r)) \<notin> (\<lambda>r. (h_run r, v_key (h_record r))) ` set (unsuperseded same_item rows)"
    if "\<not> list_ex (same_item r) rows"
    using that unsuperseded_subset[of same_item rows] by (auto simp: list_ex_iff same_item_def)
  with Cons show ?case by auto
qed simp

section \<open>The invariant of the item table\<close>

definition attempt_in :: "engine_db \<Rightarrow> int \<Rightarrow> (attempt_row \<Rightarrow> bool) \<Rightarrow> bool" where
  "attempt_in db k p \<longleftrightarrow> (\<exists>a \<in> set (db_attempts db). a_id a = k \<and> p a)"

definition is_start :: "int \<Rightarrow> string \<Rightarrow> item_row \<Rightarrow> bool" where
  "is_start tr key r \<longleftrightarrow> of_item tr key r \<and> status_of r = ItemRunning"

text \<open>The number of an observation is the number of starts of its key so far.\<close>

definition starts :: "item_row list \<Rightarrow> int \<Rightarrow> string \<Rightarrow> int" where
  "starts rows tr key = int (length (filter (is_start tr key) rows))"

definition row_fits :: "engine_db \<Rightarrow> item_row \<Rightarrow> bool" where
  "row_fits db r \<longleftrightarrow> item_columns (h_record r) \<and> v_attempt (h_record r) = Some (h_attempt r)
     \<and> attempt_in db (h_attempt r) (\<lambda>a. a_task_run a = h_run r
          \<and> (status_of r = ItemRunning \<longrightarrow> a_status a \<noteq> AttQueued))
     \<and> (status_of r = ItemCancelled \<longrightarrow> v_ended (h_record r) \<noteq> None)"

text \<open>What may follow the newest row of a key.\<close>

definition successor :: "item_row option \<Rightarrow> item_row \<Rightarrow> bool" where
  "successor before r \<longleftrightarrow> (case before of
       None \<Rightarrow> status_of r = ItemQueued
     | Some p \<Rightarrow> status_of r = ItemRunning \<longrightarrow> status_of p \<in> {ItemQueued, ItemFailed, ItemRunning})"

text \<open>
  After a start whose attempt is still live come requests to cancel it, and then the ending its
  own attempt reports.
\<close>

fun flown :: "int \<Rightarrow> int \<Rightarrow> item_row list \<Rightarrow> bool" where
  "flown att n [] = True"
| "flown att n (x # xs) = (h_attempt x = att \<and> number_of x = n
     \<and> (status_of x = ItemCancelRequested \<longrightarrow> flown att n xs)
     \<and> status_of x \<in> {ItemCancelRequested, ItemSuccess, ItemFailed, ItemCancelled})"

definition history_ok :: "engine_db \<Rightarrow> item_row list \<Rightarrow> bool" where
  "history_ok db rows \<longleftrightarrow> (\<forall>pre r post. rows = pre @ r # post \<longrightarrow>
     number_of r = starts (pre @ [r]) (h_run r) (v_key (h_record r))
     \<and> successor (newest_row pre (h_run r) (v_key (h_record r))) r
     \<and> (status_of r = ItemRunning \<longrightarrow> attempt_in db (h_attempt r) (\<lambda>a. \<not> live a)
        \<or> flown (h_attempt r) (number_of r) (filter (same_item r) post)))"

definition items_inv :: "item_db \<Rightarrow> bool" where
  "items_inv s \<longleftrightarrow> attempts_ok (e_db s) \<and> (\<forall>r \<in> set (e_items s). row_fits (e_db s) r)
     \<and> history_ok (e_db s) (e_items s) \<and> distinct (map (\<lambda>r. v_report (h_record r)) (e_items s))"

lemma of_same_item: "same_item r = of_item (h_run r) (v_key (h_record r))"
  by (auto simp: same_item_def of_item_def)

lemma starts_snoc [simp]:
  "starts (rows @ [r]) tr key = starts rows tr key + (if is_start tr key r then 1 else 0)"
  by (simp add: starts_def)

lemma starts_after: "filter (of_item tr key) post = [] \<Longrightarrow> starts (pre @ post) tr key = starts pre tr key"
  by (auto simp: starts_def filter_empty_conv is_start_def)

lemma history_okD:
  assumes "history_ok db (pre @ r # post)"
  shows "number_of r = starts (pre @ [r]) (h_run r) (v_key (h_record r))"
    and "successor (newest_row pre (h_run r) (v_key (h_record r))) r"
    and "status_of r = ItemRunning \<Longrightarrow> attempt_in db (h_attempt r) (\<lambda>a. \<not> live a)
        \<or> flown (h_attempt r) (number_of r) (filter (same_item r) post)"
  using assms[unfolded history_ok_def, THEN spec, THEN spec, THEN spec, THEN mp, OF refl] by blast+

lemma newest_number:
  assumes "history_ok db rows" and "newest_row rows tr key = Some p"
  shows "number_of p = starts rows tr key"
proof -
  from newest_row_split[OF assms(2)] obtain pre post where
    r: "rows = pre @ p # post" "filter (of_item tr key) post = []" "of_item tr key p" .
  from history_okD(1)[OF assms(1)[unfolded r(1)]] r(3) have "number_of p = starts (pre @ [p]) tr key"
    by (simp add: of_item_def)
  also have "\<dots> = starts rows tr key" using starts_after[OF r(2), of "pre @ [p]"] by (simp add: r(1))
  finally show ?thesis .
qed

lemma no_starts: "newest_row rows tr key = None \<Longrightarrow> starts rows tr key = 0"
  by (auto simp: newest_row_None starts_def filter_empty_conv is_start_def)

lemma flown_snoc:
  assumes "flown att n xs"
    and "list_all (\<lambda>y. status_of y = ItemCancelRequested) xs \<longrightarrow> flown att n [x]"
  shows "flown att n (xs @ [x])"
  using assms
proof (induction xs)
  case (Cons y ys)
  show ?case
  proof (cases "status_of y = ItemCancelRequested")
    case True
    from True Cons.prems(1) have "flown att n ys" by simp
    moreover from True Cons.prems(2) have "list_all (\<lambda>y. status_of y = ItemCancelRequested) ys \<longrightarrow> flown att n [x]"
      by (simp del: flown.simps)
    ultimately have "flown att n (ys @ [x])" by (rule Cons.IH)
    with True Cons.prems(1) show ?thesis by simp
  next
    case False
    with Cons.prems(1) show ?thesis by simp
  qed
qed simp

lemma flown_open:
  assumes "flown att n xs" and "list_all (\<lambda>y. status_of y = ItemCancelRequested) xs" and "y \<in> set xs"
  shows "h_attempt y = att \<and> number_of y = n"
  using assms by (induction xs) auto

text \<open>A row that may be appended: what a write has to establish.\<close>

definition may_succeed :: "engine_db \<Rightarrow> item_row option \<Rightarrow> item_row \<Rightarrow> bool" where
  "may_succeed db before r \<longleftrightarrow> successor before r
     \<and> number_of r = (case before of None \<Rightarrow> 0 | Some p \<Rightarrow> number_of p)
         + (if status_of r = ItemRunning then 1 else 0)
     \<and> (case before of None \<Rightarrow> True | Some p \<Rightarrow>
          status_of p \<in> {ItemRunning, ItemCancelRequested}
          \<and> attempt_in db (h_attempt p) (\<lambda>a. held_status (a_status a)) \<longrightarrow>
          flown (h_attempt p) (number_of p) [r])"

definition may_follow :: "item_db \<Rightarrow> item_row \<Rightarrow> bool" where
  "may_follow s r \<longleftrightarrow> row_fits (e_db s) r
     \<and> may_succeed (e_db s) (newest s (h_run r) (v_key (h_record r))) r"

section \<open>Appending keeps the invariant\<close>

lemma attempt_in_unique:
  assumes "attempts_ok db" and "attempt_in db k P" and "attempt_in db k Q"
  shows "attempt_in db k (\<lambda>a. P a \<and> Q a)"
proof -
  from assms obtain a b where ab: "a \<in> set (db_attempts db)" "a_id a = k" "P a"
      "b \<in> set (db_attempts db)" "a_id b = k" "Q b" by (auto simp: attempt_in_def)
  have "attempts.table (db_next_attempt db) (db_attempts db)"
    using assms(1) by (simp add: attempts_ok_def lifecycle_inv_def work_inv_attempts)
  from attempts.table_same[OF this ab(1,4)] ab have "a = b" by simp
  with ab show ?thesis by (auto simp: attempt_in_def)
qed

lemma attempt_in_mono: "attempt_in db k P \<Longrightarrow> (\<And>a. P a \<Longrightarrow> Q a) \<Longrightarrow> attempt_in db k Q"
  by (auto simp: attempt_in_def)

lemma live_held: "live a \<Longrightarrow> a_status a \<noteq> AttQueued \<Longrightarrow> held_status (a_status a)"
  by (auto simp: live_iff live_status_def held_status_def)

text \<open>While the attempt of a start is live, the newest row of its key belongs to it.\<close>

lemma flight_snoc:
  assumes ok: "attempts_ok db" and fit: "row_fits db i" and i: "status_of i = ItemRunning"
    and rows: "rows = pre @ i # post" and same: "same_item i r"
    and fl: "attempt_in db (h_attempt i) (\<lambda>a. \<not> live a) \<or> flown (h_attempt i) (number_of i) (filter (same_item i) post)"
    and may: "\<And>p. newest_row rows (h_run r) (v_key (h_record r)) = Some p \<Longrightarrow>
       status_of p \<in> {ItemRunning, ItemCancelRequested} \<Longrightarrow>
       attempt_in db (h_attempt p) (\<lambda>a. held_status (a_status a)) \<Longrightarrow> flown (h_attempt p) (number_of p) [r]"
  shows "attempt_in db (h_attempt i) (\<lambda>a. \<not> live a)
     \<or> flown (h_attempt i) (number_of i) (filter (same_item i) (post @ [r]))"
proof (cases "attempt_in db (h_attempt i) (\<lambda>a. \<not> live a)")
  case False
  let ?later = "filter (same_item i) post"
  have item: "of_item (h_run r) (v_key (h_record r)) = same_item i"
    using same by (auto simp: of_same_item of_item_def)
  from False fl have fl: "flown (h_attempt i) (number_of i) ?later" by simp
  from fit i have "attempt_in db (h_attempt i) (\<lambda>a. a_status a \<noteq> AttQueued)"
    by (auto simp: row_fits_def elim: attempt_in_mono)
  with False have held: "attempt_in db (h_attempt i) (\<lambda>a. held_status (a_status a))"
    by (auto simp: attempt_in_def dest: live_held)
  have "flown (h_attempt i) (number_of i) [r]" if open_rows: "list_all (\<lambda>y. status_of y = ItemCancelRequested) ?later"
  proof (cases "?later = []")
    case True
    then have "find (same_item i) (rev post) = None" by (auto simp: find_None_iff filter_empty_conv)
    then have "newest_row rows (h_run r) (v_key (h_record r)) = Some i"
      unfolding rows newest_row_def item by (simp add: find_append) (simp add: same_item_def)
    from may[OF this] i held show ?thesis by simp
  next
    case False
    have "newest_row post (h_run r) (v_key (h_record r)) \<noteq> None"
      using False unfolding newest_row_None item by (auto simp: filter_empty_conv)
    then obtain p where p: "newest_row post (h_run r) (v_key (h_record r)) = Some p" by blast
    then have new: "newest_row rows (h_run r) (v_key (h_record r)) = Some p"
      unfolding rows newest_row_def by (simp add: find_append)
    from newest_row_Some[OF p] have "p \<in> set ?later" by (simp add: item)
    with flown_open[OF fl open_rows this] open_rows may[OF new] held show ?thesis by (auto simp: list_all_iff)
  qed
  with flown_snoc[OF fl] same show ?thesis by simp
qed simp

lemma items_inv_append:
  assumes inv: "items_inv s" and may: "may_follow s r" and ins: "insertable s r"
  shows "items_inv (s\<lparr>e_items := e_items s @ [r]\<rparr>)"
proof -
  let ?before = "newest_row (e_items s) (h_run r) (v_key (h_record r))"
  from inv have parts: "attempts_ok (e_db s)" "\<forall>r \<in> set (e_items s). row_fits (e_db s) r"
      "history_ok (e_db s) (e_items s)" "distinct (map (\<lambda>r. v_report (h_record r)) (e_items s))"
    by (simp_all add: items_inv_def)
  note m = may[unfolded may_follow_def may_succeed_def newest_rows]
  have here: "of_item (h_run r) (v_key (h_record r)) r" by (simp add: of_item_def)
  have count: "number_of r = starts (e_items s @ [r]) (h_run r) (v_key (h_record r))"
    using m newest_number[OF parts(3)] no_starts here
    by (cases ?before) (auto simp: is_start_def)
  have "history_ok (e_db s) (e_items s @ [r])"
    unfolding history_ok_def
  proof (intro allI impI)
    fix pre i post assume split: "e_items s @ [r] = pre @ i # post"
    show "number_of i = starts (pre @ [i]) (h_run i) (v_key (h_record i))
      \<and> successor (newest_row pre (h_run i) (v_key (h_record i))) i
      \<and> (status_of i = ItemRunning \<longrightarrow> attempt_in (e_db s) (h_attempt i) (\<lambda>a. \<not> live a)
         \<or> flown (h_attempt i) (number_of i) (filter (same_item i) post))"
    proof (cases post rule: rev_cases)
      case Nil
      with split have "pre = e_items s" "i = r" by simp_all
      with count m Nil show ?thesis by (simp del: starts_snoc)
    next
      case (snoc post' x)
      with split have x: "x = r" and old: "e_items s = pre @ i # post'" by simp_all
      note h = history_okD[OF parts(3)[unfolded old]]
      have "i \<in> set (e_items s)" by (simp add: old)
      with parts(2) have fit: "row_fits (e_db s) i" by blast
      have "attempt_in (e_db s) (h_attempt i) (\<lambda>a. \<not> live a)
         \<or> flown (h_attempt i) (number_of i) (filter (same_item i) (post' @ [r]))" if run: "status_of i = ItemRunning"
      proof (cases "same_item i r")
        case True
        show ?thesis
          by (rule flight_snoc[OF parts(1) fit run old True h(3)[OF run]]) (use m in auto)
      qed (use h(3)[OF run] in simp)
      with h(1,2) show ?thesis by (simp add: snoc x del: starts_snoc)
    qed
  qed
  moreover have "v_report (h_record r) \<notin> (\<lambda>r. v_report (h_record r)) ` set (e_items s)"
    using ins by (auto simp: insertable_def list_ex_iff)
  ultimately show ?thesis using parts m by (auto simp: items_inv_def)
qed

section \<open>Observed evidence\<close>

lemma joined_Some:
  "joined s p = Some v \<longleftrightarrow> (\<exists>a. row_of a_id (h_attempt p) (db_attempts (e_db s)) = Some a \<and> v = observe a p)"
  by (auto simp: joined_def)

lemma observe_simps [simp]:
  "v_key (observe a p) = v_key (h_record p)"
  "v_number (observe a p) = number_of p"
  "v_status (observe a p) = observed_status (status_of p) (a_status a)"
  "v_attempt (observe a p) = Some (h_attempt p)"
  "v_rows (observe a p) = v_rows (h_record p)"
  "v_started (observe a p) = v_started (h_record p)"
  "v_position (observe a p) = v_position (h_record p)"
  by (simp_all add: observe_def Let_def)

lemma observed_live:
  "held_status att \<Longrightarrow> st \<in> {ItemRunning, ItemCancelRequested} \<Longrightarrow> observed_status st att = st"
  by (auto simp: observed_status_def held_status_def)

lemma observed_start:
  "observed_status st att = ItemRunning \<Longrightarrow> st = ItemRunning \<and> held_status att"
  "observed_status st att = ItemCancelRequested \<Longrightarrow> st = ItemCancelRequested"
  "observed_status st att = ItemSuccess \<longleftrightarrow> st = ItemSuccess"
  "observed_status st att = ItemSkipped \<longleftrightarrow> st = ItemSkipped"
  by (auto simp: observed_status_def split: if_splits)

lemma stored_simps [simp]:
  "v_key (stored hide now fresh att v) = v_key v"
  "v_number (stored hide now fresh att v) = v_number v"
  "v_status (stored hide now fresh att v) = v_status v"
  "v_rows (stored hide now fresh att v) = v_rows v"
  "v_position (stored hide now fresh att v) = v_position v"
  "v_attempt (stored hide now fresh att v) = Some att"
  "v_error (stored hide now fresh att v) = mask_error hide (v_error v)"
  "v_report (stored hide now fresh att v) = (if v_report v = [] then fresh else v_report v)"
  by (simp_all add: stored_def Let_def)

lemma stored_cancelled: "v_status v = ItemCancelled \<Longrightarrow> v_ended (stored hide now fresh att v) = Some now"
  by (simp add: stored_def Let_def done_statuses_def)

lemma item_attempt:
  assumes "items_inv s" and "p \<in> set (e_items s)"
  obtains a where "row_of a_id (h_attempt p) (db_attempts (e_db s)) = Some a" and "a \<in> set (db_attempts (e_db s))"
    and "a_id a = h_attempt p" and "a_task_run a = h_run p" and "status_of p = ItemRunning \<Longrightarrow> a_status a \<noteq> AttQueued"
proof -
  from assms have fit: "row_fits (e_db s) p" and ok: "attempts_ok (e_db s)" by (auto simp: items_inv_def)
  from fit obtain a where a: "a \<in> set (db_attempts (e_db s))" "a_id a = h_attempt p" "a_task_run a = h_run p"
      "status_of p = ItemRunning \<longrightarrow> a_status a \<noteq> AttQueued" by (auto simp: row_fits_def attempt_in_def)
  have "attempts.table (db_next_attempt (e_db s)) (db_attempts (e_db s))"
    using ok by (simp add: attempts_ok_def lifecycle_inv_def work_inv_attempts)
  from attempts.table_row[OF this a(1)] a(2) have "row_of a_id (h_attempt p) (db_attempts (e_db s)) = Some a" by simp
  with a show thesis by (intro that[of a]) auto
qed

lemma evidence_Some:
  assumes "items_inv s" and "evidence s tr key = Some v"
  obtains p a where "newest s tr key = Some p" and "p \<in> set (e_items s)" and "h_run p = tr" and "v_key (h_record p) = key"
    and "v = observe a p" and "a \<in> set (db_attempts (e_db s))" and "a_id a = h_attempt p" and "a_task_run a = tr"
    and "status_of p = ItemRunning \<Longrightarrow> a_status a \<noteq> AttQueued"
proof -
  from assms(2) obtain p where p: "newest s tr key = Some p" "joined s p = Some v"
    by (auto simp: evidence_newest bind_eq_Some_conv)
  from newest_row_Some[OF p(1)[unfolded newest_rows]] have in_p: "p \<in> set (e_items s)" "of_item tr key p" by blast+
  from item_attempt[OF assms(1) in_p(1)] obtain a where a: "row_of a_id (h_attempt p) (db_attempts (e_db s)) = Some a"
      "a \<in> set (db_attempts (e_db s))" "a_id a = h_attempt p" "a_task_run a = h_run p"
      "status_of p = ItemRunning \<Longrightarrow> a_status a \<noteq> AttQueued" by blast
  from p(2) a(1) have "v = observe a p" by (simp add: joined_Some)
  with p(1) in_p a(2-5) show thesis by (intro that[of p a]) (auto simp: of_item_def)
qed

lemma no_evidence: "items_inv s \<Longrightarrow> evidence s tr key = None \<longleftrightarrow> newest s tr key = None"
proof
  assume inv: "items_inv s" and none: "evidence s tr key = None"
  show "newest s tr key = None"
  proof (rule ccontr)
    assume "newest s tr key \<noteq> None"
    then obtain p where p: "newest s tr key = Some p" by auto
    from newest_row_Some[OF p[unfolded newest_rows]] have "p \<in> set (e_items s)" by blast
    from item_attempt[OF inv this] obtain a where "row_of a_id (h_attempt p) (db_attempts (e_db s)) = Some a" by blast
    with none p show False by (simp add: evidence_newest joined_def)
  qed
qed (simp add: evidence_newest)

text \<open>A start is accepted only behind evidence that something may start.\<close>

lemma item_at_attempt:
  assumes "items_inv s" and "p \<in> set (e_items s)" and "attempt_in (e_db s) (h_attempt p) P"
    and "a \<in> set (db_attempts (e_db s))" and "a_id a = h_attempt p"
  shows "P a"
proof -
  from assms(3) obtain b where b: "b \<in> set (db_attempts (e_db s))" "a_id b = h_attempt p" "P b"
    by (auto simp: attempt_in_def)
  have "attempts.table (db_next_attempt (e_db s)) (db_attempts (e_db s))"
    using assms(1) by (simp add: items_inv_def attempts_ok_def lifecycle_inv_def work_inv_attempts)
  from attempts.table_same[OF this assms(4) b(1)] assms(5) b show ?thesis by simp
qed

lemma live_same_run:
  assumes inv: "items_inv s" and a: "a \<in> set (db_attempts (e_db s))" "live a"
    and b: "b \<in> set (db_attempts (e_db s))" "live b" "a_task_run a = a_task_run b"
  shows "a = b"
proof -
  have wi: "work_inv (e_db s)" using inv by (simp add: items_inv_def attempts_ok_def lifecycle_inv_def)
  from live_attempt_unique[OF wi a(1) b(1) a(2) b(2,3)] attempts.table_same[OF work_inv_attempts[OF wi] a(1) b(1)]
  show ?thesis by simp
qed

lemma start_behind:
  assumes inv: "items_inv s" and p: "p \<in> set (e_items s)" and a: "a \<in> set (db_attempts (e_db s))" "a_id a = h_attempt p"
    and b: "b \<in> set (db_attempts (e_db s))" "held_status (a_status b)" "a_task_run b = a_task_run a"
    and open_start: "\<not> prevents_start (observe a p)" "v_status (observe a p) \<noteq> ItemRunning"
  shows "status_of p \<in> {ItemQueued, ItemFailed, ItemRunning}
    \<and> \<not> (status_of p \<in> {ItemRunning, ItemCancelRequested} \<and> held_status (a_status a))"
proof -
  have fit: "row_fits (e_db s) p" using inv p by (auto simp: items_inv_def)
  have timed: "\<not> live_status (a_status a) \<Longrightarrow> a_ended_at a \<noteq> None"
    using inv a by (auto simp: items_inv_def attempts_ok_def untimed_def)
  have not_queued: "a_status a \<noteq> AttQueued" if "\<not> held_status (a_status a)" "status_of p = ItemCancelRequested"
      "v_ended (observe a p) = None"
  proof
    assume q: "a_status a = AttQueued"
    then have "a = b" by (intro live_same_run[OF inv a(1) _ b(1)])
        (use b in \<open>auto simp: live_iff live_status_def held_status_def\<close>)
    with b(2) that(1) show False by simp
  qed
  have cancelled: "status_of p \<noteq> ItemCancelled"
  proof
    assume "status_of p = ItemCancelled"
    with fit open_start(1) show False
      by (auto simp: prevents_start_def done_statuses_def row_fits_def observe_def Let_def observed_status_def)
  qed
  have requested: "status_of p \<noteq> ItemCancelRequested"
  proof
    assume cr: "status_of p = ItemCancelRequested"
    show False
    proof (cases "a_status a \<in> {AttClaimed, AttRunning, AttLost}")
      case True
      with cr open_start(1) show False
        by (auto simp: prevents_start_def observed_status_def held_status_def)
    next
      case False
      then have free: "\<not> held_status (a_status a)" by (auto simp: held_status_def)
      have "v_status (observe a p) = ItemCancelled"
        using cr False by (simp add: observed_status_def held_status_def)
      with open_start(1) have none: "v_ended (observe a p) = None"
        by (auto simp: prevents_start_def done_statuses_def)
      with cr False have "a_ended_at a = None" by (auto simp: observe_def Let_def split: option.splits)
      with timed not_queued[OF free cr none] free show False by (auto simp: live_status_def held_status_def)
    qed
  qed
  have "status_of p \<notin> {ItemSuccess, ItemSkipped}"
    using open_start(1) by (auto simp: prevents_start_def done_statuses_def observed_status_def)
  moreover have "\<not> (status_of p = ItemRunning \<and> held_status (a_status a))"
    using open_start(2) observed_live[of "a_status a" "status_of p"] by auto
  ultimately show ?thesis using cancelled requested by (cases "status_of p") auto
qed

text \<open>The rows the three writers append.\<close>

lemma fenced:
  assumes "assert_identity now g db = Inr ()"
  obtains b where "b \<in> set (db_attempts db)" and "a_id b = g_attempt g" and "a_task_run b = g_task_run g"
    and "held_status (a_status b)" and "a_owner b = Some (g_owner g)" and "lease_live (a_lease b) now"
  using assms
  by (auto simp: assert_identity_def fence_def err_simps split: option.splits if_splits dest!: row_of_Some intro: that)

lemma judge_event_append:
  "judge_event att e old = Inr (Inr e') \<longleftrightarrow>
     (\<exists>p. old = Some p \<and>
       (v_status e = ItemRunning \<and> e' = e \<and> \<not> prevents_start p \<and> v_status p \<noteq> ItemRunning \<and> v_number e = v_number p + 1
        \<or> v_status e \<in> {ItemSuccess, ItemFailed} \<and> v_attempt p = Some att \<and> v_number p = v_number e
          \<and> (v_status p = ItemRunning \<and> e' = e
             \<or> v_status p = ItemCancelRequested \<and> e' = e\<lparr>v_status := ItemCancelled, v_position := None\<rparr>)))"
  by (cases old) (auto simp: judge_event_def)

lemma record_item_cases:
  assumes "record_item hide now fresh tr att e s = Inr (v, s')"
  shows "s' = s \<or> (\<exists>e'. judge_event att e (evidence s tr (v_key e)) = Inr (Inr e')
     \<and> append_item hide now fresh tr att e' s = Inr (v, s'))"
proof (cases "judge_event att e (evidence s tr (v_key e))")
  case (Inl x)
  with assms show ?thesis by (auto simp: record_item_def split: option.splits if_splits)
next
  case (Inr j)
  with assms show ?thesis
    by (cases j) (auto simp: record_item_def split: option.splits if_splits)
qed

lemma append_item_Inr: "append_item hide now fresh tr att e s = Inr (v, s') \<longleftrightarrow>
    (let r = \<lparr>h_run = tr, h_attempt = att, h_record = stored hide now fresh att e\<rparr> in
     v = h_record r \<and> insertable s r \<and> s' = s\<lparr>e_items := e_items s @ [r]\<rparr>)"
  by (auto simp: append_item_def Let_def)

lemma record_may_follow:
  assumes inv: "items_inv s" and g: "assert_identity now g (e_db s) = Inr ()"
    and j: "judge_event (g_attempt g) e (evidence s (g_task_run g) (v_key e)) = Inr (Inr e')"
    and r: "r = \<lparr>h_run = g_task_run g, h_attempt = g_attempt g, h_record = stored hide now fresh (g_attempt g) e'\<rparr>"
    and ins: "insertable s r"
  shows "may_follow s r"
proof -
  obtain b where b: "b \<in> set (db_attempts (e_db s))" "a_id b = g_attempt g" "a_task_run b = g_task_run g"
    "held_status (a_status b)" by (rule fenced[OF g]) (rule that)
  obtain v where ev: "evidence s (g_task_run g) (v_key e) = Some v"
    and cases: "v_status e = ItemRunning \<and> e' = e \<and> \<not> prevents_start v \<and> v_status v \<noteq> ItemRunning \<and> v_number e = v_number v + 1
        \<or> v_status e \<in> {ItemSuccess, ItemFailed} \<and> v_attempt v = Some (g_attempt g) \<and> v_number v = v_number e
          \<and> (v_status v = ItemRunning \<and> e' = e
             \<or> v_status v = ItemCancelRequested \<and> e' = e\<lparr>v_status := ItemCancelled, v_position := None\<rparr>)"
    using j unfolding judge_event_append by blast
  obtain p a where p: "newest s (g_task_run g) (v_key e) = Some p" "p \<in> set (e_items s)" "v = observe a p"
      "a \<in> set (db_attempts (e_db s))" "a_id a = h_attempt p" "a_task_run a = g_task_run g"
    by (rule evidence_Some[OF inv ev]) (rule that)
  have key: "v_key e' = v_key e" "h_run r = g_task_run g" "v_key (h_record r) = v_key e"
    using cases by (auto simp: r)
  have fit: "row_fits (e_db s) r"
    using ins b stored_cancelled[of e' hide now fresh "g_attempt g"]
    by (auto simp: row_fits_def insertable_def r attempt_in_def held_status_def)
  have "successor (Some p) r \<and> number_of r = number_of p + (if status_of r = ItemRunning then 1 else 0)
     \<and> (status_of p \<in> {ItemRunning, ItemCancelRequested}
        \<and> attempt_in (e_db s) (h_attempt p) (\<lambda>a. held_status (a_status a)) \<longrightarrow> flown (h_attempt p) (number_of p) [r])"
    using cases
  proof (elim disjE conjE)
    assume start: "v_status e = ItemRunning" "e' = e" "\<not> prevents_start v" "v_status v \<noteq> ItemRunning"
      "v_number e = v_number v + 1"
    from start_behind[OF inv p(2,4,5) b(1,4)] b(3) p(3,6) start
    have open_p: "status_of p \<in> {ItemQueued, ItemFailed, ItemRunning}"
        "\<not> (status_of p \<in> {ItemRunning, ItemCancelRequested} \<and> held_status (a_status a))" by simp_all
    have "\<not> (status_of p \<in> {ItemRunning, ItemCancelRequested}
        \<and> attempt_in (e_db s) (h_attempt p) (\<lambda>a. held_status (a_status a)))"
      using open_p(2) item_at_attempt[OF inv p(2) _ p(4,5)] by blast
    with start open_p(1) p(3) show ?thesis by (simp add: r successor_def)
  next
    assume e: "v_status e \<in> {ItemSuccess, ItemFailed}" "v_attempt v = Some (g_attempt g)" "v_number v = v_number e"
      "v_status v = ItemRunning" "e' = e"
    with p(3) show ?thesis by (auto simp: r successor_def)
  next
    assume e: "v_status e \<in> {ItemSuccess, ItemFailed}" "v_attempt v = Some (g_attempt g)" "v_number v = v_number e"
      "v_status v = ItemCancelRequested" "e' = e\<lparr>v_status := ItemCancelled, v_position := None\<rparr>"
    with p(3) show ?thesis by (auto simp: r successor_def)
  qed
  with fit show ?thesis unfolding may_follow_def may_succeed_def key(2,3) p(1) option.case by blast
qed

lemma may_follow_other:
  assumes "may_follow s r" and "\<not> same_item x r"
  shows "may_follow (s\<lparr>e_items := e_items s @ [x]\<rparr>) r"
proof -
  have "newest (s\<lparr>e_items := e_items s @ [x]\<rparr>) (h_run r) (v_key (h_record r)) = newest s (h_run r) (v_key (h_record r))"
    using assms(2) by (auto simp: newest_rows of_item_def same_item_def)
  with assms(1) show ?thesis by (simp add: may_follow_def)
qed

lemma items_inv_decisions [simp]: "items_inv (s\<lparr>e_decisions := d\<rparr>) = items_inv s"
  by (simp add: items_inv_def)

lemma may_follow_decisions [simp]: "may_follow (s\<lparr>e_decisions := d\<rparr>) r = may_follow s r"
  by (simp add: may_follow_def newest_def)

definition item_keys :: "item_row list \<Rightarrow> (int \<times> string) list" where
  "item_keys rows = map (\<lambda>r. (h_run r, v_key (h_record r))) rows"

lemma insert_items_Inr: "insert_items rows s = Inr s' \<Longrightarrow> s' = s\<lparr>e_items := e_items s @ rows\<rparr>"
proof (induction rows arbitrary: s)
  case (Cons r rows)
  then have "insert_items rows (s\<lparr>e_items := e_items s @ [r]\<rparr>) = Inr s'" by (simp split: if_splits)
  from Cons.IH[OF this] show ?case by simp
qed simp

lemma insert_items_keeps:
  assumes "insert_items rows s = Inr s'" and "items_inv s" and "\<forall>r \<in> set rows. may_follow s r"
    and "distinct (item_keys rows)"
  shows "items_inv s'"
  using assms
proof (induction rows arbitrary: s)
  case (Cons r rows)
  let ?s = "s\<lparr>e_items := e_items s @ [r]\<rparr>"
  from Cons.prems(1) have ins: "insertable s r" and rest: "insert_items rows ?s = Inr s'"
    by (auto split: if_splits)
  have "items_inv ?s" by (rule items_inv_append[OF Cons.prems(2) _ ins]) (use Cons.prems(3) in simp)
  moreover have "\<not> same_item r x" if "x \<in> set rows" for x
  proof -
    have "(h_run x, v_key (h_record x)) \<in> (\<lambda>r. (h_run r, v_key (h_record r))) ` set rows"
      using that by (rule imageI)
    with Cons.prems(4) show ?thesis by (auto simp: item_keys_def same_item_def)
  qed
  then have "\<forall>x \<in> set rows. may_follow ?s x"
    using Cons.prems(3) by (auto intro!: may_follow_other)
  ultimately show ?case using Cons.IH[OF rest] Cons.prems(4) by (simp add: item_keys_def)
qed simp

lemma check_keys_None: "check_keys seen ks = None \<longleftrightarrow>
    list_all valid_item_key ks \<and> distinct ks \<and> set seen \<inter> set ks = {}"
  by (induction ks arbitrary: seen) auto

lemma bounded_keys_Inr: "bounded_keys items maximum = Inr ks \<longleftrightarrow>
    ks = items \<and> int (length items) \<le> maximum \<and> list_all valid_item_key items \<and> distinct items"
proof -
  have short: "int (length (take (nat (maximum + 1)) items)) \<le> maximum \<longleftrightarrow> int (length items) \<le> maximum"
    by auto
  have "take (nat (maximum + 1)) items = items" if "int (length items) \<le> maximum"
    using that by simp
  then show ?thesis
    using short check_keys_None[of "[]" items]
    by (cases "check_keys [] items") (auto simp: bounded_keys_def Let_def not_less split: if_splits)
qed

lemma map_filter_keys:
  assumes "\<And>x y. f x = Some y \<Longrightarrow> h y = k x" and "distinct (map k xs)"
  shows "distinct (map h (List.map_filter f xs))"
  using assms(2)
proof (induction xs)
  case (Cons x xs)
  have "set (map h (List.map_filter f xs)) \<subseteq> set (map k xs)"
    using assms(1) by (force simp: map_filter_def)
  with Cons assms(1) show ?case by (auto simp: map_filter_simps split: option.splits)
qed (simp add: map_filter_simps)

lemma map_filter_member: "y \<in> set (List.map_filter f xs) \<longleftrightarrow> (\<exists>x \<in> set xs. f x = Some y)"
  by (force simp: map_filter_def)

lemma prepared_row_key:
  "prepared_row s now tr att entry = Some r \<Longrightarrow> h_run r = tr \<and> h_attempt r = att \<and> v_key (h_record r) = fst entry"
proof -
  assume p: "prepared_row s now tr att entry = Some r"
  have "v_key (h_record old) = fst entry" if "newest s tr (fst entry) = Some old" for old
    using that newest_row_Some[of "e_items s" tr "fst entry" old] by (simp add: newest_rows of_item_def)
  with p show ?thesis by (auto simp: prepared_row_def split: option.splits if_splits)
qed

lemma prepared_may_follow:
  assumes inv: "items_inv s" and g: "assert_identity now g (e_db s) = Inr ()"
    and p: "prepared_row s t (g_task_run g) (g_attempt g) entry = Some r" and ok: "item_columns (h_record r)"
  shows "may_follow s r"
proof -
  obtain b where b: "b \<in> set (db_attempts (e_db s))" "a_id b = g_attempt g" "a_task_run b = g_task_run g"
    "held_status (a_status b)" by (rule fenced[OF g]) (rule that)
  note key = prepared_row_key[OF p]
  have at: "attempt_in (e_db s) (g_attempt g) (\<lambda>a. a_task_run a = g_task_run g)"
    using b by (auto simp: attempt_in_def)
  show ?thesis
  proof (cases "newest s (g_task_run g) (fst entry)")
    case None
    with p at ok key show ?thesis
      by (auto simp: may_follow_def may_succeed_def prepared_row_def row_fits_def successor_def)
  next
    case (Some old)
    with p at ok key show ?thesis
      by (auto simp: may_follow_def may_succeed_def prepared_row_def row_fits_def successor_def split: if_splits)
  qed
qed

lemma insert_items_insertable: "insert_items rows s = Inr s' \<Longrightarrow> r \<in> set rows \<Longrightarrow> item_columns (h_record r)"
  by (induction rows arbitrary: s) (auto simp: insertable_def split: if_splits)

lemma prepare_items_Inr:
  assumes "prepare_items now g keys fresh s = Inr s'"
  shows "assert_identity now g (e_db s) = Inr ()" and "distinct keys" and "list_all valid_item_key keys"
    and "prepare now (g_task_run g) (g_attempt g) (zip keys fresh) s = Inr s'"
  using assms by (auto simp: prepare_items_def err_simps bounded_keys_Inr)

lemma prepare_items_keeps:
  assumes inv: "items_inv s" and p: "prepare_items now g keys fresh s = Inr s'"
  shows "items_inv s'"
proof -
  note parts = prepare_items_Inr[OF p]
  let ?rows = "List.map_filter (prepared_row s now (g_task_run g) (g_attempt g)) (zip keys fresh)"
  from parts(4) have ins: "insert_items ?rows s = Inr s'" by (simp add: prepare_def)
  show ?thesis
  proof (rule insert_items_keeps[OF ins inv])
    show "\<forall>r \<in> set ?rows. may_follow s r"
    proof
      fix r assume r: "r \<in> set ?rows"
      then obtain entry where "prepared_row s now (g_task_run g) (g_attempt g) entry = Some r"
        by (auto simp: map_filter_member)
      then show "may_follow s r" by (rule prepared_may_follow[OF inv parts(1)]) (rule insert_items_insertable[OF ins r])
    qed
    have "distinct (map fst (zip keys fresh))" using parts(2) by (simp add: map_fst_zip_take)
    then have "distinct (map (\<lambda>e. (g_task_run g, fst e)) (zip keys fresh))"
      by (simp add: distinct_map inj_on_def)
    then show "distinct (item_keys ?rows)"
      unfolding item_keys_def by (rule map_filter_keys[rotated]) (auto dest: prepared_row_key)
  qed
qed

text \<open>An operator's decision is about the newest evidence of each key, under the latest attempt.\<close>

definition decided_row ::
  "(string \<Rightarrow> string) \<Rightarrow> instant \<Rightarrow> int \<Rightarrow> int \<Rightarrow> item_control \<Rightarrow> item_record \<times> string \<Rightarrow> item_row" where
  "decided_row hide now tr att q target = \<lparr>h_run = tr, h_attempt = att,
     h_record = stored hide now (snd target) att ((fst target)
       \<lparr>v_status := decided_status q (fst target),
        v_rows := (if y_action q = ItemMark then Some (y_rows q) else v_rows (fst target)),
        v_error := Some (y_reason q), v_report := snd target,
        v_ended := (if live_item (v_status (fst target)) then None else Some now)\<rparr>)\<rparr>"

lemma decided_row_simps [simp]:
  "h_run (decided_row hide now tr att q target) = tr"
  "h_attempt (decided_row hide now tr att q target) = att"
  "v_key (h_record (decided_row hide now tr att q target)) = v_key (fst target)"
  "number_of (decided_row hide now tr att q target) = v_number (fst target)"
  "status_of (decided_row hide now tr att q target) = decided_status q (fst target)"
  "v_attempt (h_record (decided_row hide now tr att q target)) = Some att"
  "v_position (h_record (decided_row hide now tr att q target)) = v_position (fst target)"
  by (simp_all add: decided_row_def)

lemma change_Inr: "change hide now tr att q target s = Inr s' \<longleftrightarrow>
    \<not> (v_started (fst target) \<noteq> None \<and> v_ended (fst target) = None \<and> v_status (fst target) = ItemFailed)
    \<and> (live_item (v_status (fst target)) \<longrightarrow> y_action q = ItemCancel)
    \<and> insertable s (decided_row hide now tr att q target)
    \<and> s' = s\<lparr>e_items := e_items s @ [decided_row hide now tr att q target],
             e_decisions := e_decisions s @ [\<lparr>j_run = y_run q, j_task = y_task q, j_action = y_action q,
               j_key = v_key (fst target), j_from = v_status (fst target),
               j_to = decided_status q (fst target), j_rows = y_rows q\<rparr>]\<rparr>"
  by (cases target) (auto simp: change_def Let_def err_simps append_item_Inr decided_row_def)

lemma decided_not_running: "check_item_control q \<Longrightarrow> decided_status q old \<noteq> ItemRunning"
  by (auto simp: decided_status_def check_item_control_def split: item_action.splits option.splits)

lemma fold_max: "x \<in> set (y # ys) \<Longrightarrow> (x::int) \<le> fold max ys y"
proof (induction ys arbitrary: x y)
  case (Cons a ys)
  have "max a y \<le> fold max ys (max a y)" by (rule Cons.IH) simp
  with Cons.IH[of x "max a y"] Cons.prems show ?case by auto
qed simp

lemma fold_max_in: "fold max ys (y::int) \<in> set (y # ys)"
  by (induction ys arbitrary: y) (auto simp: max_def)

lemma last_attempt_Some:
  assumes "last_attempt db tr = Some m"
  shows "\<exists>a \<in> set (db_attempts db). a_task_run a = tr \<and> a_id a = m"
    and "\<And>b. b \<in> set (db_attempts db) \<Longrightarrow> a_task_run b = tr \<Longrightarrow> a_id b \<le> m"
proof -
  let ?ids = "map a_id (filter (\<lambda>a. a_task_run a = tr) (db_attempts db))"
  from assms have m: "?ids \<noteq> []" "m = fold max (tl ?ids) (hd ?ids)"
    by (auto simp: last_attempt_def Let_def split: if_splits)
  then have set: "set (hd ?ids # tl ?ids) = set ?ids" by simp
  have "m \<in> set ?ids" using fold_max_in[of "tl ?ids" "hd ?ids"] unfolding m(2)[symmetric] set .
  then show "\<exists>a \<in> set (db_attempts db). a_task_run a = tr \<and> a_id a = m" by auto
  show "a_id b \<le> m" if "b \<in> set (db_attempts db)" "a_task_run b = tr" for b
    using fold_max[of "a_id b" "hd ?ids" "tl ?ids"] that unfolding m(2) set by auto
qed

lemma decided_may_follow:
  assumes inv: "items_inv s" and q: "check_item_control q" and last: "last_attempt (e_db s) tr = Some att"
    and new: "newest s tr (v_key old) = Some p" and old: "old = observe a p"
    and a: "a \<in> set (db_attempts (e_db s))" "a_id a = h_attempt p" "a_task_run a = tr"
    and free: "live_item (v_status old) \<longrightarrow> y_action q = ItemCancel"
    and cols: "item_columns (h_record (decided_row hide now tr att q (old, fresh)))"
  shows "may_follow s (decided_row hide now tr att q (old, fresh))"
proof -
  let ?r = "decided_row hide now tr att q (old, fresh)"
  have p: "p \<in> set (e_items s)" using new newest_row_Some by (force simp: newest_rows)
  note nr = decided_not_running[OF q, of old]
  have "v_ended (h_record ?r) \<noteq> None" if "decided_status q old = ItemCancelled"
    using that by (simp add: decided_row_def stored_cancelled)
  with cols last_attempt_Some(1)[OF last] nr have fit: "row_fits (e_db s) ?r"
    by (auto simp: row_fits_def attempt_in_def)
  have "flown (h_attempt p) (number_of p) [?r]"
    if "status_of p \<in> {ItemRunning, ItemCancelRequested}" "attempt_in (e_db s) (h_attempt p) (\<lambda>a. held_status (a_status a))"
  proof -
    have held: "held_status (a_status a)" by (rule item_at_attempt[OF inv p that(2) a(1,2)])
    with that(1) have st: "v_status old = status_of p" by (simp add: old observed_live)
    with free that(1) have "decided_status q old = ItemCancelRequested"
      by (auto simp: decided_status_def live_item_def)
    moreover have "att = h_attempt p"
    proof -
      have "live a" using held by (auto simp: live_iff live_status_def held_status_def)
      with inv a(1) have "\<forall>b \<in> set (db_attempts (e_db s)). a_task_run b = a_task_run a \<longrightarrow> a_id b \<le> a_id a"
        by (auto simp: items_inv_def attempts_ok_def)
      with last_attempt_Some[OF last] a show ?thesis by force
    qed
    ultimately show ?thesis by (simp add: old)
  qed
  with fit nr new show ?thesis by (auto simp: may_follow_def may_succeed_def successor_def old)
qed

lemma decide_all_keeps:
  assumes "fold_err (change hide now tr att q) targets s = Inr s'" and "items_inv s"
    and "\<And>old fresh. (old, fresh) \<in> set targets \<Longrightarrow> live_item (v_status old) \<longrightarrow> y_action q = ItemCancel \<Longrightarrow>
       item_columns (h_record (decided_row hide now tr att q (old, fresh))) \<Longrightarrow>
       may_follow s (decided_row hide now tr att q (old, fresh))"
    and "distinct (map (v_key \<circ> fst) targets)"
  shows "items_inv s'"
  using assms
proof (induction targets arbitrary: s)
  case (Cons target targets)
  obtain old fresh where t: "target = (old, fresh)" by (cases target)
  let ?r = "decided_row hide now tr att q target"
  from Cons.prems(1) obtain s1 where s1: "change hide now tr att q target s = Inr s1"
    and rest: "fold_err (change hide now tr att q) targets s1 = Inr s'" by (auto simp: err_simps)
  note c = s1[unfolded change_Inr]
  have "may_follow s ?r" unfolding t by (rule Cons.prems(3)) (use c t in \<open>auto simp: insertable_def\<close>)
  with c have "items_inv (s\<lparr>e_items := e_items s @ [?r]\<rparr>)" by (intro items_inv_append[OF Cons.prems(2)]) blast+
  then have "items_inv s1" using c by (simp add: items_inv_def)
  then show ?case
  proof (rule Cons.IH[OF rest])
    fix old' fresh' assume o: "(old', fresh') \<in> set targets" "live_item (v_status old') \<longrightarrow> y_action q = ItemCancel"
      "item_columns (h_record (decided_row hide now tr att q (old', fresh')))"
    have "(v_key \<circ> fst) (old', fresh') \<in> set (map (v_key \<circ> fst) targets)"
      using o(1) unfolding set_map by (rule imageI)
    moreover have "(v_key \<circ> fst) target \<notin> set (map (v_key \<circ> fst) targets)" using Cons.prems(4) by simp
    ultimately have "v_key (fst target) \<noteq> v_key old'" by (metis comp_apply fst_conv)
    then have "\<not> same_item ?r (decided_row hide now tr att q (old', fresh'))" by (auto simp: same_item_def)
    with Cons.prems(3)[OF _ o(2,3)] o(1) have "may_follow (s\<lparr>e_items := e_items s @ [?r]\<rparr>) (decided_row hide now tr att q (old', fresh'))"
      by (intro may_follow_other) auto
    with c show "may_follow s1 (decided_row hide now tr att q (old', fresh'))"
      by (simp add: may_follow_def newest_def)
  qed (use Cons.prems(4) in simp)
qed simp

lemma latest_items_member:
  assumes "v \<in> set (latest_items s tr None)"
  obtains p a where "newest s tr (v_key v) = Some p" and "v = observe a p" and "p \<in> set (e_items s)"
    and "a \<in> set (db_attempts (e_db s))" and "a_id a = h_attempt p"
proof -
  from assms obtain p where p: "p \<in> set (unsuperseded same_item (e_items s))" "h_run p = tr" "joined s p = Some v"
    by (auto simp: latest_items_def map_filter_member)
  from p(3) obtain a where a: "row_of a_id (h_attempt p) (db_attempts (e_db s)) = Some a" "v = observe a p"
    by (auto simp: joined_Some)
  from unsuperseded_row[OF p(1)] p(2) a(2) have "newest s tr (v_key v) = Some p" by (simp add: newest_rows)
  with p a row_of_Some[OF a(1)] unsuperseded_subset[of same_item "e_items s"] show thesis by (intro that) auto
qed

lemma latest_items_distinct: "distinct (map v_key (latest_items s tr None))"
proof -
  have "distinct (map (\<lambda>r. (h_run r, v_key (h_record r))) (filter (\<lambda>r. h_run r = tr) (unsuperseded same_item (e_items s))))"
    by (rule List.distinct_map_filter[OF unsuperseded_distinct])
  then have "distinct (map (\<lambda>r. v_key (h_record r)) (filter (\<lambda>r. h_run r = tr) (unsuperseded same_item (e_items s))))"
    by (auto simp: distinct_map inj_on_def)
  then have "distinct (map (\<lambda>r. v_key (h_record r)) (sort_key (\<lambda>r. v_key (h_record r))
      (filter (\<lambda>r. h_run r = tr) (unsuperseded same_item (e_items s)))))"
    by (simp add: distinct_map)
  moreover have "(\<lambda>r. h_run r = tr \<and> (None = None \<or> None = Some (v_key (h_record r)))) = (\<lambda>r. h_run r = tr)"
    by simp
  ultimately show ?thesis unfolding latest_items_def
    by (intro map_filter_keys[where k = "\<lambda>r. v_key (h_record r)"]) (auto simp: joined_Some)
qed

lemma control_items_Inr:
  assumes "control_items hide strict python now q fresh s = Inr s'"
  shows "check_item_control q \<and> (\<exists>t att. t \<in> set (db_tasks (e_db s)) \<and> t_run t = y_run q \<and> t_task t = y_task q
    \<and> last_attempt (e_db s) (t_id t) = Some att
    \<and> (y_action q = ItemRerun \<longrightarrow> t_status t \<notin> {RunQueued, RunInProgress})
    \<and> fold_err (change hide now (t_id t) att q)
         (zip (selected_items q (latest_items s (t_id t) None)) fresh) s = Inr s')"
proof -
  from assms obtain t where t: "find (\<lambda>t. t_run t = y_run q \<and> t_task t = y_task q) (db_tasks (e_db s)) = Some t"
    by (auto simp: control_items_def split: option.splits if_splits)
  then have "t \<in> set (db_tasks (e_db s))" "t_run t = y_run q" "t_task t = y_task q"
    by (auto simp: find_Some_iff)
  with assms t show ?thesis
    by (auto simp: control_items_def Let_def split: option.splits if_splits intro!: exI[of _ t])
qed

lemma control_items_keeps:
  assumes inv: "items_inv s" and c: "control_items hide strict python now q fresh s = Inr s'"
  shows "items_inv s'"
proof -
  from control_items_Inr[OF c] obtain t :: task_row and att where q: "check_item_control q"
    and last: "last_attempt (e_db s) (t_id t) = Some att"
    and fold: "fold_err (change hide now (t_id t) att q)
           (zip (selected_items q (latest_items s (t_id t) None)) fresh) s = Inr s'"
    by (elim exE conjE) (rule that)
  let ?sel = "selected_items q (latest_items s (t_id t) None)"
  show ?thesis
  proof (rule decide_all_keeps[OF fold inv])
    fix old fresh' assume o: "(old, fresh') \<in> set (zip ?sel fresh)" "live_item (v_status old) \<longrightarrow> y_action q = ItemCancel"
      "item_columns (h_record (decided_row hide now (t_id t) att q (old, fresh')))"
    from o(1) have "old \<in> set (latest_items s (t_id t) None)"
      by (auto simp: selected_items_def dest: set_zip_leftD)
    then obtain p a where p: "newest s (t_id t) (v_key old) = Some p" "old = observe a p" "p \<in> set (e_items s)"
        "a \<in> set (db_attempts (e_db s))" "a_id a = h_attempt p" by (rule latest_items_member) (rule that)
    from item_attempt[OF inv p(3)] obtain a' where a': "a' \<in> set (db_attempts (e_db s))" "a_id a' = h_attempt p"
        "a_task_run a' = h_run p" by blast
    have "h_run p = t_id t" using p(1) newest_row_Some[of "e_items s"] by (force simp: newest_rows of_item_def)
    moreover have "a_task_run a = h_run p"
      using item_at_attempt[OF inv p(3) _ p(4,5), of "\<lambda>a. a_task_run a = h_run p"] a' by (auto simp: attempt_in_def)
    ultimately show "may_follow s (decided_row hide now (t_id t) att q (old, fresh'))"
      using decided_may_follow[OF inv q last p(1,2,4,5) _ o(2,3)] by simp
  next
    have "distinct (map v_key ?sel)" unfolding selected_items_def by (rule List.distinct_map_filter[OF latest_items_distinct])
    moreover have "map (v_key \<circ> fst) (zip ?sel fresh) = take (length (zip ?sel fresh)) (map v_key ?sel)"
      unfolding map_map[symmetric] by (simp add: map_fst_zip_take take_map)
    ultimately show "distinct (map (v_key \<circ> fst) (zip ?sel fresh))" by (simp del: length_zip)
  qed
qed

section \<open>The transition system of items\<close>

text \<open>
  Work lists, reports and operator decisions, in any order and interleaved with every operation
  of the lifecycle.
\<close>

inductive item_step ::
  "(engine_db \<Rightarrow> attempt_row \<Rightarrow> bool) \<Rightarrow> (string \<Rightarrow> string) \<Rightarrow> item_db \<Rightarrow> item_db \<Rightarrow> bool"
  for capacity hide where
  lifecycle: "lifecycle_step capacity (e_db s) db \<Longrightarrow> item_step capacity hide s (s\<lparr>e_db := db\<rparr>)"
| prepare: "prepare_items now g keys fresh s = Inr s' \<Longrightarrow> item_step capacity hide s s'"
| event: "item_event hide now fresh g offset kind e s = Inr (v, s') \<Longrightarrow> item_step capacity hide s s'"
| control: "control_items hide strict python now q fresh s = Inr s' \<Longrightarrow> item_step capacity hide s s'"

inductive_cases item_stepE: "item_step capacity hide s s'"

definition empty_items :: item_db where
  "empty_items = \<lparr>e_db = empty_db, e_items = [], e_decisions = []\<rparr>"

definition items_reachable ::
  "(engine_db \<Rightarrow> attempt_row \<Rightarrow> bool) \<Rightarrow> (string \<Rightarrow> string) \<Rightarrow> item_db \<Rightarrow> bool" where
  "items_reachable capacity hide s \<longleftrightarrow> (item_step capacity hide)\<^sup>*\<^sup>* empty_items s"

lemma item_event_Inr:
  assumes "item_event hide now fresh g offset kind e s = Inr (v, s')"
  shows "assert_identity now g (e_db s) = Inr ()"
    and "record_item hide now fresh (g_task_run g) (g_attempt g) e s = Inr (v, s')"
  using assms by (auto simp: item_event_def err_simps split: option.splits)

lemma item_event_keeps:
  assumes inv: "items_inv s" and e: "item_event hide now fresh g offset kind e s = Inr (v, s')"
  shows "items_inv s'"
proof -
  note g = item_event_Inr[OF e]
  from record_item_cases[OF g(2)] show ?thesis
  proof (elim disjE exE conjE)
    fix e' assume j: "judge_event (g_attempt g) e (evidence s (g_task_run g) (v_key e)) = Inr (Inr e')"
      and a: "append_item hide now fresh (g_task_run g) (g_attempt g) e' s = Inr (v, s')"
    from a[unfolded append_item_Inr Let_def] record_may_follow[OF inv g(1) j refl] show ?thesis
      by (auto intro: items_inv_append[OF inv])
  qed (use inv in simp)
qed

lemma attempt_in_step:
  assumes s: "lifecycle_step capacity db db'" and inv: "lifecycle_inv db" and a: "attempt_in db k P"
    and keep: "\<And>a a'. P a \<Longrightarrow> a_task_run a' = a_task_run a \<Longrightarrow> attempt_move (a_status a) (a_status a') \<Longrightarrow>
       (\<not> live a \<Longrightarrow> a' = a) \<Longrightarrow> Q a'"
  shows "attempt_in db' k Q"
proof -
  from a obtain a where a: "a \<in> set (db_attempts db)" "a_id a = k" "P a" by (auto simp: attempt_in_def)
  with lifecycle_step_evolves[OF inv s] obtain a' where a': "a' \<in> set (db_attempts db')" "a_id a' = a_id a"
      "a_task_run a' = a_task_run a" "attempt_move (a_status a) (a_status a')" "\<not> live a \<longrightarrow> a' = a"
    unfolding attempts_evolve_def by blast
  have "Q a'" by (rule keep[OF a(3) a'(3,4)]) (use a'(5) in blast)
  with a' a(2) show ?thesis by (auto simp: attempt_in_def)
qed

lemma move_queued: "attempt_move s s' \<Longrightarrow> s \<noteq> AttQueued \<Longrightarrow> s' \<noteq> AttQueued"
  by (cases s) auto

lemma items_inv_lifecycle:
  assumes inv: "items_inv s" and st: "lifecycle_step capacity (e_db s) db"
  shows "items_inv (s\<lparr>e_db := db\<rparr>)"
proof -
  have ok: "attempts_ok (e_db s)" and li: "lifecycle_inv (e_db s)"
    using inv by (simp_all add: items_inv_def attempts_ok_def)
  note at = attempt_in_step[OF st li]
  have fits: "row_fits db r" if r: "row_fits (e_db s) r" for r
  proof -
    have "attempt_in db (h_attempt r) (\<lambda>a. a_task_run a = h_run r
          \<and> (status_of r = ItemRunning \<longrightarrow> a_status a \<noteq> AttQueued))"
      by (rule at[of _ "\<lambda>a. a_task_run a = h_run r \<and> (status_of r = ItemRunning \<longrightarrow> a_status a \<noteq> AttQueued)"])
        (use r in \<open>auto simp: row_fits_def dest: move_queued\<close>)
    with r show ?thesis by (simp add: row_fits_def)
  qed
  have ended: "attempt_in db k (\<lambda>a. \<not> live a)" if "attempt_in (e_db s) k (\<lambda>a. \<not> live a)" for k
    by (rule at[OF that]) auto
  have "history_ok db (e_items s)" if h: "history_ok (e_db s) (e_items s)"
    using h ended unfolding history_ok_def by blast
  with inv attempts_ok_step[OF ok st] fits show ?thesis by (simp add: items_inv_def)
qed

lemma item_step_keeps: "items_inv s \<Longrightarrow> item_step capacity hide s s' \<Longrightarrow> items_inv s'"
  by (erule item_step.cases) (auto intro: items_inv_lifecycle prepare_items_keeps item_event_keeps control_items_keeps)

interpretation items: safe_system "item_step capacity hide" items_inv
  by unfold_locales (rule item_step_keeps)

lemma empty_items_inv: "items_inv empty_items"
  by (simp add: items_inv_def empty_items_def attempts_ok_empty history_ok_def)

lemma items_safe: "items_reachable capacity hide s \<Longrightarrow> items_inv s"
  unfolding items_reachable_def using items.reachable_inv empty_items_inv by blast

section \<open>A concrete history\<close>

lemma reachable_items:
  assumes "reachable capacity db"
  shows "items_reachable capacity hide \<lparr>e_db = db, e_items = [], e_decisions = []\<rparr>"
proof -
  from assms have "(lifecycle_step capacity)\<^sup>*\<^sup>* empty_db db" by (simp add: reachable_def)
  then show ?thesis
  proof (induction rule: rtranclp_induct)
    case base
    show ?case by (simp add: items_reachable_def empty_items_def)
  next
    case (step x y)
    from item_step.lifecycle[of capacity "\<lparr>e_db = x, e_items = [], e_decisions = []\<rparr>" y hide] step.hyps(2)
    have "item_step capacity hide \<lparr>e_db = x, e_items = [], e_decisions = []\<rparr> \<lparr>e_db = y, e_items = [], e_decisions = []\<rparr>"
      by simp
    with step.IH show ?case unfolding items_reachable_def by (rule rtranclp.rtrancl_into_rtrancl)
  qed
qed

lemma items_reachable_step:
  "items_reachable capacity hide s \<Longrightarrow> item_step capacity hide s s' \<Longrightarrow> items_reachable capacity hide s'"
  unfolding items_reachable_def by (rule rtranclp.rtrancl_into_rtrancl)

definition demo_identity :: task_identity where
  "demo_identity = \<lparr>g_attempt = 1, g_task_run = 1, g_owner = ''worker''\<rparr>"

definition demo_report :: "char \<Rightarrow> string" where
  "demo_report c = ''0123456789abcdef0123456789abcde'' @ [c]"

definition demo_event :: "item_status \<Rightarrow> int \<Rightarrow> int option \<Rightarrow> char \<Rightarrow> item_record" where
  "demo_event st n rows c = \<lparr>v_key = ''page'', v_number = n, v_status = st, v_rows = rows, v_error = None,
     v_started = None, v_ended = None, v_report = demo_report c, v_attempt = None, v_position = None\<rparr>"

definition demo_send :: "item_record \<Rightarrow> item_db \<Rightarrow> item_error + item_record \<times> item_db" where
  "demo_send e s = item_event id 50 [] demo_identity None Ingestion e s"

definition demo_prepared :: item_db where
  "demo_prepared = projr (prepare_items 50 demo_identity [''page''] [demo_report CHR ''0'']
     \<lparr>e_db = demo_claimed, e_items = [], e_decisions = []\<rparr>)"

definition demo_started :: item_db where
  "demo_started = snd (projr (demo_send (demo_event ItemRunning 1 None CHR ''1'') demo_prepared))"

lemma demo_items_reachable:
  "items_reachable any_capacity id demo_prepared" "items_reachable any_capacity id demo_started"
proof -
  have 1: "\<not> is_err (prepare_items 50 demo_identity [''page''] [demo_report CHR ''0'']
     \<lparr>e_db = demo_claimed, e_items = [], e_decisions = []\<rparr>)"
    and 2: "\<not> is_err (demo_send (demo_event ItemRunning 1 None CHR ''1'') demo_prepared)"
    by code_simp+
  from items_reachable_step[OF reachable_items[OF demo_reachable(2)] item_step.prepare[OF Inr_projr[OF 1]]]
  show p: "items_reachable any_capacity id demo_prepared" by (simp add: demo_prepared_def)
  from items_reachable_step[OF p item_step.event[OF Inr_snd[OF 2, unfolded demo_send_def]]]
  show "items_reachable any_capacity id demo_started" by (simp add: demo_started_def demo_send_def)
qed

definition demo_control :: "item_action \<Rightarrow> item_status option \<Rightarrow> item_control" where
  "demo_control action st = \<lparr>y_run = 1, y_task = 70, y_action = action, y_reason = ''why'', y_key = Some ''page'',
     y_all_failed = False, y_status = st, y_rows = 0\<rparr>"

definition demo_decide :: "item_action \<Rightarrow> item_status option \<Rightarrow> item_db \<Rightarrow> item_error + item_db" where
  "demo_decide action st s =
     control_items id True (\<lambda>_. True) 51 (demo_control action st) [demo_report CHR ''8''] s"

lemma demo_sent:
  assumes "items_reachable any_capacity id s" and "\<not> is_err (demo_send e s)"
  shows "items_reachable any_capacity id (snd (projr (demo_send e s)))"
  using items_reachable_step[OF assms(1) item_step.event[OF Inr_snd[OF assms(2), unfolded demo_send_def]]]
  by (simp add: demo_send_def)

lemma demo_decided:
  assumes "items_reachable any_capacity id s" and "\<not> is_err (demo_decide action st s)"
  shows "items_reachable any_capacity id (projr (demo_decide action st s))"
  using items_reachable_step[OF assms(1) item_step.control[OF Inr_projr[OF assms(2), unfolded demo_decide_def]]]
  by (simp add: demo_decide_def)

text \<open>What a witness looks at: a history is evaluated once, and its rows are read off the result.\<close>

definition row_view :: "item_row \<Rightarrow> int \<times> string \<times> int \<times> int \<times> item_status" where
  "row_view r = (h_run r, v_key (h_record r), h_attempt r, number_of r, status_of r)"

lemma row_view_nth: "map row_view rows = views \<Longrightarrow> i < length views \<Longrightarrow> row_view (rows ! i) = views ! i"
  by auto

end
