(* ===== verification/Item_Claims.thy ===== *)
theory Item_Claims
  imports Item_Inv "HOL-Library.Multiset"
begin

text \<open>
  The properties of items: one function at a time, finished work is only redone when an operator
  decided so, a requested cancellation wins over the result, a work list keeps what is done, and
  the counts of the database are the counts of the evidence.
\<close>

section \<open>One function at a time\<close>

lemma flown_ended:
  assumes "flown att n (filter (same_item x) (mid @ y # post))" and "same_item x y" and "status_of y = ItemRunning"
  shows "\<exists>e \<in> set mid. same_item x e \<and> h_attempt e = att \<and> number_of e = n
     \<and> status_of e \<in> {ItemSuccess, ItemFailed, ItemCancelled}"
  using assms(1)
proof (induction mid)
  case (Cons m mid)
  show ?case
  proof (cases "same_item x m \<and> status_of m \<noteq> ItemCancelRequested")
    case True
    with Cons.prems show ?thesis by auto
  next
    case False
    with Cons show ?thesis by (auto split: if_splits)
  qed
qed (use assms(2,3) in simp)

lemma later_start:
  assumes inv: "items_inv s" and rows: "e_items s = pre @ x # mid @ y # post" and same: "same_item x y"
    and start: "status_of y = ItemRunning"
  shows "number_of x < number_of y"
proof -
  from inv have h: "history_ok (e_db s) (e_items s)" by (simp add: items_inv_def)
  have x: "number_of x = starts (pre @ [x]) (h_run x) (v_key (h_record x))"
    using history_okD(1)[of "e_db s" pre x "mid @ y # post"] h rows by simp
  have "number_of y = starts (((pre @ [x]) @ mid) @ [y]) (h_run y) (v_key (h_record y))"
    using history_okD(1)[of "e_db s" "pre @ x # mid" y post] h rows by simp
  also have "\<dots> > starts (pre @ [x]) (h_run x) (v_key (h_record x))"
    using same start by (simp add: starts_def is_start_def of_item_def same_item_def)
  finally show ?thesis using x by simp
qed

text \<open>
  C33. Of one item at most one function runs at a time: a later start of the same key has a larger
  number, and before it the earlier one was reported ended by its own attempt, under its own
  number, unless that attempt is no longer live.
\<close>

theorem one_function_at_a_time:
  assumes "items_reachable capacity hide s" and "e_items s = pre @ x # mid @ y # post" and "same_item x y"
    and "status_of x = ItemRunning" and "status_of y = ItemRunning"
  shows "number_of x < number_of y
    \<and> (\<not> attempt_in (e_db s) (h_attempt x) live
       \<or> (\<exists>e \<in> set mid. same_item x e \<and> h_attempt e = h_attempt x \<and> number_of e = number_of x
            \<and> status_of e \<in> {ItemSuccess, ItemFailed, ItemCancelled}))"
proof -
  have inv: "items_inv s" by (rule items_safe[OF assms(1)])
  then have h: "history_ok (e_db s) (pre @ x # (mid @ y # post))" and ok: "attempts_ok (e_db s)"
    using assms(2) by (simp_all add: items_inv_def)
  have "\<not> attempt_in (e_db s) (h_attempt x) live" if "attempt_in (e_db s) (h_attempt x) (\<lambda>a. \<not> live a)"
    using attempt_in_unique[OF ok that] by (force simp: attempt_in_def)
  with history_okD(3)[OF h assms(4)] flown_ended[OF _ assms(3,5)] later_start[OF inv assms(2,3,5)]
  show ?thesis by blast
qed

definition demo_failed :: item_db where
  "demo_failed = snd (projr (demo_send (demo_event ItemFailed 1 None CHR ''2'') demo_started))"

definition demo_restarted :: item_db where
  "demo_restarted = snd (projr (demo_send (demo_event ItemRunning 2 None CHR ''3'') demo_failed))"

lemma four_rows: "length xs = 4 \<Longrightarrow> xs = [xs ! 0] @ xs ! 1 # [xs ! 2] @ xs ! 3 # []"
  by (auto simp: length_Suc_conv eval_nat_numeral)

lemma demo_restarted_reachable: "items_reachable any_capacity id demo_restarted"
proof -
  have 1: "\<not> is_err (demo_send (demo_event ItemFailed 1 None CHR ''2'') demo_started)"
    and 2: "\<not> is_err (demo_send (demo_event ItemRunning 2 None CHR ''3'') demo_failed)" by code_simp+
  have "items_reachable any_capacity id demo_failed"
    using demo_sent[OF demo_items_reachable(2) 1] by (simp add: demo_failed_def)
  from demo_sent[OF this 2] show ?thesis by (simp add: demo_restarted_def)
qed

theorem one_function_at_a_time_witness:
  "number_of (e_items demo_restarted ! 1) < number_of (e_items demo_restarted ! 3)
    \<and> (\<exists>e \<in> set [e_items demo_restarted ! 2]. h_attempt e = 1 \<and> number_of e = 1
         \<and> status_of e \<in> {ItemSuccess, ItemFailed, ItemCancelled})"
proof -
  have eval: "map row_view (e_items demo_restarted) =
       [(1, ''page'', 1, 0, ItemQueued), (1, ''page'', 1, 1, ItemRunning), (1, ''page'', 1, 1, ItemFailed),
        (1, ''page'', 1, 2, ItemRunning)]
     \<and> list_ex (\<lambda>a. a_id a = 1 \<and> live_status (a_status a)) (db_attempts (e_db demo_restarted))" by code_simp
  then have at: "attempt_in (e_db demo_restarted) 1 live" by (auto simp: attempt_in_def list_ex_iff live_iff)
  from eval have views: "map row_view (e_items demo_restarted) =
       [(1, ''page'', 1, 0, ItemQueued), (1, ''page'', 1, 1, ItemRunning), (1, ''page'', 1, 1, ItemFailed),
        (1, ''page'', 1, 2, ItemRunning)]" by (rule conjunct1)
  from arg_cong[OF views, of length] have len: "length (e_items demo_restarted) = 4" by simp
  from row_view_nth[OF views, of 1] row_view_nth[OF views, of 3]
  have same: "same_item (e_items demo_restarted ! 1) (e_items demo_restarted ! 3)"
    and st: "status_of (e_items demo_restarted ! 1) = ItemRunning" "status_of (e_items demo_restarted ! 3) = ItemRunning"
    and id: "h_attempt (e_items demo_restarted ! 1) = 1" "number_of (e_items demo_restarted ! 1) = 1"
    by (simp_all add: row_view_def same_item_def)
  from one_function_at_a_time[OF demo_restarted_reachable four_rows[OF len] same st] at id show ?thesis by auto
qed

section \<open>Finished work\<close>

definition kept_status :: "item_status \<Rightarrow> bool" where
  "kept_status st \<longleftrightarrow> st \<in> {ItemSuccess, ItemSkipped, ItemCancelRequested, ItemCancelled}"

text \<open>What reopens kept work is a decision.\<close>

definition reopened_by_decision :: "item_decision list \<Rightarrow> item_row list \<Rightarrow> item_row \<Rightarrow> bool" where
  "reopened_by_decision ds pre r \<longleftrightarrow>
     (case newest_row pre (h_run r) (v_key (h_record r)) of None \<Rightarrow> True
      | Some p \<Rightarrow> kept_status (status_of p) \<and> \<not> kept_status (status_of r) \<longrightarrow>
          (\<exists>d \<in> set ds. j_key d = v_key (h_record r) \<and> j_to d = status_of r))"

definition decided_inv :: "item_db \<Rightarrow> bool" where
  "decided_inv s \<longleftrightarrow> (\<forall>pre r post. e_items s = pre @ r # post \<longrightarrow> reopened_by_decision (e_decisions s) pre r)"

lemma decided_inv_append:
  assumes "decided_inv s" and "reopened_by_decision (e_decisions s @ ds) (e_items s) r"
  shows "decided_inv (s\<lparr>e_items := e_items s @ [r], e_decisions := e_decisions s @ ds\<rparr>)"
  unfolding decided_inv_def
proof (intro allI impI)
  fix pre i post assume "e_items (s\<lparr>e_items := e_items s @ [r], e_decisions := e_decisions s @ ds\<rparr>) = pre @ i # post"
  then have split: "e_items s @ [r] = pre @ i # post" by simp
  show "reopened_by_decision (e_decisions (s\<lparr>e_items := e_items s @ [r], e_decisions := e_decisions s @ ds\<rparr>)) pre i"
  proof (cases post rule: rev_cases)
    case Nil
    with split assms(2) show ?thesis by simp
  next
    case (snoc post' x)
    with split have "e_items s = pre @ i # post'" by simp
    with assms(1) have "reopened_by_decision (e_decisions s) pre i" unfolding decided_inv_def by blast
    then show ?thesis by (auto simp: reopened_by_decision_def split: option.splits)
  qed
qed

lemma decided_inv_plain:
  assumes "decided_inv s" and "reopened_by_decision (e_decisions s) (e_items s) r"
  shows "decided_inv (s\<lparr>e_items := e_items s @ [r]\<rparr>)"
  using decided_inv_append[of s "[]" r] assms by simp

lemma insert_items_decided:
  assumes "insert_items rows s = Inr s'" and "decided_inv s" and "distinct (item_keys rows)"
    and "\<forall>r \<in> set rows. kept_status (status_of r) \<or> newest s (h_run r) (v_key (h_record r)) = None"
  shows "decided_inv s'"
  using assms
proof (induction rows arbitrary: s)
  case (Cons r rows)
  let ?s = "s\<lparr>e_items := e_items s @ [r]\<rparr>"
  from Cons.prems(1) have rest: "insert_items rows ?s = Inr s'" by (simp split: if_splits)
  have "reopened_by_decision (e_decisions s) (e_items s) r"
    using Cons.prems(4) by (auto simp: reopened_by_decision_def newest_rows split: option.splits)
  with Cons.prems(2) have "decided_inv ?s" by (rule decided_inv_plain)
  moreover have "newest ?s (h_run x) (v_key (h_record x)) = newest s (h_run x) (v_key (h_record x))" if "x \<in> set rows" for x
  proof -
    have "(h_run x, v_key (h_record x)) \<in> (\<lambda>r. (h_run r, v_key (h_record r))) ` set rows"
      using that by (rule imageI)
    with Cons.prems(3) have "\<not> of_item (h_run x) (v_key (h_record x)) r" by (auto simp: item_keys_def of_item_def)
    then show ?thesis by (simp add: newest_rows)
  qed
  ultimately show ?case using Cons.IH[OF rest] Cons.prems(3,4) by (simp add: item_keys_def)
qed simp

lemma prepared_keys_distinct:
  assumes "distinct keys"
  shows "distinct (item_keys (List.map_filter (prepared_row s now tr att) (zip keys fresh)))"
proof -
  have "distinct (map fst (zip keys fresh))" using assms by (simp add: map_fst_zip_take)
  then have "distinct (map (\<lambda>e. (tr, fst e)) (zip keys fresh))" by (simp add: distinct_map inj_on_def)
  then show ?thesis unfolding item_keys_def by (rule map_filter_keys[rotated]) (auto dest: prepared_row_key)
qed

lemma prepare_items_decided:
  assumes "prepare_items now g keys fresh s = Inr s'" and "decided_inv s"
  shows "decided_inv s'"
proof -
  note parts = prepare_items_Inr[OF assms(1)]
  show ?thesis
  proof (rule insert_items_decided[OF parts(4)[unfolded prepare_def] assms(2) prepared_keys_distinct[OF parts(2)]])
    show "\<forall>r \<in> set (List.map_filter (prepared_row s now (g_task_run g) (g_attempt g)) (zip keys fresh)).
        kept_status (status_of r) \<or> newest s (h_run r) (v_key (h_record r)) = None"
    proof
      fix r assume "r \<in> set (List.map_filter (prepared_row s now (g_task_run g) (g_attempt g)) (zip keys fresh))"
      then obtain entry where e: "prepared_row s now (g_task_run g) (g_attempt g) entry = Some r"
        by (auto simp: map_filter_member)
      note key = prepared_row_key[OF e]
      from e show "kept_status (status_of r) \<or> newest s (h_run r) (v_key (h_record r)) = None"
        by (cases "newest s (g_task_run g) (fst entry)")
          (auto simp: key prepared_row_def kept_status_def split: if_splits)
    qed
  qed
qed

lemma item_event_decided:
  assumes inv: "items_inv s" and e: "item_event hide now fresh g offset kind e s = Inr (v, s')" and d: "decided_inv s"
  shows "decided_inv s'"
proof -
  note g = item_event_Inr[OF e]
  from record_item_cases[OF g(2)] show ?thesis
  proof (elim disjE exE conjE)
    fix e' assume j: "judge_event (g_attempt g) e (evidence s (g_task_run g) (v_key e)) = Inr (Inr e')"
      and a: "append_item hide now fresh (g_task_run g) (g_attempt g) e' s = Inr (v, s')"
    let ?r = "\<lparr>h_run = g_task_run g, h_attempt = g_attempt g, h_record = stored hide now fresh (g_attempt g) e'\<rparr>"
    from a have ins: "insertable s ?r" and s': "s' = s\<lparr>e_items := e_items s @ [?r]\<rparr>" by (simp_all add: append_item_Inr Let_def)
    from record_may_follow[OF inv g(1) j refl ins] have may: "may_follow s ?r" .
    obtain o' where o: "evidence s (g_task_run g) (v_key e) = Some o'"
      and st: "v_status e' \<in> {ItemRunning, ItemSuccess, ItemCancelled} \<or> v_status e' = ItemFailed \<and> v_status o' = ItemRunning"
      and key: "v_key e' = v_key e"
      using j[unfolded judge_event_append] by auto
    from o obtain p where p: "newest s (g_task_run g) (v_key e) = Some p" "joined s p = Some o'"
      by (auto simp: evidence_newest bind_eq_Some_conv)
    from may p(1) key have "v_status e' = ItemRunning \<Longrightarrow> \<not> kept_status (status_of p)"
      by (auto simp: may_follow_def may_succeed_def successor_def kept_status_def)
    moreover have "v_status o' = ItemRunning \<Longrightarrow> \<not> kept_status (status_of p)"
      using p(2) by (auto simp: joined_Some kept_status_def dest: observed_start(1))
    ultimately have "reopened_by_decision (e_decisions s) (e_items s) ?r"
      using st p(1) key by (auto simp: reopened_by_decision_def newest_rows kept_status_def)
    with d show ?thesis unfolding s' by (rule decided_inv_plain)
  qed (use d in simp)
qed

lemma decide_all_decided:
  assumes "fold_err (change hide now tr att q) targets s = Inr s'" and "decided_inv s"
  shows "decided_inv s'"
proof (rule fold_err_invariant[OF assms(1), of decided_inv])
  fix target x y assume d: "decided_inv x" and c: "change hide now tr att q target x = Inr y"
  note c = c[unfolded change_Inr]
  have "reopened_by_decision (e_decisions x @ [\<lparr>j_run = y_run q, j_task = y_task q, j_action = y_action q,
      j_key = v_key (fst target), j_from = v_status (fst target), j_to = decided_status q (fst target), j_rows = y_rows q\<rparr>])
      (e_items x) (decided_row hide now tr att q target)"
    by (auto simp: reopened_by_decision_def split: option.splits)
  from decided_inv_append[OF d this] c show "decided_inv y" by simp
qed (rule assms(2))

lemma control_items_decided:
  "control_items hide strict python now q fresh s = Inr s' \<Longrightarrow> decided_inv s \<Longrightarrow> decided_inv s'"
  by (drule control_items_Inr) (elim exE conjE, erule (1) decide_all_decided)

lemma item_step_decided: "items_inv s \<Longrightarrow> decided_inv s \<Longrightarrow> item_step capacity hide s s' \<Longrightarrow> decided_inv s'"
  by (erule item_step.cases)
    (auto intro: prepare_items_decided item_event_decided control_items_decided simp: decided_inv_def[of "s\<lparr>e_db := _\<rparr>"]
      decided_inv_def[of s])

interpretation decided: safe_system "item_step capacity hide" "\<lambda>s. items_inv s \<and> decided_inv s"
  by unfold_locales (blast intro: item_step_keeps item_step_decided)

lemma decided_safe: "items_reachable capacity hide s \<Longrightarrow> items_inv s \<and> decided_inv s"
  unfolding items_reachable_def
  by (rule decided.reachable_inv) (auto intro: empty_items_inv simp: decided_inv_def, simp add: empty_items_def)

text \<open>The first start after a row, and the row that made it possible.\<close>

lemma reopening:
  assumes inv: "items_inv s" and d: "decided_inv s" and kept: "kept_status (status_of x)"
  shows "e_items s = pre @ x # mid @ y # post \<Longrightarrow> same_item x y \<Longrightarrow> \<not> kept_status (status_of y) \<Longrightarrow>
    \<exists>e \<in> set (mid @ [y]). same_item x e \<and> status_of e \<in> {ItemQueued, ItemFailed}
      \<and> (\<exists>d \<in> set (e_decisions s). j_key d = v_key (h_record e) \<and> j_to d = status_of e)"
proof (induction "length mid" arbitrary: mid y post rule: less_induct)
  case less
  let ?before = "newest_row (pre @ x # mid) (h_run y) (v_key (h_record y))"
  have x: "of_item (h_run y) (v_key (h_record y)) x" using less.prems(2) by (auto simp: of_item_def same_item_def)
  then have "?before \<noteq> None" by (auto simp: newest_row_None)
  then obtain p where p: "?before = Some p" by blast
  have split: "e_items s = (pre @ x # mid) @ y # post" using less.prems(1) by simp
  with d have re: "reopened_by_decision (e_decisions s) (pre @ x # mid) y" unfolding decided_inv_def by blast
  from inv have "history_ok (e_db s) ((pre @ x # mid) @ y # post)" by (simp add: items_inv_def split)
  from history_okD(2)[OF this] p have suc: "successor (Some p) y" by simp
  show ?case
  proof (cases "kept_status (status_of p)")
    case True
    with suc less.prems(3) have "status_of y \<in> {ItemQueued, ItemFailed}"
      by (cases "status_of y") (auto simp: successor_def kept_status_def)
    with re p True less.prems(2,3) show ?thesis by (auto simp: reopened_by_decision_def)
  next
    case False
    from p have "newest_row (x # mid) (h_run y) (v_key (h_record y)) = Some p"
      using x by (auto simp: newest_row_def find_append split: option.splits)
    with False kept have mid: "newest_row mid (h_run y) (v_key (h_record y)) = Some p"
      by (auto simp: newest_row_Cons split: option.splits if_splits)
    from newest_row_split[OF mid] obtain m1 m2 where m: "mid = m1 @ p # m2" "of_item (h_run y) (v_key (h_record y)) p"
      by blast
    have "\<exists>e \<in> set (m1 @ [p]). same_item x e \<and> status_of e \<in> {ItemQueued, ItemFailed}
      \<and> (\<exists>d \<in> set (e_decisions s). j_key d = v_key (h_record e) \<and> j_to d = status_of e)"
      by (rule less.hyps[of m1 p "m2 @ y # post"])
        (use less.prems m x False in \<open>auto simp: same_item_def of_item_def\<close>)
    with m(1) show ?thesis by auto
  qed
qed


definition demo_success :: item_db where
  "demo_success = snd (projr (demo_send (demo_event ItemSuccess 1 (Some 10) CHR ''2'') demo_started))"

definition demo_marked :: item_db where
  "demo_marked = projr (demo_decide ItemMark (Some ItemFailed) demo_success)"

definition demo_redone :: item_db where
  "demo_redone = snd (projr (demo_send (demo_event ItemRunning 2 None CHR ''3'') demo_marked))"

lemma demo_success_reachable: "items_reachable any_capacity id demo_success"
proof -
  have "\<not> is_err (demo_send (demo_event ItemSuccess 1 (Some 10) CHR ''2'') demo_started)" by code_simp
  from demo_sent[OF demo_items_reachable(2) this] show ?thesis by (simp add: demo_success_def)
qed

lemma demo_redone_reachable: "items_reachable any_capacity id demo_redone"
proof -
  have 1: "\<not> is_err (demo_decide ItemMark (Some ItemFailed) demo_success)"
    and 2: "\<not> is_err (demo_send (demo_event ItemRunning 2 None CHR ''3'') demo_marked)" by code_simp+
  have "items_reachable any_capacity id demo_marked"
    using demo_decided[OF demo_success_reachable 1] by (simp add: demo_marked_def)
  from demo_sent[OF this 2] show ?thesis by (simp add: demo_redone_def)
qed

lemma five_rows: "length xs = 5 \<Longrightarrow> xs = [xs ! 0, xs ! 1] @ xs ! 2 # [xs ! 3] @ xs ! 4 # []"
  by (auto simp: length_Suc_conv eval_nat_numeral)


section \<open>A requested cancellation wins\<close>

lemma latest_items_evidence:
  assumes "items_inv s" and "evidence s tr key = Some v"
  shows "filter (\<lambda>v. v_key v = key) (latest_items s tr None) = [v]"
proof -
  from assms(2) obtain p where new: "newest s tr key = Some p" and j: "joined s p = Some v"
    by (auto simp: evidence_newest bind_eq_Some_conv)
  from j obtain a where "v = observe a p" by (auto simp: joined_Some)
  with new newest_row_Some[OF new[unfolded newest_rows]]
  have p: "newest s tr key = Some p" "v = observe a p" "h_run p = tr" "v_key (h_record p) = key"
    by (auto simp: of_item_def)
  have "p \<in> set (unsuperseded same_item (e_items s))"
    using p(1) by (auto simp: newest_rows intro: newest_unsuperseded)
  with p(3) j have v: "v \<in> set (latest_items s tr None)" by (auto simp: latest_items_def map_filter_member)
  have key: "v_key v = key" using p(2,4) by simp
  have "filter (\<lambda>x. v_key x = v_key v) xs = [v]" if "distinct (map v_key xs)" "v \<in> set xs" for xs
    using that
  proof (induction xs)
    case (Cons x xs)
    show ?case
    proof (cases "x = v")
      case True
      with Cons.prems have "v_key v \<notin> v_key ` set xs" by simp
      then have "\<forall>x \<in> set xs. v_key x \<noteq> v_key v" by (metis imageI)
      then have "filter (\<lambda>x. v_key x = v_key v) xs = []" by (simp add: filter_empty_conv)
      with True show ?thesis by simp
    next
      case False
      with Cons.prems have "v \<in> set xs" "v_key x \<noteq> v_key v" by auto
      with Cons.IH Cons.prems show ?thesis by simp
    qed
  qed simp
  from this[OF latest_items_distinct v] key show ?thesis by simp
qed

text \<open>A decision about one key appends one row.\<close>

lemma control_one_item:
  assumes inv: "items_inv s" and c: "control_items hide strict python now q (fresh # fresh_ids) s = Inr s'"
    and t: "find (\<lambda>t. t_run t = y_run q \<and> t_task t = y_task q) (db_tasks (e_db s)) = Some t"
    and key: "y_key q = Some key" and ev: "evidence s (t_id t) key = Some old"
  obtains att where "check_item_control q" and "last_attempt (e_db s) (t_id t) = Some att"
    and "change hide now (t_id t) att q (old, fresh) s = Inr s'"
proof -
  from c have q: "check_item_control q" using control_items_Inr by blast
  with key have "\<not> y_all_failed q" by (simp add: check_item_control_def)
  then have sel: "selected_items q (latest_items s (t_id t) None) = [old]"
    using latest_items_evidence[OF inv ev] key by (simp add: selected_items_def eq_commute)
  from c t obtain att where "last_attempt (e_db s) (t_id t) = Some att"
      "fold_err (change hide now (t_id t) att q) (zip [old] (fresh # fresh_ids)) s = Inr s'"
    by (auto simp: control_items_def Let_def sel split: option.splits if_splits)
  with q show thesis by (intro that) (auto simp: err_simps)
qed

lemma evidence_after_row:
  assumes "e_items s' = e_items s @ [r]" and "e_db s' = e_db s" and "h_run r = tr" and "v_key (h_record r) = key"
  shows "evidence s' tr key = joined s' r"
  using assms by (simp add: evidence_newest newest_rows of_item_def)

lemma joined_attempt:
  assumes ok: "attempts_ok (e_db s)" and a: "a \<in> set (db_attempts (e_db s))" "a_id a = h_attempt r"
  shows "joined s r = Some (observe a r)"
proof -
  have "attempts.table (db_next_attempt (e_db s)) (db_attempts (e_db s))"
    using ok by (simp add: attempts_ok_def lifecycle_inv_def work_inv_attempts)
  from attempts.table_row[OF this a(1)] a(2) show ?thesis by (simp add: joined_Some)
qed

lemma cancel_running:
  assumes inv: "items_inv s" and c: "control_items hide strict python now q (fresh # fresh_ids) s = Inr s1"
    and t: "find (\<lambda>t. t_run t = y_run q \<and> t_task t = y_task q) (db_tasks (e_db s)) = Some t"
    and q: "y_action q = ItemCancel" "y_key q = Some key"
    and ev: "evidence s (t_id t) key = Some old" and run: "v_status old = ItemRunning"
  shows "\<exists>o'. evidence s1 (t_id t) key = Some o' \<and> v_status o' = ItemCancelRequested
     \<and> v_attempt o' = v_attempt old \<and> v_number o' = v_number old"
proof -
  from control_one_item[OF inv c t q(2) ev] obtain att where
    last: "last_attempt (e_db s) (t_id t) = Some att" and ch: "change hide now (t_id t) att q (old, fresh) s = Inr s1" .
  obtain p a where p: "newest s (t_id t) key = Some p" "p \<in> set (e_items s)" "h_run p = t_id t" "v_key (h_record p) = key"
      "old = observe a p" "a \<in> set (db_attempts (e_db s))" "a_id a = h_attempt p" "a_task_run a = t_id t"
    by (rule evidence_Some[OF inv ev]) (rule that)
  from run p(5) have held: "held_status (a_status a)" by (auto dest: observed_start(1))
  then have "live a" by (auto simp: live_iff live_status_def held_status_def)
  with inv p(6) have "\<forall>b \<in> set (db_attempts (e_db s)). a_task_run b = a_task_run a \<longrightarrow> a_id b \<le> a_id a"
    by (auto simp: items_inv_def attempts_ok_def)
  with last_attempt_Some[OF last] p(6-8) have att: "att = h_attempt p" by force
  let ?r = "decided_row hide now (t_id t) att q (old, fresh)"
  have s1: "e_items s1 = e_items s @ [?r]" "e_db s1 = e_db s" using ch by (auto simp: change_Inr)
  have "evidence s1 (t_id t) key = Some (observe a ?r)"
    using evidence_after_row[OF s1, of "t_id t" key] joined_attempt[of s1 a ?r] inv p att
    by (simp add: s1(2) items_inv_def)
  moreover have "decided_status q old = ItemCancelRequested" using q run by (simp add: decided_status_def live_item_def)
  ultimately show ?thesis using held p(5) att by (simp add: observed_live)
qed

text \<open>
  C35. A requested cancellation wins over the result: once an operator's cancellation of a running
  item is accepted, whatever ending its attempt reports is recorded as a cancellation without a
  position, and nothing starts on the key any more.
\<close>

theorem cancellation_wins:
  assumes "items_reachable capacity hide s"
    and "control_items hide strict python now q (fresh # fresh_ids) s = Inr s1"
    and "find (\<lambda>t. t_run t = y_run q \<and> t_task t = y_task q) (db_tasks (e_db s)) = Some t"
    and "y_action q = ItemCancel" and "y_key q = Some key"
    and "evidence s (t_id t) key = Some old" and "v_status old = ItemRunning"
    and "item_event hide later fresh' g offset kind e s1 = Inr (v, s2)" and "g_task_run g = t_id t"
    and "v_key e = key" and "v_status e \<in> {ItemSuccess, ItemFailed}" and "report_row s1 (v_report e) = None"
  shows "v_status v = ItemCancelled \<and> v_position v = None \<and> v_ended v = Some later
    \<and> (\<exists>o'. evidence s2 (t_id t) key = Some o' \<and> v_status o' = ItemCancelled \<and> prevents_start o')"
proof -
  have inv: "items_inv s" by (rule items_safe[OF assms(1)])
  have inv1: "items_inv s1" by (rule control_items_keeps[OF inv assms(2)])
  obtain o' where o: "evidence s1 (t_id t) key = Some o'" "v_status o' = ItemCancelRequested"
    using cancel_running[OF inv assms(2-7)] by blast
  note g = item_event_Inr[OF assms(8)]
  from g(2) assms(9,10,12) obtain j where j: "judge_event (g_attempt g) e (Some o') = Inr j"
    and rest: "(case j of Inl p \<Rightarrow> Inr (p, s1)
        | Inr e' \<Rightarrow> append_item hide later fresh' (t_id t) (g_attempt g) e' s1) = Inr (v, s2)"
    by (auto simp: record_item_def err_simps o(1) split: option.splits)
  let ?e = "e\<lparr>v_status := ItemCancelled, v_position := None\<rparr>"
  from j o(2) assms(11) have "j = Inr ?e" by (auto simp: judge_event_def split: if_splits)
  with rest have a: "append_item hide later fresh' (t_id t) (g_attempt g) ?e s1 = Inr (v, s2)" by simp
  let ?r = "\<lparr>h_run = t_id t, h_attempt = g_attempt g, h_record = v\<rparr>"
  from a have v: "v = stored hide later fresh' (g_attempt g) ?e" and s2: "e_items s2 = e_items s1 @ [?r]" "e_db s2 = e_db s1"
    by (auto simp: append_item_Inr Let_def)
  obtain b where b: "b \<in> set (db_attempts (e_db s1))" "a_id b = g_attempt g" by (rule fenced[OF g(1)]) (rule that)
  have "evidence s2 (t_id t) key = joined s2 ?r"
    by (rule evidence_after_row[OF s2]) (use v assms(9,10) in simp_all)
  also have "\<dots> = Some (observe b ?r)"
    by (rule joined_attempt) (use inv1 b s2 in \<open>simp_all add: items_inv_def\<close>)
  finally have ev: "evidence s2 (t_id t) key = Some (observe b ?r)" .
  have st: "v_status v = ItemCancelled" "v_position v = None" "v_ended v = Some later"
    using v by (simp_all add: stored_cancelled)
  then have "prevents_start (observe b ?r)" "v_status (observe b ?r) = ItemCancelled"
    by (auto simp: prevents_start_def done_statuses_def observe_def Let_def observed_status_def)
  with ev st show ?thesis by blast
qed

definition demo_requested :: item_db where
  "demo_requested = projr (demo_decide ItemCancel None demo_started)"

theorem cancellation_wins_witness:
  "v_status (fst (projr (demo_send (demo_event ItemSuccess 1 (Some 10) CHR ''2'') demo_requested))) = ItemCancelled"
proof -
  have 1: "\<not> is_err (demo_decide ItemCancel None demo_started)"
    and 2: "\<not> is_err (demo_send (demo_event ItemSuccess 1 (Some 10) CHR ''2'') demo_requested)"
    and 3: "map_option (\<lambda>t. t_id t) (find (\<lambda>t. t_run t = 1 \<and> t_task t = 70) (db_tasks (e_db demo_started))) = Some 1"
    and 4: "map_option v_status (evidence demo_started 1 ''page'') = Some ItemRunning"
    and 5: "\<not> list_ex (\<lambda>r. v_report (h_record r) = demo_report CHR ''2'') (e_items demo_requested)"
    by code_simp+
  from 3 obtain t where t: "find (\<lambda>t. t_run t = 1 \<and> t_task t = 70) (db_tasks (e_db demo_started)) = Some t" "t_id t = 1"
    by auto
  from 4 obtain old where old: "evidence demo_started 1 ''page'' = Some old" "v_status old = ItemRunning" by auto
  have c: "control_items id True (\<lambda>_. True) 51 (demo_control ItemCancel None) [demo_report CHR ''8''] demo_started = Inr demo_requested"
    using Inr_projr[OF 1] by (simp add: demo_decide_def demo_requested_def)
  from 5 have rep: "report_row demo_requested (v_report (demo_event ItemSuccess 1 (Some 10) CHR ''2'')) = None"
    by (auto simp: report_row_def demo_event_def find_None_iff list_ex_iff)
  show ?thesis
    using cancellation_wins[OF demo_items_reachable(2) c, of t "''page''" old 50 "[]" demo_identity None Ingestion
        "demo_event ItemSuccess 1 (Some 10) CHR ''2''"
        "fst (projr (demo_send (demo_event ItemSuccess 1 (Some 10) CHR ''2'') demo_requested))"
        "snd (projr (demo_send (demo_event ItemSuccess 1 (Some 10) CHR ''2'') demo_requested))"]
      t old rep Inr_snd[OF 2, unfolded demo_send_def]
    by (simp add: demo_control_def demo_identity_def demo_event_def demo_send_def)
qed

section \<open>Work lists\<close>

lemma newest_row_append: "newest_row (xs @ ys) tr key = (case newest_row ys tr key of None \<Rightarrow> newest_row xs tr key | Some r \<Rightarrow> Some r)"
  by (simp add: newest_row_def find_append split: option.split)

lemma zip_entry:
  assumes "k \<in> set keys" and "length keys \<le> length fresh"
  obtains f where "(k, f) \<in> set (zip keys fresh)"
proof -
  from assms(1) obtain i where "i < length keys" "keys ! i = k" by (auto simp: in_set_conv_nth)
  with assms(2) have "(k, fresh ! i) \<in> set (zip keys fresh)" by (auto simp: in_set_zip)
  then show thesis by (rule that)
qed

lemma prepared_newest:
  assumes p: "prepare_items now g keys fresh s = Inr s'" and k: "k \<in> set keys" and len: "length keys \<le> length fresh"
  obtains f where "newest s' (g_task_run g) k =
     (case prepared_row s now (g_task_run g) (g_attempt g) (k, f) of Some r \<Rightarrow> Some r | None \<Rightarrow> newest s (g_task_run g) k)"
proof -
  note parts = prepare_items_Inr[OF p]
  let ?row = "prepared_row s now (g_task_run g) (g_attempt g)" and ?entries = "zip keys fresh"
  obtain f where f: "(k, f) \<in> set ?entries" by (rule zip_entry[OF k len])
  have s': "e_items s' = e_items s @ List.map_filter ?row ?entries"
    using insert_items_Inr[OF parts(4)[unfolded prepare_def]] by simp
  have dist: "distinct (map fst ?entries)" using parts(2) by (simp add: map_fst_zip_take)
  have only: "?row (k, f) = Some r" if r: "r \<in> set (List.map_filter ?row ?entries)" "of_item (g_task_run g) k r" for r
  proof -
    from r(1) obtain e where e: "e \<in> set ?entries" "?row e = Some r" by (auto simp: map_filter_member)
    with r(2) prepared_row_key[OF e(2)] have "fst e = fst (k, f)" by (simp add: of_item_def)
    with dist e(1) f have "e = (k, f)" by (metis distinct_map inj_onD)
    with e(2) show ?thesis by simp
  qed
  have new: "newest_row (List.map_filter ?row ?entries) (g_task_run g) k = ?row (k, f)"
  proof (cases "newest_row (List.map_filter ?row ?entries) (g_task_run g) k")
    case None
    have "?row (k, f) \<noteq> Some r" for r
    proof
      assume r: "?row (k, f) = Some r"
      with f have "r \<in> set (List.map_filter ?row ?entries)" by (auto simp: map_filter_member)
      with None prepared_row_key[OF r] show False by (auto simp: newest_row_None of_item_def)
    qed
    with None show ?thesis by (cases "?row (k, f)") auto
  next
    case (Some r)
    with only[of r] newest_row_Some[OF Some] show ?thesis by simp
  qed
  show thesis by (rule that[of f]) (simp add: newest_rows s' newest_row_append new split: option.splits)
qed

lemma prepare_again:
  assumes p: "prepare_items now g keys fresh s = Inr s'" and len: "length keys \<le> length fresh"
    and g: "assert_identity later g (e_db s') = Inr ()"
  shows "prepare_items later g keys fresh' s' = Inr s'"
proof -
  note parts = prepare_items_Inr[OF p]
  have none: "prepared_row s' later (g_task_run g) (g_attempt g) (k, f') = None" if k: "k \<in> set keys" for k f'
  proof -
    obtain f where f: "newest s' (g_task_run g) k =
     (case prepared_row s now (g_task_run g) (g_attempt g) (k, f) of Some r \<Rightarrow> Some r | None \<Rightarrow> newest s (g_task_run g) k)"
      by (rule prepared_newest[OF p k len])
    show ?thesis
      by (cases "newest s (g_task_run g) k") (use f in \<open>auto simp: prepared_row_def split: if_splits\<close>)
  qed
  have "List.map_filter (prepared_row s' later (g_task_run g) (g_attempt g)) (zip keys fresh') = []"
  proof (rule ccontr)
    assume "\<not> ?thesis"
    then obtain r where "r \<in> set (List.map_filter (prepared_row s' later (g_task_run g) (g_attempt g)) (zip keys fresh'))"
      using hd_in_set by blast
    then obtain k f where "(k, f) \<in> set (zip keys fresh')" "prepared_row s' later (g_task_run g) (g_attempt g) (k, f) = Some r"
      by (auto simp: map_filter_member)
    with none[of k f] show False by (auto dest: set_zip_leftD)
  qed
  moreover have "bounded_keys keys 1000 = Inr keys"
    using p by (auto simp: prepare_items_def err_simps bounded_keys_Inr)
  ultimately show ?thesis using g by (simp add: prepare_items_def prepare_def)
qed

lemma prepared_evidence:
  assumes "items_inv s" and "prepare_items now g keys fresh s = Inr s'"
    and "length keys \<le> length fresh" and "k \<in> set keys"
  shows "case evidence s (g_task_run g) k of
      None \<Rightarrow> (\<exists>w. evidence s' (g_task_run g) k = Some w \<and> v_status w = ItemQueued \<and> v_number w = 0)
    | Some v \<Rightarrow> (\<exists>w. evidence s' (g_task_run g) k = Some w \<and> v_number w = v_number v
        \<and> v_rows w = v_rows v \<and> v_position w = v_position v
        \<and> (if v_status v \<in> {ItemSuccess, ItemSkipped}
           then v_status w = ItemSkipped \<and> v_attempt w = Some (g_attempt g) else w = v))"
proof -
  note inv = assms(1)
  note parts = prepare_items_Inr[OF assms(2)]
  have db: "e_db s' = e_db s" using insert_items_Inr[OF parts(4)[unfolded prepare_def]] by simp
  obtain b where b: "b \<in> set (db_attempts (e_db s))" "a_id b = g_attempt g" "held_status (a_status b)"
    by (rule fenced[OF parts(1)]) (rule that)
  have at: "joined s' r = Some (observe b r)" if "h_attempt r = g_attempt g" for r
    by (rule joined_attempt) (use inv b that db in \<open>simp_all add: items_inv_def\<close>)
  have same: "joined s' r = joined s r" for r by (simp add: joined_def db)
  obtain f where f: "newest s' (g_task_run g) k =
     (case prepared_row s now (g_task_run g) (g_attempt g) (k, f) of Some r \<Rightarrow> Some r | None \<Rightarrow> newest s (g_task_run g) k)"
    by (rule prepared_newest[OF assms(2,4,3)])
  show ?thesis
  proof (cases "evidence s (g_task_run g) k")
    case None
    then have "newest s (g_task_run g) k = None" using no_evidence[OF inv] by blast
    with f have "evidence s' (g_task_run g) k = joined s' \<lparr>h_run = g_task_run g, h_attempt = g_attempt g, h_record =
          \<lparr>v_key = k, v_number = 0, v_status = ItemQueued, v_rows = None, v_error = None,
           v_started = None, v_ended = None, v_report = f, v_attempt = Some (g_attempt g), v_position = None\<rparr>\<rparr>"
      by (simp add: evidence_newest prepared_row_def)
    with None b(3) at show ?thesis by (auto simp: observed_status_def held_status_def)
  next
    case (Some v)
    then obtain p where p: "newest s (g_task_run g) k = Some p" "joined s p = Some v"
      by (auto simp: evidence_newest bind_eq_Some_conv)
    from p(2) obtain a where a: "v = observe a p" by (auto simp: joined_Some)
    show ?thesis
    proof (cases "status_of p \<in> {ItemSuccess, ItemSkipped} \<and> (h_attempt p \<noteq> g_attempt g \<or> status_of p \<noteq> ItemSkipped)")
      case True
      let ?r = "\<lparr>h_run = g_task_run g, h_attempt = g_attempt g, h_record = (h_record p)
                 \<lparr>v_status := ItemSkipped, v_ended := Some now, v_report := f, v_attempt := Some (g_attempt g)\<rparr>\<rparr>"
      from f p(1) True have "evidence s' (g_task_run g) k = joined s' ?r"
        by (auto simp: evidence_newest prepared_row_def)
      with at[of ?r] True Some a show ?thesis by (auto simp: observed_status_def)
    next
      case False
      with f p(1) have "evidence s' (g_task_run g) k = Some v"
        using p(2) same by (auto simp: evidence_newest prepared_row_def split: if_splits)
      with Some False a show ?thesis by (auto simp: observed_start(3,4))
    qed
  qed
qed

text \<open>
  C36. A work list registers new keys and retains what is done: a key without evidence is queued as
  number 0, a success or skip of an earlier attempt is kept as a skip with its count, its position
  and its number under the new attempt, and all other evidence stays; preparing the same work
  again under the attempt changes nothing.
\<close>

theorem prepare_retains:
  assumes "items_reachable capacity hide s" and "prepare_items now g keys fresh s = Inr s'"
    and "length keys \<le> length fresh" and "k \<in> set keys"
  shows "(case evidence s (g_task_run g) k of
      None \<Rightarrow> (\<exists>w. evidence s' (g_task_run g) k = Some w \<and> v_status w = ItemQueued \<and> v_number w = 0)
    | Some v \<Rightarrow> (\<exists>w. evidence s' (g_task_run g) k = Some w \<and> v_number w = v_number v
        \<and> v_rows w = v_rows v \<and> v_position w = v_position v
        \<and> (if v_status v \<in> {ItemSuccess, ItemSkipped}
           then v_status w = ItemSkipped \<and> v_attempt w = Some (g_attempt g) else w = v)))
    \<and> (assert_identity later g (e_db s') = Inr () \<longrightarrow> prepare_items later g keys fresh' s' = Inr s')"
  using prepared_evidence[OF items_safe[OF assms(1)] assms(2,3,4)] prepare_again[OF assms(2,3)] by blast

theorem prepare_retains_witness:
  "\<exists>w. evidence (projr (prepare_items 52 demo_identity [''page''] [demo_report CHR ''9''] demo_success)) 1 ''page'' = Some w
     \<and> v_rows w = Some 10 \<and> v_status w = ItemSkipped"
proof -
  have 1: "\<not> is_err (prepare_items 52 demo_identity [''page''] [demo_report CHR ''9''] demo_success)"
    and 2: "map_option (\<lambda>v. (v_status v, v_rows v)) (evidence demo_success 1 ''page'') = Some (ItemSuccess, Some 10)"
    by code_simp+
  from 2 obtain v where v: "evidence demo_success 1 ''page'' = Some v" "v_status v = ItemSuccess" "v_rows v = Some 10" by auto
  have run: "g_task_run demo_identity = 1" by (simp add: demo_identity_def)
  from prepare_retains[OF demo_success_reachable Inr_projr[OF 1], of "''page''", unfolded run] v show ?thesis by auto
qed

section \<open>Reports sent again\<close>

lemma uuid_not_empty: "validate_report_id r = None \<Longrightarrow> r \<noteq> []"
proof
  have "\<not> uuid_text []" by code_simp
  moreover assume "validate_report_id r = None" and "r = []"
  ultimately show False by (simp add: validate_report_id_def split: if_splits)
qed

lemma check_eventD:
  assumes "check_event e = None"
  shows "v_report e \<noteq> []" and "v_status e \<noteq> ItemSuccess \<Longrightarrow> v_position e = None"
  using assms uuid_not_empty[of "v_report e"]
  by (auto simp: check_event_def split: option.splits if_splits)

lemma record_item_new:
  assumes "record_item hide now fresh tr att e s = Inr (v, s')" and "s' \<noteq> s"
  shows "check_event e = None \<and> (\<exists>e'. judge_event att e (evidence s tr (v_key e)) = Inr (Inr e')
     \<and> append_item hide now fresh tr att e' s = Inr (v, s'))"
proof -
  from assms have "check_event e = None" by (auto simp: record_item_def split: option.splits)
  with record_item_cases[OF assms(1)] assms(2) show ?thesis by blast
qed

text \<open>
  A report sent again is recognized: after an accepted report, the same report from the same
  attempt is answered with the evidence it created and writes nothing.
\<close>

theorem report_recognized:
  assumes "items_reachable capacity hide s" and "item_event hide now fresh g offset kind e s = Inr (v, s')"
    and "s' \<noteq> s" and "assert_identity later g (e_db s') = Inr ()"
  shows "\<exists>v'. item_event hide later fresh' g offset kind e s' = Inr (v', s')
     \<and> evidence s' (g_task_run g) (v_key e) = Some v' \<and> v_report v' = v_report e"
proof -
  have inv: "items_inv s" by (rule items_safe[OF assms(1)])
  note g = item_event_Inr[OF assms(2)]
  from record_item_new[OF g(2) assms(3)] obtain e' where c: "check_event e = None"
    and j: "judge_event (g_attempt g) e (evidence s (g_task_run g) (v_key e)) = Inr (Inr e')"
    and a: "append_item hide now fresh (g_task_run g) (g_attempt g) e' s = Inr (v, s')" by blast
  let ?r = "\<lparr>h_run = g_task_run g, h_attempt = g_attempt g, h_record = v\<rparr>"
  have e': "v_key e' = v_key e" "v_report e' = v_report e" "v_number e' = v_number e" "v_rows e' = v_rows e"
      "v_error e' = v_error e"
      "e' = e \<and> v_status e \<noteq> ItemCancelled \<or> v_status e' = ItemCancelled \<and> v_position e' = None \<and> v_status e \<in> {ItemSuccess, ItemFailed}"
    using j by (auto simp: judge_event_append)
  from a have v: "v = stored hide now fresh (g_attempt g) e'" and ins: "insertable s ?r"
    and s': "e_items s' = e_items s @ [?r]" "e_db s' = e_db s" by (auto simp: append_item_Inr Let_def)
  have rep: "v_report v = v_report e" using v e'(2) check_eventD(1)[OF c] by simp
  have "find (\<lambda>r. v_report (h_record r) = v_report e) (e_items s) = None"
    using ins rep by (auto simp: insertable_def find_None_iff list_ex_iff)
  then have row: "report_row s' (v_report e) = Some ?r" using rep by (simp add: report_row_def s'(1) find_append)
  have match: "duplicate_matches hide ?r (g_task_run g) (g_attempt g) e"
    using e' by (auto simp: duplicate_matches_def Let_def v)
  obtain b where b: "b \<in> set (db_attempts (e_db s))" "a_id b = g_attempt g" by (rule fenced[OF g(1)]) (rule that)
  have "evidence s' (g_task_run g) (v_key e) = joined s' ?r"
    by (rule evidence_after_row[OF s']) (use v e'(1) in simp_all)
  also have "\<dots> = Some (observe b ?r)"
    by (rule joined_attempt) (use inv b s' in \<open>simp_all add: items_inv_def\<close>)
  finally have ev: "evidence s' (g_task_run g) (v_key e) = Some (observe b ?r)" .
  have "v_report (observe b ?r) = v_report e" using rep by (simp add: observe_def Let_def)
  moreover have "record_item hide later fresh' (g_task_run g) (g_attempt g) e s' = Inr (observe b ?r, s')"
    using c row match ev by (simp add: record_item_def)
  moreover have "check_offset offset kind e = None"
    using assms(2) by (auto simp: item_event_def err_simps split: option.splits)
  ultimately show ?thesis using ev assms(4) by (simp add: item_event_def)
qed

section \<open>Counts\<close>

lemma latest_items_joined:
  "latest_items s tr None = map (\<lambda>(r, a). observe a r)
     (with_attempts s (sort_key (\<lambda>r. v_key (h_record r)) (filter (\<lambda>r. h_run r = tr) (unsuperseded same_item (e_items s)))))"
proof -
  have "List.map_filter (joined s) rows = map (\<lambda>(r, a). observe a r) (with_attempts s rows)" for rows
    by (induction rows) (auto simp: with_attempts_def joined_def map_filter_simps split: option.splits)
  then show ?thesis by (simp add: latest_items_def)
qed

lemma length_filter_mset: "length (filter P xs) = size (filter_mset P (mset xs))"
  by (metis mset_filter size_mset)

lemma with_attempts_mset: "mset xs = mset ys \<Longrightarrow> mset (with_attempts s xs) = mset (with_attempts s ys)"
  by (simp add: with_attempts_def map_filter_def mset_map mset_filter)

lemma failed_row_observed: "failed_row st att \<longleftrightarrow> observed_status st att \<in> {ItemFailed, ItemCancelled}"
  by (cases st; cases att) (auto simp: failed_row_def observed_status_def held_status_def)

lemma split_count:
  "(\<And>x. x \<in> set xs \<Longrightarrow> P x = (Q x \<or> R x)) \<Longrightarrow> (\<And>x. \<not> (Q x \<and> R x)) \<Longrightarrow>
    int (length (filter P xs)) = int (length (filter Q xs)) + int (length (filter R xs))"
  by (induction xs) auto

lemma count_progress:
  "count_rows rows = (if rows = [] then None else Some (progress (map (\<lambda>(r, a). observe a r) rows)))"
proof -
  have st: "status_count st (map (\<lambda>(r, a). observe a r) rows)
      = int (length (filter (\<lambda>(r, a). observed_status (status_of r) (a_status a) = st) rows))" for st
    by (simp add: status_count_def filter_map comp_def split_def)
  have kept: "int (length (filter (\<lambda>(r, a). status_of r \<in> {ItemSuccess, ItemSkipped}) rows))
      = int (length (filter (\<lambda>(r, a). observed_status (status_of r) (a_status a) = ItemSuccess) rows))
        + int (length (filter (\<lambda>(r, a). observed_status (status_of r) (a_status a) = ItemSkipped) rows))"
    by (rule split_count) (auto simp: observed_start(3,4))
  have failed: "int (length (filter (\<lambda>(r, a). failed_row (status_of r) (a_status a)) rows))
      = int (length (filter (\<lambda>(r, a). observed_status (status_of r) (a_status a) = ItemFailed) rows))
        + int (length (filter (\<lambda>(r, a). observed_status (status_of r) (a_status a) = ItemCancelled) rows))"
    by (rule split_count) (auto simp: failed_row_observed)
  have un: "length (filter (\<lambda>v. v_rows v = None) (filter (\<lambda>v. v_status v \<in> {ItemSuccess, ItemSkipped})
        (map (\<lambda>(r, a). observe a r) rows)))
      = length (filter (\<lambda>(r, a). status_of r \<in> {ItemSuccess, ItemSkipped} \<and> v_rows (h_record r) = None) rows)"
    by (simp add: filter_map comp_def split_def observed_start(3,4) conj_commute)
  have parts: "int (length (filter (\<lambda>(r, a). status_of r \<in> {ItemSuccess, ItemSkipped}) rows))
      = int (length (filter (\<lambda>(r, a). status_of r \<in> {ItemSuccess, ItemSkipped} \<and> v_rows (h_record r) \<noteq> None) rows))
        + int (length (filter (\<lambda>(r, a). status_of r \<in> {ItemSuccess, ItemSkipped} \<and> v_rows (h_record r) = None) rows))"
    by (rule split_count) auto
  have skipped: "filter (\<lambda>(r, a). observed_status (status_of r) (a_status a) = ItemSkipped) rows
      = filter (\<lambda>(r, a). status_of r = ItemSkipped) rows"
    by (simp add: observed_start(4))
  show ?thesis
    unfolding count_rows_def progress_def Let_def un st
    using kept failed parts skipped by (simp add: case_prod_unfold)
qed

lemma progress_mset:
  assumes "mset xs = mset ys"
  shows "progress xs = progress ys"
proof -
  have "length xs = length ys" using assms by (metis size_mset)
  moreover have "length (filter P xs) = length (filter P ys)" for P
    unfolding length_filter_mset assms ..
  ultimately show ?thesis by (simp add: progress_def status_count_def)
qed

text \<open>
  The counts the database computes for a task run are the counts of its latest evidence: every
  status the evidence derives from an ended attempt is counted where the query counts it, and a
  task run without items has none.
\<close>

theorem summaries_agree:
  "item_summary s tr =
     (let latest = latest_items s tr None in if latest = [] then None else Some (progress latest))"
proof -
  let ?rows = "filter (\<lambda>r. h_run r = tr) (unsuperseded same_item (e_items s))"
  let ?joined = "\<lambda>rows. map (\<lambda>(r, a). observe a r) (with_attempts s rows)"
  have perm: "mset (?joined (sort_key (\<lambda>r. v_key (h_record r)) ?rows)) = mset (?joined ?rows)"
    unfolding mset_map by (rule arg_cong[OF with_attempts_mset]) simp
  then have "?joined (sort_key (\<lambda>r. v_key (h_record r)) ?rows) = [] \<longleftrightarrow> ?joined ?rows = []"
    by (metis mset_zero_iff)
  with progress_mset[OF perm] show ?thesis
    by (auto simp: item_summary_def count_progress latest_items_joined Let_def)
qed

section \<open>Items with positions\<close>

text \<open>
  C37. An item that has reported an offset position cannot be sent back: a rerun, a cancellation
  or a mark as failed, otherwise acceptable, is refused as a conflicting report, because the copy
  it appends still carries the position that the column's check allows on finished items only.
\<close>

theorem position_blocks_decision:
  assumes "items_reachable capacity hide s"
    and "find (\<lambda>t. t_run t = y_run q \<and> t_task t = y_task q) (db_tasks (e_db s)) = Some t"
    and "evidence s (t_id t) key = Some old" and "v_position old \<noteq> None"
    and "check_item_control q" and "y_key q = Some key" and "strip (y_reason q) \<noteq> []" and "python (y_task q)"
    and "y_action q \<noteq> ItemMark \<or> y_status q = Some ItemFailed"
    and "t_status t \<notin> {RunQueued, RunInProgress}" and "last_attempt (e_db s) (t_id t) = Some att"
  shows "control_items hide strict python now q (fresh # fresh_ids) s = Inl (ItemConflict key)"
proof -
  have inv: "items_inv s" by (rule items_safe[OF assms(1)])
  obtain p a where p: "p \<in> set (e_items s)" "v_key (h_record p) = key" "old = observe a p"
    by (rule evidence_Some[OF inv assms(3)]) (rule that)
  from inv p(1) have "item_columns (h_record p)" by (auto simp: items_inv_def row_fits_def)
  with assms(4) p(3) have kept: "v_status old \<in> {ItemSuccess, ItemSkipped}"
    by (auto simp: item_columns_def observed_status_def split: option.splits)
  have key: "v_key old = key" using p by simp
  have "\<not> y_all_failed q" using assms(5,6) by (simp add: check_item_control_def)
  then have sel: "selected_items q (latest_items s (t_id t) None) = [old]"
    using latest_items_evidence[OF inv assms(3)] assms(6) by (simp add: selected_items_def eq_commute)
  have "decided_status q old \<notin> {ItemSuccess, ItemSkipped}"
    using assms(5,9) kept by (auto simp: decided_status_def check_item_control_def live_item_def split: item_action.splits option.splits)
  then have "\<not> insertable s (decided_row hide now (t_id t) att q (old, fresh))"
    using assms(4) by (auto simp: insertable_def item_columns_def split: option.splits)
  with kept have "change hide now (t_id t) att q (old, fresh) s = Inl (ItemConflict (v_key old))"
    by (auto simp: change_def Let_def live_item_def append_item_def decided_row_def)
  with assms sel key show ?thesis by (auto simp: control_items_def Let_def)
qed

definition demo_positioned :: item_db where
  "demo_positioned = snd (projr (demo_send
     ((demo_event ItemSuccess 1 (Some 10) CHR ''2'')\<lparr>v_position := Some 7\<rparr>) demo_started))"

definition demo_finished :: item_db where
  "demo_finished = demo_positioned\<lparr>e_db := projr (finish_attempt 55 1 AttFailed ''worker'' (plain_report None None)
     (e_db demo_positioned))\<rparr>"

lemma demo_finished_reachable: "items_reachable any_capacity id demo_finished"
proof -
  have 1: "\<not> is_err (demo_send ((demo_event ItemSuccess 1 (Some 10) CHR ''2'')\<lparr>v_position := Some 7\<rparr>) demo_started)"
    and 2: "\<not> is_err (finish_attempt 55 1 AttFailed ''worker'' (plain_report None None) (e_db demo_positioned))"
    by code_simp+
  have p: "items_reachable any_capacity id demo_positioned"
    using demo_sent[OF demo_items_reachable(2) 1] by (simp add: demo_positioned_def)
  from items_reachable_step[OF p item_step.lifecycle[OF lifecycle_step.finish[OF Inr_projr[OF 2]]]]
  show ?thesis by (simp add: demo_finished_def)
qed

theorem position_blocks_decision_witness:
  "demo_decide ItemRerun None demo_finished = Inl (ItemConflict ''page'')"
proof -
  have eval: "(map_option (\<lambda>t. (t_id t, t_status t)) (find (\<lambda>t. t_run t = 1 \<and> t_task t = 70) (db_tasks (e_db demo_finished))),
       map_option v_position (evidence demo_finished 1 ''page''), last_attempt (e_db demo_finished) 1)
     = (Some (1, RunFailed), Some (Some 7), Some 1)" by code_simp
  from eval obtain t where t: "find (\<lambda>t. t_run t = 1 \<and> t_task t = 70) (db_tasks (e_db demo_finished)) = Some t" "t_id t = 1"
      "t_status t = RunFailed" by auto
  from eval obtain old where old: "evidence demo_finished 1 ''page'' = Some old" "v_position old = Some 7" by auto
  have q: "check_item_control (demo_control ItemRerun None)" "strip ''why'' \<noteq> []" by code_simp+
  show ?thesis unfolding demo_decide_def
    by (rule position_blocks_decision[OF demo_finished_reachable, where t = t and old = old and att = 1])
      (use t old eval q in \<open>simp_all add: demo_control_def\<close>)
qed

end
