(* ===== verification/Budget.thy ===== *)
theory Budget
  imports Calendars "HOL-Library.AList" "HOL-Library.Multiset"
begin

text \<open>
  The connection budget of \<^verbatim>\<open>engine/connection_budget.py\<close> with its queries and the lifecycle of
  \<^verbatim>\<open>engine/process_reservations.py\<close>: every process reserves its largest number of Engine DB
  connections before it starts, renews the reservation while it runs and gives it back. On
  PostgreSQL the sessions of a process carry its reservation, and a reservation is charged while
  one of them is open; SQLite has no limit and no sessions. The advisory lock makes a reservation
  one step. Hosts, processes, actors and backends are left out.
\<close>

datatype process_role = RoleController | RoleUi | RoleRun

record connections =
  cn_pool :: int
  cn_sessions :: int
  cn_tasks :: int
  cn_roles :: "process_role list"

definition total_connections :: "connections \<Rightarrow> int" where
  "total_connections c = cn_pool c + cn_sessions c + cn_tasks c"

text \<open>\<open>footprint\<close>: the task slots are those of the sizing, when there is one.\<close>

definition footprint :: "int \<Rightarrow> int \<Rightarrow> int option \<Rightarrow> process_role \<Rightarrow> connections" where
  "footprint db_pool_size max_parallel_tasks sized role =
     (let tasks = (case sized of None \<Rightarrow> max_parallel_tasks | Some n \<Rightarrow> n);
          sessions = (if role = RoleController then 3 else if role = RoleUi then 2 else 1)
      in \<lparr>cn_pool = db_pool_size, cn_sessions = sessions + 1 + (if role = RoleUi then 1 else 0),
          cn_tasks = tasks, cn_roles = [role]\<rparr>)"

record reservation =
  rs_id :: string
  rs_charge :: connections
  rs_role :: process_role
  rs_heartbeat :: int
  rs_expires :: int
  rs_stopped :: "int option"

text \<open>
  The table, the open sessions with the reservation each carries, and \<open>max_connections\<close>: \<open>None\<close>
  for a database without one.
\<close>

record budget_db =
  bd_rows :: "reservation list"
  bd_sessions :: "(int \<times> string) list"
  bd_limit :: "int option"

datatype budget_error = OverBudget process_role int int int | BadReservation | OwnershipEnded string

definition session_alive :: "budget_db \<Rightarrow> string \<Rightarrow> bool" where
  "session_alive s k \<longleftrightarrow> list_ex (\<lambda>(_, i). i = k) (bd_sessions s)"

definition counted :: "budget_db \<Rightarrow> int \<Rightarrow> reservation \<Rightarrow> bool" where
  "counted s now r \<longleftrightarrow> rs_stopped r = None \<and> rs_expires r > now \<or> session_alive s (rs_id r)"

definition sum_by :: "(reservation \<Rightarrow> int) \<Rightarrow> reservation list \<Rightarrow> int" where
  "sum_by f rows = sum_list (map f rows)"

definition reservations :: "budget_db \<Rightarrow> int \<Rightarrow> connections" where
  "reservations s now =
     (let rows = sort_key rs_id (filter (counted s now) (bd_rows s))
      in \<lparr>cn_pool = sum_by (\<lambda>r. cn_pool (rs_charge r)) rows,
          cn_sessions = sum_by (\<lambda>r. cn_sessions (rs_charge r)) rows,
          cn_tasks = sum_by (\<lambda>r. cn_tasks (rs_charge r)) rows, cn_roles = map rs_role rows\<rparr>)"

definition reap :: "int \<Rightarrow> budget_db \<Rightarrow> budget_db" where
  "reap now s = s\<lparr>bd_rows := map (\<lambda>r.
     if rs_stopped r = None \<and> rs_expires r \<le> now \<and> \<not> session_alive s (rs_id r)
     then r\<lparr>rs_stopped := Some now\<rparr> else r) (bd_rows s)\<rparr>"

definition charge_columns :: "connections \<Rightarrow> bool" where
  "charge_columns c \<longleftrightarrow> cn_pool c > 0 \<and> cn_sessions c \<ge> 0 \<and> cn_tasks c \<ge> 0"

definition reserve ::
  "process_role \<Rightarrow> connections \<Rightarrow> int \<Rightarrow> int \<Rightarrow> string \<Rightarrow> int \<Rightarrow> budget_db \<Rightarrow> budget_error + budget_db" where
  "reserve role budget now lease identity session s =
     (let s1 = reap now s; existing = reservations s1 now
      in if (case bd_limit s of None \<Rightarrow> False
             | Some limit \<Rightarrow> (total_connections existing + total_connections budget) * 5 > limit * 4)
         then Inl (OverBudget role (total_connections budget) (total_connections existing)
                (case bd_limit s of None \<Rightarrow> 0 | Some limit \<Rightarrow> limit))
         else if \<not> charge_columns budget \<or> identity \<in> rs_id ` set (bd_rows s1) then Inl BadReservation
         else Inr (s1\<lparr>bd_rows := bd_rows s1 @ [\<lparr>rs_id = identity, rs_charge = budget, rs_role = role,
                       rs_heartbeat = now, rs_expires = now + lease, rs_stopped = None\<rparr>],
                     bd_sessions := (if bd_limit s = None then bd_sessions s1
                                     else AList.update session identity (bd_sessions s1))\<rparr>))"

text \<open>A closed or expired reservation cannot be renewed; \<open>rowcount != 1\<close> raises.\<close>

definition heartbeat :: "string \<Rightarrow> int \<Rightarrow> int \<Rightarrow> budget_db \<Rightarrow> budget_error + budget_db" where
  "heartbeat identity now lease s =
     (let live = (\<lambda>r. rs_id r = identity \<and> rs_stopped r = None \<and> rs_expires r \<ge> now)
      in if length (filter live (bd_rows s)) \<noteq> 1 then Inl (OwnershipEnded identity)
         else Inr (s\<lparr>bd_rows := map (\<lambda>r. if live r then r\<lparr>rs_heartbeat := now, rs_expires := now + lease\<rparr> else r)
                (bd_rows s)\<rparr>))"

definition close_reservation :: "string \<Rightarrow> int \<Rightarrow> budget_db \<Rightarrow> budget_db" where
  "close_reservation identity now s = s\<lparr>bd_rows := map (\<lambda>r.
     if rs_id r = identity \<and> rs_stopped r = None then r\<lparr>rs_stopped := Some now\<rparr> else r) (bd_rows s)\<rparr>"

text \<open>
  A pooled or inherited session: the fence refuses it once the deadline of the lease has passed,
  and a process that still has a session keeps its charge.
\<close>

definition may_open :: "budget_db \<Rightarrow> int \<Rightarrow> string \<Rightarrow> bool" where
  "may_open s now k \<longleftrightarrow> session_alive s k
     \<or> list_ex (\<lambda>r. rs_id r = k \<and> rs_stopped r = None \<and> now < rs_expires r) (bd_rows s)"

definition open_session :: "int \<Rightarrow> string \<Rightarrow> budget_db \<Rightarrow> budget_db" where
  "open_session session k s = s\<lparr>bd_sessions := AList.update session k (bd_sessions s)\<rparr>"

definition close_session :: "int \<Rightarrow> budget_db \<Rightarrow> budget_db" where
  "close_session session s = s\<lparr>bd_sessions := AList.delete session (bd_sessions s)\<rparr>"

section \<open>Processes on one clock\<close>

inductive budget_step :: "budget_db \<times> int \<Rightarrow> budget_db \<times> int \<Rightarrow> bool" where
  clock: "now \<le> later \<Longrightarrow> budget_step (s, now) (s, later)"
| reserve: "reserve role budget now lease identity session s = Inr s' \<Longrightarrow> budget_step (s, now) (s', now)"
| heartbeat: "heartbeat identity now lease s = Inr s' \<Longrightarrow> budget_step (s, now) (s', now)"
| close: "budget_step (s, now) (close_reservation identity now s, now)"
| open_session: "may_open s now k \<Longrightarrow> bd_limit s \<noteq> None \<Longrightarrow> budget_step (s, now) (open_session session k s, now)"
| close_session: "budget_step (s, now) (close_session session s, now)"

inductive_cases budget_stepE: "budget_step x y"

definition empty_budget :: "int option \<Rightarrow> budget_db" where
  "empty_budget limit = \<lparr>bd_rows = [], bd_sessions = [], bd_limit = limit\<rparr>"

definition budget_reachable :: "int option \<Rightarrow> budget_db \<times> int \<Rightarrow> bool" where
  "budget_reachable limit x \<longleftrightarrow> (\<exists>now. budget_step\<^sup>*\<^sup>* (empty_budget limit, now) x)"

section \<open>The budget holds\<close>

text \<open>What may still be used: a reservation that can be renewed, or that a session keeps.\<close>

definition chargeable :: "budget_db \<Rightarrow> int \<Rightarrow> reservation \<Rightarrow> bool" where
  "chargeable s now r \<longleftrightarrow> rs_stopped r = None \<and> rs_expires r \<ge> now \<or> session_alive s (rs_id r)"

definition charged :: "budget_db \<Rightarrow> int \<Rightarrow> int" where
  "charged s now = sum_by (\<lambda>r. total_connections (rs_charge r)) (filter (chargeable s now) (bd_rows s))"

definition budget_inv :: "int option \<Rightarrow> budget_db \<times> int \<Rightarrow> bool" where
  "budget_inv limit x \<longleftrightarrow> (case x of (s, now) \<Rightarrow>
     bd_limit s = limit
     \<and> (\<forall>r \<in> set (bd_rows s). charge_columns (rs_charge r))
     \<and> distinct (map rs_id (bd_rows s))
     \<and> (case limit of None \<Rightarrow> True | Some l \<Rightarrow> charged s now * 5 \<le> l * 4))"

lemma charge_nonneg: "charge_columns c \<Longrightarrow> 0 \<le> total_connections c"
  by (simp add: charge_columns_def total_connections_def)

text \<open>Fewer charges weigh less.\<close>

lemma charged_mono:
  assumes "list_all2 (\<lambda>r r'. rs_charge r' = rs_charge r \<and> (chargeable s' later r' \<longrightarrow> chargeable s now r)) (bd_rows s) (bd_rows s')"
    and "\<forall>r \<in> set (bd_rows s). charge_columns (rs_charge r)"
  shows "charged s' later \<le> charged s now"
proof -
  have "sum_by f (filter Q ys) \<le> sum_by f (filter P xs)"
    if "list_all2 (\<lambda>r r'. f r' = f r \<and> (Q r' \<longrightarrow> P r)) xs ys" "\<forall>r \<in> set xs. 0 \<le> f r"
    for f :: "reservation \<Rightarrow> int" and P Q xs ys
    using that by (induction rule: list_all2_induct) (auto simp: sum_by_def)
  note weigh = this[where f = "\<lambda>r. total_connections (rs_charge r)" and Q = "chargeable s' later" and P = "chargeable s now"
      and xs = "bd_rows s" and ys = "bd_rows s'"]
  show ?thesis unfolding charged_def
  proof (rule weigh)
    show "list_all2 (\<lambda>r r'. total_connections (rs_charge r') = total_connections (rs_charge r)
        \<and> (chargeable s' later r' \<longrightarrow> chargeable s now r)) (bd_rows s) (bd_rows s')"
      using assms(1) by (rule list_all2_mono) auto
  qed (use assms(2) charge_nonneg in blast)
qed

lemma session_alive_update:
  "list_ex (\<lambda>(_, i). i = k) (AList.update session identity xs) \<Longrightarrow> k = identity \<or> list_ex (\<lambda>(_, i). i = k) xs"
  by (induction xs) (auto split: if_splits)

lemma session_alive_delete:
  "list_ex (\<lambda>(_, i). i = k) (AList.delete session xs) \<Longrightarrow> list_ex (\<lambda>(_, i). i = k) xs"
  by (auto simp: list_ex_iff AList.delete_eq)

text \<open>A change of the rows that keeps identities and charges.\<close>

lemma budget_inv_rows:
  assumes inv: "budget_inv limit (s, now)" and "now \<le> later" and "bd_limit s' = bd_limit s"
    and rows: "list_all2 (\<lambda>r r'. rs_id r' = rs_id r \<and> rs_charge r' = rs_charge r
       \<and> (chargeable s' later r' \<longrightarrow> chargeable s now r)) (bd_rows s) (bd_rows s')"
  shows "budget_inv limit (s', later)"
proof -
  have same: "map rs_id (bd_rows s') = map rs_id (bd_rows s)" "map rs_charge (bd_rows s') = map rs_charge (bd_rows s)"
    using rows by (induction rule: list_all2_induct) auto
  have "charged s' later \<le> charged s now"
  proof (rule charged_mono)
    show "list_all2 (\<lambda>r r'. rs_charge r' = rs_charge r \<and> (chargeable s' later r' \<longrightarrow> chargeable s now r)) (bd_rows s) (bd_rows s')"
      using rows by (rule list_all2_mono) auto
  qed (use inv in \<open>simp add: budget_inv_def\<close>)
  moreover have "\<forall>c \<in> set (map rs_charge (bd_rows s')). charge_columns c"
    unfolding same(2) using inv by (simp add: budget_inv_def)
  ultimately show ?thesis using inv assms(3) same(1)
    by (auto simp: budget_inv_def split: option.splits)
qed

lemma reap_rows: "bd_rows (reap now s) = map (\<lambda>r.
     if rs_stopped r = None \<and> rs_expires r \<le> now \<and> \<not> session_alive s (rs_id r)
     then r\<lparr>rs_stopped := Some now\<rparr> else r) (bd_rows s)"
  "bd_sessions (reap now s) = bd_sessions s" "bd_limit (reap now s) = bd_limit s"
  by (simp_all add: reap_def)

lemma reap_alive [simp]: "session_alive (reap now s) = session_alive s"
  by (simp add: session_alive_def reap_def fun_eq_iff)

lemma reap_inv:
  assumes "budget_inv limit (s, now)"
  shows "budget_inv limit (reap now s, now)"
  by (rule budget_inv_rows[OF assms]) (auto simp: reap_rows list_all2_map2 list_all2_same chargeable_def)

text \<open>After the reaping, what may be used is what is counted.\<close>

lemma reaped_counted:
  assumes "r \<in> set (bd_rows (reap now s))"
  shows "chargeable (reap now s) now r = counted (reap now s) now r"
  using assms by (auto simp: reap_rows chargeable_def counted_def)

lemma total_reservations:
  "total_connections (reservations s now) = sum_by (\<lambda>r. total_connections (rs_charge r)) (filter (counted s now) (bd_rows s))"
proof -
  have split: "sum_by (\<lambda>r. total_connections (rs_charge r)) rows
      = sum_by (\<lambda>r. cn_pool (rs_charge r)) rows + sum_by (\<lambda>r. cn_sessions (rs_charge r)) rows
        + sum_by (\<lambda>r. cn_tasks (rs_charge r)) rows" for rows
    by (induction rows) (auto simp: sum_by_def total_connections_def)
  have sorted: "sum_by f (sort_key rs_id rows) = sum_by f rows" for f rows
    by (simp add: sum_by_def flip: sum_mset_sum_list)
  show ?thesis by (simp add: reservations_def Let_def split sorted) (simp add: total_connections_def)
qed

lemma reserve_inv:
  assumes inv: "budget_inv limit (s, now)" and r: "reserve role budget now lease identity session s = Inr s'"
  shows "budget_inv limit (s', now)"
proof -
  let ?s1 = "reap now s"
  let ?new = "\<lparr>rs_id = identity, rs_charge = budget, rs_role = role, rs_heartbeat = now, rs_expires = now + lease,
      rs_stopped = None\<rparr>"
  have inv1: "budget_inv limit (?s1, now)" by (rule reap_inv[OF inv])
  from r have ok: "charge_columns budget" "identity \<notin> rs_id ` set (bd_rows ?s1)"
    and s': "bd_rows s' = bd_rows ?s1 @ [?new]" "bd_limit s' = bd_limit s"
      "bd_sessions s' = (if bd_limit s = None then bd_sessions s else AList.update session identity (bd_sessions s))"
    and fits: "\<And>l. bd_limit s = Some l \<Longrightarrow> (total_connections (reservations ?s1 now) + total_connections budget) * 5 \<le> l * 4"
    by (auto simp: reserve_def Let_def reap_rows split: if_splits option.splits)
  let ?f = "\<lambda>r. total_connections (rs_charge r)"
  have weigh: "sum_by ?f (filter (chargeable s' now) rows) \<le> sum_by ?f (filter (counted ?s1 now) rows)"
    if "set rows \<subseteq> set (bd_rows ?s1)" "\<forall>r \<in> set rows. 0 \<le> ?f r" for rows
    using that
  proof (induction rows)
    case (Cons r rows)
    then have "counted ?s1 now r" if "chargeable s' now r"
    proof -
      have "rs_id r \<noteq> identity" using Cons.prems(1) ok(2) by auto
      with that s'(3) have "chargeable ?s1 now r"
        by (auto simp: chargeable_def session_alive_def reap_rows split: if_splits dest: session_alive_update)
      with reaped_counted Cons.prems(1) show ?thesis by auto
    qed
    with Cons show ?case by (auto simp: sum_by_def)
  qed (simp add: sum_by_def)
  have "\<forall>r \<in> set (bd_rows ?s1). charge_columns (rs_charge r)" using inv1 by (simp add: budget_inv_def)
  then have "\<forall>r \<in> set (bd_rows ?s1). 0 \<le> ?f r" by (simp add: charge_nonneg)
  then have "sum_by ?f (filter (chargeable s' now) (bd_rows ?s1)) \<le> total_connections (reservations ?s1 now)"
    unfolding total_reservations by (rule weigh[OF order.refl])
  moreover have "charged s' now \<le> sum_by (\<lambda>r. total_connections (rs_charge r)) (filter (chargeable s' now) (bd_rows ?s1))
      + total_connections budget"
    using charge_nonneg[OF ok(1)] by (simp add: charged_def s'(1) sum_by_def)
  ultimately have "charged s' now \<le> total_connections (reservations ?s1 now) + total_connections budget" by simp
  with fits have "charged s' now * 5 \<le> l * 4" if "bd_limit s = Some l" for l
    using that by (smt (verit))
  moreover have "\<forall>r \<in> set (bd_rows s'). charge_columns (rs_charge r)" "distinct (map rs_id (bd_rows s'))"
    using inv1 ok by (auto simp: s'(1) budget_inv_def)
  moreover have "bd_limit s' = limit" using inv s'(2) by (simp add: budget_inv_def)
  ultimately show ?thesis using s'(2) by (simp add: budget_inv_def split: option.split)
qed

lemma heartbeat_inv:
  assumes inv: "budget_inv limit (s, now)" and h: "heartbeat identity now lease s = Inr s'"
  shows "budget_inv limit (s', now)"
proof (rule budget_inv_rows[OF inv])
  from h show "list_all2 (\<lambda>r r'. rs_id r' = rs_id r \<and> rs_charge r' = rs_charge r
       \<and> (chargeable s' now r' \<longrightarrow> chargeable s now r)) (bd_rows s) (bd_rows s')"
    by (auto simp: heartbeat_def Let_def list_all2_map2 list_all2_same chargeable_def session_alive_def split: if_splits)
qed (use h in \<open>auto simp: heartbeat_def Let_def split: if_splits\<close>)

lemma budget_step_keeps: "budget_inv limit x \<Longrightarrow> budget_step x y \<Longrightarrow> budget_inv limit y"
proof (erule budget_step.cases)
  fix now later s assume x: "budget_inv limit x" "x = (s, now)" "y = (s, later)" "now \<le> later"
  show "budget_inv limit y"
    unfolding x(3) by (rule budget_inv_rows[OF x(1)[unfolded x(2)] x(4)])
      (use x(4) in \<open>auto simp: list_all2_same chargeable_def\<close>)
next
  fix role budget now lease identity session s s'
  assume "budget_inv limit x" "x = (s, now)" "y = (s', now)" "reserve role budget now lease identity session s = Inr s'"
  then show "budget_inv limit y" by (simp add: reserve_inv)
next
  fix identity now lease s s'
  assume "budget_inv limit x" "x = (s, now)" "y = (s', now)" "heartbeat identity now lease s = Inr s'"
  then show "budget_inv limit y" by (simp add: heartbeat_inv)
next
  fix identity now s assume x: "budget_inv limit x" "x = (s, now)" "y = (close_reservation identity now s, now)"
  show "budget_inv limit y"
    unfolding x(3) by (rule budget_inv_rows[OF x(1)[unfolded x(2)]])
      (auto simp: close_reservation_def list_all2_map2 list_all2_same chargeable_def session_alive_def)
next
  fix s now k session assume x: "budget_inv limit x" "x = (s, now)" "y = (open_session session k s, now)" "may_open s now k"
  have "rs_id r = k \<Longrightarrow> r \<in> set (bd_rows s) \<Longrightarrow> chargeable s now r" for r
  proof -
    assume r: "rs_id r = k" "r \<in> set (bd_rows s)"
    have "distinct (map rs_id (bd_rows s))" using x(1,2) by (simp add: budget_inv_def)
    show ?thesis
    proof (cases "session_alive s k")
      case True
      with r(1) show ?thesis by (simp add: chargeable_def)
    next
      case False
      with x(4) obtain r' where "r' \<in> set (bd_rows s)" "rs_id r' = k" "rs_stopped r' = None" "now < rs_expires r'"
        by (auto simp: may_open_def list_ex_iff)
      moreover from this(1,2) r \<open>distinct (map rs_id (bd_rows s))\<close> have "r' = r"
        by (metis distinct_map inj_onD)
      ultimately show ?thesis by (simp add: chargeable_def)
    qed
  qed
  then show "budget_inv limit y"
    unfolding x(3) by (intro budget_inv_rows[OF x(1)[unfolded x(2)]])
      (auto simp: open_session_def list_all2_same chargeable_def session_alive_def dest: session_alive_update)
next
  fix session s now assume x: "budget_inv limit x" "x = (s, now)" "y = (close_session session s, now)"
  show "budget_inv limit y"
    unfolding x(3) by (rule budget_inv_rows[OF x(1)[unfolded x(2)]])
      (auto simp: close_session_def list_all2_same chargeable_def session_alive_def dest: session_alive_delete)
qed

interpretation budget: safe_system budget_step "budget_inv limit"
  by unfold_locales (rule budget_step_keeps)


definition demo_budget :: budget_db where
  "demo_budget = projr (reserve RoleController (footprint 3 4 None RoleController) 100 60 ''first'' 1 (empty_budget (Some 20)))"


end
