(* ===== verification/Fan_Out.thy ===== *)
theory Fan_Out
  imports Item_Inv "HOL-Library.AList"
begin

text \<open>
  Fan-out of a Python task over its items: \<^verbatim>\<open>fan_out.py\<close> and \<^verbatim>\<open>fan_out_offsets.py\<close>. The store
  the loop talks to is the interface \<open>item_store\<close>, which the fenced store of \<open>Items\<close> provides;
  which functions finish first, and what they return, is open. Logging, projections and the
  executors' threads and processes are left out.
\<close>

section \<open>Options\<close>

datatype fan_error =
    BadMaxItems int | BadRetries int | BadWidth int int | FanTooMany int int | NewKeysInRerun "string list"
  | FanStore item_error | FanNoStore | ItemsNotDone "string list" bool | BadCount string
  | CommittedNotPositions | PositionChanged string

definition thread_ceiling :: int where "thread_ceiling = 256"

definition default_parallel :: int where "default_parallel = 16"

definition thread_memory :: int where "thread_memory = 2"

definition process_memory :: int where "process_memory = 64"

text \<open>\<open>options\<close>: memory in whole MB; \<open>cpu\<close> is the admitted number of CPUs.\<close>

definition fan_options :: "int \<Rightarrow> int option \<Rightarrow> int \<Rightarrow> int \<Rightarrow> bool \<Rightarrow> rat \<Rightarrow> fan_error + int" where
  "fan_options max_items parallel retries memory processes cpu =
     (if max_items < 0 then Inl (BadMaxItems max_items)
      else if retries < 0 then Inl (BadRetries retries)
      else
        (let bound = min thread_ceiling (memory div (if processes then process_memory else thread_memory));
             bound = (if processes
                      then min bound (if cpu \<ge> 0 then floor cpu else ceiling cpu) else bound);
             width = (case parallel of None \<Rightarrow> min default_parallel bound | Some n \<Rightarrow> n)
         in if \<not> (1 \<le> width \<and> width \<le> bound) then Inl (BadWidth width bound) else Inr width))"

section \<open>Positions\<close>

text \<open>
  \<open>fan_out_offsets.position\<close>, for an offset that is a type with its entries, and \<open>evaluate\<close>,
  which checks what a function returned.
\<close>

type_synonym script_offset = "(offset_type \<times> (string \<times> int) list option) option"

definition fan_position ::
  "string \<Rightarrow> script_offset \<Rightarrow> script_offset \<Rightarrow> script_kind \<Rightarrow> item_error + int option" where
  "fan_position key offset committed kind = (case offset of
     None \<Rightarrow> Inr None
   | Some (datatype, value) \<Rightarrow>
       bind_err (item_position key value datatype (case committed of None \<Rightarrow> None | Some (_, v) \<Rightarrow> v)
         (map_option fst committed) kind) (\<lambda>p. Inr (Some p)))"

definition reported_count :: "int option \<Rightarrow> script_kind \<Rightarrow> string \<Rightarrow> fan_error + int option" where
  "reported_count rows kind name = (case rows of
     None \<Rightarrow> if kind = Utility then Inr None else Inl (BadCount name)
   | Some n \<Rightarrow> if n < 0 then Inl (BadCount name) else Inr (Some n))"

definition evaluated ::
  "string \<Rightarrow> script_kind \<Rightarrow> script_offset \<Rightarrow> int option \<times> script_offset \<Rightarrow> fan_error + int option \<times> int option" where
  "evaluated key kind committed result =
     (case fan_position key (snd result) committed kind of
        Inl e \<Rightarrow> Inl (FanStore e)
      | Inr p \<Rightarrow> bind_err (reported_count (fst result) kind key) (\<lambda>rows. Inr (rows, p)))"

text \<open>\<open>combined\<close>: retained and new positions over the committed ones.\<close>

definition retained_positions :: "item_record list \<Rightarrow> (string \<times> int) list" where
  "retained_positions records = List.map_filter (\<lambda>v. map_option (Pair (v_key v)) (v_position v)) records"

definition combined :: "script_offset \<Rightarrow> item_record list \<Rightarrow> fan_error + script_offset" where
  "combined committed records =
     (let positions = retained_positions records
      in if positions = [] then Inr None
         else bind_err (case committed of None \<Rightarrow> Inr [] | Some (_, None) \<Rightarrow> Inl CommittedNotPositions
                        | Some (_, Some v) \<Rightarrow> Inr v) (\<lambda>previous.
           case map_err (\<lambda>(k, p). fan_position k (Some (OffPartitions, Some [(k, p)])) committed Ingestion) positions of
             Inl e \<Rightarrow> Inl (FanStore e)
           | Inr _ \<Rightarrow> Inr (Some (OffPartitions, Some (fold (\<lambda>(k, p). AList.update k p) positions previous)))))"

text \<open>\<open>check_return\<close>: a script may not override or omit its combined positions.\<close>

definition check_return :: "(string \<times> int) list \<Rightarrow> script_offset \<Rightarrow> fan_error option" where
  "check_return positions result = check_all (\<lambda>(k, expected).
     case result of
       Some (_, Some v) \<Rightarrow> if map_of v k = Some expected then None else Some (PositionChanged k)
     | _ \<Rightarrow> Some (PositionChanged k)) positions"

text \<open>The end of \<open>execute\<close>: the result of the task from the final evidence.\<close>

definition kept :: "item_status \<Rightarrow> bool" where
  "kept st \<longleftrightarrow> st = ItemSuccess \<or> st = ItemSkipped"

definition fan_result ::
  "script_offset \<Rightarrow> bool \<Rightarrow> item_record list \<Rightarrow> fan_error + int option \<times> script_offset" where
  "fan_result committed permanent final =
     (let failed = filter (\<lambda>v. \<not> kept (v_status v)) final
      in if failed \<noteq> [] then Inl (ItemsNotDone (map v_key failed) permanent)
         else bind_err (combined committed final) (\<lambda>offset.
           Inr (if list_all (\<lambda>v. v_rows v \<noteq> None) final then Some (sum_list (map (\<lambda>v. the (v_rows v)) final)) else None,
                offset)))"

section \<open>The work list\<close>

text \<open>\<open>dict.fromkeys\<close> keeps the first of equal keys.\<close>

definition first_occurrences :: "'a list \<Rightarrow> 'a list" where
  "first_occurrences xs = rev (remdups (rev xs))"

function chunks :: "nat \<Rightarrow> 'a list \<Rightarrow> 'a list list" where
  "chunks n xs = (if xs = [] \<or> n = 0 then [] else take n xs # chunks n (drop n xs))"
  by pat_completeness auto
termination by (relation "measure (\<lambda>(_, xs). length xs)") auto

definition queued_item :: "string \<Rightarrow> item_record" where
  "queued_item k = \<lparr>v_key = k, v_number = 0, v_status = ItemQueued, v_rows = None, v_error = None,
     v_started = None, v_ended = None, v_report = [], v_attempt = None, v_position = None\<rparr>"

text \<open>\<open>prepare_work\<close>: \<open>prep\<close> is the store's \<open>prepare_items\<close>.\<close>

definition prepare_work ::
  "(string list \<Rightarrow> 's \<Rightarrow> item_error + 's) \<Rightarrow> string list \<Rightarrow> item_record list \<Rightarrow> int \<Rightarrow> 's
     \<Rightarrow> fan_error + string list \<times> (string \<times> item_record) list \<times> string list \<times> 's" where
  "prepare_work prep found records max_items s =
     (let keys = first_occurrences (map v_key records @ found);
          selected = map v_key (filter (\<lambda>v. v_status v = ItemQueued \<and> v_error v \<noteq> None) records);
          new = filter (\<lambda>k. k \<notin> v_key ` set records) keys
      in if int (length keys) > max_items then Inl (FanTooMany (int (length keys)) max_items)
         else if selected \<noteq> [] \<and> new \<noteq> [] then Inl (NewKeysInRerun (take 16 (sorted_set new)))
         else
           (case fold_err prep (chunks 1000 keys) s of
              Inl e \<Rightarrow> Inl (FanStore e)
            | Inr s' \<Rightarrow>
                Inr (keys, map (\<lambda>k. (k, case find (\<lambda>v. v_key v = k) (rev records) of
                       Some old \<Rightarrow> if kept (v_status old) then old\<lparr>v_status := ItemSkipped\<rparr> else old
                     | None \<Rightarrow> queued_item k)) keys, selected, s')))"

section \<open>The loop\<close>

datatype call_outcome = Returned "int option" "int option" | Raised bool string

text \<open>
  The state of \<open>Work.run\<close>: the store, the keys not yet taken, the functions running with their
  start and the retries left, those of the completed batch still to be handled, what is known of
  each key, and the calls made so far.
\<close>

record 's work =
  wk_store :: 's
  wk_waiting :: "string list"
  wk_active :: "(string \<times> item_record \<times> nat) list"
  wk_batch :: "string list"
  wk_known :: "(string \<times> item_record) list"
  wk_completed :: nat
  wk_permanent :: bool
  wk_exhausted :: bool
  wk_calls :: "string list"

definition start_event :: "string \<Rightarrow> int \<Rightarrow> instant \<Rightarrow> string \<Rightarrow> item_record" where
  "start_event k n now rep = \<lparr>v_key = k, v_number = n, v_status = ItemRunning, v_rows = None, v_error = None,
     v_started = Some now, v_ended = None, v_report = rep, v_attempt = None, v_position = None\<rparr>"

definition ending_event :: "item_record \<Rightarrow> call_outcome \<Rightarrow> instant \<Rightarrow> string \<Rightarrow> item_record" where
  "ending_event event outcome now rep =
     (case outcome of
        Returned rows p \<Rightarrow> event\<lparr>v_status := ItemSuccess, v_rows := rows, v_position := p\<rparr>
      | Raised _ message \<Rightarrow> event\<lparr>v_status := ItemFailed, v_error := Some (take 4096 message)\<rparr>)
     \<lparr>v_ended := Some now, v_report := rep\<rparr>"

definition status_known :: "(string \<times> item_record) list \<Rightarrow> string \<Rightarrow> item_status option" where
  "status_known known k = map_option v_status (map_of known k)"

definition without_active :: "string \<Rightarrow> (string \<times> item_record \<times> nat) list \<Rightarrow> (string \<times> item_record \<times> nat) list" where
  "without_active k xs = filter (\<lambda>x. fst x \<noteq> k) xs"

text \<open>
  The steps of the loop. \<open>answers\<close> relates an event and the store to what the store answers and
  becomes; \<open>unused\<close> are the report identities \<open>uuid4()\<close> may give; \<open>others\<close> is what other
  processes do to the store between two calls.
\<close>

definition may_fill :: "nat \<Rightarrow> 's work \<Rightarrow> bool" where
  "may_fill width w \<longleftrightarrow> wk_batch w = [] \<and> length (wk_active w) < width \<and> \<not> wk_exhausted w"

definition may_wait :: "nat \<Rightarrow> 's work \<Rightarrow> bool" where
  "may_wait width w \<longleftrightarrow> wk_batch w = [] \<and> wk_active w \<noteq> [] \<and> (width \<le> length (wk_active w) \<or> wk_exhausted w)"

definition retryable_ending :: "item_record \<Rightarrow> nat \<Rightarrow> call_outcome \<Rightarrow> bool" where
  "retryable_ending v left outcome \<longleftrightarrow> v_status v = ItemFailed \<and> left > 0
     \<and> (case outcome of Raised permanent _ \<Rightarrow> \<not> permanent | Returned _ _ \<Rightarrow> True)"

definition ended_permanently :: "item_record \<Rightarrow> call_outcome \<Rightarrow> bool" where
  "ended_permanently v outcome \<longleftrightarrow> v_status v = ItemFailed
     \<and> (case outcome of Raised permanent _ \<Rightarrow> permanent | Returned _ _ \<Rightarrow> False)"

inductive own_step ::
  "(item_record \<Rightarrow> 's \<Rightarrow> item_record \<Rightarrow> 's \<Rightarrow> bool) \<Rightarrow> (string \<Rightarrow> 's \<Rightarrow> bool) \<Rightarrow> ('s \<Rightarrow> 's \<Rightarrow> bool)
     \<Rightarrow> nat \<Rightarrow> nat \<Rightarrow> 's work \<Rightarrow> 's work \<Rightarrow> bool"
  for answers unused others width retries where
  exhaust: "may_fill width w \<Longrightarrow> wk_waiting w = [] \<Longrightarrow>
    own_step answers unused others width retries w (w\<lparr>wk_exhausted := True\<rparr>)"
| skip: "may_fill width w \<Longrightarrow> wk_waiting w = k # ks \<Longrightarrow> map_of (wk_known w) k = Some old \<Longrightarrow> kept (v_status old) \<Longrightarrow>
    own_step answers unused others width retries w (w\<lparr>wk_waiting := ks\<rparr>)"
| start: "may_fill width w \<Longrightarrow> wk_waiting w = k # ks \<Longrightarrow> map_of (wk_known w) k = Some old \<Longrightarrow> \<not> kept (v_status old) \<Longrightarrow>
    unused rep (wk_store w) \<Longrightarrow> answers (start_event k (v_number old + 1) now rep) (wk_store w) v s \<Longrightarrow>
    v_status v = ItemRunning \<Longrightarrow>
    own_step answers unused others width retries w
      (w\<lparr>wk_store := s, wk_waiting := ks, wk_active := wk_active w @ [(k, v, retries)], wk_calls := wk_calls w @ [k]\<rparr>)"
| answered: "may_fill width w \<Longrightarrow> wk_waiting w = k # ks \<Longrightarrow> map_of (wk_known w) k = Some old \<Longrightarrow> \<not> kept (v_status old) \<Longrightarrow>
    unused rep (wk_store w) \<Longrightarrow> answers (start_event k (v_number old + 1) now rep) (wk_store w) v s \<Longrightarrow>
    v_status v \<noteq> ItemRunning \<Longrightarrow>
    own_step answers unused others width retries w
      (w\<lparr>wk_store := s, wk_waiting := ks, wk_known := AList.update k v (wk_known w), wk_completed := wk_completed w + 1\<rparr>)"
| wait: "may_wait width w \<Longrightarrow> ks \<noteq> [] \<Longrightarrow> distinct ks \<Longrightarrow> set ks \<subseteq> fst ` set (wk_active w) \<Longrightarrow>
    own_step answers unused others width retries w (w\<lparr>wk_batch := ks\<rparr>)"
| settled: "wk_batch w = k # ks \<Longrightarrow> (k, event, left) \<in> set (wk_active w) \<Longrightarrow>
    unused rep (wk_store w) \<Longrightarrow> answers (ending_event event outcome now rep) (wk_store w) v s \<Longrightarrow>
    \<not> retryable_ending v left outcome \<Longrightarrow>
    own_step answers unused others width retries w
      (w\<lparr>wk_store := s, wk_batch := ks, wk_active := without_active k (wk_active w),
         wk_known := AList.update k (v\<lparr>v_error := None\<rparr>) (wk_known w), wk_completed := wk_completed w + 1,
         wk_permanent := wk_permanent w \<or> ended_permanently v outcome\<rparr>)"
| retried: "wk_batch w = k # ks \<Longrightarrow> (k, event, left) \<in> set (wk_active w) \<Longrightarrow>
    unused rep (wk_store w) \<Longrightarrow> answers (ending_event event outcome now rep) (wk_store w) v s \<Longrightarrow>
    retryable_ending v left outcome \<Longrightarrow> others\<^sup>*\<^sup>* s s1 \<Longrightarrow>
    unused rep' s1 \<Longrightarrow> answers (start_event (v_key event) (v_number v + 1) now' rep') s1 u s2 \<Longrightarrow> v_status u = ItemRunning \<Longrightarrow>
    own_step answers unused others width retries w
      (w\<lparr>wk_store := s2, wk_batch := ks, wk_active := without_active k (wk_active w) @ [(k, u, left - 1)],
         wk_known := AList.update k (v\<lparr>v_error := None\<rparr>) (wk_known w), wk_calls := wk_calls w @ [k]\<rparr>)"
| stopped: "wk_batch w = k # ks \<Longrightarrow> (k, event, left) \<in> set (wk_active w) \<Longrightarrow>
    unused rep (wk_store w) \<Longrightarrow> answers (ending_event event outcome now rep) (wk_store w) v s \<Longrightarrow>
    retryable_ending v left outcome \<Longrightarrow> others\<^sup>*\<^sup>* s s1 \<Longrightarrow>
    unused rep' s1 \<Longrightarrow> answers (start_event (v_key event) (v_number v + 1) now' rep') s1 u s2 \<Longrightarrow> v_status u \<noteq> ItemRunning \<Longrightarrow>
    own_step answers unused others width retries w
      (w\<lparr>wk_store := s2, wk_batch := ks, wk_active := without_active k (wk_active w),
         wk_known := AList.update k u (wk_known w), wk_completed := wk_completed w + 1\<rparr>)"

text \<open>A run of the loop with its own steps counted, other processes acting in between.\<close>

inductive work_run ::
  "(item_record \<Rightarrow> 's \<Rightarrow> item_record \<Rightarrow> 's \<Rightarrow> bool) \<Rightarrow> (string \<Rightarrow> 's \<Rightarrow> bool) \<Rightarrow> ('s \<Rightarrow> 's \<Rightarrow> bool)
     \<Rightarrow> nat \<Rightarrow> nat \<Rightarrow> nat \<Rightarrow> 's work \<Rightarrow> 's work \<Rightarrow> bool"
  for answers unused others width retries where
  here: "work_run answers unused others width retries 0 w w"
| own: "work_run answers unused others width retries n w x \<Longrightarrow> own_step answers unused others width retries x y \<Longrightarrow>
    work_run answers unused others width retries (Suc n) w y"
| other: "work_run answers unused others width retries n w x \<Longrightarrow> others (wk_store x) s \<Longrightarrow>
    work_run answers unused others width retries n w (x\<lparr>wk_store := s\<rparr>)"

definition initial_work :: "string list \<Rightarrow> (string \<times> item_record) list \<Rightarrow> 's \<Rightarrow> 's work" where
  "initial_work keys known s = \<lparr>wk_store = s, wk_waiting = keys, wk_active = [], wk_batch = [], wk_known = known,
     wk_completed = length (filter (\<lambda>(_, v). kept (v_status v)) known), wk_permanent = False, wk_exhausted = False,
     wk_calls = []\<rparr>"

definition work_returned :: "'s work \<Rightarrow> bool" where
  "work_returned w \<longleftrightarrow> wk_exhausted w \<and> wk_active w = [] \<and> wk_batch w = []"

section \<open>The store of a run\<close>

text \<open>
  What the loop relies on: a start is answered with the running item it asked for, which the store
  then counts, or with evidence that already decides the key; an ending is answered with an
  ending; and nothing uncounts a start.
\<close>

definition decided :: "item_status \<Rightarrow> bool" where
  "decided st \<longleftrightarrow> st \<in> {ItemSuccess, ItemSkipped, ItemFailed, ItemCancelled, ItemCancelRequested}"


text \<open>
  The invariant of the loop, in three parts. What waits and what runs are different keys.
\<close>

definition loop_shape :: "string list \<Rightarrow> nat \<Rightarrow> 's work \<Rightarrow> bool" where
  "loop_shape keys width w \<longleftrightarrow>
     distinct (wk_waiting w) \<and> distinct (map fst (wk_active w)) \<and> set (wk_waiting w) \<inter> fst ` set (wk_active w) = {}
     \<and> set (wk_waiting w) \<subseteq> set keys
     \<and> distinct (wk_batch w) \<and> set (wk_batch w) \<subseteq> fst ` set (wk_active w)
     \<and> length (wk_active w) \<le> width
     \<and> (\<forall>(k, v, left) \<in> set (wk_active w). v_key v = k \<and> v_status v = ItemRunning)"

text \<open>Each function is called at most once more than its retries, after a start the store counted.\<close>

definition loop_calls :: "('s \<Rightarrow> string \<Rightarrow> int) \<Rightarrow> (string \<Rightarrow> int) \<Rightarrow> nat \<Rightarrow> 's work \<Rightarrow> bool" where
  "loop_calls begun before retries w \<longleftrightarrow>
     (\<forall>k. count_list (wk_calls w) k \<le> Suc retries)
     \<and> (\<forall>k \<in> set (wk_waiting w). count_list (wk_calls w) k = 0)
     \<and> (\<forall>(k, v, left) \<in> set (wk_active w). count_list (wk_calls w) k + left \<le> Suc retries)
     \<and> (\<forall>k. before k + int (count_list (wk_calls w) k) \<le> begun (wk_store w) k)"

text \<open>A key that neither waits nor runs is decided.\<close>

definition loop_decided :: "string list \<Rightarrow> 's work \<Rightarrow> bool" where
  "loop_decided keys w \<longleftrightarrow> (\<forall>k \<in> set keys. k \<in> set (wk_waiting w) \<or> k \<in> fst ` set (wk_active w)
     \<or> (\<exists>st. status_known (wk_known w) k = Some st \<and> decided st))"

lemma status_update [simp]:
  "status_known (AList.update k v known) x = (if x = k then Some (v_status v) else status_known known x)"
  by (simp add: status_known_def update_conv')

lemma without_active_set [simp]: "set (without_active k xs) = {x \<in> set xs. fst x \<noteq> k}"
  by (auto simp: without_active_def)

lemma without_active_keys [simp]: "fst ` {x \<in> A. fst x \<noteq> k} = fst ` A - {k}"
  by auto

lemma loop_calls_called:
  assumes "loop_calls begun before retries w" and "wk_calls w' = wk_calls w @ [k]"
    and "set (wk_waiting w') \<subseteq> set (wk_waiting w) - {k}"
    and "\<And>x v left. (x, v, left) \<in> set (wk_active w') \<Longrightarrow>
       x \<noteq> k \<and> (x, v, left) \<in> set (wk_active w) \<or> x = k \<and> count_list (wk_calls w) k + left \<le> retries"
    and "count_list (wk_calls w) k \<le> retries"
    and "begun (wk_store w) k + 1 \<le> begun (wk_store w') k" and "\<And>x. begun (wk_store w) x \<le> begun (wk_store w') x"
  shows "loop_calls begun before retries w'"
proof -
  note old = assms(1)[unfolded loop_calls_def]
  have "before x + int (count_list (wk_calls w') x) \<le> begun (wk_store w') x" for x
    using old assms(2,6) assms(7)[of x] by (cases "x = k") (simp, smt (verit), force intro: order_trans)
  moreover have "\<forall>(x, v, left) \<in> set (wk_active w'). count_list (wk_calls w') x + left \<le> Suc retries"
    using old assms(2,4) by fastforce
  moreover have "count_list (wk_calls w') x \<le> Suc retries" for x
    using old assms(2,5) by (cases "k = x") auto
  moreover have "\<forall>x \<in> set (wk_waiting w'). count_list (wk_calls w') x = 0" using old assms(2,3) by auto
  ultimately show ?thesis by (simp add: loop_calls_def)
qed

lemma loop_calls_less:
  assumes "loop_calls begun before retries w" and "wk_calls w' = wk_calls w"
    and "set (wk_waiting w') \<subseteq> set (wk_waiting w)" and "set (wk_active w') \<subseteq> set (wk_active w)"
    and "\<And>x. begun (wk_store w) x \<le> begun (wk_store w') x"
  shows "loop_calls begun before retries w'"
  using assms(1-4) order_trans[OF _ assms(5)] unfolding loop_calls_def assms(2) by blast

lemma without_active_distinct: "distinct (map fst xs) \<Longrightarrow> distinct (map fst (without_active k xs))"
  unfolding without_active_def by (rule List.distinct_map_filter)

lemma without_active_less: "(k, v, left) \<in> set xs \<Longrightarrow> length (without_active k xs) < length xs"
  unfolding without_active_def by (rule length_filter_less[of "(k, v, left)"]) auto

lemma without_active_length: "length (without_active k xs) \<le> length xs"
  by (simp add: without_active_def)

text \<open>What is left to do: every own step takes from it.\<close>

definition work_left :: "nat \<Rightarrow> 's work \<Rightarrow> nat" where
  "work_left retries w = length (wk_waiting w) * (2 * retries + 4)
     + sum_list (map (\<lambda>(_, _, left). 2 * (left + 1)) (wk_active w))
     + length (filter (\<lambda>x. fst x \<notin> set (wk_batch w)) (wk_active w)) + (if wk_exhausted w then 0 else 1)"

lemma sum_without:
  fixes f :: "string \<times> item_record \<times> nat \<Rightarrow> nat"
  assumes "distinct (map fst xs)" and "(k, v, left) \<in> set xs"
  shows "sum_list (map f xs) = f (k, v, left) + sum_list (map f (without_active k xs))"
  using assms
proof (induction xs)
  case (Cons x xs)
  show ?case
  proof (cases "fst x = k")
    case True
    with Cons.prems have x: "x = (k, v, left)" by (force simp: image_iff)
    have "without_active k xs = xs"
      unfolding without_active_def using Cons.prems(1) True by (intro filter_True) (force simp: image_iff)
    with x show ?thesis by (simp add: without_active_def)
  qed (use Cons in \<open>auto simp: without_active_def\<close>)
qed simp

lemma handled_without:
  "filter (\<lambda>x. fst x \<notin> set ks) (without_active k xs) = filter (\<lambda>x. fst x \<notin> set (k # ks)) xs"
  by (auto simp: without_active_def intro: filter_cong)

lemma own_step_less:
  assumes "loop_shape keys width w" and "own_step answers unused others width retries w w'"
  shows "work_left retries w' < work_left retries w"
  using assms(2)
proof cases
  case (wait ks)
  then obtain k where "k \<in> set ks" "k \<in> fst ` set (wk_active w)" by (cases ks) auto
  then have "length (filter (\<lambda>x. fst x \<notin> set ks) (wk_active w)) < length (wk_active w)"
    by (auto intro: length_filter_less)
  with wait(1,2) show ?thesis by (simp add: work_left_def may_wait_def)
next
  case (settled k ks event left rep outcome now v s)
  have "distinct (map fst (wk_active w))" using assms(1) by (simp add: loop_shape_def)
  from sum_without[OF this settled(3), of "\<lambda>(_, _, left). 2 * (left + 1)"] settled(1,2) show ?thesis
    by (simp add: work_left_def handled_without)
next
  case (stopped k ks event left rep outcome now v s s1 rep' now' u s2)
  have "distinct (map fst (wk_active w))" using assms(1) by (simp add: loop_shape_def)
  from sum_without[OF this stopped(3), of "\<lambda>(_, _, left). 2 * (left + 1)"] stopped(1,2) show ?thesis
    by (simp add: work_left_def handled_without)
next
  case (retried k ks event left rep outcome now v s s1 rep' now' u s2)
  have "distinct (map fst (wk_active w))" using assms(1) by (simp add: loop_shape_def)
  moreover obtain m where "left = Suc m" using retried(6) by (cases left) (simp_all add: retryable_ending_def)
  ultimately show ?thesis
    using sum_without[of "wk_active w", OF _ retried(3), of "\<lambda>(_, _, left). 2 * (left + 1)"] retried(1,2)
    by (simp add: work_left_def handled_without)
qed (auto simp: work_left_def may_fill_def)

locale item_store =
  fixes answers :: "item_record \<Rightarrow> 's \<Rightarrow> item_record \<Rightarrow> 's \<Rightarrow> bool"
    and unused :: "string \<Rightarrow> 's \<Rightarrow> bool"
    and others :: "'s \<Rightarrow> 's \<Rightarrow> bool"
    and begun :: "'s \<Rightarrow> string \<Rightarrow> int"
  assumes start_running: "unused rep s \<Longrightarrow> answers (start_event k n now rep) s v s' \<Longrightarrow> v_status v = ItemRunning \<Longrightarrow>
      v_key v = k \<and> begun s k + 1 \<le> begun s' k"
    and start_refused: "unused rep s \<Longrightarrow> answers (start_event k n now rep) s v s' \<Longrightarrow> v_status v \<noteq> ItemRunning \<Longrightarrow>
      decided (v_status v)"
    and ended: "unused rep s \<Longrightarrow> v_status event = ItemRunning \<Longrightarrow>
      answers (ending_event event outcome now rep) s v s' \<Longrightarrow> decided (v_status v)"
    and begun_grows: "answers e s v s' \<Longrightarrow> begun s k \<le> begun s' k"
    and begun_others: "others s s' \<Longrightarrow> begun s k \<le> begun s' k"
begin

lemma begun_many: "others\<^sup>*\<^sup>* s s' \<Longrightarrow> begun s k \<le> begun s' k"
  by (induction rule: rtranclp_induct) (auto dest: begun_others[of _ _ k])

lemma shape_step:
  assumes "loop_shape keys width w" and "own_step answers unused others width retries w w'"
  shows "loop_shape keys width w'"
  using assms(2,1)
proof cases
  case (retried k ks event left rep outcome now v s s1 rep' now' u s2)
  have "v_key u = v_key event" using start_running[OF retried(8,9,10)] by blast
  with retried assms(1) show ?thesis
    using without_active_less[OF retried(3)] without_active_distinct[of "wk_active w" k]
    by (auto simp: loop_shape_def)
next
  case (start k ks old rep now v s)
  have "v_key v = k" using start_running[OF start(6,7,8)] by blast
  with start assms(1) show ?thesis by (auto simp: loop_shape_def may_fill_def)
next
  case (settled k ks event left rep outcome now v s)
  with assms(1) show ?thesis
    using without_active_less[OF settled(3)] without_active_distinct[of "wk_active w" k]
    by (auto simp: loop_shape_def)
next
  case (stopped k ks event left rep outcome now v s s1 rep' now' u s2)
  with assms(1) show ?thesis
    using without_active_less[OF stopped(3)] without_active_distinct[of "wk_active w" k]
    by (auto simp: loop_shape_def)
qed (auto simp: loop_shape_def)

lemma calls_step:
  assumes "loop_shape keys width w" and "loop_calls begun before retries w"
    and "own_step answers unused others width retries w w'"
  shows "loop_calls begun before retries w'"
  using assms(3)
proof cases
  case (start k ks old rep now v s)
  have up: "begun (wk_store w) k + 1 \<le> begun s k" using start_running[OF start(6,7,8)] by blast
  have all: "begun (wk_store w) x \<le> begun s x" for x by (rule begun_grows[OF start(7)])
  from start(3) assms(1,2) have k: "k \<notin> set ks" "count_list (wk_calls w) k = 0" "k \<notin> fst ` set (wk_active w)"
    by (auto simp: loop_shape_def loop_calls_def)
  show ?thesis by (rule loop_calls_called[OF assms(2), of _ k]) (use start k up all assms(2) in \<open>auto simp: loop_calls_def image_iff\<close>)
next
  case (retried k ks event left rep outcome now v s s1 rep' now' u s2)
  have key: "v_key event = k" using assms(1) retried(3) by (auto simp: loop_shape_def)
  have up: "begun (wk_store w) k + 1 \<le> begun s2 k"
    using begun_grows[OF retried(5), of k] begun_many[OF retried(7), of k] start_running[OF retried(8,9,10)] key by force
  have all: "begun (wk_store w) x \<le> begun s2 x" for x
    using begun_grows[OF retried(5), of x] begun_many[OF retried(7), of x] begun_grows[OF retried(9), of x] by linarith
  have "left > 0" using retried(6) by (simp add: retryable_ending_def)
  moreover have calls: "count_list (wk_calls w) k + left \<le> Suc retries" using assms(2) retried(3) by (auto simp: loop_calls_def)
  moreover have "k \<in> fst ` set (wk_active w)" using retried(3) by force
  then have "k \<notin> set (wk_waiting w)" using assms(1) unfolding loop_shape_def by blast
  ultimately have "count_list (wk_calls w) k \<le> retries" "count_list (wk_calls w) k + (left - 1) \<le> retries"
      "k \<notin> set (wk_waiting w)" by simp_all
  then show ?thesis unfolding retried(1)
    by (intro loop_calls_called[OF assms(2), of _ k]) (auto intro: up all)
next
  case (stopped k ks event left rep outcome now v s s1 rep' now' u s2)
  have all: "begun (wk_store w) x \<le> begun s2 x" for x
    using begun_grows[OF stopped(5), of x] begun_many[OF stopped(7), of x] begun_grows[OF stopped(9), of x] by linarith
  then show ?thesis unfolding stopped(1) by (intro loop_calls_less[OF assms(2)]) auto
next
  case (settled k ks event left rep outcome now v s)
  have all: "begun (wk_store w) x \<le> begun s x" for x by (rule begun_grows[OF settled(5)])
  then show ?thesis unfolding settled(1) by (intro loop_calls_less[OF assms(2)]) auto
next
  case (answered k ks old rep now v s)
  have all: "begun (wk_store w) x \<le> begun s x" for x by (rule begun_grows[OF answered(7)])
  with answered(3) show ?thesis unfolding answered(1) by (intro loop_calls_less[OF assms(2)]) auto
qed (auto intro: loop_calls_less[OF assms(2)])

lemma decided_step:
  assumes "loop_shape keys width w" and "loop_decided keys w" and "own_step answers unused others width retries w w'"
  shows "loop_decided keys w'"
  using assms(3)
proof cases
  case (skip k ks old)
  then have "status_known (wk_known w) k = Some (v_status old) \<and> decided (v_status old)"
    by (auto simp: status_known_def kept_def decided_def)
  with assms(2) skip show ?thesis by (auto simp: loop_decided_def)
next
  case (answered k ks old rep now v s)
  from start_refused[OF answered(6,7,8)] assms(2) answered show ?thesis by (auto simp: loop_decided_def)
next
  case (settled k ks event left rep outcome now v s)
  have "v_status event = ItemRunning" using assms(1) settled(3) by (auto simp: loop_shape_def)
  from ended[OF settled(4) this settled(5)] assms(2) settled show ?thesis by (auto simp: loop_decided_def)
next
  case (stopped k ks event left rep outcome now v s s1 rep' now' u s2)
  from start_refused[OF stopped(8,9,10)] assms(2) stopped show ?thesis by (auto simp: loop_decided_def)
next
  case (retried k ks event left rep outcome now v s s1 rep' now' u s2)
  with assms(2) show ?thesis by (auto simp: loop_decided_def)
qed (use assms(2) in \<open>auto simp: loop_decided_def\<close>)

text \<open>A run, whatever other processes do in between.\<close>

definition loop_inv :: "string list \<Rightarrow> (string \<Rightarrow> int) \<Rightarrow> nat \<Rightarrow> nat \<Rightarrow> 's work \<Rightarrow> bool" where
  "loop_inv keys before width retries w \<longleftrightarrow>
     loop_shape keys width w \<and> loop_calls begun before retries w \<and> loop_decided keys w"

lemma run_keeps:
  assumes "work_run answers unused others width retries n w x" and "loop_inv keys before width retries w"
  shows "loop_inv keys before width retries x \<and> work_left retries x + n \<le> work_left retries w"
  using assms
proof induction
  case (own n w x y)
  then have x: "loop_shape keys width x" "loop_calls begun before retries x" "loop_decided keys x"
      "work_left retries x + n \<le> work_left retries w" by (simp_all add: loop_inv_def)
  from own_step_less[OF x(1) own.hyps(2)] x(4) have "work_left retries y + Suc n \<le> work_left retries w" by simp
  with shape_step[OF x(1) own.hyps(2)] calls_step[OF x(1,2) own.hyps(2)] decided_step[OF x(1,3) own.hyps(2)]
  show ?case by (simp add: loop_inv_def)
next
  case (other n w x s)
  then have x: "loop_shape keys width x" "loop_calls begun before retries x" "loop_decided keys x"
      "work_left retries x + n \<le> work_left retries w" by (simp_all add: loop_inv_def)
  have "loop_calls begun before retries (x\<lparr>wk_store := s\<rparr>)"
    by (rule loop_calls_less[OF x(2)]) (simp_all add: begun_others[OF other.hyps(2)])
  with x show ?case by (simp add: loop_inv_def loop_shape_def loop_decided_def work_left_def)
qed simp

lemma run_exhausted:
  assumes "work_run answers unused others width retries n w x" and "wk_exhausted w \<longrightarrow> wk_waiting w = []"
  shows "wk_exhausted x \<longrightarrow> wk_waiting x = []"
  using assms
proof induction
  case (own n w x y)
  from own.hyps(2) own.IH[OF own.prems] show ?case by cases (auto simp: may_fill_def)
qed simp_all

lemma initial_inv:
  assumes "distinct keys"
  shows "loop_inv keys (begun s) width retries (initial_work keys known s)"
  using assms by (simp add: loop_inv_def loop_shape_def loop_calls_def loop_decided_def initial_work_def)

lemma run_bounded:
  assumes "distinct keys" and "work_run answers unused others width retries n (initial_work keys known s) w"
  shows "length (wk_active w) \<le> width" and "distinct (map fst (wk_active w))"
    and "count_list (wk_calls w) k \<le> Suc retries"
    and "begun s k + int (count_list (wk_calls w) k) \<le> begun (wk_store w) k"
    and "n \<le> length keys * (2 * retries + 4) + 1"
    and "work_returned w \<Longrightarrow> k \<in> set keys \<Longrightarrow> \<exists>st. status_known (wk_known w) k = Some st \<and> decided st"
proof -
  note r = run_keeps[OF assms(2) initial_inv[OF assms(1)], unfolded loop_inv_def]
  then show "length (wk_active w) \<le> width" "distinct (map fst (wk_active w))" by (auto simp: loop_shape_def)
  from r show "count_list (wk_calls w) k \<le> Suc retries"
    "begun s k + int (count_list (wk_calls w) k) \<le> begun (wk_store w) k" by (auto simp: loop_calls_def)
  from r show "n \<le> length keys * (2 * retries + 4) + 1" by (simp add: work_left_def initial_work_def)
  assume e: "work_returned w" "k \<in> set keys"
  have "wk_exhausted w \<longrightarrow> wk_waiting w = []"
    by (rule run_exhausted[OF assms(2)]) (simp add: initial_work_def)
  with r e show "\<exists>st. status_known (wk_known w) k = Some st \<and> decided st"
    by (auto simp: work_returned_def loop_decided_def)
qed

end

end
