(* ===== verification/Fan_Claims.thy ===== *)
theory Fan_Claims
  imports Fan_Out
begin

text \<open>
  The fan-out loop of \<open>Fan_Out\<close> over the fenced item store of \<open>Items\<close>, with every operation of
  \<open>Item_Inv\<close> (other attempts, operators, the lifecycle) interleaved.
\<close>

section \<open>The item store answers as the loop expects\<close>

definition item_answers ::
  "(string \<Rightarrow> string) \<Rightarrow> task_identity \<Rightarrow> stored_offset \<Rightarrow> script_kind
     \<Rightarrow> item_record \<Rightarrow> item_db \<Rightarrow> item_record \<Rightarrow> item_db \<Rightarrow> bool" where
  "item_answers hide g offset kind e s v s' \<longleftrightarrow>
     (\<exists>now fresh. item_event hide now fresh g offset kind e s = Inr (v, s'))"

definition unused_report :: "string \<Rightarrow> item_db \<Rightarrow> bool" where
  "unused_report rep s \<longleftrightarrow> report_row s rep = None"

lemma unused_record:
  assumes "record_item hide now fresh tr att e s = Inr (v, s')" and "unused_report rep s" and "v_report e = rep"
  obtains p where "judge_event att e (evidence s tr (v_key e)) = Inr (Inl p)" and "v = p"
  | e' where "judge_event att e (evidence s tr (v_key e)) = Inr (Inr e')"
      and "append_item hide now fresh tr att e' s = Inr (v, s')"
proof (cases "judge_event att e (evidence s tr (v_key e))")
  case (Inl x)
  with assms show thesis by (auto simp: record_item_def unused_report_def split: option.splits)
next
  case (Inr j)
  with assms show thesis by (cases j) (auto simp: record_item_def unused_report_def intro: that split: option.splits)
qed

lemma judge_answered: "judge_event att e old = Inr (Inl p) \<Longrightarrow> v_status e = ItemRunning \<and> prevents_start p"
  by (auto simp: judge_event_def split: option.splits if_splits)

lemma starts_grow: "starts rows tr k \<le> starts (rows @ more_rows) tr k"
  by (simp add: starts_def)

lemma event_rows: "item_event hide now fresh g offset kind e s = Inr (v, s') \<Longrightarrow> \<exists>rows. e_items s' = e_items s @ rows"
  by (drule item_event_Inr(2), drule record_item_cases) (auto simp: append_item_Inr Let_def)

lemma change_rows:
  "fold_err (change hide now tr att q) targets s = Inr s' \<Longrightarrow> \<exists>rows. e_items s' = e_items s @ rows"
proof (induction targets arbitrary: s)
  case (Cons x targets)
  from Cons.prems obtain t where t: "change hide now tr att q x s = Inr t"
    and "fold_err (change hide now tr att q) targets t = Inr s'" by (auto simp: err_simps)
  from Cons.IH[OF this(2)] t show ?case by (auto simp: change_Inr)
qed simp

lemma step_rows:
  assumes "item_step capacity hide s s'"
  shows "\<exists>rows. e_items s' = e_items s @ rows"
  using assms
proof cases
  case (prepare now g keys fresh)
  from prepare_items_Inr(4)[OF this] show ?thesis by (auto simp: prepare_def dest!: insert_items_Inr)
next
  case (control strict python now q fresh)
  from control_items_Inr[OF this] show ?thesis using change_rows by blast
qed (auto dest: event_rows)

interpretation item_runs: item_store "item_answers hide g offset kind" unused_report "item_step capacity hide"
    "\<lambda>s. starts (e_items s) (g_task_run g)"
proof unfold_locales
  fix rep s k n now v s'
  assume u: "unused_report rep s" and a: "item_answers hide g offset kind (start_event k n now rep) s v s'"
  let ?e = "start_event k n now rep"
  have e: "v_report ?e = rep" "v_status ?e = ItemRunning" "v_key ?e = k" by (simp_all add: start_event_def)
  from a obtain now' fresh where r: "record_item hide now' fresh (g_task_run g) (g_attempt g) ?e s = Inr (v, s')"
    unfolding item_answers_def by (elim exE) (drule item_event_Inr(2), blast)
  from r u e(1) consider (old) "prevents_start v"
    | (new) "v = stored hide now' fresh (g_attempt g) ?e"
        "e_items s' = e_items s @ [\<lparr>h_run = g_task_run g, h_attempt = g_attempt g, h_record = v\<rparr>]"
    by (auto elim!: unused_record simp: judge_answered judge_event_append append_item_Inr Let_def e)
  note cases = this
  show "v_key v = k \<and> starts (e_items s) (g_task_run g) k + 1 \<le> starts (e_items s') (g_task_run g) k"
    if "v_status v = ItemRunning" using cases
  proof cases
    case new
    with e that show ?thesis by (simp add: is_start_def of_item_def)
  qed (use that in \<open>simp add: prevents_start_def done_statuses_def\<close>)
  show "decided (v_status v)" if "v_status v \<noteq> ItemRunning" using cases
    by cases (use that e in \<open>auto simp: prevents_start_def done_statuses_def decided_def\<close>)
next
  fix rep s event outcome now v s'
  assume u: "unused_report rep s" and a: "item_answers hide g offset kind (ending_event event outcome now rep) s v s'"
  let ?e = "ending_event event outcome now rep"
  have e: "v_report ?e = rep" "v_status ?e \<in> {ItemSuccess, ItemFailed}"
    by (auto simp: ending_event_def split: call_outcome.split)
  from a obtain now' fresh where r: "record_item hide now' fresh (g_task_run g) (g_attempt g) ?e s = Inr (v, s')"
    unfolding item_answers_def by (elim exE) (drule item_event_Inr(2), blast)
  from r u e show "decided (v_status v)"
    by (auto elim!: unused_record simp: judge_event_append append_item_Inr Let_def decided_def dest: judge_answered)
next
  show "starts (e_items s) (g_task_run g) k \<le> starts (e_items s') (g_task_run g) k"
    if "item_answers hide g offset kind e s v s'" for e s v s' k
    using that event_rows starts_grow unfolding item_answers_def by metis
next
  show "starts (e_items s) (g_task_run g) k \<le> starts (e_items s') (g_task_run g) k"
    if "item_step capacity hide s s'" for s s' k
    using step_rows[OF that] starts_grow by metis
qed

section \<open>Runs of the loop\<close>

definition fan_run ::
  "(engine_db \<Rightarrow> attempt_row \<Rightarrow> bool) \<Rightarrow> (string \<Rightarrow> string) \<Rightarrow> task_identity \<Rightarrow> stored_offset \<Rightarrow> script_kind
     \<Rightarrow> nat \<Rightarrow> nat \<Rightarrow> nat \<Rightarrow> item_db work \<Rightarrow> item_db work \<Rightarrow> bool" where
  "fan_run capacity hide g offset kind =
     work_run (item_answers hide g offset kind) unused_report (item_step capacity hide)"

text \<open>
  C39. A fan-out keeps its bounds whatever else happens to the items: never more functions run than
  the width, no key runs twice at the same time, each key's function is called at most once more
  than its retries, and every call is preceded by a recorded start of its key.
\<close>

theorem fan_out_bounded:
  assumes "distinct keys" and "fan_run capacity hide g offset kind width retries n (initial_work keys known s) w"
  shows "length (wk_active w) \<le> width \<and> distinct (map fst (wk_active w))
    \<and> count_list (wk_calls w) k \<le> Suc retries
    \<and> starts (e_items s) (g_task_run g) k + int (count_list (wk_calls w) k) \<le> starts (e_items (wk_store w)) (g_task_run g) k"
  using item_runs.run_bounded(1-4)[OF assms(1) assms(2)[unfolded fan_run_def]] by blast


section \<open>A concrete run\<close>

definition demo_answer :: "item_record \<Rightarrow> item_db \<Rightarrow> item_error + item_record \<times> item_db" where
  "demo_answer e s = item_event id 50 [] demo_identity None Ingestion e s"

definition demo_begin :: item_record where
  "demo_begin = start_event ''page'' 1 50 (demo_report CHR ''1'')"

definition demo_called :: "item_record \<times> item_db" where
  "demo_called = projr (demo_answer demo_begin demo_prepared)"

definition demo_ending :: item_record where
  "demo_ending = ending_event (fst demo_called) (Returned (Some 5) None) 50 (demo_report CHR ''2'')"

definition demo_returned :: "item_record \<times> item_db" where
  "demo_returned = projr (demo_answer demo_ending (snd demo_called))"

definition demo_work :: "item_db work" where
  "demo_work = initial_work [''page''] [(''page'', queued_item ''page'')] demo_prepared"

definition demo_active :: "item_db work" where
  "demo_active = demo_work\<lparr>wk_store := snd demo_called, wk_waiting := [],
     wk_active := [(''page'', fst demo_called, 0)], wk_calls := [''page'']\<rparr>"

definition demo_end :: "item_db work" where
  "demo_end = demo_active\<lparr>wk_store := snd demo_returned, wk_active := [],
     wk_known := AList.update ''page'' ((fst demo_returned)\<lparr>v_error := None\<rparr>) (wk_known demo_active),
     wk_completed := 1, wk_exhausted := True\<rparr>"

lemma Inr_pair: "\<not> is_err m \<Longrightarrow> m = Inr (fst (projr m), snd (projr m))"
  by (cases m) (simp_all add: is_err_def)

lemma demo_answers:
  "item_answers id demo_identity None Ingestion demo_begin demo_prepared (fst demo_called) (snd demo_called)"
  "item_answers id demo_identity None Ingestion demo_ending (snd demo_called) (fst demo_returned) (snd demo_returned)"
proof -
  have "\<not> is_err (demo_answer demo_begin demo_prepared)" by code_simp
  from Inr_pair[OF this] show "item_answers id demo_identity None Ingestion demo_begin demo_prepared (fst demo_called) (snd demo_called)"
    unfolding item_answers_def demo_called_def demo_answer_def by blast
  have "\<not> is_err (demo_answer demo_ending (snd demo_called))" by code_simp
  from Inr_pair[OF this] show "item_answers id demo_identity None Ingestion demo_ending (snd demo_called) (fst demo_returned) (snd demo_returned)"
    unfolding item_answers_def demo_returned_def demo_answer_def by blast
qed

lemma demo_facts:
  "v_status (fst demo_called) = ItemRunning" "v_status (fst demo_returned) = ItemSuccess"
  "unused_report (demo_report CHR ''1'') demo_prepared" "unused_report (demo_report CHR ''2'') (snd demo_called)"
proof -
  have "(v_status (fst demo_called), v_status (fst demo_returned), unused_report (demo_report CHR ''1'') demo_prepared,
      unused_report (demo_report CHR ''2'') (snd demo_called)) = (ItemRunning, ItemSuccess, True, True)" by code_simp
  then show "v_status (fst demo_called) = ItemRunning" "v_status (fst demo_returned) = ItemSuccess"
    "unused_report (demo_report CHR ''1'') demo_prepared" "unused_report (demo_report CHR ''2'') (snd demo_called)"
    by simp_all
qed

lemma demo_runs:
  "fan_run any_capacity id demo_identity None Ingestion 1 0 1 demo_work demo_active"
  "fan_run any_capacity id demo_identity None Ingestion 1 0 4 demo_work demo_end"
proof -
  let ?run = "fan_run any_capacity id demo_identity None Ingestion 1 0"
  let ?step = "own_step (item_answers id demo_identity None Ingestion) unused_report (item_step any_capacity id) 1 0"
  have own: "?run n demo_work x \<Longrightarrow> ?step x y \<Longrightarrow> ?run (Suc n) demo_work y" for n x y
    unfolding fan_run_def by (rule work_run.own)
  have "?step demo_work (demo_work\<lparr>wk_store := snd demo_called, wk_waiting := [],
      wk_active := wk_active demo_work @ [(''page'', fst demo_called, 0)], wk_calls := wk_calls demo_work @ [''page'']\<rparr>)"
    by (rule own_step.start[where old = "queued_item ''page''" and rep = "demo_report CHR ''1''" and now = 50])
      (use demo_facts demo_answers(1) in \<open>simp_all add: demo_work_def initial_work_def may_fill_def queued_item_def kept_def
         demo_begin_def\<close>)
  then have "?step demo_work demo_active" by (simp add: demo_active_def) (simp add: demo_work_def initial_work_def)
  from own[OF _ this, of 0] show 1: "?run 1 demo_work demo_active" by (simp add: fan_run_def work_run.here)
  have "?step demo_active (demo_active\<lparr>wk_batch := [''page'']\<rparr>)"
    by (rule own_step.wait) (simp_all add: may_wait_def demo_active_def demo_work_def initial_work_def)
  note 2 = own[OF 1 this]
  let ?w = "demo_active\<lparr>wk_batch := [''page'']\<rparr>"
  let ?x = "?w\<lparr>wk_store := snd demo_returned, wk_batch := [], wk_active := without_active ''page'' (wk_active ?w),
      wk_known := AList.update ''page'' ((fst demo_returned)\<lparr>v_error := None\<rparr>) (wk_known ?w), wk_completed := wk_completed ?w + 1,
      wk_permanent := wk_permanent ?w \<or> ended_permanently (fst demo_returned) (Returned (Some 5) None)\<rparr>"
  have "?step ?w ?x"
    by (rule own_step.settled[where event = "fst demo_called" and left = 0 and rep = "demo_report CHR ''2''" and now = 50])
      (use demo_facts demo_answers(2) in \<open>simp_all add: demo_active_def demo_ending_def retryable_ending_def\<close>)
  note 3 = own[OF 2 this]
  have "?step ?x (?x\<lparr>wk_exhausted := True\<rparr>)"
    by (rule own_step.exhaust) (simp_all add: may_fill_def demo_active_def without_active_def demo_work_def initial_work_def)
  from own[OF 3 this] show "?run 4 demo_work demo_end"
    using demo_facts(2) by (simp add: demo_end_def demo_active_def demo_work_def initial_work_def without_active_def ended_permanently_def queued_item_def kept_def numeral_eq_Suc)
qed

theorem fan_out_bounded_witness:
  "length (wk_active demo_active) = 1 \<and> count_list (wk_calls demo_active) ''page'' = 1
    \<and> starts (e_items demo_prepared) 1 ''page'' + 1 \<le> starts (e_items (wk_store demo_active)) 1 ''page''"
  using fan_out_bounded[OF _ demo_runs(1)[unfolded demo_work_def], of "''page''"]
  by (simp add: demo_active_def demo_identity_def)


end
