(* ===== verification/Scheduler.thy ===== *)
theory Scheduler
  imports Lifecycle Graph "HOL-Library.AList"
begin

text \<open>
  The scheduler of a run: \<^verbatim>\<open>execution/scheduler.py\<close>. A step reads the Engine DB, the pool and the
  clock; what it reads is a \<open>look\<close>, and any call may find the database gone. An exception keeps
  the changes made before it, as in the code, so an action is a function of the scheduler that
  returns an error or a value together with the scheduler it leaves. Texts, logging, the stop
  events of probes and the file watcher are left out; a step reads the clock once.
\<close>

section \<open>The scheduler and what a step sees\<close>

text \<open>
  \<open>sc_jobs\<close> are the handles by task, \<open>sc_known\<close> the event tasks seen with whether they query a
  warehouse, \<open>sc_due\<close> their last answers and \<open>sc_checks\<close> those with a query in flight.
  \<open>sc_submitted\<close> records every submission to the pool, \<open>sc_again\<close> every retry that made a task
  eligible again.
\<close>

record scheduler =
  sc_graph :: dependency_graph
  sc_force :: bool
  sc_jobs :: "(int \<times> int) list"
  sc_attempted :: "int set"
  sc_completed :: "int set"
  sc_failures_final :: bool
  sc_after_failure :: "int list"
  sc_never_ready :: "int list"
  sc_next_check :: "instant option"
  sc_engine_due :: "instant option"
  sc_known :: "(int \<times> bool) list"
  sc_due :: "(int \<times> instant option) list"
  sc_checks :: "int list"
  sc_submitted :: "int list"
  sc_again :: "int list"

datatype handle_state = HandleRunning | HandleEnded | HandleUnknown | HandleRaised string

datatype standing_effect = StandingDispatch | StandingApplied | StandingHeld

datatype admission_answer = Admitted int | NotAdmitted bool

datatype db_call = CallStatus int | CallControls | CallCancelled | CallRetries | CallSettle | CallState
  | CallWaits | CallStanding | CallStandingCommit | CallHandler int | CallParams int | CallGate int | CallPreflight int
  | CallEvent int | CallAdmit int | CallSubmit int | CallFences int

record look =
  ob_now :: instant
  ob_down :: "db_call \<Rightarrow> bool"
  ob_handle :: "int \<Rightarrow> handle_state"
  ob_fences :: "int option list"
  ob_cancel :: bool
  ob_cancelled :: bool
  ob_paused :: bool
  ob_files :: bool
  ob_done :: "int \<Rightarrow> bool"
  ob_checking :: "int \<Rightarrow> bool"
  ob_reads_engine :: bool
  ob_refresh :: "int list \<Rightarrow> (int \<times> instant) list \<times> int list"
  ob_settle :: "bool \<Rightarrow> int list"
  ob_state :: run_state
  ob_backfill :: bool
  ob_waits :: "instant list"
  ob_standing :: "int \<Rightarrow> standing_effect"
  ob_event_task :: "int \<Rightarrow> bool"
  ob_free :: "(int \<times> int) list \<Rightarrow> int \<Rightarrow> int"
  ob_gate :: "int \<Rightarrow> instant option"
  ob_blocked :: "int \<Rightarrow> bool"
  ob_admit :: "int \<Rightarrow> admission_answer"
  ob_event_sql :: "int \<Rightarrow> bool"
  ob_changed :: "int \<Rightarrow> bool"
  ob_event :: "int \<Rightarrow> instant option"

datatype step_error = StepGraph graph_error | StepRaised string | StepOutage

section \<open>Actions\<close>

type_synonym 'a act = "scheduler \<Rightarrow> (step_error + 'a) \<times> scheduler"

definition give :: "'a \<Rightarrow> 'a act" where "give x = (\<lambda>s. (Inr x, s))"

definition raise :: "step_error \<Rightarrow> 'a act" where "raise e = (\<lambda>s. (Inl e, s))"

definition look_up :: "(scheduler \<Rightarrow> 'a) \<Rightarrow> 'a act" where "look_up f = (\<lambda>s. (Inr (f s), s))"

definition modify :: "(scheduler \<Rightarrow> scheduler) \<Rightarrow> unit act" where "modify f = (\<lambda>s. (Inr (), f s))"

definition act_bind :: "'a act \<Rightarrow> ('a \<Rightarrow> 'b act) \<Rightarrow> 'b act" where
  "act_bind m f = (\<lambda>s. case m s of (Inl e, s') \<Rightarrow> (Inl e, s') | (Inr x, s') \<Rightarrow> f x s')"

definition of_graph :: "graph_error + 'a \<Rightarrow> 'a act" where
  "of_graph r = (case r of Inl e \<Rightarrow> raise (StepGraph e) | Inr x \<Rightarrow> give x)"

fun for_each :: "('x \<Rightarrow> unit act) \<Rightarrow> 'x list \<Rightarrow> unit act" where
  "for_each f [] = give ()"
| "for_each f (x # xs) = act_bind (f x) (\<lambda>_. for_each f xs)"

definition ask :: "look \<Rightarrow> db_call \<Rightarrow> unit act" where
  "ask ob c = (if ob_down ob c then raise StepOutage else give ())"

section \<open>Harvesting\<close>

definition running_handle :: "look \<Rightarrow> int \<Rightarrow> bool" where
  "running_handle ob h \<longleftrightarrow> ob_handle ob h = HandleRunning"

definition harvest_job :: "look \<Rightarrow> int \<times> int \<Rightarrow> unit act" where
  "harvest_job ob job = act_bind (ask ob (CallStatus (snd job))) (\<lambda>_.
     if running_handle ob (snd job) then give ()
     else act_bind (modify (\<lambda>s. s\<lparr>sc_jobs := AList.delete (fst job) (sc_jobs s),
                               sc_completed := insert (fst job) (sc_completed s)\<rparr>))
       (\<lambda>_. case ob_handle ob (snd job) of HandleRaised m \<Rightarrow> raise (StepRaised m) | _ \<Rightarrow> give ()))"

definition harvest :: "look \<Rightarrow> bool act" where
  "harvest ob = act_bind (look_up sc_jobs) (\<lambda>jobs.
     act_bind (for_each (harvest_job ob) jobs) (\<lambda>_. give (list_ex (\<lambda>j. \<not> running_handle ob (snd j)) jobs)))"

section \<open>What may start\<close>

definition step_stopped :: "look \<Rightarrow> bool act" where
  "step_stopped ob = (if ob_cancel ob then give True
     else act_bind (ask ob CallCancelled) (\<lambda>_.
       give (ob_cancelled ob \<or> ob_paused ob \<or> None \<in> set (ob_fences ob))))"

definition only_waits :: "look \<Rightarrow> scheduler \<Rightarrow> bool" where
  "only_waits ob s \<longleftrightarrow> sc_jobs s = [] \<and> sc_due s \<noteq> [] \<and> sc_checks s = []
     \<and> (case sc_next_check s of None \<Rightarrow> False | Some t \<Rightarrow> ob_now ob < t) \<and> \<not> ob_files ob"

definition again_tasks :: "scheduler \<Rightarrow> (int \<times> instant) list \<Rightarrow> int list" where
  "again_tasks s retries = filter (\<lambda>t. t \<notin> fst ` set (sc_jobs s)) (map fst retries)"

definition renew_tasks :: "int list \<Rightarrow> int list \<Rightarrow> scheduler \<Rightarrow> scheduler" where
  "renew_tasks exhausted again s = s\<lparr>sc_attempted := (sc_attempted s \<union> (if sc_force s then {} else set exhausted)) - set again,
     sc_completed := sc_completed s - set again, sc_again := sc_again s @ again\<rparr>"

definition refresh_tasks :: "look \<Rightarrow> (int \<times> instant) list act" where
  "refresh_tasks ob = act_bind (ask ob CallRetries) (\<lambda>_. act_bind (look_up id) (\<lambda>s.
     let (retries, exhausted) = ob_refresh ob (filter (\<lambda>t. t \<notin> fst ` set (sc_jobs s)) (g_task_ids (sc_graph s)))
     in act_bind (modify (renew_tasks exhausted (again_tasks s retries))) (\<lambda>_. give retries)))"

text \<open>Tasks that are over without a submission, and the changes a submission is made of.\<close>

definition mark_over :: "int set \<Rightarrow> scheduler \<Rightarrow> scheduler" where
  "mark_over A s = s\<lparr>sc_attempted := sc_attempted s \<union> A, sc_completed := sc_completed s \<union> A\<rparr>"

definition take_task :: "int \<Rightarrow> scheduler \<Rightarrow> scheduler" where
  "take_task t s = s\<lparr>sc_attempted := insert t (sc_attempted s), sc_failures_final := False\<rparr>"

definition put_job :: "int \<Rightarrow> int \<Rightarrow> scheduler \<Rightarrow> scheduler" where
  "put_job t h s = s\<lparr>sc_jobs := AList.update t h (sc_jobs s), sc_submitted := sc_submitted s @ [t]\<rparr>"

definition refuse_task :: "bool \<Rightarrow> int \<Rightarrow> scheduler \<Rightarrow> scheduler" where
  "refuse_task fenced t s =
     (if fenced then s\<lparr>sc_attempted := sc_attempted s - {t}\<rparr> else s\<lparr>sc_completed := insert t (sc_completed s)\<rparr>)"

definition settle_run :: "look \<Rightarrow> int list act" where
  "settle_run ob = act_bind (look_up id) (\<lambda>s.
     if sc_force s then give []
     else act_bind (ask ob CallSettle) (\<lambda>_.
       let skipped = ob_settle ob (sc_failures_final s)
       in act_bind (modify (\<lambda>s. if sc_failures_final s then s\<lparr>sc_after_failure := sc_after_failure s @ skipped\<rparr> else s))
            (\<lambda>_. give skipped)))"

definition busy_state :: task_run_state where
  "busy_state = not_run\<lparr>status := Some RunInProgress\<rparr>"

definition state_with_jobs :: "run_state \<Rightarrow> (int \<times> int) list \<Rightarrow> run_state" where
  "state_with_jobs rs jobs = fold (\<lambda>(t, _) m. m(t \<mapsto> busy_state)) jobs rs"

definition pending_tasks :: "look \<Rightarrow> scheduler \<Rightarrow> int list" where
  "pending_tasks ob s = filter (\<lambda>t. t \<notin> sc_attempted s
     \<and> (sc_force s \<or> \<not> status_in (status (state_of (state_with_jobs (ob_state ob) (sc_jobs s)) t)) settled_statuses))
     (g_task_ids (sc_graph s))"

text \<open>\<open>_ready\<close>: forced dispatch follows what this scheduler has completed.\<close>

definition selected_tasks :: "look \<Rightarrow> (int \<times> instant) list \<Rightarrow> scheduler \<Rightarrow> graph_error + int list" where
  "selected_tasks ob retries s =
     (let pending = pending_tasks ob s
      in if sc_force s
         then filter_err (\<lambda>t. bind_err (dependencies_of (sc_graph s) t) (\<lambda>es.
                Inr (list_all (\<lambda>e. depends_on_task_id e \<in> sc_completed s) es))) pending
         else bind_err (ready (sc_graph s)
                (fold (\<lambda>t m. m(t \<mapsto> not_run)) (map fst retries) (state_with_jobs (ob_state ob) (sc_jobs s))) (\<lambda>_. None))
                (\<lambda>ts. Inr (filter (\<lambda>t. t \<in> set pending) ts)))"

definition engine_poll :: int where "engine_poll = 1000000"

text \<open>\<open>_standing\<close>: the tasks to dispatch, and when to look at the held ones again.\<close>

definition standing_tasks :: "look \<Rightarrow> int list \<Rightarrow> (int list \<times> instant list) act" where
  "standing_tasks ob tasks =
     (if tasks = [] then give ([], [])
      else act_bind (ask ob CallStanding) (\<lambda>_.
        let applied = set (filter (\<lambda>t. ob_standing ob t = StandingApplied) tasks)
        in act_bind (modify (mark_over applied))
             (\<lambda>_. act_bind (ask ob CallStandingCommit) (\<lambda>_.
                give (filter (\<lambda>t. ob_standing ob t = StandingDispatch) tasks,
                      map (\<lambda>_. ob_now ob + engine_poll) (filter (\<lambda>t. ob_standing ob t = StandingHeld) tasks))))))"

section \<open>Event tasks\<close>

definition event_poll :: int where "event_poll = 100000"

definition keep_event :: "int \<Rightarrow> instant option \<Rightarrow> unit act" where
  "keep_event t r = modify (\<lambda>s. s\<lparr>sc_due := AList.update t r (sc_due s)\<rparr>)"

definition event_ask :: "look \<Rightarrow> int \<Rightarrow> instant option act" where
  "event_ask ob t = act_bind (look_up id) (\<lambda>s.
     if map_of (sc_known s) t \<noteq> Some True then
       act_bind (ask ob (CallEvent t)) (\<lambda>_. act_bind (keep_event t (ob_event ob t)) (\<lambda>_. give (ob_event ob t)))
     else if t \<in> set (sc_checks s) \<and> ob_done ob t then
       act_bind (modify (\<lambda>s. s\<lparr>sc_checks := filter (\<lambda>x. x \<noteq> t) (sc_checks s)\<rparr>)) (\<lambda>_.
       act_bind (ask ob (CallEvent t)) (\<lambda>_. act_bind (keep_event t (ob_event ob t)) (\<lambda>_. give (ob_event ob t))))
     else
       act_bind (modify (\<lambda>s. if t \<in> set (sc_checks s) then s else s\<lparr>sc_checks := sc_checks s @ [t]\<rparr>))
         (\<lambda>_. give (Some (ob_now ob + event_poll))))"

definition event_check :: "look \<Rightarrow> int \<Rightarrow> instant option act" where
  "event_check ob t = act_bind (look_up id) (\<lambda>s.
     act_bind (if t \<in> fst ` set (sc_known s) then give ()
               else act_bind (ask ob (CallParams t)) (\<lambda>_.
                 modify (\<lambda>s. s\<lparr>sc_known := AList.update t (ob_event_sql ob t) (sc_known s)\<rparr>))) (\<lambda>_.
     case (if ob_changed ob t then None else map_of (sc_due s) t) of
       Some (Some due) \<Rightarrow> if ob_now ob < due then give (Some due) else event_ask ob t
     | _ \<Rightarrow> event_ask ob t))"

section \<open>Dispatching\<close>

text \<open>\<open>_dispatch\<close>: a refusal behind a fence is forgotten, any other completes the task.\<close>

definition dispatch_task :: "look \<Rightarrow> int \<Rightarrow> unit act" where
  "dispatch_task ob t = act_bind (ask ob (CallAdmit t)) (\<lambda>_.
     case ob_admit ob t of
       Admitted h \<Rightarrow> act_bind (ask ob (CallSubmit t)) (\<lambda>_. modify (put_job t h))
     | NotAdmitted fenced \<Rightarrow> act_bind (ask ob (CallFences t)) (\<lambda>_. modify (refuse_task fenced t)))"

datatype gate_answer = GateHolds instant | GateBlocked | GateOpen

definition gate_task :: "look \<Rightarrow> int \<Rightarrow> gate_answer act" where
  "gate_task ob t = act_bind (look_up id) (\<lambda>s.
     if sc_force s then give GateOpen
     else
       act_bind (of_graph (bind_err (required_edge_count (sc_graph s) t) (\<lambda>required.
         bind_err (satisfied_edge_count (sc_graph s) t (state_with_jobs (ob_state ob) (sc_jobs s)) (Some 0)) (\<lambda>n.
           Inr (required - n))))) (\<lambda>needed.
       act_bind (if needed > 0 \<and> \<not> ob_backfill ob
                 then act_bind (ask ob (CallGate t)) (\<lambda>_. give (ob_gate ob t)) else give None) (\<lambda>waits.
         case waits of
           Some nxt \<Rightarrow> give (GateHolds nxt)
         | None \<Rightarrow> act_bind (ask ob (CallPreflight t)) (\<lambda>_.
             give (if ob_blocked ob t then GateBlocked else GateOpen)))))"

text \<open>One task of the loop over the ready ones: what it adds to the waits.\<close>

definition offer :: "look \<Rightarrow> (int \<times> instant) list \<Rightarrow> int \<Rightarrow> instant list act" where
  "offer ob retries t = act_bind (look_up id) (\<lambda>s.
     if (case map_of retries t of None \<Rightarrow> False | Some due \<Rightarrow> due > ob_now ob) then give []
     else act_bind (ask ob (CallHandler t)) (\<lambda>_.
       if \<not> ob_event_task ob t \<and> ob_free ob (sc_jobs s) t = 0 then give []
       else act_bind (gate_task ob t) (\<lambda>g. case g of
           GateHolds nxt \<Rightarrow> give [nxt]
         | GateBlocked \<Rightarrow> act_bind (modify (mark_over {t})) (\<lambda>_. give [])
         | GateOpen \<Rightarrow>
             if ob_event_task ob t
             then act_bind (event_check ob t) (\<lambda>r. case r of
                 Some nxt \<Rightarrow> give [nxt] | None \<Rightarrow> act_bind (modify (mark_over {t})) (\<lambda>_. give []))
             else act_bind (modify (take_task t)) (\<lambda>_. act_bind (dispatch_task ob t) (\<lambda>_. give [])))))"

fun offer_all :: "look \<Rightarrow> (int \<times> instant) list \<Rightarrow> int list \<Rightarrow> instant list \<Rightarrow> instant list act" where
  "offer_all ob retries [] waiting = give waiting"
| "offer_all ob retries (t # ts) waiting =
     act_bind (offer ob retries t) (\<lambda>w. offer_all ob retries ts (waiting @ w))"

section \<open>A step\<close>

fun earliest :: "instant list \<Rightarrow> instant option" where
  "earliest [] = None"
| "earliest (t # ts) = (case earliest ts of None \<Rightarrow> Some t | Some u \<Rightarrow> Some (min t u))"

definition conclude :: "look \<Rightarrow> int list \<Rightarrow> int list \<Rightarrow> int list \<Rightarrow> instant list \<Rightarrow> bool act" where
  "conclude ob pending skipped tasks waiting =
     act_bind (modify (\<lambda>s. s\<lparr>sc_next_check := earliest waiting\<rparr>)) (\<lambda>_. act_bind (look_up id) (\<lambda>s.
       if sc_jobs s \<noteq> [] \<or> waiting \<noteq> [] then give False
       else if pending = [] then give True
       else if ob_fences ob \<noteq> [] then give True
       else if \<not> sc_failures_final s
         then act_bind (modify (\<lambda>s. s\<lparr>sc_failures_final := True\<rparr>)) (\<lambda>_. give False)
       else if skipped \<noteq> [] \<or> tasks \<noteq> [] then give False
       else act_bind (modify (\<lambda>s. s\<lparr>sc_never_ready := pending\<rparr>)) (\<lambda>_. give True)))"

definition schedule_tasks :: "look \<Rightarrow> bool act" where
  "schedule_tasks ob =
     act_bind (refresh_tasks ob) (\<lambda>retries.
     act_bind (settle_run ob) (\<lambda>skipped.
     act_bind (ask ob CallState) (\<lambda>_.
     act_bind (look_up (pending_tasks ob)) (\<lambda>pending.
     act_bind (act_bind (look_up (selected_tasks ob retries)) of_graph) (\<lambda>chosen.
     act_bind (ask ob CallWaits) (\<lambda>_.
     act_bind (standing_tasks ob (filter (\<lambda>t. Some t \<notin> set (ob_fences ob)) chosen)) (\<lambda>(tasks, held).
     act_bind (offer_all ob retries tasks (filter (\<lambda>due. due > ob_now ob) (map snd retries) @ ob_waits ob @ held))
       (\<lambda>waiting. conclude ob pending skipped tasks waiting))))))))"

definition step_body :: "look \<Rightarrow> bool act" where
  "step_body ob =
     act_bind (harvest ob) (\<lambda>_.
     act_bind (ask ob CallControls) (\<lambda>_.
     act_bind (step_stopped ob) (\<lambda>stopped. act_bind (look_up id) (\<lambda>s.
       if stopped then give (sc_jobs s = [] \<and> \<not> list_ex (ob_checking ob) (sc_checks s))
       else if only_waits ob s then give False
       else schedule_tasks ob))))"

text \<open>\<open>_quiet\<close> harvests itself where the pool answers from this process.\<close>

definition quiet :: "look \<Rightarrow> bool act" where
  "quiet ob = act_bind (look_up id) (\<lambda>s.
     act_bind (if sc_jobs s = [] \<or> (case sc_engine_due s of None \<Rightarrow> True | Some t \<Rightarrow> ob_now ob \<ge> t)
                  \<or> ob_cancel ob \<or> ob_files ob \<or> list_ex (ob_done ob) (sc_checks s)
               then give True
               else if ob_reads_engine ob then give False else harvest ob) (\<lambda>due.
       if due then act_bind (modify (\<lambda>s. s\<lparr>sc_engine_due := Some (ob_now ob + engine_poll)\<rparr>)) (\<lambda>_. give False)
       else give True))"

definition sched_step :: "look \<Rightarrow> bool act" where
  "sched_step ob = act_bind (quiet ob) (\<lambda>q. if q then give False else step_body ob)"

text \<open>
  \<open>step_riding_outages\<close> under the driver: an outage within its budget is a step that did not settle.
\<close>

definition riding_step :: "look \<Rightarrow> bool act" where
  "riding_step ob = (\<lambda>s. case sched_step ob s of (Inl StepOutage, s') \<Rightarrow> (Inr False, s') | r \<Rightarrow> r)"

text \<open>The driver steps until the run settles or an exception ends it.\<close>

fun drive :: "look list \<Rightarrow> bool act" where
  "drive [] = give False"
| "drive (ob # obs) = act_bind (riding_step ob) (\<lambda>settled. if settled then give True else drive obs)"

definition new_scheduler :: "dependency_graph \<Rightarrow> bool \<Rightarrow> (int \<times> int) list \<Rightarrow> scheduler" where
  "new_scheduler g force jobs = \<lparr>sc_graph = g, sc_force = force, sc_jobs = jobs, sc_attempted = {}, sc_completed = {},
     sc_failures_final = False, sc_after_failure = [], sc_never_ready = [], sc_next_check = None, sc_engine_due = None,
     sc_known = [], sc_due = [], sc_checks = [], sc_submitted = [], sc_again = []\<rparr>"

end
