(* ===== verification/Scheduler_Claims.thy ===== *)
theory Scheduler_Claims
  imports Scheduler
begin

text \<open>
  What the scheduler of a run promises: a task is submitted once and again only for a retry, only
  when it is ready and nothing holds it back; a run settles only when nothing of it runs; a forced
  run keeps the order of its tasks.
\<close>

section \<open>Triples\<close>

text \<open>
  \<open>hoare P m Q E\<close>: from a scheduler in \<open>P\<close> the action ends with a value and a scheduler in \<open>Q\<close>, or
  with an exception and a scheduler in \<open>E\<close>.
\<close>

definition hoare ::
  "(scheduler \<Rightarrow> bool) \<Rightarrow> 'a act \<Rightarrow> ('a \<Rightarrow> scheduler \<Rightarrow> bool) \<Rightarrow> (scheduler \<Rightarrow> bool) \<Rightarrow> bool" where
  "hoare P m Q E \<longleftrightarrow> (\<forall>s. P s \<longrightarrow> (case m s of (Inl e, s') \<Rightarrow> E s' | (Inr x, s') \<Rightarrow> Q x s'))"

named_theorems triples \<open>triples of the primitive actions\<close>

lemma hoare_bind:
  "hoare P m Q E \<Longrightarrow> (\<And>x. hoare (Q x) (f x) R E) \<Longrightarrow> hoare P (act_bind m f) R E"
  by (fastforce simp: hoare_def act_bind_def split: prod.splits sum.splits)

lemma hoare_weaken:
  "hoare P' m Q' E \<Longrightarrow> (\<And>s. P s \<Longrightarrow> P' s) \<Longrightarrow> (\<And>x s. Q' x s \<Longrightarrow> Q x s) \<Longrightarrow> hoare P m Q E"
  by (fastforce simp: hoare_def split: prod.splits sum.splits)

lemma hoare_pre: "hoare P' m Q E \<Longrightarrow> (\<And>s. P s \<Longrightarrow> P' s) \<Longrightarrow> hoare P m Q E"
  by (auto simp: hoare_def)

lemma hoare_give [triples]: "(\<And>s. P s \<Longrightarrow> Q x s) \<Longrightarrow> hoare P (give x) Q E"
  by (simp add: hoare_def give_def)

lemma hoare_raise [triples]: "(\<And>s. P s \<Longrightarrow> E s) \<Longrightarrow> hoare P (raise e) Q E"
  by (simp add: hoare_def raise_def)

lemma hoare_modify [triples]: "(\<And>s. P s \<Longrightarrow> Q () (f s)) \<Longrightarrow> hoare P (modify f) Q E"
  by (simp add: hoare_def modify_def)

lemma hoare_look_up [triples]: "(\<And>s. P s \<Longrightarrow> Q (f s) s) \<Longrightarrow> hoare P (look_up f) Q E"
  by (simp add: hoare_def look_up_def)

lemma hoare_ask [triples]: "(\<And>s. P s \<Longrightarrow> E s) \<Longrightarrow> (\<And>s. P s \<Longrightarrow> Q () s) \<Longrightarrow> hoare P (ask ob c) Q E"
  by (simp add: hoare_def ask_def give_def raise_def)

lemma hoare_of_graph [triples]:
  "(\<And>s. P s \<Longrightarrow> E s) \<Longrightarrow> (\<And>x s. P s \<Longrightarrow> r = Inr x \<Longrightarrow> Q x s) \<Longrightarrow> hoare P (of_graph r) Q E"
  by (cases r) (simp_all add: hoare_def of_graph_def give_def raise_def)

text \<open>A read of the scheduler, after which its value is known.\<close>

lemma hoare_read: "(\<And>x. hoare (\<lambda>s. P s \<and> x = f s) (g x) Q E) \<Longrightarrow> hoare P (act_bind (look_up f) g) Q E"
  by (simp add: hoare_def act_bind_def look_up_def)

lemma hoare_if: "(b \<Longrightarrow> hoare P m Q E) \<Longrightarrow> (\<not> b \<Longrightarrow> hoare P n Q E) \<Longrightarrow> hoare P (if b then m else n) Q E"
  by simp

lemma hoare_for_each:
  "(\<And>x. x \<in> set xs \<Longrightarrow> hoare P (f x) (\<lambda>_. P) E) \<Longrightarrow> hoare P (for_each f xs) (\<lambda>_. P) E"
  by (induction xs) (auto intro: hoare_give hoare_bind)

text \<open>What an action that returned has been through.\<close>

lemma bind_InrE:
  assumes "act_bind m f s = (Inr y, s'')"
  obtains x s' where "m s = (Inr x, s')" and "f x s' = (Inr y, s'')"
  using assms by (auto simp: act_bind_def split: prod.splits sum.splits)

lemma bind_look_up: "act_bind (look_up f) g s = g (f s) s"
  by (simp add: act_bind_def look_up_def)

lemma bind_ask: "act_bind (ask ob c) f s = (if ob_down ob c then (Inl StepOutage, s) else f () s)"
  by (simp add: act_bind_def ask_def give_def raise_def)

lemma bind_result: "m s = (q, s') \<Longrightarrow> act_bind m f s = (case q of Inl e \<Rightarrow> (Inl e, s') | Inr x \<Rightarrow> f x s')"
  by (simp add: act_bind_def)

lemma ask_Inr: "ask ob c s = (Inr u, s') \<longleftrightarrow> \<not> ob_down ob c \<and> s' = s"
  by (auto simp: ask_def give_def raise_def)

lemma look_up_Inr: "look_up f s = (Inr x, s') \<longleftrightarrow> x = f s \<and> s' = s"
  by (auto simp: look_up_def)

lemma hoareD:
  assumes "hoare P m Q E" and "P s"
  shows "m s = (Inl e, s') \<Longrightarrow> E s'" and "m s = (Inr x, s') \<Longrightarrow> Q x s'"
  using assms by (auto simp: hoare_def)

lemma hoare_result: "hoare P m (\<lambda>_. E) E \<Longrightarrow> P s \<Longrightarrow> m s = (r, s') \<Longrightarrow> E s'"
  by (cases r) (auto simp: hoare_def)

text \<open>An invariant of an action, whether it raises or not.\<close>

definition keeps :: "(scheduler \<Rightarrow> bool) \<Rightarrow> 'a act \<Rightarrow> bool" where
  "keeps P m \<longleftrightarrow> hoare P m (\<lambda>_. P) P"

lemma keepsD: "keeps P m \<Longrightarrow> P s \<Longrightarrow> m s = (r, s') \<Longrightarrow> P s'"
  by (cases r) (auto simp: keeps_def hoare_def)

lemma keeps_bind: "keeps P m \<Longrightarrow> (\<And>x. keeps P (f x)) \<Longrightarrow> keeps P (act_bind m f)"
  unfolding keeps_def by (rule hoare_bind)

lemma keeps_prims:
  "keeps P (give x)" "keeps P (raise e)" "keeps P (look_up f)" "keeps P (ask ob c)" "keeps P (of_graph r)"
  by (auto simp: keeps_def intro: triples)

lemma keeps_modify: "(\<And>s. P s \<Longrightarrow> P (f s)) \<Longrightarrow> keeps P (modify f)"
  by (auto simp: keeps_def intro: triples)

lemma keeps_for_each: "(\<And>x. x \<in> set xs \<Longrightarrow> keeps P (f x)) \<Longrightarrow> keeps P (for_each f xs)"
  unfolding keeps_def by (rule hoare_for_each)

text \<open>A run of steps keeps what each step keeps.\<close>

lemma keeps_drive:
  assumes "\<And>ob. keeps P (sched_step ob)"
  shows "keeps P (drive obs)"
proof (induction obs)
  case (Cons ob obs)
  have "keeps P (riding_step ob)" unfolding keeps_def hoare_def riding_step_def
  proof (intro allI impI)
    fix s assume "P s"
    obtain r s' where "sched_step ob s = (r, s')" by fastforce
    with keepsD[OF assms \<open>P s\<close> this] show "case (case sched_step ob s of (Inl StepOutage, s') \<Rightarrow> (Inr False, s') | r \<Rightarrow> r)
        of (Inl e, s') \<Rightarrow> P s' | (Inr x, s') \<Rightarrow> P s'"
      by (auto split: sum.splits step_error.splits)
  qed
  then show ?case using Cons by (auto intro!: keeps_bind keeps_prims)
qed (simp add: keeps_prims)

section \<open>What a step changes\<close>

text \<open>The part of the scheduler that decides what is submitted; the rest is bookkeeping.\<close>

definition same_core :: "scheduler \<Rightarrow> scheduler \<Rightarrow> bool" where
  "same_core s s' \<longleftrightarrow> sc_graph s' = sc_graph s \<and> sc_force s' = sc_force s \<and> sc_jobs s' = sc_jobs s
     \<and> sc_attempted s' = sc_attempted s \<and> sc_completed s' = sc_completed s
     \<and> sc_submitted s' = sc_submitted s \<and> sc_again s' = sc_again s"

text \<open>What the loop over the ready tasks requires of a task it submits.\<close>

definition allowed :: "scheduler \<Rightarrow> int \<Rightarrow> bool" where
  "allowed s t \<longleftrightarrow> t \<notin> sc_attempted s
     \<and> (sc_force s \<longrightarrow> (\<forall>es. dependencies_of (sc_graph s) t = Inr es \<longrightarrow>
          (\<forall>e \<in> set es. depends_on_task_id e \<in> sc_completed s)))"

lemma allowed_core: "same_core s s' \<Longrightarrow> allowed s' t = allowed s t"
  by (simp add: same_core_def allowed_def)

lemma allowed_other:
  assumes "allowed s u" and "u \<notin> A" and "sc_graph s' = sc_graph s" and "sc_force s' = sc_force s"
    and "sc_attempted s' \<subseteq> A \<union> sc_attempted s" and "sc_completed s \<subseteq> sc_completed s'"
  shows "allowed s' u"
  using assms(1,2,5,6) unfolding allowed_def assms(3,4) by blast

lemma keeps_event: "keeps (same_core s0) (event_check ob t)"
proof -
  have "keeps (same_core s0) (event_ask ob t)"
    unfolding event_ask_def keep_event_def
    by (auto intro!: keeps_bind keeps_prims keeps_modify split del: if_split intro: hoare_if simp: same_core_def split: if_splits)
  then show ?thesis unfolding event_check_def
    by (auto intro!: keeps_bind keeps_prims keeps_modify simp: same_core_def split: option.splits)
qed

lemma keeps_gate: "keeps (same_core s0) (gate_task ob t)"
  unfolding gate_task_def by (auto intro!: keeps_bind keeps_prims split: option.splits)

text \<open>A harvest moves ended jobs to the completed ones.\<close>

definition harvested :: "int set \<Rightarrow> scheduler \<Rightarrow> scheduler" where
  "harvested E s = s\<lparr>sc_jobs := filter (\<lambda>j. fst j \<notin> E) (sc_jobs s), sc_completed := sc_completed s \<union> E\<rparr>"

lemma change_simps:
  "sc_graph (harvested E s) = sc_graph s"
  "sc_force (harvested E s) = sc_force s"
  "sc_jobs (harvested E s) = filter (\<lambda>j. fst j \<notin> E) (sc_jobs s)"
  "sc_attempted (harvested E s) = sc_attempted s"
  "sc_completed (harvested E s) = sc_completed s \<union> E"
  "sc_submitted (harvested E s) = sc_submitted s"
  "sc_again (harvested E s) = sc_again s"
  "sc_failures_final (harvested E s) = sc_failures_final s"
  "sc_graph (renew_tasks exhausted again s) = sc_graph s"
  "sc_force (renew_tasks exhausted again s) = sc_force s"
  "sc_jobs (renew_tasks exhausted again s) = sc_jobs s"
  "sc_attempted (renew_tasks exhausted again s) = (sc_attempted s \<union> (if sc_force s then {} else set exhausted)) - set again"
  "sc_completed (renew_tasks exhausted again s) = sc_completed s - set again"
  "sc_submitted (renew_tasks exhausted again s) = sc_submitted s"
  "sc_again (renew_tasks exhausted again s) = sc_again s @ again"
  "sc_failures_final (renew_tasks exhausted again s) = sc_failures_final s"
  "sc_graph (mark_over A s) = sc_graph s"
  "sc_force (mark_over A s) = sc_force s"
  "sc_jobs (mark_over A s) = sc_jobs s"
  "sc_attempted (mark_over A s) = sc_attempted s \<union> A"
  "sc_completed (mark_over A s) = sc_completed s \<union> A"
  "sc_submitted (mark_over A s) = sc_submitted s"
  "sc_again (mark_over A s) = sc_again s"
  "sc_failures_final (mark_over A s) = sc_failures_final s"
  "sc_graph (take_task t s) = sc_graph s"
  "sc_force (take_task t s) = sc_force s"
  "sc_jobs (take_task t s) = sc_jobs s"
  "sc_attempted (take_task t s) = insert t (sc_attempted s)"
  "sc_completed (take_task t s) = sc_completed s"
  "sc_submitted (take_task t s) = sc_submitted s"
  "sc_again (take_task t s) = sc_again s"
  "sc_failures_final (take_task t s) = False"
  "sc_graph (put_job t h s) = sc_graph s"
  "sc_force (put_job t h s) = sc_force s"
  "sc_jobs (put_job t h s) = AList.update t h (sc_jobs s)"
  "sc_attempted (put_job t h s) = sc_attempted s"
  "sc_completed (put_job t h s) = sc_completed s"
  "sc_submitted (put_job t h s) = sc_submitted s @ [t]"
  "sc_again (put_job t h s) = sc_again s"
  "sc_failures_final (put_job t h s) = sc_failures_final s"
  by (simp_all add: harvested_def renew_tasks_def mark_over_def take_task_def put_job_def)

lemma delete_job: "AList.delete t jobs = filter (\<lambda>j. fst j \<notin> {t}) jobs"
  unfolding AList.delete_eq by (rule filter_cong) auto

lemma harvest_jobs_effect:
  assumes "for_each (harvest_job ob) jobs s = (r, s')"
  shows "\<exists>E \<subseteq> fst ` set jobs. s' = harvested E s
    \<and> (\<forall>x. r = Inr x \<longrightarrow> E = fst ` {j \<in> set jobs. \<not> running_handle ob (snd j)})"
  using assms
proof (induction jobs arbitrary: s)
  case Nil
  then show ?case by (auto simp: give_def harvested_def)
next
  case (Cons j jobs)
  have none: "harvested {} s = s" for s by (simp add: harvested_def)
  obtain q s1 where one: "harvest_job ob j s = (q, s1)" by fastforce
  then have s1: "s1 = s \<and> (\<forall>x. q = Inr x \<longrightarrow> running_handle ob (snd j))
      \<or> s1 = harvested {fst j} s \<and> \<not> running_handle ob (snd j)"
    by (auto simp: harvest_job_def act_bind_def ask_def raise_def give_def modify_def harvested_def delete_job
        split: if_splits handle_state.splits)
  show ?case
  proof (cases q)
    case (Inl e)
    with Cons.prems one have "s' = s1" "r = Inl e" by (auto simp: act_bind_def)
    with s1 none[of s] show ?thesis by (auto intro: exI[of _ "{}"] exI[of _ "{fst j}"])
  next
    case (Inr x)
    with Cons.prems one have "for_each (harvest_job ob) jobs s1 = (r, s')" by (simp add: act_bind_def)
    from Cons.IH[OF this] obtain E where E: "E \<subseteq> fst ` set jobs" "s' = harvested E s1"
      "\<forall>x. r = Inr x \<longrightarrow> E = fst ` {j \<in> set jobs. \<not> running_handle ob (snd j)}" by blast
    from s1 Inr consider "s1 = s" "running_handle ob (snd j)" | "s1 = harvested {fst j} s" "\<not> running_handle ob (snd j)"
      by auto
    then show ?thesis
    proof cases
      case 1
      with E show ?thesis by (intro exI[of _ E]) (auto simp: image_iff)
    next
      case 2
      with E(2) have "s' = harvested (insert (fst j) E) s" by (simp add: harvested_def conj_commute)
      with E(1,3) 2(2) show ?thesis by (intro exI[of _ "insert (fst j) E"]) (auto simp: image_iff)
    qed
  qed
qed

lemma harvest_effect:
  assumes "harvest ob s = (r, s')"
  obtains E where "E \<subseteq> fst ` set (sc_jobs s)" and "s' = harvested E s"
    and "\<And>x. r = Inr x \<Longrightarrow> E = fst ` {j \<in> set (sc_jobs s). \<not> running_handle ob (snd j)}"
proof -
  obtain q where q: "for_each (harvest_job ob) (sc_jobs s) s = (q, s')" and r: "(\<exists>x. r = Inr x) = (\<exists>x. q = Inr x)"
    using assms by (cases "for_each (harvest_job ob) (sc_jobs s) s")
      (auto simp: harvest_def act_bind_def look_up_def give_def split: sum.splits)
  from harvest_jobs_effect[OF q] obtain E where "E \<subseteq> fst ` set (sc_jobs s)" "s' = harvested E s"
    "\<forall>x. q = Inr x \<longrightarrow> E = fst ` {j \<in> set (sc_jobs s). \<not> running_handle ob (snd j)}" by blast
  with r show thesis by (intro that[of E]) blast+
qed

section \<open>Invariants of the scheduler\<close>

text \<open>The tasks a step selects are allowed, each once.\<close>

lemma filter_err_distinct: "filter_err f xs = Inr ys \<Longrightarrow> distinct xs \<Longrightarrow> distinct ys"
proof (induction xs arbitrary: ys)
  case (Cons x xs)
  then obtain b zs where z: "f x = Inr b" "filter_err f xs = Inr zs" "ys = (if b then x # zs else zs)"
    by (auto simp: err_simps)
  with Cons.IH[OF z(2)] Cons.prems filter_err_subset[OF z(2)] show ?case by auto
qed simp

lemma selected_allowed:
  assumes "selected_tasks ob retries s = Inr ts" and dist: "distinct (g_task_ids (sc_graph s))"
  shows "distinct ts \<and> (\<forall>t \<in> set ts. allowed s t)"
proof -
  have pend: "t \<notin> sc_attempted s" if "t \<in> set (pending_tasks ob s)" for t
    using that by (simp add: pending_tasks_def)
  show ?thesis
  proof (cases "sc_force s")
    case True
    with assms(1) have f: "filter_err (\<lambda>t. bind_err (dependencies_of (sc_graph s) t) (\<lambda>es.
        Inr (list_all (\<lambda>e. depends_on_task_id e \<in> sc_completed s) es))) (pending_tasks ob s) = Inr ts"
      by (simp add: selected_tasks_def Let_def)
    have "allowed s t" if "t \<in> set ts" for t
      using filter_err_Inr_set[OF f that] pend by (auto simp: allowed_def err_simps list_all_iff)
    moreover have "distinct ts" by (rule filter_err_distinct[OF f]) (simp add: pending_tasks_def dist)
    ultimately show ?thesis by simp
  next
    case False
    with assms(1) obtain rs us where "ready (sc_graph s) rs (\<lambda>_. None) = Inr us"
      and ts: "ts = filter (\<lambda>t. t \<in> set (pending_tasks ob s)) us"
      by (auto simp: selected_tasks_def Let_def err_simps)
    then have "distinct us" using dist by (auto simp: ready_def err_simps dest: filter_err_distinct)
    with ts False pend show ?thesis by (auto simp: allowed_def)
  qed
qed

text \<open>
  What has to be shown of a property once for the loop over the ready tasks to keep it: it is
  about the core, and the changes the loop makes for an allowed task keep it.
\<close>

locale loop_invariant =
  fixes P :: "scheduler \<Rightarrow> bool"
  assumes core: "P s \<Longrightarrow> same_core s s' \<Longrightarrow> P s'"
    and over: "P s \<Longrightarrow> (\<And>t. t \<in> A \<Longrightarrow> allowed s t) \<Longrightarrow> P (mark_over A s)"
    and taken: "P s \<Longrightarrow> allowed s t \<Longrightarrow> P (take_task t s)"
    and submitted: "P s \<Longrightarrow> allowed s t \<Longrightarrow> P (put_job t h (take_task t s))"
begin

lemma keeps_book: "(\<And>s. same_core s (f s)) \<Longrightarrow> keeps P (modify f)"
  by (blast intro: keeps_modify core)

lemma keeps_settle: "keeps P (settle_run ob)"
  unfolding settle_run_def Let_def
  by (intro keeps_bind) (auto intro!: keeps_bind keeps_prims keeps_book simp: same_core_def)

text \<open>Tasks still to be offered stay allowed while others are.\<close>

definition offering :: "int set \<Rightarrow> scheduler \<Rightarrow> bool" where
  "offering U s \<longleftrightarrow> P s \<and> (\<forall>u \<in> U. allowed s u)"

lemma offering_core: "offering U s \<Longrightarrow> same_core s s' \<Longrightarrow> offering U s'"
  by (auto simp: offering_def allowed_core intro: core)

lemma offering_quiet:
  assumes "\<And>s0. keeps (same_core s0) m"
  shows "hoare (offering U) m (\<lambda>_. offering U) P"
  unfolding hoare_def
proof (intro allI impI)
  fix s assume o: "offering U s"
  obtain r s' where m: "m s = (r, s')" by fastforce
  have "same_core s s" by (simp add: same_core_def)
  from keepsD[OF assms this m] have "same_core s s'" .
  with o have "offering U s'" by (rule offering_core)
  then show "case m s of (Inl e, s') \<Rightarrow> P s' | (Inr x, s') \<Rightarrow> offering U s'"
    using m by (auto simp: offering_def split: sum.splits)
qed

lemma offering_other:
  assumes "offering (A \<union> U) s" and "A \<inter> U = {}" and "P s'" and "sc_graph s' = sc_graph s" and "sc_force s' = sc_force s"
    and "sc_attempted s' \<subseteq> A \<union> sc_attempted s" and "sc_completed s \<subseteq> sc_completed s'"
  shows "offering U s'"
proof -
  have "allowed s' u" if "u \<in> U" for u
    by (rule allowed_other[of s u A]) (use assms that in \<open>auto simp: offering_def\<close>)
  with assms(3) show ?thesis by (simp add: offering_def)
qed

lemma over_offering:
  assumes "offering (A \<union> U) s" and "A \<inter> U = {}"
  shows "offering U (mark_over A s)"
proof (rule offering_other[OF assms])
  show "P (mark_over A s)" by (rule over) (use assms in \<open>auto simp: offering_def\<close>)
qed (auto simp: mark_over_def)

lemma refused_offering:
  assumes "offering (insert t U) s" and "t \<notin> U"
  shows "offering U (refuse_task fenced t (take_task t s))"
proof (cases fenced)
  case True
  have "t \<notin> sc_attempted s" using assms(1) by (simp add: offering_def allowed_def)
  then have "same_core s (refuse_task fenced t (take_task t s))"
    using True by (simp add: same_core_def refuse_task_def take_task_def)
  from offering_core[OF assms(1) this] show ?thesis by (simp add: offering_def)
next
  case False
  then have "same_core (mark_over {t} s) (refuse_task fenced t (take_task t s))"
    by (simp add: same_core_def refuse_task_def take_task_def mark_over_def)
  have "offering U (mark_over {t} s)" using assms by (intro over_offering) auto
  from offering_core[OF this \<open>same_core _ _\<close>] show ?thesis .
qed

lemma submitted_offering:
  assumes "offering (insert t U) s" and "t \<notin> U"
  shows "offering U (put_job t h (take_task t s))"
proof (rule offering_other[of "{t}"])
  show "P (put_job t h (take_task t s))" by (rule submitted) (use assms in \<open>auto simp: offering_def\<close>)
qed (use assms in \<open>auto simp: put_job_def take_task_def\<close>)

lemma dispatch_offering:
  assumes "t \<notin> U"
  shows "hoare (offering (insert t U)) (act_bind (modify (take_task t)) (\<lambda>_. dispatch_task ob t)) (\<lambda>_. offering U) P"
proof -
  let ?taken = "\<lambda>s. \<exists>s0. offering (insert t U) s0 \<and> s = take_task t s0"
  have ok: "P s" if "?taken s" for s
    using that taken by (auto simp: offering_def)
  have "hoare ?taken (dispatch_task ob t) (\<lambda>_. offering U) P"
    unfolding dispatch_task_def
  proof (rule hoare_bind[where Q = "\<lambda>_. ?taken"])
    show "hoare ?taken (ask ob (CallAdmit t)) (\<lambda>_. ?taken) P" by (rule hoare_ask) (use ok in blast)+
    fix x
    have "hoare ?taken (act_bind (ask ob c) (\<lambda>_. modify f)) (\<lambda>_. offering U) P"
      if "\<And>s. offering (insert t U) s \<Longrightarrow> offering U (f (take_task t s))" for c f
      by (rule hoare_bind[where Q = "\<lambda>_. ?taken"], rule hoare_ask, use ok in blast, blast, rule hoare_modify)
        (use that in blast)
    then show "hoare ?taken (case ob_admit ob t of
       Admitted h \<Rightarrow> act_bind (ask ob (CallSubmit t)) (\<lambda>_. modify (put_job t h))
     | NotAdmitted fenced \<Rightarrow> act_bind (ask ob (CallFences t)) (\<lambda>_. modify (refuse_task fenced t))) (\<lambda>_. offering U) P"
      using submitted_offering refused_offering assms by (cases "ob_admit ob t") simp_all
  qed
  then show ?thesis by (rule hoare_bind[rotated]) (rule hoare_modify, blast)
qed

lemma offer_offering:
  assumes "t \<notin> U"
  shows "hoare (offering (insert t U)) (offer ob retries t) (\<lambda>_. offering U) P"
proof -
  let ?I = "offering (insert t U)"
  have less: "offering U s" if "?I s" for s using that by (simp add: offering_def)
  have out: "P s" if "offering V s" for s V using that by (simp add: offering_def)
  have stop: "hoare ?I (give w) (\<lambda>_. offering U) P" for w :: "instant list" by (rule hoare_give) (rule less)
  have mark: "hoare ?I (act_bind (modify (mark_over {t})) (\<lambda>_. give w)) (\<lambda>_. offering U) P" for w :: "instant list"
    by (rule hoare_bind[where Q = "\<lambda>_. offering U"]) (auto intro!: hoare_modify hoare_give over_offering simp: assms)
  have event: "hoare ?I (act_bind (event_check ob t) (\<lambda>r. case r of
      Some nxt \<Rightarrow> give [nxt] | None \<Rightarrow> act_bind (modify (mark_over {t})) (\<lambda>_. give []))) (\<lambda>_. offering U) P"
    by (rule hoare_bind[OF offering_quiet[OF keeps_event]]) (auto intro: stop mark split: option.split)
  have go: "hoare ?I (act_bind (modify (take_task t)) (\<lambda>_. act_bind (dispatch_task ob t) (\<lambda>_. give ([] :: instant list))))
      (\<lambda>_. offering U) P"
  proof -
    have "hoare ?I (act_bind (act_bind (modify (take_task t)) (\<lambda>_. dispatch_task ob t)) (\<lambda>_. give ([] :: instant list)))
        (\<lambda>_. offering U) P"
      by (rule hoare_bind[OF dispatch_offering[OF assms]]) (rule hoare_give)
    then show ?thesis by (simp add: act_bind_def modify_def)
  qed
  have gated: "hoare ?I (act_bind (gate_task ob t) (\<lambda>g. case g of
           GateHolds nxt \<Rightarrow> give [nxt]
         | GateBlocked \<Rightarrow> act_bind (modify (mark_over {t})) (\<lambda>_. give [])
         | GateOpen \<Rightarrow>
             if ob_event_task ob t
             then act_bind (event_check ob t) (\<lambda>r. case r of
                 Some nxt \<Rightarrow> give [nxt] | None \<Rightarrow> act_bind (modify (mark_over {t})) (\<lambda>_. give []))
             else act_bind (modify (take_task t)) (\<lambda>_. act_bind (dispatch_task ob t) (\<lambda>_. give []))))
      (\<lambda>_. offering U) P"
    by (rule hoare_bind[OF offering_quiet[OF keeps_gate]]) (auto intro: stop mark event go split: gate_answer.split)
  have asked: "hoare ?I (act_bind (ask ob c) (\<lambda>_. m)) (\<lambda>_. offering U) P"
    if "hoare ?I m (\<lambda>_. offering U) P" for c and m :: "instant list act"
    by (rule hoare_bind[where Q = "\<lambda>_. ?I"]) (auto intro!: hoare_ask that out)
  have weak: "hoare (\<lambda>s. ?I s \<and> x = id s) m (\<lambda>_. offering U) P" if "hoare ?I m (\<lambda>_. offering U) P" for m :: "instant list act" and x
    by (rule hoare_pre[OF that]) simp
  show ?thesis unfolding offer_def
    by (rule hoare_read, rule weak, rule hoare_if, rule stop, rule asked, rule hoare_if, rule stop, rule gated)
qed

lemma offer_all_keeps:
  assumes "distinct ts"
  shows "hoare (offering (set ts)) (offer_all ob retries ts waiting) (\<lambda>_. P) P"
  using assms
proof (induction ts arbitrary: waiting)
  case Nil
  show ?case by (auto intro!: hoare_give simp: offering_def)
next
  case (Cons t ts)
  then have "hoare (offering (insert t (set ts))) (offer ob retries t) (\<lambda>_. offering (set ts)) P"
    by (intro offer_offering) simp
  then show ?case using Cons by (auto intro: hoare_bind)
qed

lemma standing_offering:
  "hoare (\<lambda>s. offering (set ts) s \<and> distinct ts) (standing_tasks ob ts)
     (\<lambda>(us, _) s. offering (set us) s \<and> distinct us) P"
proof (cases "ts = []")
  case True
  then show ?thesis by (auto simp: standing_tasks_def intro!: hoare_give)
next
  case False
  let ?a = "set (filter (\<lambda>t. ob_standing ob t = StandingApplied) ts)"
  let ?us = "filter (\<lambda>t. ob_standing ob t = StandingDispatch) ts"
  have "offering (set ?us) (mark_over ?a s)" if "offering (set ts) s" for s
  proof (rule over_offering)
    show "offering (?a \<union> set ?us) s" using that by (auto simp: offering_def)
  qed auto
  note marked = this
  have "hoare (\<lambda>s. offering (set ts) s \<and> distinct ts) (act_bind (ask ob CallStanding) (\<lambda>_.
      act_bind (modify (mark_over ?a)) (\<lambda>_. act_bind (ask ob CallStandingCommit) (\<lambda>_. give (?us, held)))))
      (\<lambda>(us, _) s. offering (set us) s \<and> distinct us) P" for held
  proof (rule hoare_bind[where Q = "\<lambda>_ s. offering (set ts) s \<and> distinct ts"])
    show "hoare (\<lambda>s. offering (set ts) s \<and> distinct ts) (ask ob CallStanding)
        (\<lambda>_ s. offering (set ts) s \<and> distinct ts) P" by (rule hoare_ask) (auto simp: offering_def)
    have 1: "hoare (\<lambda>s. offering (set ts) s \<and> distinct ts) (modify (mark_over ?a))
        (\<lambda>_ s. offering (set ?us) s \<and> distinct ?us) P" by (rule hoare_modify) (use marked distinct_filter in blast)
    have 2: "hoare (\<lambda>s. offering (set ?us) s \<and> distinct ?us) (ask ob CallStandingCommit)
        (\<lambda>_ s. offering (set ?us) s \<and> distinct ?us) P" by (rule hoare_ask) (auto simp: offering_def)
    show "hoare (\<lambda>s. offering (set ts) s \<and> distinct ts) (act_bind (modify (mark_over ?a)) (\<lambda>_.
        act_bind (ask ob CallStandingCommit) (\<lambda>_. give (?us, held)))) (\<lambda>(us, _) s. offering (set us) s \<and> distinct us) P"
      by (rule hoare_bind[OF 1], rule hoare_bind[OF 2], rule hoare_give) simp
  qed
  with False show ?thesis by (simp add: standing_tasks_def Let_def)
qed

lemma keeps_conclude: "keeps P (conclude ob pending skipped ready_ones waiting)"
  unfolding conclude_def by (auto intro!: keeps_bind keeps_prims keeps_book simp: same_core_def)

end

text \<open>And for every step and every run of steps to keep it: harvests and retries keep it, too.\<close>

locale scheduler_invariant = loop_invariant +
  assumes tasks: "P s \<Longrightarrow> distinct (g_task_ids (sc_graph s))"
    and ended: "P s \<Longrightarrow> E \<subseteq> fst ` set (sc_jobs s) \<Longrightarrow> P (harvested E s)"
    and renewed: "P s \<Longrightarrow> set again \<inter> fst ` set (sc_jobs s) = {} \<Longrightarrow> P (renew_tasks exhausted again s)"
begin

lemma keeps_harvest: "keeps P (harvest ob)"
  unfolding keeps_def hoare_def by (auto split: prod.splits sum.splits elim!: harvest_effect intro: ended)

lemma keeps_refresh: "keeps P (refresh_tasks ob)"
proof -
  have "P (renew_tasks exhausted (again_tasks s retries) s)" if "P s" for s exhausted retries
    by (rule renewed[OF that]) (auto simp: again_tasks_def)
  then show ?thesis unfolding keeps_def refresh_tasks_def
    by (intro hoare_bind[where Q = "\<lambda>_. P"] hoare_ask hoare_read)
      (auto simp: Let_def split_beta intro!: hoare_bind[where Q = "\<lambda>_. P"] hoare_modify hoare_give)
qed

lemma keeps_schedule: "keeps P (schedule_tasks ob)"
proof -
  have select: "hoare P (act_bind (look_up (selected_tasks ob retries)) of_graph)
      (\<lambda>ts s. offering (set ts) s \<and> distinct ts) P" for retries
    by (rule hoare_read, rule hoare_of_graph) (use selected_allowed[OF sym] tasks in \<open>auto simp: offering_def\<close>)
  have rest: "hoare (\<lambda>s. offering (set ts) s \<and> distinct ts)
      (act_bind (standing_tasks ob ts) (\<lambda>(us, held). act_bind (offer_all ob retries us (w held))
         (\<lambda>waiting. conclude ob pending skipped us waiting))) (\<lambda>_. P) P" for ts retries w pending skipped
  proof (rule hoare_bind[OF standing_offering])
    fix x
    show "hoare ((\<lambda>(us, _) s. offering (set us) s \<and> distinct us) x)
      (case x of (us, held) \<Rightarrow> act_bind (offer_all ob retries us (w held))
         (\<lambda>waiting. conclude ob pending skipped us waiting)) (\<lambda>_. P) P"
    proof (cases x)
      case (Pair us held)
      have "hoare (\<lambda>s. offering (set us) s \<and> distinct us) (offer_all ob retries us (w held)) (\<lambda>_. P) P"
        using offer_all_keeps[of us] by (auto simp: hoare_def)
      with Pair show ?thesis using keeps_conclude unfolding keeps_def by (auto intro: hoare_bind)
    qed
  qed
  have ask: "hoare (\<lambda>s. offering (set ts) s \<and> distinct ts) (ask ob c)
      (\<lambda>_ s. offering (set (filter p ts)) s \<and> distinct (filter p ts)) P" for ts c p
    by (rule hoare_ask) (auto simp: offering_def)
  have step: "hoare P (act_bind (act_bind (look_up (selected_tasks ob retries)) of_graph) (\<lambda>chosen.
     act_bind (ask ob CallWaits) (\<lambda>_. act_bind (standing_tasks ob (filter (p ob) chosen)) (\<lambda>(us, held).
       act_bind (offer_all ob retries us (w held)) (\<lambda>waiting. conclude ob pending skipped us waiting))))) (\<lambda>_. P) P"
    for retries p w pending skipped
    by (rule hoare_bind[OF select], rule hoare_bind[OF ask], rule rest)
  show ?thesis unfolding schedule_tasks_def
    by (rule keeps_bind[OF keeps_refresh], rule keeps_bind[OF keeps_settle], rule keeps_bind[OF keeps_prims(4)],
        rule keeps_bind[OF keeps_prims(3)], unfold keeps_def, rule step[where p = "\<lambda>ob t. Some t \<notin> set (ob_fences ob)"])
qed

lemma keeps_step: "keeps P (sched_step ob)"
proof -
  have "keeps P (step_stopped ob)" unfolding step_stopped_def by (auto intro!: keeps_bind keeps_prims)
  then have "keeps P (step_body ob)" unfolding step_body_def
    by (auto intro!: keeps_bind keeps_prims keeps_harvest keeps_schedule)
  moreover have "keeps P (quiet ob)" unfolding quiet_def
    by (auto intro!: keeps_bind keeps_prims keeps_harvest keeps_book simp: same_core_def)
  ultimately show ?thesis unfolding sched_step_def by (auto intro!: keeps_bind keeps_prims)
qed

lemma run_keeps: "drive obs s = (r, s') \<Longrightarrow> P s \<Longrightarrow> P s'"
  by (rule keepsD[OF keeps_drive[OF keeps_step]])

end

section \<open>Once, unless it is retried\<close>

text \<open>What has been submitted, and what may still be without a retry, over the retries.\<close>

definition submissions_within :: "int \<Rightarrow> int \<Rightarrow> scheduler \<Rightarrow> bool" where
  "submissions_within t c s \<longleftrightarrow> distinct (g_task_ids (sc_graph s))
     \<and> int (count_list (sc_submitted s) t) + (if t \<in> sc_attempted s then 0 else 1) \<le> c + int (count_list (sc_again s) t)"


interpretation once: scheduler_invariant "submissions_within t c"
proof unfold_locales
  fix s :: scheduler and again exhausted
  assume "submissions_within t c s" and "set again \<inter> fst ` set (sc_jobs s) = {}"
  moreover have "int (count_list again t) \<ge> 1" if "t \<in> set again"
    using that count_list_0_iff[of again t] by linarith
  ultimately show "submissions_within t c (renew_tasks exhausted again s)"
    by (auto simp: submissions_within_def renew_tasks_def split: if_splits)
qed (auto simp: submissions_within_def same_core_def allowed_def change_simps split: if_splits)


section \<open>Forced runs\<close>

text \<open>Of the jobs of a forced run, every upstream is over, unless a retry brought one back.\<close>

definition forced_order :: "scheduler \<Rightarrow> bool" where
  "forced_order s \<longleftrightarrow> distinct (g_task_ids (sc_graph s)) \<and> sc_force s
     \<and> (sc_again s = [] \<longrightarrow>
          sc_completed s \<subseteq> sc_attempted s \<and> fst ` set (sc_jobs s) \<subseteq> sc_attempted s
          \<and> sc_completed s \<inter> fst ` set (sc_jobs s) = {}
          \<and> (\<forall>t \<in> fst ` set (sc_jobs s). \<forall>es. dependencies_of (sc_graph s) t = Inr es \<longrightarrow>
               (\<forall>e \<in> set es. depends_on_task_id e \<in> sc_completed s)))"

lemma update_jobs: "fst ` set (AList.update t h jobs) = insert t (fst ` set jobs)"
  by (simp add: dom_map_of_conv_image_fst[symmetric] update_conv')

interpretation forced: scheduler_invariant forced_order
proof unfold_locales
  fix s E assume p: "forced_order s" and e: "E \<subseteq> fst ` set (sc_jobs s)"
  have jobs: "fst ` set (filter (\<lambda>j. fst j \<notin> E) (sc_jobs s)) = fst ` set (sc_jobs s) - E" by auto
  show "forced_order (harvested E s)"
    using p e unfolding forced_order_def by (simp only: change_simps jobs) auto
next
  fix s A assume p: "forced_order s" and a: "\<And>t. t \<in> A \<Longrightarrow> allowed s t"
  have new: "A \<inter> sc_attempted s = {}" using a by (auto simp: allowed_def)
  show "forced_order (mark_over A s)"
    using p new unfolding forced_order_def by (simp only: change_simps) blast
next
  fix s t assume p: "forced_order s" and a: "allowed s t"
  show "forced_order (take_task t s)"
    using p unfolding forced_order_def by (simp only: change_simps) blast
next
  fix s t h assume p: "forced_order s" and a: "allowed s t"
  have new: "t \<notin> sc_attempted s" and up: "\<And>es e. dependencies_of (sc_graph s) t = Inr es \<Longrightarrow> e \<in> set es \<Longrightarrow>
      depends_on_task_id e \<in> sc_completed s"
    using a p by (auto simp: allowed_def forced_order_def)
  have p1: "distinct (g_task_ids (sc_graph s))" "sc_force s" using p by (simp_all add: forced_order_def)
  have "insert t (fst ` set (sc_jobs s)) \<subseteq> insert t (sc_attempted s)" "sc_completed s \<subseteq> insert t (sc_attempted s)"
    "sc_completed s \<inter> insert t (fst ` set (sc_jobs s)) = {}"
    "\<forall>t \<in> insert t (fst ` set (sc_jobs s)). \<forall>es. dependencies_of (sc_graph s) t = Inr es \<longrightarrow>
       (\<forall>e \<in> set es. depends_on_task_id e \<in> sc_completed s)" if "sc_again s = []"
    using p that new up by (auto simp: forced_order_def)
  with p1 show "forced_order (put_job t h (take_task t s))"
    unfolding forced_order_def change_simps update_jobs by blast
qed (auto simp: forced_order_def same_core_def renew_tasks_def)


section \<open>When a run settles\<close>

text \<open>What the loop leaves of the failures, the submissions and the jobs.\<close>

definition loop_kept :: "bool \<Rightarrow> int list \<Rightarrow> bool \<Rightarrow> scheduler \<Rightarrow> bool" where
  "loop_kept final sub idle s \<longleftrightarrow> (sc_failures_final s \<longrightarrow> final \<and> sc_submitted s = sub) \<and> (sc_jobs s = [] \<longrightarrow> idle)"

lemma kept_core: "same_core s s' \<Longrightarrow> sc_failures_final s' = sc_failures_final s \<Longrightarrow>
    loop_kept final sub idle s \<Longrightarrow> loop_kept final sub idle s'"
  by (simp add: loop_kept_def same_core_def)

lemma update_some: "AList.update t h jobs \<noteq> []"
  by (cases jobs) auto

lemma keeps_offer_all: "keeps (loop_kept final sub idle) (offer_all ob retries ts waiting)"
proof (induction ts arbitrary: waiting)
  case (Cons t ts)
  let ?K = "loop_kept final sub idle"
  have event: "keeps ?K (event_check ob t)"
  proof -
    have "keeps ?K (event_ask ob t)"
      unfolding event_ask_def keep_event_def by (auto intro!: keeps_bind keeps_prims keeps_modify simp: loop_kept_def)
    then show ?thesis unfolding event_check_def
      by (auto intro!: keeps_bind keeps_prims keeps_modify simp: loop_kept_def split: option.splits)
  qed
  have gate: "keeps ?K (gate_task ob t)"
    unfolding gate_task_def by (auto intro!: keeps_bind keeps_prims split: option.splits)
  have over: "keeps ?K (modify (mark_over {t}))" by (auto intro!: keeps_modify simp: loop_kept_def mark_over_def)
  have dispatch: "keeps ?K (act_bind (modify (take_task t)) (\<lambda>_. act_bind (dispatch_task ob t) (\<lambda>_. give ([] :: instant list))))"
  proof -
    let ?T = "\<lambda>s. \<not> sc_failures_final s \<and> (sc_jobs s = [] \<longrightarrow> idle)"
    have "keeps ?T (dispatch_task ob t)"
      unfolding dispatch_task_def
      by (auto intro!: keeps_bind keeps_prims keeps_modify simp: put_job_def refuse_task_def update_some
          split: admission_answer.split if_splits)
    then have "hoare ?T (act_bind (dispatch_task ob t) (\<lambda>_. give ([] :: instant list))) (\<lambda>_. ?T) ?T"
      unfolding keeps_def by (rule hoare_bind) (rule hoare_give)
    then have "hoare ?T (act_bind (dispatch_task ob t) (\<lambda>_. give ([] :: instant list))) (\<lambda>_. ?K) ?K"
      by (auto simp: hoare_def loop_kept_def split: prod.splits sum.splits)
    moreover have "hoare ?K (modify (take_task t)) (\<lambda>_. ?T) ?K"
      by (rule hoare_modify) (simp add: loop_kept_def take_task_def)
    ultimately show ?thesis unfolding keeps_def by (rule hoare_bind[rotated])
  qed
  have "keeps ?K (offer ob retries t)"
    unfolding offer_def
    by (auto intro!: keeps_bind keeps_prims event gate over dispatch split: gate_answer.split option.split)
  with Cons show ?case by (auto intro: keeps_bind)
qed (simp add: keeps_prims)

interpretation attempted: loop_invariant "\<lambda>s. A \<subseteq> sc_attempted s \<and> sc_graph s = g \<and> sc_force s = f"
  by unfold_locales (auto simp: same_core_def change_simps)

lemma hoare_and: "hoare P m Q E \<Longrightarrow> hoare P' m Q' E' \<Longrightarrow>
    hoare (\<lambda>s. P s \<and> P' s) m (\<lambda>x s. Q x s \<and> Q' x s) (\<lambda>_. True)"
  by (fastforce simp: hoare_def split: prod.splits sum.splits)

lemma hoare_any: "(\<And>s x s'. P s \<Longrightarrow> m s = (Inr x, s') \<Longrightarrow> Q x s') \<Longrightarrow> hoare P m Q (\<lambda>_. True)"
  by (fastforce simp: hoare_def split: prod.splits sum.splits)

lemma offer_all_waits: "offer_all ob retries ts waiting s = (Inr w, s') \<Longrightarrow> w = [] \<Longrightarrow> waiting = []"
proof (induction ts arbitrary: waiting s)
  case (Cons t ts)
  then obtain v s1 where "offer_all ob retries ts (waiting @ v) s1 = (Inr w, s')"
    by (auto simp: act_bind_def split: prod.splits sum.splits)
  from Cons.IH[OF this Cons.prems(2)] show ?case by simp
qed (simp add: give_def)

text \<open>Why the second half of a step settles the run, in terms of the scheduler it began with.\<close>

definition settled_from :: "look \<Rightarrow> (int \<times> instant) list \<Rightarrow> int list \<Rightarrow> scheduler \<Rightarrow> scheduler \<Rightarrow> bool" where
  "settled_from ob retries skipped s0 s \<longleftrightarrow> sc_jobs s = [] \<and> sc_jobs s0 = [] \<and> sc_attempted s0 \<subseteq> sc_attempted s
     \<and> (pending_tasks ob s0 = [] \<or> ob_fences ob \<noteq> []
        \<or> skipped = [] \<and> sc_failures_final s \<and> sc_failures_final s0 \<and> sc_submitted s = sc_submitted s0
          \<and> sc_never_ready s = pending_tasks ob s0
          \<and> (\<exists>chosen. selected_tasks ob retries s0 = Inr chosen
               \<and> (\<forall>t \<in> set chosen. ob_standing ob t = StandingApplied)))"

lemma conclude_True:
  assumes "conclude ob pending skipped us waiting s = (Inr True, s')"
  shows "sc_jobs s = [] \<and> waiting = [] \<and> sc_jobs s' = [] \<and> sc_attempted s' = sc_attempted s
    \<and> sc_submitted s' = sc_submitted s
    \<and> (pending = [] \<or> ob_fences ob \<noteq> []
       \<or> skipped = [] \<and> us = [] \<and> sc_failures_final s \<and> sc_failures_final s' \<and> sc_never_ready s' = pending)"
  using assms by (auto simp: conclude_def act_bind_def modify_def look_up_def give_def id_def split: if_splits)

lemma standing_result:
  assumes "standing_tasks ob ts s = (Inr (us, held), s')"
  shows "us = filter (\<lambda>t. ob_standing ob t = StandingDispatch) ts"
    and "held = map (\<lambda>_. ob_now ob + engine_poll) (filter (\<lambda>t. ob_standing ob t = StandingHeld) ts)"
    and "s' = mark_over {t \<in> set ts. ob_standing ob t = StandingApplied} s"
  using assms by (auto simp: standing_tasks_def Let_def act_bind_def ask_def give_def raise_def modify_def mark_over_def
      split: if_splits)

lemma schedule_settles:
  assumes dist: "distinct (g_task_ids (sc_graph s0))"
    and run: "(act_bind (act_bind (look_up (selected_tasks ob retries)) of_graph) (\<lambda>chosen.
       act_bind (ask ob CallWaits) (\<lambda>_.
       act_bind (standing_tasks ob (filter (\<lambda>t. Some t \<notin> set (ob_fences ob)) chosen)) (\<lambda>(tasks, held).
       act_bind (offer_all ob retries tasks (w @ held))
         (\<lambda>waiting. conclude ob (pending_tasks ob s0) skipped tasks waiting))))) s0 = (Inr True, s')"
  shows "settled_from ob retries skipped s0 s'"
proof -
  from run obtain chosen tasks held s1 waiting s2 where sel: "selected_tasks ob retries s0 = Inr chosen"
    and st: "standing_tasks ob (filter (\<lambda>t. Some t \<notin> set (ob_fences ob)) chosen) s0 = (Inr (tasks, held), s1)"
    and off: "offer_all ob retries tasks (w @ held) s1 = (Inr waiting, s2)"
    and con: "conclude ob (pending_tasks ob s0) skipped tasks waiting s2 = (Inr True, s')"
    by (auto simp: act_bind_def look_up_def of_graph_def give_def raise_def ask_def
        split: sum.splits prod.splits if_splits)
  let ?ts = "filter (\<lambda>t. Some t \<notin> set (ob_fences ob)) chosen"
  let ?A = "{t \<in> set ?ts. ob_standing ob t = StandingApplied}"
  from st have tasks: "tasks = filter (\<lambda>t. ob_standing ob t = StandingDispatch) ?ts"
    and held: "held = map (\<lambda>_. ob_now ob + engine_poll) (filter (\<lambda>t. ob_standing ob t = StandingHeld) ?ts)"
    and s1: "s1 = mark_over ?A s0"
    by (rule standing_result)+
  have allow: "distinct chosen" "\<forall>t \<in> set chosen. allowed s0 t" using selected_allowed[OF sel dist] by simp_all
  have "attempted.offering (sc_attempted s0) (sc_graph s0) (sc_force s0) (set tasks) s1"
    unfolding s1 by (rule attempted.over_offering)
      (use allow tasks in \<open>auto simp: attempted.offering_def\<close>)
  moreover have "distinct tasks" using allow tasks by simp
  ultimately have grown: "sc_attempted s0 \<subseteq> sc_attempted s2"
    using hoareD(2)[OF attempted.offer_all_keeps _ off] by blast
  have "loop_kept (sc_failures_final s0) (sc_submitted s0) (sc_jobs s0 = []) s1"
    by (simp add: loop_kept_def s1 change_simps)
  from keepsD[OF keeps_offer_all this off] have kept: "loop_kept (sc_failures_final s0) (sc_submitted s0) (sc_jobs s0 = []) s2" .
  note c = conclude_True[OF con]
  then have "held = []" using offer_all_waits[OF off] by simp
  have applied: "\<forall>t \<in> set chosen. ob_standing ob t = StandingApplied" if "tasks = []" "ob_fences ob = []"
  proof
    fix t assume "t \<in> set chosen"
    with that \<open>held = []\<close> tasks held show "ob_standing ob t = StandingApplied"
      by (cases "ob_standing ob t") (auto simp: filter_empty_conv)
  qed
  show ?thesis unfolding settled_from_def
    using c kept grown sel applied by (cases "ob_fences ob = []") (auto simp: loop_kept_def)
qed

text \<open>A step that settles was stopped after its harvest, or settled in its second half.\<close>

definition same_work :: "scheduler \<Rightarrow> scheduler \<Rightarrow> bool" where
  "same_work s x \<longleftrightarrow> sc_graph x = sc_graph s \<and> sc_force x = sc_force s \<and> sc_submitted x = sc_submitted s"

lemma keeps_same_work:
  "keeps (same_work s) (harvest ob)" "keeps (same_work s) (quiet ob)" "keeps (same_work s) (refresh_tasks ob)"
  "keeps (same_work s) (settle_run ob)"
proof -
  show h: "keeps (same_work s) (harvest ob)"
    unfolding keeps_def hoare_def
    by (auto split: prod.splits sum.splits elim!: harvest_effect simp: change_simps same_work_def)
  show "keeps (same_work s) (quiet ob)"
    unfolding quiet_def by (auto intro!: keeps_bind keeps_prims keeps_modify h simp: same_work_def)
  show "keeps (same_work s) (refresh_tasks ob)" unfolding refresh_tasks_def
    by (auto intro!: keeps_bind keeps_prims keeps_modify simp: change_simps same_work_def split: prod.split)
  show "keeps (same_work s) (settle_run ob)" unfolding settle_run_def Let_def
    by (auto intro!: keeps_bind keeps_prims keeps_modify simp: same_work_def split: if_splits)
qed

lemma step_settles:
  assumes "sched_step ob s = (Inr True, s')" and dist: "distinct (g_task_ids (sc_graph s))"
  obtains "sc_jobs s' = []" "ob_cancel ob \<or> ob_cancelled ob \<or> ob_paused ob \<or> ob_fences ob \<noteq> []"
  | retries skipped s0 where "settled_from ob retries skipped s0 s'" and "same_work s s0"
      and "\<not> sc_force s0 \<longrightarrow> skipped = ob_settle ob (sc_failures_final s0)"
proof -
  have refl: "same_work s s" by (simp add: same_work_def)
  from assms(1) obtain sq where q: "quiet ob s = (Inr False, sq)" and body: "step_body ob sq = (Inr True, s')"
    by (auto simp: sched_step_def act_bind_def give_def split: prod.splits sum.splits if_splits)
  note sq = keepsD[OF keeps_same_work(2) refl q]
  from body obtain x sh where h: "harvest ob sq = (Inr x, sh)"
    and two: "ob_cancel ob \<or> ob_cancelled ob \<or> ob_paused ob \<or> None \<in> set (ob_fences ob)
       \<Longrightarrow> s' = sh \<and> sc_jobs sh = []"
      "\<not> (ob_cancel ob \<or> ob_cancelled ob \<or> ob_paused ob \<or> None \<in> set (ob_fences ob)) \<Longrightarrow> schedule_tasks ob sh = (Inr True, s')"
    by (auto simp: step_body_def step_stopped_def act_bind_def ask_def give_def raise_def look_up_def id_def
        split: prod.splits sum.splits if_splits)
  note sh = keepsD[OF keeps_same_work(1) sq h]
  show thesis
  proof (cases "ob_cancel ob \<or> ob_cancelled ob \<or> ob_paused ob \<or> None \<in> set (ob_fences ob)")
    case True
    then have "ob_cancel ob \<or> ob_cancelled ob \<or> ob_paused ob \<or> ob_fences ob \<noteq> []" by auto
    with two(1)[OF True] that(1) show ?thesis by simp
  next
    case False
    from two(2)[OF False] obtain retries sr skipped s0 where ref: "refresh_tasks ob sh = (Inr retries, sr)"
      and set: "settle_run ob sr = (Inr skipped, s0)"
      and run: "(act_bind (act_bind (look_up (selected_tasks ob retries)) of_graph) (\<lambda>chosen.
       act_bind (ask ob CallWaits) (\<lambda>_.
       act_bind (standing_tasks ob (filter (\<lambda>t. Some t \<notin> set (ob_fences ob)) chosen)) (\<lambda>(tasks, held).
       act_bind (offer_all ob retries tasks ((filter (\<lambda>due. due > ob_now ob) (map snd retries) @ ob_waits ob) @ held))
         (\<lambda>waiting. conclude ob (pending_tasks ob s0) skipped tasks waiting))))) s0 = (Inr True, s')"
      unfolding schedule_tasks_def append_assoc
      by - (erule bind_InrE, erule bind_InrE, erule bind_InrE, erule bind_InrE, auto simp: ask_Inr look_up_Inr)
    note s0 = keepsD[OF keeps_same_work(4) keepsD[OF keeps_same_work(3) sh ref] set]
    have "\<not> sc_force s0 \<longrightarrow> skipped = ob_settle ob (sc_failures_final s0)"
      using set by (auto simp: settle_run_def act_bind_def look_up_def ask_def give_def raise_def modify_def Let_def id_def
          split: if_splits)
    moreover have "distinct (g_task_ids (sc_graph s0))" using s0 dist by (simp add: same_work_def)
    ultimately show ?thesis using that(2) schedule_settles run s0 by blast
  qed
qed


section \<open>What is submitted is ready\<close>

text \<open>What the loop checks of a task before it submits it, of a task that is not forced.\<close>

definition gate_open :: "look \<Rightarrow> dependency_graph \<Rightarrow> int \<Rightarrow> bool" where
  "gate_open ob g t \<longleftrightarrow> \<not> ob_blocked ob t
     \<and> (ob_backfill ob \<or> ob_gate ob t = None
        \<or> (\<exists>jobs required n. required_edge_count g t = Inr required
             \<and> satisfied_edge_count g t (state_with_jobs (ob_state ob) jobs) (Some 0) = Inr n \<and> required \<le> n))"

definition cleared :: "look \<Rightarrow> (int \<times> instant) list \<Rightarrow> bool \<Rightarrow> dependency_graph \<Rightarrow> int \<Rightarrow> bool" where
  "cleared ob retries force g t \<longleftrightarrow>
     (case map_of retries t of None \<Rightarrow> True | Some due \<Rightarrow> due \<le> ob_now ob)
     \<and> \<not> ob_event_task ob t \<and> (\<exists>jobs. ob_free ob jobs t \<noteq> 0) \<and> (\<exists>h. ob_admit ob t = Admitted h)
     \<and> (force \<or> gate_open ob g t)"

text \<open>Which tasks have been submitted since.\<close>

definition submitted_since :: "int list \<Rightarrow> (int \<Rightarrow> bool) \<Rightarrow> scheduler \<Rightarrow> bool" where
  "submitted_since sub good s \<longleftrightarrow> (\<exists>new. sc_submitted s = sub @ new \<and> (\<forall>t \<in> set new. good t))"

lemma since_same: "sc_submitted s' = sc_submitted s \<Longrightarrow> submitted_since sub good s \<Longrightarrow> submitted_since sub good s'"
  by (simp add: submitted_since_def)

lemma since_more: "submitted_since sub good s \<Longrightarrow> (\<And>t. good t \<Longrightarrow> good' t) \<Longrightarrow> submitted_since sub good' s"
  by (auto simp: submitted_since_def)

lemma gate_open_result:
  assumes "gate_task ob t s = (Inr GateOpen, s')"
  shows "sc_force s \<or> gate_open ob (sc_graph s) t"
  using assms by (auto simp: gate_task_def gate_open_def act_bind_def look_up_def of_graph_def ask_def give_def raise_def id_def
      err_simps split: prod.splits sum.splits if_splits option.splits) (meson not_le)

lemma offer_since:
  assumes "submitted_since sub good s" and "offer ob retries t s = (r, s')"
    and "cleared ob retries (sc_force s) (sc_graph s) t \<Longrightarrow> good t"
  shows "submitted_since sub good s'"
proof -
  let ?S = "submitted_since sub good"
  have event: "keeps ?S (event_check ob t)"
  proof -
    have "keeps ?S (event_ask ob t)"
      unfolding event_ask_def keep_event_def by (auto intro!: keeps_bind keeps_prims keeps_modify simp: submitted_since_def)
    then show ?thesis unfolding event_check_def
      by (auto intro!: keeps_bind keeps_prims keeps_modify simp: submitted_since_def split: option.splits)
  qed
  have over: "keeps ?S (modify (mark_over {t}))"
    by (rule keeps_modify) (simp add: submitted_since_def change_simps)
  have dispatch: "keeps ?S (act_bind (modify (take_task t)) (\<lambda>_. act_bind (dispatch_task ob t) (\<lambda>_. give ([] :: instant list))))"
    if "\<And>h. ob_admit ob t = Admitted h \<Longrightarrow> good t"
  proof -
    have "keeps ?S (modify (put_job t h))" if "good t" for h
      by (rule keeps_modify) (use that in \<open>auto simp: submitted_since_def change_simps\<close>)
    moreover have "keeps ?S (modify (refuse_task fenced t))" for fenced
      by (rule keeps_modify) (auto simp: submitted_since_def refuse_task_def)
    moreover have "keeps ?S (modify (take_task t))"
      by (rule keeps_modify) (simp add: submitted_since_def change_simps)
    ultimately show ?thesis using that unfolding dispatch_task_def
      by (intro keeps_bind keeps_prims) (auto intro!: keeps_bind keeps_prims split: admission_answer.split)
  qed
  have core: "same_core s s" by (simp add: same_core_def)
  show ?thesis
  proof (cases "case map_of retries t of None \<Rightarrow> False | Some due \<Rightarrow> due > ob_now ob")
    case True
    with assms(1,2) show ?thesis by (simp add: offer_def act_bind_def look_up_def give_def)
  next
    case due: False
    show ?thesis
    proof (cases "ob_down ob (CallHandler t) \<or> \<not> ob_event_task ob t \<and> ob_free ob (sc_jobs s) t = 0")
      case True
      with assms(1,2) due show ?thesis
        by (auto simp: offer_def act_bind_def look_up_def give_def ask_def raise_def split: if_splits)
    next
      case False
      obtain g s1 where gate: "gate_task ob t s = (g, s1)" by fastforce
      from keepsD[OF keeps_gate core gate] have s1: "same_core s s1" .
      with assms(1) have since: "?S s1" by (simp add: submitted_since_def same_core_def)
      have if_false: "(\<not> ob_event_task ob t \<and> ob_free ob (sc_jobs s) t = 0) = False" using False by blast
      let ?next = "\<lambda>g. case g of GateHolds nxt \<Rightarrow> give [nxt]
         | GateBlocked \<Rightarrow> act_bind (modify (mark_over {t})) (\<lambda>_. give [])
         | GateOpen \<Rightarrow> if ob_event_task ob t
             then act_bind (event_check ob t) (\<lambda>r. case r of
                 Some nxt \<Rightarrow> give [nxt] | None \<Rightarrow> act_bind (modify (mark_over {t})) (\<lambda>_. give []))
             else act_bind (modify (take_task t)) (\<lambda>_. act_bind (dispatch_task ob t) (\<lambda>_. give []))"
      have step: "(case g of Inl e \<Rightarrow> (Inl e, s1) | Inr x \<Rightarrow> ?next x s1) = (r, s')"
        using assms(2) due False if_false by (simp add: offer_def bind_look_up bind_ask bind_result[of "gate_task ob t" s g s1, OF gate] split del: if_split)
      have "good t" if "g = Inr GateOpen" "\<not> ob_event_task ob t" "ob_admit ob t = Admitted h" for h
        using gate_open_result[OF gate[unfolded that(1)]] that(2,3) due False
        by (intro assms(3)) (auto simp: cleared_def split: option.splits)
      then have "keeps ?S (?next x)" if "g = Inr x" for x
        using that by (cases x) (auto intro!: keeps_bind keeps_prims event over dispatch split: option.split)
      with step since show ?thesis by (cases g) (auto dest: keepsD)
    qed
  qed
qed

lemma offer_all_since:
  assumes "submitted_since sub good s" and "offer_all ob retries ts waiting s = (r, s')"
    and "\<And>t. t \<in> set ts \<Longrightarrow> cleared ob retries (sc_force s) (sc_graph s) t \<Longrightarrow> good t"
  shows "submitted_since sub good s'"
  using assms
proof (induction ts arbitrary: waiting s)
  case (Cons t ts)
  obtain q s1 where o: "offer ob retries t s = (q, s1)" by fastforce
  have since: "submitted_since sub good s1" by (rule offer_since[OF Cons.prems(1) o]) (use Cons.prems(3) in simp)
  let ?J = "\<lambda>x. sc_graph x = sc_graph s \<and> sc_force x = sc_force s"
  have event: "keeps ?J (event_check ob t)"
  proof -
    have "keeps ?J (event_ask ob t)"
      unfolding event_ask_def keep_event_def by (auto intro!: keeps_bind keeps_prims keeps_modify split: if_splits)
    then show ?thesis unfolding event_check_def
      by (auto intro!: keeps_bind keeps_prims keeps_modify split: option.splits)
  qed
  have "keeps ?J (gate_task ob t)"
    unfolding gate_task_def by (auto intro!: keeps_bind keeps_prims split: option.splits)
  with event have "keeps ?J (offer ob retries t)"
    unfolding offer_def dispatch_task_def
    by (auto intro!: keeps_bind keeps_prims keeps_modify simp: change_simps refuse_task_def
        split: if_splits gate_answer.split option.split admission_answer.split)
  from keepsD[OF this _ o] have s1: "?J s1" by simp
  show ?case
  proof (cases q)
    case (Inr w)
    with o Cons.prems(2) have "offer_all ob retries ts (waiting @ w) s1 = (r, s')" by (simp add: act_bind_def)
    from Cons.IH[OF since this] Cons.prems(3) s1 show ?thesis by simp
  qed (use since o Cons.prems(2) in \<open>simp add: act_bind_def\<close>)
qed (simp add: give_def)

text \<open>What a task is submitted for: \<open>jobs\<close> are those the harvest left.\<close>

definition retries_seen :: "look \<Rightarrow> scheduler \<Rightarrow> (int \<times> int) list \<Rightarrow> (int \<times> instant) list" where
  "retries_seen ob s jobs = fst (ob_refresh ob (filter (\<lambda>t. t \<notin> fst ` set jobs) (g_task_ids (sc_graph s))))"

definition may_submit :: "look \<Rightarrow> scheduler \<Rightarrow> (int \<times> int) list \<Rightarrow> int \<Rightarrow> bool" where
  "may_submit ob s jobs t \<longleftrightarrow> \<not> ob_cancel ob \<and> \<not> ob_cancelled ob \<and> \<not> ob_paused ob
     \<and> None \<notin> set (ob_fences ob) \<and> Some t \<notin> set (ob_fences ob) \<and> ob_standing ob t = StandingDispatch
     \<and> cleared ob (retries_seen ob s jobs) (sc_force s) (sc_graph s) t
     \<and> (sc_force s \<or> (\<exists>ts. ready (sc_graph s) (fold (\<lambda>t m. m(t \<mapsto> not_run)) (map fst (retries_seen ob s jobs))
            (state_with_jobs (ob_state ob) jobs)) (\<lambda>_. None) = Inr ts \<and> t \<in> set ts))"

definition submitted_well :: "look \<Rightarrow> scheduler \<Rightarrow> scheduler \<Rightarrow> bool" where
  "submitted_well ob s x \<longleftrightarrow> (\<exists>jobs. set jobs \<subseteq> set (sc_jobs s) \<and> submitted_since (sc_submitted s) (may_submit ob s jobs) x)"

definition not_yet :: "scheduler \<Rightarrow> scheduler \<Rightarrow> bool" where
  "not_yet s x \<longleftrightarrow> sc_graph x = sc_graph s \<and> sc_force x = sc_force s \<and> sc_submitted x = sc_submitted s
     \<and> set (sc_jobs x) \<subseteq> set (sc_jobs s)"

lemma not_yet_well: "not_yet s x \<Longrightarrow> submitted_well ob s x"
  unfolding not_yet_def submitted_well_def submitted_since_def by (intro exI[of _ "[]"]) simp

lemma not_yet_quiet: "keeps (not_yet s) (harvest ob)" "keeps (not_yet s) (quiet ob)"
proof -
  show "keeps (not_yet s) (harvest ob)"
    unfolding keeps_def hoare_def
    by (auto split: prod.splits sum.splits elim!: harvest_effect simp: not_yet_def change_simps)
  then show "keeps (not_yet s) (quiet ob)" unfolding quiet_def
    by (auto intro!: keeps_bind keeps_prims keeps_modify simp: not_yet_def)
qed

lemma ready_offered:
  assumes stop: "\<not> (ob_cancel ob \<or> ob_cancelled ob \<or> ob_paused ob \<or> None \<in> set (ob_fences ob))"
    and s0: "not_yet s s0" and retries: "retries = retries_seen ob s (sc_jobs s0)"
    and sel: "selected_tasks ob retries s0 = Inr chosen"
    and st: "standing_tasks ob (filter (\<lambda>t. Some t \<notin> set (ob_fences ob)) chosen) s0 = (Inr (tasks, held), s1)"
    and off: "offer_all ob retries tasks waiting s1 = (r, s')"
  shows "submitted_well ob s s'"
proof -
  have s1: "sc_submitted s1 = sc_submitted s" "sc_force s1 = sc_force s" "sc_graph s1 = sc_graph s"
    using standing_result(3)[OF st] s0 by (simp_all add: not_yet_def change_simps)
  have tasks: "Some t \<notin> set (ob_fences ob)" "ob_standing ob t = StandingDispatch" "t \<in> set chosen" if "t \<in> set tasks" for t
    using that standing_result(1)[OF st] by auto
  have rdy: "sc_force s \<or> (\<exists>ts. ready (sc_graph s) (fold (\<lambda>t m. m(t \<mapsto> not_run)) (map fst retries)
      (state_with_jobs (ob_state ob) (sc_jobs s0))) (\<lambda>_. None) = Inr ts \<and> t \<in> set ts)" if "t \<in> set chosen" for t
    using sel that s0 by (auto simp: selected_tasks_def Let_def err_simps not_yet_def)
  have "submitted_since (sc_submitted s) (may_submit ob s (sc_jobs s0)) s'"
  proof (rule offer_all_since[OF _ off])
    show "submitted_since (sc_submitted s) (may_submit ob s (sc_jobs s0)) s1" using s1 by (simp add: submitted_since_def)
    fix t assume t: "t \<in> set tasks" "cleared ob retries (sc_force s1) (sc_graph s1) t"
    show "may_submit ob s (sc_jobs s0) t"
      unfolding may_submit_def using stop tasks[OF t(1)] rdy[OF tasks(3)[OF t(1)]] t(2) by (simp add: s1 retries)
  qed
  then show ?thesis using s0 unfolding submitted_well_def not_yet_def by blast
qed

lemma well_more: "sc_submitted s2 = sc_submitted s1 \<Longrightarrow> submitted_well ob s s1 \<Longrightarrow> submitted_well ob s s2"
  by (simp add: submitted_well_def submitted_since_def)

lemma schedule_well:
  assumes stop: "\<not> (ob_cancel ob \<or> ob_cancelled ob \<or> ob_paused ob \<or> None \<in> set (ob_fences ob))"
  shows "hoare (not_yet s) (schedule_tasks ob) (\<lambda>_. submitted_well ob s) (submitted_well ob s)"
proof -
  let ?R = "\<lambda>retries x. not_yet s x \<and> retries = retries_seen ob s (sc_jobs x)"
  let ?W = "submitted_well ob s"
  have refresh: "hoare (not_yet s) (refresh_tasks ob) ?R ?W"
    by (auto simp: hoare_def refresh_tasks_def act_bind_def ask_def raise_def give_def look_up_def modify_def Let_def id_def
        split_beta not_yet_well not_yet_def change_simps retries_seen_def split: prod.splits sum.splits intro: not_yet_well)
  have settle: "hoare (?R retries) (settle_run ob) (\<lambda>_. ?R retries) ?W" for retries
    by (auto simp: hoare_def settle_run_def act_bind_def ask_def raise_def give_def look_up_def modify_def Let_def id_def
        not_yet_def split: prod.splits sum.splits if_splits intro!: not_yet_well)
  have rest: "hoare (?R retries) (act_bind (act_bind (look_up (selected_tasks ob retries)) of_graph) (\<lambda>chosen.
       act_bind (ask ob CallWaits) (\<lambda>_.
       act_bind (standing_tasks ob (filter (\<lambda>t. Some t \<notin> set (ob_fences ob)) chosen)) (\<lambda>(tasks, held).
       act_bind (offer_all ob retries tasks (w held)) (\<lambda>waiting. conclude ob pending skipped tasks waiting)))))
       (\<lambda>_. ?W) ?W" for retries w pending skipped
    unfolding hoare_def
  proof (intro allI impI, elim conjE)
    fix s0 assume s0: "not_yet s s0" and retries: "retries = retries_seen ob s (sc_jobs s0)"
    have w0: "?W s0" by (rule not_yet_well[OF s0])
    show "case act_bind (act_bind (look_up (selected_tasks ob retries)) of_graph) (\<lambda>chosen.
       act_bind (ask ob CallWaits) (\<lambda>_.
       act_bind (standing_tasks ob (filter (\<lambda>t. Some t \<notin> set (ob_fences ob)) chosen)) (\<lambda>(tasks, held).
       act_bind (offer_all ob retries tasks (w held)) (\<lambda>waiting. conclude ob pending skipped tasks waiting)))) s0
       of (Inl e, s') \<Rightarrow> ?W s' | (Inr x, s') \<Rightarrow> ?W s'"
    proof (cases "selected_tasks ob retries s0")
      case (Inl e)
      with w0 show ?thesis by (simp add: act_bind_def look_up_def of_graph_def raise_def)
    next
      case sel: (Inr chosen)
      obtain q s1 where st: "standing_tasks ob (filter (\<lambda>t. Some t \<notin> set (ob_fences ob)) chosen) s0 = (q, s1)" by fastforce
      have w1: "?W s1"
      proof (rule well_more[OF _ w0])
        show "sc_submitted s1 = sc_submitted s0"
          using st by (auto simp: standing_tasks_def Let_def act_bind_def ask_def give_def raise_def modify_def change_simps
              split: if_splits)
      qed
      show ?thesis
      proof (cases q)
        case (Inl e)
        with w0 w1 sel st show ?thesis
          by (simp add: act_bind_def look_up_def of_graph_def give_def raise_def ask_def)
      next
        case (Inr p)
        obtain us held where p: "p = (us, held)" by (cases p)
        obtain v s2 where off: "offer_all ob retries us (w held) s1 = (v, s2)" by fastforce
        have w2: "?W s2" by (rule ready_offered[OF stop s0 retries sel st[unfolded Inr p] off])
        have "keeps ?W (conclude ob pending skipped us x)" for x
          unfolding conclude_def by (auto intro!: keeps_bind keeps_prims keeps_modify simp: submitted_well_def submitted_since_def)
        from keepsD[OF this w2] have w3: "conclude ob pending skipped us x s2 = (y, s3) \<Longrightarrow> ?W s3" for x y s3 .
        have "?W s3" if "(case v of Inl e \<Rightarrow> (Inl e, s2) | Inr x \<Rightarrow> conclude ob pending skipped us x s2) = (y, s3)" for y s3
          using that w2 w3 by (auto split: sum.splits)
        then show ?thesis using w0 sel st off Inr p
          by (simp add: act_bind_def look_up_def of_graph_def give_def raise_def ask_def split: prod.split sum.split)
      qed
    qed
  qed
  have R: "?W x" if "?R retries x" for retries x using that not_yet_well by blast
  show ?thesis unfolding schedule_tasks_def
  proof (rule hoare_bind[OF refresh], rule hoare_bind[OF settle])
    fix retries skipped
    show "hoare (?R retries) (act_bind (ask ob CallState) (\<lambda>_. act_bind (look_up (pending_tasks ob)) (\<lambda>pending.
      act_bind (act_bind (look_up (selected_tasks ob retries)) of_graph) (\<lambda>chosen.
      act_bind (ask ob CallWaits) (\<lambda>_.
      act_bind (standing_tasks ob (filter (\<lambda>t. Some t \<notin> set (ob_fences ob)) chosen)) (\<lambda>(tasks, held).
      act_bind (offer_all ob retries tasks (filter (\<lambda>due. due > ob_now ob) (map snd retries) @ ob_waits ob @ held))
        (\<lambda>waiting. conclude ob pending skipped tasks waiting))))))) (\<lambda>_. ?W) ?W"
      by (rule hoare_bind[where Q = "\<lambda>_. ?R retries"], rule hoare_ask, rule R, assumption, assumption,
          rule hoare_bind[where Q = "\<lambda>_. ?R retries"], rule hoare_look_up, assumption, rule rest)
  qed
qed


section \<open>The scheduler at work\<close>

text \<open>Two tasks, the second after the first, and looks at which nothing is in the way.\<close>

definition pair_graph :: dependency_graph where
  "pair_graph = \<lparr>g_task_ids = [1, 2],
     g_nodes_by_id = map_of (map (\<lambda>i. (i, \<lparr>node_id = i, run_condition = None, run_condition_count = None,
       cross_pipeline_edge_count = 0, task_code = None\<rparr>)) [1, 2]),
     g_dependencies_of = map_of [(1, []), (2, [\<lparr>edge_task_id = 2, depends_on_task_id = 1, dependency_type = ''SUCCESS''\<rparr>])]\<rparr>"

definition clear_look :: "db_call list \<Rightarrow> run_state \<Rightarrow> int list \<Rightarrow> look" where
  "clear_look broken rs over = \<lparr>ob_now = 0, ob_down = (\<lambda>c. c \<in> set broken),
     ob_handle = (\<lambda>h. if h \<in> set over then HandleEnded else HandleRunning), ob_fences = [], ob_cancel = False,
     ob_cancelled = False, ob_paused = False, ob_files = False, ob_done = (\<lambda>_. False), ob_checking = (\<lambda>_. False),
     ob_reads_engine = True, ob_refresh = (\<lambda>_. ([], [])), ob_settle = (\<lambda>_. []), ob_state = rs, ob_backfill = False,
     ob_waits = [], ob_standing = (\<lambda>_. StandingDispatch), ob_event_task = (\<lambda>_. False), ob_free = (\<lambda>_ _. 1),
     ob_gate = (\<lambda>_. None), ob_blocked = (\<lambda>_. False), ob_admit = (\<lambda>t. Admitted (t + 100)),
     ob_event_sql = (\<lambda>_. False), ob_changed = (\<lambda>_. False), ob_event = (\<lambda>_. None)\<rparr>"

definition ran :: "run_status \<Rightarrow> task_run_state" where
  "ran x = \<lparr>status = Some x, target_count = None, rows_written = None\<rparr>"

text \<open>The steps of a run of the two tasks: dispatch, the first ends, the second ends.\<close>

definition calm_looks :: "look list" where
  "calm_looks = [clear_look [] Map.empty [], (clear_look [] [1 \<mapsto> ran RunSuccess] [101])\<lparr>ob_now := 2000000\<rparr>]"

definition last_look :: look where
  "last_look = (clear_look [] [1 \<mapsto> ran RunSuccess, 2 \<mapsto> ran RunSuccess] [101, 102])\<lparr>ob_now := 4000000\<rparr>"


definition forced_looks :: "look list" where
  "forced_looks = [clear_look [] Map.empty [], (clear_look [] Map.empty [101])\<lparr>ob_now := 2000000\<rparr>]"




text \<open>
  A connection that drops while the attempt of a ready task is admitted loses the task. The step
  put it among the attempted ones before it asked for the attempt, and the outage leaves it there,
  though nothing was submitted: with every later read of the Engine DB answered, the run settles
  and reports the tasks after it as never ready.
\<close>

lemma outage_loses_task:
  "fst (drive [clear_look [CallAdmit 1] Map.empty []] (new_scheduler pair_graph False [])) = Inr False
   \<and> fst (drive (clear_look [CallAdmit 1] Map.empty [] # replicate 2 (clear_look [] Map.empty []))
        (new_scheduler pair_graph False [])) = Inr True
   \<and> sc_submitted (snd (drive (clear_look [CallAdmit 1] Map.empty [] # replicate 2 (clear_look [] Map.empty []))
        (new_scheduler pair_graph False []))) = []
   \<and> sc_never_ready (snd (drive (clear_look [CallAdmit 1] Map.empty [] # replicate 2 (clear_look [] Map.empty []))
        (new_scheduler pair_graph False []))) = [2]
   \<and> sc_submitted (snd (drive [clear_look [] Map.empty []] (new_scheduler pair_graph False []))) = [1]"
  by code_simp

end
