(* ===== verification/Access.thy ===== *)
theory Access
  imports Enums
begin

text \<open>
  Pipeline grants: \<^verbatim>\<open>services/operations/permissions.py\<close> (effective levels, with the statements
  \<^verbatim>\<open>permission_*.sql\<close>), \<^verbatim>\<open>services/operations/access.py\<close> and
  \<^verbatim>\<open>services/operations/access_inputs.py\<close> (delegated changes) and \<^verbatim>\<open>core/tags.py\<close>. The changes of
  a request run in one transaction under the account lock, so a request is a function of the
  tables. The CSV reader's rows and the parsed JSON of a column are given.
\<close>

section \<open>Tables\<close>

datatype permission = CanView | CanUpload | CanRun | CanManage

definition permissions :: "permission list" where
  "permissions = [CanView, CanUpload, CanRun, CanManage]"

definition permission_value :: "permission \<Rightarrow> string" where
  "permission_value p = (case p of CanView \<Rightarrow> ''CAN_VIEW'' | CanUpload \<Rightarrow> ''CAN_UPLOAD''
     | CanRun \<Rightarrow> ''CAN_RUN'' | CanManage \<Rightarrow> ''CAN_MANAGE'')"

definition permission_rank :: "permission \<Rightarrow> nat" where
  "permission_rank p = (case p of CanView \<Rightarrow> 1 | CanUpload \<Rightarrow> 2 | CanRun \<Rightarrow> 3 | CanManage \<Rightarrow> 4)"

datatype api_role = RoleAgent | RoleViewer | RoleOperator | RoleDeveloper | RoleAdmin

definition role_rank :: "api_role \<Rightarrow> nat" where
  "role_rank r = (case r of RoleAgent \<Rightarrow> 0 | RoleViewer \<Rightarrow> 1 | RoleOperator \<Rightarrow> 2 | RoleDeveloper \<Rightarrow> 3
     | RoleAdmin \<Rightarrow> 4)"

text \<open>
  The JSON of \<open>PIPELINE_PARAMETERS\<close> as far as its \<open>TAGS\<close> go; a value of the list that is not a
  text is \<open>None\<close>. Of a value that is no list, the values that \<open>json_each\<close> yields are kept.
\<close>

datatype tag_data = NoParameters | JsonNull | NotAnObject | NoTags
  | TagsNotAList "string option list" | TagList "string option list"

record account_row =
  ac_id :: int
  ac_name :: string
  ac_active :: bool

record group_row =
  gr_id :: int
  gr_name :: string
  gr_active :: bool

record member_row =
  mb_group :: int
  mb_account :: int
  mb_active :: bool

record project_row =
  pj_id :: int
  pj_code :: string
  pj_active :: bool

record pipeline_row =
  pl_project :: int
  pl_code :: string
  pl_active :: bool
  pl_tags :: tag_data

record grant_row =
  g_id :: int
  g_project :: int
  g_group :: "int option"
  g_account :: "int option"
  g_role :: "string option"
  g_pipeline :: "string option"
  g_tag :: "string option"
  g_permission :: permission
  g_active :: bool

record access_db =
  ad_accounts :: "account_row list"
  ad_groups :: "group_row list"
  ad_members :: "member_row list"
  ad_projects :: "project_row list"
  ad_pipelines :: "pipeline_row list"
  ad_grants :: "grant_row list"
  ad_next :: int

text \<open>The caller: an account, its proven role, its groups of the sign-in and the project in scope.\<close>

record access_context =
  ax_account :: string
  ax_role :: "api_role option"
  ax_sso :: "int list"
  ax_project :: int

datatype tag_problem = TagsNoList | TooManyTags nat | BadTag "string option" | RepeatedTag string

datatype row_problem =
    NoProject | UnknownProject string | OutOfScope string | OnePrincipal
  | UnknownGroup string bool | UnknownAccount string | UnknownRole string | UnknownPermission string
  | UnknownAction string | OneTarget | UnknownPipeline string | UnknownTag string | WrongCells
  | RepeatsLine int

datatype access_error =
    EmptyReason | BulkNeedsAdmin | SingleOnly | ContentConflict | CsvInvalid int | AccountColumn | BadHeader "string list"
  | BadRows "(int \<times> row_problem) list"
  | ProjectHidden int | ProjectLevel permission permission
  | PipelineHidden string | PipelineRole string api_role
  | NotManager string "permission option"
  | BadParameters string | BadTags string "tag_problem list"
  | UnknownLevel string

section \<open>Tags\<close>

definition tag_char :: "char \<Rightarrow> bool" where
  "tag_char c \<longleftrightarrow> (CHR ''a'' \<le> c \<and> c \<le> CHR ''z'') \<or> (CHR ''0'' \<le> c \<and> c \<le> CHR ''9'') \<or> c \<in> {CHR ''_'', CHR '':'', CHR ''-''}"

definition valid_tag :: "string option \<Rightarrow> bool" where
  "valid_tag v = (case v of None \<Rightarrow> False | Some t \<Rightarrow> 1 \<le> length t \<and> length t \<le> 64 \<and> list_all tag_char t)"

fun repeated_tags :: "string option list \<Rightarrow> string option list \<Rightarrow> tag_problem list" where
  "repeated_tags [] seen = []"
| "repeated_tags (v # vs) seen =
     (if \<not> valid_tag v then BadTag v # repeated_tags vs seen
      else if v \<in> set seen then RepeatedTag (the v) # repeated_tags vs seen
      else repeated_tags vs (v # seen))"

definition tag_problems :: "string option list \<Rightarrow> tag_problem list" where
  "tag_problems vs = (if length vs > 20 then [TooManyTags (length vs)] else []) @ repeated_tags vs []"

definition read_tags :: "string \<Rightarrow> tag_data \<Rightarrow> access_error + string list" where
  "read_tags code d = (case d of
     NotAnObject \<Rightarrow> Inl (BadParameters code)
   | TagsNotAList _ \<Rightarrow> Inl (BadTags code [TagsNoList])
   | TagList vs \<Rightarrow> if tag_problems vs \<noteq> [] then Inl (BadTags code (tag_problems vs)) else Inr (map the vs)
   | _ \<Rightarrow> Inr [])"

text \<open>What the statements make of the column: \<open>permission_invalid\<close> and \<open>json_each\<close>.\<close>

definition sql_invalid :: "tag_data \<Rightarrow> bool" where
  "sql_invalid d = (case d of NoParameters \<Rightarrow> False | NoTags \<Rightarrow> False
   | TagList vs \<Rightarrow> length vs > 20 \<or> list_ex (\<lambda>v. \<not> valid_tag v) vs \<or> length (remdups vs) \<noteq> length vs
   | _ \<Rightarrow> True)"

definition sql_tags :: "tag_data \<Rightarrow> string option list" where
  "sql_tags d = (case d of TagList vs \<Rightarrow> vs | TagsNotAList vs \<Rightarrow> vs | _ \<Rightarrow> [])"

section \<open>Effective levels\<close>

text \<open>\<^verbatim>\<open>permission_eligible.sql\<close>: the active grants of the project to one of the caller's principals.\<close>

definition active_account :: "access_db \<Rightarrow> string \<Rightarrow> int \<Rightarrow> bool" where
  "active_account db name k \<longleftrightarrow> list_ex (\<lambda>a. ac_id a = k \<and> ac_name a = name \<and> ac_active a) (ad_accounts db)"

definition in_group :: "access_db \<Rightarrow> access_context \<Rightarrow> int \<Rightarrow> bool" where
  "in_group db ctx k \<longleftrightarrow> list_ex (\<lambda>g. gr_id g = k \<and> gr_active g) (ad_groups db)
     \<and> (list_ex (\<lambda>m. mb_group m = k \<and> mb_active m \<and> active_account db (ax_account ctx) (mb_account m)) (ad_members db)
        \<or> k \<in> set (ax_sso ctx))"

definition granted_to :: "access_db \<Rightarrow> access_context \<Rightarrow> grant_row \<Rightarrow> bool" where
  "granted_to db ctx g \<longleftrightarrow>
     (case g_account g of Some k \<Rightarrow> active_account db (ax_account ctx) k | None \<Rightarrow> False)
     \<or> (g_role g = Some ''viewer'' \<and> ax_role ctx \<in> Some ` {RoleViewer, RoleOperator, RoleDeveloper, RoleAdmin})
     \<or> (g_role g = Some ''operator'' \<and> ax_role ctx \<in> Some ` {RoleOperator, RoleDeveloper, RoleAdmin})
     \<or> (case g_group g of Some k \<Rightarrow> in_group db ctx k | None \<Rightarrow> False)"

definition eligible :: "access_db \<Rightarrow> access_context \<Rightarrow> grant_row \<Rightarrow> bool" where
  "eligible db ctx g \<longleftrightarrow> g_active g \<and> g_project g = ax_project ctx \<and> granted_to db ctx g"

definition highest :: "grant_row list \<Rightarrow> nat" where
  "highest gs = fold (\<lambda>g n. max (permission_rank (g_permission g)) n) gs 0"

text \<open>\<open>tuple(Permission)[level - 1]\<close>.\<close>

definition level_permission :: "nat \<Rightarrow> permission option" where
  "level_permission n = (if n = 0 then None else Some (permissions ! (n - 1)))"

text \<open>\<^verbatim>\<open>permission_projects.sql\<close>: no row for a project that is inactive or hidden from the caller.\<close>

definition project_level :: "access_db \<Rightarrow> access_context \<Rightarrow> nat option" where
  "project_level db ctx =
     (case find (\<lambda>p. pj_id p = ax_project ctx \<and> pj_active p) (ad_projects db) of None \<Rightarrow> None
      | Some _ \<Rightarrow>
          (let level = (if ax_role ctx = Some RoleAdmin then 4
                 else highest (filter (\<lambda>g. eligible db ctx g \<and> g_pipeline g = None \<and> g_tag g = None) (ad_grants db)))
           in if level > 0 then Some level else None))"

definition project_permission :: "access_db \<Rightarrow> access_context \<Rightarrow> permission option" where
  "project_permission db ctx =
     (if ax_role ctx = None \<or> ax_role ctx = Some RoleAgent then None
      else case project_level db ctx of None \<Rightarrow> None | Some n \<Rightarrow> level_permission n)"

definition require_project :: "access_db \<Rightarrow> access_context \<Rightarrow> permission \<Rightarrow> access_error + unit" where
  "require_project db ctx needed = (case project_permission db ctx of
     None \<Rightarrow> Inl (ProjectHidden (ax_project ctx))
   | Some level \<Rightarrow> if permission_rank level < permission_rank needed then Inl (ProjectLevel level needed) else Inr ())"

text \<open>\<open>strongest\<close> and \<open>tag_permission\<close>: only grants on the tag itself count, below the project's.\<close>

definition strongest :: "permission list \<Rightarrow> permission option" where
  "strongest ps = find (\<lambda>p. p \<in> set ps) (rev permissions)"

definition eligible_grants :: "access_db \<Rightarrow> access_context \<Rightarrow> grant_row list" where
  "eligible_grants db ctx =
     (if ax_role ctx = None \<or> ax_role ctx = Some RoleAgent then [] else filter (eligible db ctx) (ad_grants db))"

definition tag_permission :: "access_db \<Rightarrow> access_context \<Rightarrow> string \<Rightarrow> permission option" where
  "tag_permission db ctx tag = (case project_permission db ctx of
     None \<Rightarrow> None
   | Some level \<Rightarrow> if level = CanManage then Some level
       else strongest (map g_permission (filter (\<lambda>g. g_tag g = Some tag) (eligible_grants db ctx))))"

text \<open>\<^verbatim>\<open>permission_effective.sql\<close>: grants on a pipeline or one of its tags replace the project's level.\<close>

definition applicable :: "pipeline_row \<Rightarrow> grant_row \<Rightarrow> bool" where
  "applicable p g \<longleftrightarrow> g_active g \<and> g_project g = pl_project p
     \<and> (g_pipeline g = Some (pl_code p) \<or> g_tag g \<noteq> None \<and> g_tag g \<in> set (sql_tags (pl_tags p)))"

definition pipeline_level :: "access_db \<Rightarrow> access_context \<Rightarrow> nat \<Rightarrow> pipeline_row \<Rightarrow> nat" where
  "pipeline_level db ctx level p =
     (if level = 4 then 4
      else if \<not> list_ex (applicable p) (ad_grants db) then level
      else highest (filter (\<lambda>g. applicable p g \<and> eligible db ctx g) (ad_grants db)))"

text \<open>\<open>validate_visibility\<close> reads the tags of the first pipeline that the statement finds malformed.\<close>

definition validate_visibility :: "access_db \<Rightarrow> access_context \<Rightarrow> access_error + unit" where
  "validate_visibility db ctx = (case project_level db ctx of None \<Rightarrow> Inr ()
     | Some _ \<Rightarrow>
        (case find (\<lambda>p. pl_project p = ax_project ctx \<and> sql_invalid (pl_tags p)) (ad_pipelines db) of
           None \<Rightarrow> Inr ()
         | Some p \<Rightarrow> bind_err (read_tags (pl_code p) (pl_tags p)) (\<lambda>_. Inr ())))"

definition effective_role :: "access_context \<Rightarrow> permission option \<Rightarrow> api_role option" where
  "effective_role ctx level =
     (if ax_role ctx = Some RoleAdmin then Some RoleAdmin
      else case level of None \<Rightarrow> None
        | Some p \<Rightarrow> if p \<in> {CanView, CanUpload} then Some RoleViewer else Some RoleOperator)"

text \<open>\<open>PipelineAccess\<close>: levels and roles by pipeline code, the dictionary as the list of its items.\<close>

type_synonym pipeline_access = "(string \<times> (permission option \<times> api_role option)) list"

definition pipeline_access :: "access_db \<Rightarrow> access_context \<Rightarrow> access_error + pipeline_access" where
  "pipeline_access db ctx = bind_err (validate_visibility db ctx) (\<lambda>_.
     case project_level db ctx of None \<Rightarrow> Inr []
     | Some n \<Rightarrow> Inr (map (\<lambda>p. let level = level_permission (pipeline_level db ctx n p)
                              in (pl_code p, level, effective_role ctx level))
                  (filter (\<lambda>p. pl_project p = ax_project ctx) (ad_pipelines db))))"

definition access_level :: "pipeline_access \<Rightarrow> string \<Rightarrow> permission option" where
  "access_level acc code = (case map_of (rev acc) code of None \<Rightarrow> None | Some (level, _) \<Rightarrow> level)"

definition access_role :: "pipeline_access \<Rightarrow> string \<Rightarrow> api_role option" where
  "access_role acc code = (case map_of (rev acc) code of None \<Rightarrow> None | Some (_, r) \<Rightarrow> r)"

definition permits_role :: "pipeline_access \<Rightarrow> string \<Rightarrow> api_role \<Rightarrow> bool" where
  "permits_role acc code required = (case access_role acc code of None \<Rightarrow> False
     | Some r \<Rightarrow> r \<noteq> RoleAgent \<and> required \<noteq> RoleAgent \<and> role_rank r \<ge> role_rank required)"

definition require_role :: "pipeline_access \<Rightarrow> string \<Rightarrow> api_role \<Rightarrow> access_error + unit" where
  "require_role acc code required =
     (if access_role acc code = None then Inl (PipelineHidden code)
      else if \<not> permits_role acc code required then Inl (PipelineRole code required) else Inr ())"

definition has_role :: "api_role option \<Rightarrow> api_role option \<Rightarrow> bool" where
  "has_role r required =
     (if r = Some RoleAgent \<or> required = Some RoleAgent then r = required
      else case required of None \<Rightarrow> True
        | Some q \<Rightarrow> (case r of None \<Rightarrow> False | Some x \<Rightarrow> role_rank x \<ge> role_rank q))"

section \<open>Changes\<close>

datatype access_intent = IntentGrant | IntentRevoke

definition intent_value :: "access_intent \<Rightarrow> string" where
  "intent_value i = (case i of IntentGrant \<Rightarrow> ''GRANT'' | IntentRevoke \<Rightarrow> ''REVOKE'')"

text \<open>
  The content of a bulk request as the reader yields it: numbered rows, and the line at which it
  stops on malformed text.
\<close>

record csv_content =
  csv_rows :: "(int \<times> string list) list"
  csv_broken :: "int option"

record access_write =
  w_project :: "string option"
  w_group :: "string option"
  w_account :: "string option"
  w_role :: "string option"
  w_pipeline :: "string option"
  w_tag :: "string option"
  w_permission :: "string option"
  w_reason :: string
  w_content :: "csv_content option"
  w_dry_run :: bool

record input_row =
  in_line :: int
  in_values :: "(string \<times> string option) list"
  in_well_formed :: bool

record validated =
  v_line :: int
  v_project :: string
  v_group :: string
  v_role :: string
  v_pipeline :: string
  v_tag :: string
  v_permission :: string
  v_action :: string
  v_account :: string
  v_project_id :: int
  v_group_id :: "int option"
  v_account_id :: "int option"

datatype access_change = AccessAdded | AccessChangedPermission | AccessRevoked | AccessUnchanged

record access_diff =
  df_line :: int
  df_previous :: "permission option"
  df_change :: access_change

definition access_fields :: "string list" where
  "access_fields = [''PROJECT'', ''GROUP_NAME'', ''ROLE'', ''PIPELINE_CODE'', ''TAG'', ''PERMISSION'', ''ACTION'']"

definition given :: "string option \<Rightarrow> bool" where
  "given v = (case v of None \<Rightarrow> False | Some s \<Rightarrow> s \<noteq> [])"

fun read_rows :: "string list \<Rightarrow> (int \<times> string list) list \<Rightarrow> input_row list" where
  "read_rows header [] = []"
| "read_rows header ((line, row) # rows) =
     (if row = [] then read_rows header rows
      else \<lparr>in_line = line,
             in_values = map (\<lambda>(i, name). (name, if i < length row then Some (row ! i) else None)) (enumerate 0 header),
             in_well_formed = (length row = length header)\<rparr> # read_rows header rows)"

definition inputs :: "access_write \<Rightarrow> access_intent \<Rightarrow> access_error + input_row list" where
  "inputs q intent = (case w_content q of
     None \<Rightarrow> Inr [\<lparr>in_line = 1, in_values = [(''PROJECT'', w_project q), (''GROUP_NAME'', w_group q), (''ROLE'', w_role q),
         (''PIPELINE_CODE'', w_pipeline q), (''TAG'', w_tag q), (''PERMISSION'', w_permission q),
         (''ACTION'', Some (intent_value intent)), (''ACCOUNT'', w_account q)], in_well_formed = True\<rparr>]
   | Some c \<Rightarrow>
       if list_ex given [w_group q, w_pipeline q, w_tag q, w_role q, w_account q, w_permission q] then Inl ContentConflict
       else (case (csv_rows c, csv_broken c) of
           ([], Some line) \<Rightarrow> Inl (CsvInvalid line)
         | (rows, broken) \<Rightarrow>
             (let header = (case rows of [] \<Rightarrow> [] | r # _ \<Rightarrow> snd r)
              in if ''ACCOUNT'' \<in> set header then Inl AccountColumn
                 else if set header \<noteq> set access_fields \<or> length header \<noteq> length access_fields then Inl (BadHeader header)
                 else (case broken of Some line \<Rightarrow> Inl (CsvInvalid line) | None \<Rightarrow> Inr (read_rows header (tl rows))))))"

text \<open>\<open>(row.values.get(name) or "").strip()\<close>.\<close>

definition cell :: "input_row \<Rightarrow> string \<Rightarrow> string" where
  "cell row name = strip (case map_of (in_values row) name of Some (Some s) \<Rightarrow> s | _ \<Rightarrow> [])"

definition project_of_code :: "access_db \<Rightarrow> string \<Rightarrow> row_problem + int" where
  "project_of_code db code =
     (if code = [] then Inl NoProject
      else case find (\<lambda>p. pj_code p = code) (ad_projects db) of
          None \<Rightarrow> Inl (UnknownProject code)
        | Some p \<Rightarrow> if pj_active p then Inr (pj_id p) else Inl (UnknownProject code))"

definition target_problems :: "access_db \<Rightarrow> string \<Rightarrow> string \<Rightarrow> int \<Rightarrow> access_error + row_problem list" where
  "target_problems db pipeline tag project =
     (let rows = filter (\<lambda>p. pl_project p = project \<and> pl_active p) (ad_pipelines db)
      in bind_err (map_err (\<lambda>p. read_tags (pl_code p) (pl_tags p)) rows) (\<lambda>tags. Inr (
          (if pipeline \<noteq> [] \<and> pipeline \<notin> pl_code ` set rows then [UnknownPipeline pipeline] else [])
          @ (if tag \<noteq> [] \<and> (\<not> valid_tag (Some tag) \<or> \<not> list_ex (\<lambda>ts. tag \<in> set ts) tags) then [UnknownTag tag] else []))))"

definition group_id_of :: "access_db \<Rightarrow> string \<Rightarrow> int option" where
  "group_id_of db name = map_of (rev (map (\<lambda>g. (gr_name g, gr_id g)) (filter gr_active (ad_groups db)))) name"

definition account_of :: "access_db \<Rightarrow> string \<Rightarrow> account_row option" where
  "account_of db name = map_of (rev (map (\<lambda>a. (ac_name a, a)) (ad_accounts db))) name"

text \<open>Everything wrong with a row, given what its target turned out to be.\<close>

definition row_notes ::
  "access_db \<Rightarrow> access_write \<Rightarrow> input_row \<Rightarrow> row_problem list \<Rightarrow> row_problem list" where
  "row_notes db q row targets =
     (let c = cell row
      in (case project_of_code db (c ''PROJECT'') of Inl e \<Rightarrow> [e] | Inr _ \<Rightarrow> [])
         @ (if w_project q \<noteq> None \<and> Some (c ''PROJECT'') \<noteq> w_project q then [OutOfScope (c ''PROJECT'')] else [])
         @ (if length (filter (\<lambda>k. c k \<noteq> []) [''GROUP_NAME'', ''ROLE'', ''ACCOUNT'']) \<noteq> 1 then [OnePrincipal] else [])
         @ (if c ''GROUP_NAME'' \<noteq> [] \<and> group_id_of db (c ''GROUP_NAME'') = None
            then [UnknownGroup (c ''GROUP_NAME'') (account_of db (c ''GROUP_NAME'') \<noteq> None)] else [])
         @ (if c ''ACCOUNT'' \<noteq> [] \<and> (case account_of db (c ''ACCOUNT'') of None \<Rightarrow> True | Some a \<Rightarrow> \<not> ac_active a)
            then [UnknownAccount (c ''ACCOUNT'')] else [])
         @ (if c ''ROLE'' \<noteq> [] \<and> c ''ROLE'' \<notin> {''viewer'', ''operator''} then [UnknownRole (c ''ROLE'')] else [])
         @ (if \<not> (c ''ACTION'' = ''REVOKE'' \<and> c ''PERMISSION'' = [])
              \<and> c ''PERMISSION'' \<notin> permission_value ` set permissions then [UnknownPermission (c ''PERMISSION'')] else [])
         @ (if c ''ACTION'' \<notin> {''GRANT'', ''REVOKE''} then [UnknownAction (c ''ACTION'')] else [])
         @ (if c ''PIPELINE_CODE'' \<noteq> [] \<and> c ''TAG'' \<noteq> [] then [OneTarget] else [])
         @ targets
         @ (if \<not> in_well_formed row \<or> (w_content q \<noteq> None
                \<and> list_ex (\<lambda>k. case map_of (in_values row) k of Some (Some _) \<Rightarrow> False | _ \<Rightarrow> True) access_fields)
            then [WrongCells] else []))"

definition row_problems ::
  "access_db \<Rightarrow> access_write \<Rightarrow> input_row \<Rightarrow> access_error + (validated option \<times> row_problem list)" where
  "row_problems db q row =
     (let c = cell row; proj = project_of_code db (c ''PROJECT'')
      in bind_err (case proj of Inl _ \<Rightarrow> Inr [] | Inr k \<Rightarrow> target_problems db (c ''PIPELINE_CODE'') (c ''TAG'') k) (\<lambda>targets.
           let bad = row_notes db q row targets
           in if bad \<noteq> [] then Inr (None, bad)
              else Inr (Some \<lparr>v_line = in_line row, v_project = c ''PROJECT'', v_group = c ''GROUP_NAME'', v_role = c ''ROLE'',
                  v_pipeline = c ''PIPELINE_CODE'', v_tag = c ''TAG'', v_permission = c ''PERMISSION'', v_action = c ''ACTION'',
                  v_account = c ''ACCOUNT'', v_project_id = (case proj of Inl _ \<Rightarrow> 0 | Inr k \<Rightarrow> k),
                  v_group_id = group_id_of db (c ''GROUP_NAME''), v_account_id = map_option ac_id (account_of db (c ''ACCOUNT''))\<rparr>, [])))"

definition row_identity :: "input_row \<Rightarrow> string list" where
  "row_identity row = map (cell row) [''PROJECT'', ''GROUP_NAME'', ''ROLE'', ''ACCOUNT'', ''PIPELINE_CODE'', ''TAG'']"

text \<open>Every bad line is named, a repeated identity on both of its lines.\<close>

fun validate_rows ::
  "access_db \<Rightarrow> access_write \<Rightarrow> input_row list \<Rightarrow> (string list \<times> int) list \<Rightarrow> (int \<times> row_problem) list
     \<Rightarrow> validated list \<Rightarrow> access_error + validated list" where
  "validate_rows db q [] seen errors checked = (if errors \<noteq> [] then Inl (BadRows errors) else Inr checked)"
| "validate_rows db q (row # rows) seen errors checked =
     bind_err (row_problems db q row) (\<lambda>(valid, problems).
       let previous = map_of seen (row_identity row);
           all_problems = problems @ (case previous of None \<Rightarrow> [] | Some l \<Rightarrow> [RepeatsLine l]);
           repeats = (case previous of None \<Rightarrow> [] | Some l \<Rightarrow> [(l, RepeatsLine (in_line row))])
       in validate_rows db q rows ((row_identity row, in_line row) # seen)
            (errors @ repeats @ map (Pair (in_line row)) all_problems)
            (checked @ (case valid of None \<Rightarrow> [] | Some v \<Rightarrow> [v])))"

definition or_none :: "string \<Rightarrow> string option" where
  "or_none s = (if s = [] then None else Some s)"

text \<open>The delegation check, on the state before any row is written.\<close>

definition authorize :: "access_db \<Rightarrow> access_context \<Rightarrow> validated \<Rightarrow> access_error + unit" where
  "authorize db ctx row =
     (if ax_role ctx = Some RoleAdmin then Inr ()
      else let scoped = ctx\<lparr>ax_project := v_project_id row\<rparr>
        in bind_err (require_project db scoped CanView) (\<lambda>_.
           if project_permission db scoped = Some CanManage then Inr ()
           else bind_err
             (if v_pipeline row \<noteq> [] then bind_err (pipeline_access db scoped) (\<lambda>acc. Inr (access_level acc (v_pipeline row)))
              else if v_tag row \<noteq> [] then Inr (tag_permission db scoped (v_tag row))
              else Inr (project_permission db scoped)) (\<lambda>level.
           if level \<noteq> Some CanManage then Inl (NotManager (v_pipeline row @ v_tag row) level) else Inr ())))"

text \<open>The row of \<^verbatim>\<open>access_list.sql\<close> with the identity of a submitted row.\<close>

definition group_name_of :: "access_db \<Rightarrow> int option \<Rightarrow> string option" where
  "group_name_of db k = (case find (\<lambda>g. Some (gr_id g) = k) (ad_groups db) of None \<Rightarrow> None | Some g \<Rightarrow> Some (gr_name g))"

definition account_name_of :: "access_db \<Rightarrow> int option \<Rightarrow> string option" where
  "account_name_of db k = (case find (\<lambda>a. Some (ac_id a) = k) (ad_accounts db) of None \<Rightarrow> None | Some a \<Rightarrow> Some (ac_name a))"

definition project_has_code :: "access_db \<Rightarrow> int \<Rightarrow> string \<Rightarrow> bool" where
  "project_has_code db k code \<longleftrightarrow> list_ex (\<lambda>p. pj_id p = k \<and> pj_code p = code) (ad_projects db)"

definition same_identity :: "access_db \<Rightarrow> validated \<Rightarrow> grant_row \<Rightarrow> bool" where
  "same_identity db row g \<longleftrightarrow> project_has_code db (g_project g) (v_project row)
     \<and> group_name_of db (g_group g) = or_none (v_group row)
     \<and> account_name_of db (g_account g) = or_none (v_account row)
     \<and> g_role g = or_none (v_role row) \<and> g_pipeline g = or_none (v_pipeline row) \<and> g_tag g = or_none (v_tag row)"

definition change_of :: "bool \<Rightarrow> grant_row option \<Rightarrow> string \<Rightarrow> access_change" where
  "change_of active old permission =
     (if active \<and> (case old of None \<Rightarrow> True | Some g \<Rightarrow> \<not> g_active g) then AccessAdded
      else if \<not> active \<and> (case old of None \<Rightarrow> False | Some g \<Rightarrow> g_active g) then AccessRevoked
      else if active \<and> (case old of None \<Rightarrow> False | Some g \<Rightarrow> permission_value (g_permission g) \<noteq> permission)
        then AccessChangedPermission
      else AccessUnchanged)"

definition new_grant :: "access_db \<Rightarrow> validated \<Rightarrow> permission \<Rightarrow> grant_row" where
  "new_grant db row p = \<lparr>g_id = ad_next db, g_project = v_project_id row, g_group = v_group_id row,
     g_account = v_account_id row, g_role = or_none (v_role row), g_pipeline = or_none (v_pipeline row),
     g_tag = or_none (v_tag row), g_permission = p, g_active = True\<rparr>"

definition set_grant :: "validated \<Rightarrow> int \<Rightarrow> permission \<Rightarrow> bool \<Rightarrow> grant_row \<Rightarrow> grant_row" where
  "set_grant row k p active g =
     (if g_id g = k \<and> g_project g = v_project_id row then g\<lparr>g_permission := p, g_active := active\<rparr> else g)"

text \<open>A revoked row keeps its permission; a text that is none violates the column's check.\<close>

definition publish :: "access_write \<Rightarrow> validated \<Rightarrow> access_db \<Rightarrow> access_error + (access_diff \<times> access_db)" where
  "publish q row db =
     (let old = find (same_identity db row) (ad_grants db);
          active = (v_action row = ''GRANT'');
          permission = (case old of Some g \<Rightarrow> if active then v_permission row else permission_value (g_permission g)
                        | None \<Rightarrow> v_permission row);
          change = change_of active old permission;
          diff = \<lparr>df_line = v_line row, df_previous = map_option g_permission old, df_change = change\<rparr>
      in if w_dry_run q \<or> change = AccessUnchanged then Inr (diff, db)
         else (case find (\<lambda>p. permission_value p = permission) permissions of
            None \<Rightarrow> Inl (UnknownLevel permission)
          | Some p \<Rightarrow> Inr (diff, case old of
                None \<Rightarrow> db\<lparr>ad_grants := ad_grants db @ [new_grant db row p], ad_next := ad_next db + 1\<rparr>
              | Some g \<Rightarrow> db\<lparr>ad_grants := map (set_grant row (g_id g) p active) (ad_grants db)\<rparr>)))"

fun publish_all :: "access_write \<Rightarrow> validated list \<Rightarrow> access_db \<Rightarrow> access_error + (access_diff list \<times> access_db)" where
  "publish_all q [] db = Inr ([], db)"
| "publish_all q (row # rows) db = bind_err (publish q row db) (\<lambda>(d, db').
     bind_err (publish_all q rows db') (\<lambda>(ds, db''). Inr (d # ds, db'')))"

definition apply_changes ::
  "access_context \<Rightarrow> access_write \<Rightarrow> access_intent \<Rightarrow> access_db \<Rightarrow> access_error + (access_diff list \<times> access_db)" where
  "apply_changes ctx q intent db =
     (if strip (w_reason q) = [] then Inl EmptyReason
      else if w_content q \<noteq> None \<and> ax_role ctx \<noteq> Some RoleAdmin then Inl BulkNeedsAdmin
      else bind_err (inputs q intent) (\<lambda>rows.
           bind_err (if ax_role ctx \<noteq> Some RoleAdmin \<and> given (w_pipeline q) \<and> project_permission db ctx \<noteq> Some CanManage
                     then bind_err (pipeline_access db ctx) (\<lambda>acc. require_role acc (the (w_pipeline q)) RoleViewer)
                     else Inr ()) (\<lambda>_.
           bind_err (validate_rows db q rows [] [] []) (\<lambda>checked.
           bind_err (map_err (authorize db ctx) checked) (\<lambda>_. publish_all q checked db)))))"

definition grant_access ::
  "access_context \<Rightarrow> access_write \<Rightarrow> access_db \<Rightarrow> access_error + (access_diff list \<times> access_db)" where
  "grant_access ctx q db = apply_changes ctx q IntentGrant db"

definition revoke_access ::
  "access_context \<Rightarrow> access_write \<Rightarrow> access_db \<Rightarrow> access_error + (access_diff list \<times> access_db)" where
  "revoke_access ctx q db =
     (if w_content q \<noteq> None \<or> w_dry_run q then Inl SingleOnly else apply_changes ctx q IntentRevoke db)"

end
