(* ===== verification/Access_Claims.thy ===== *)
theory Access_Claims
  imports Access
begin

text \<open>
  What delegated permissions promise: a change is authorized on the state it is made in, callers
  without a managing grant never change anything, and revoking what was just granted gives every
  caller back what they had.
\<close>

section \<open>What levels depend on\<close>

text \<open>Everything but the grants.\<close>

definition same_tables :: "access_db \<Rightarrow> access_db \<Rightarrow> bool" where
  "same_tables db db' \<longleftrightarrow> ad_accounts db' = ad_accounts db \<and> ad_groups db' = ad_groups db
     \<and> ad_members db' = ad_members db \<and> ad_projects db' = ad_projects db \<and> ad_pipelines db' = ad_pipelines db"

lemma same_tables_refl [simp]: "same_tables db db"
  by (simp add: same_tables_def)

lemma same_tables_trans: "same_tables a b \<Longrightarrow> same_tables b c \<Longrightarrow> same_tables a c"
  by (auto simp: same_tables_def)

lemma same_tables_simps:
  assumes "same_tables db db'"
  shows "ad_accounts db' = ad_accounts db" "ad_groups db' = ad_groups db" "ad_members db' = ad_members db"
    "ad_projects db' = ad_projects db" "ad_pipelines db' = ad_pipelines db"
  using assms by (auto simp: same_tables_def)

lemma granted_to_tables: "same_tables db db' \<Longrightarrow> granted_to db' ctx g = granted_to db ctx g"
  by (simp add: granted_to_def active_account_def in_group_def same_tables_simps cong: option.case_cong)

text \<open>Every level is a function of the active grants of the project in scope.\<close>

definition active_in :: "access_db \<Rightarrow> int \<Rightarrow> grant_row list" where
  "active_in db k = filter (\<lambda>g. g_active g \<and> g_project g = k) (ad_grants db)"

lemma eligible_filter:
  "filter (\<lambda>g. eligible db ctx g \<and> P g) (ad_grants db) = filter (\<lambda>g. granted_to db ctx g \<and> P g) (active_in db (ax_project ctx))"
  unfolding active_in_def filter_filter by (rule filter_cong) (auto simp: eligible_def)

lemma applicable_filter:
  "pl_project p = ax_project ctx \<Longrightarrow> filter (\<lambda>g. applicable p g \<and> eligible db ctx g) (ad_grants db)
    = filter (\<lambda>g. applicable p g \<and> granted_to db ctx g) (active_in db (ax_project ctx))"
  unfolding active_in_def filter_filter by (rule filter_cong) (auto simp: eligible_def applicable_def)

lemma applicable_exists:
  "list_ex (applicable p) (ad_grants db) = list_ex (applicable p) (active_in db (pl_project p))"
  by (auto simp: list_ex_iff active_in_def applicable_def)

lemma levels_same:
  assumes t: "same_tables db db'" and a: "active_in db' (ax_project ctx) = active_in db (ax_project ctx)"
  shows "project_level db' ctx = project_level db ctx" and "project_permission db' ctx = project_permission db ctx"
    and "tag_permission db' ctx = tag_permission db ctx" and "pipeline_access db' ctx = pipeline_access db ctx"
proof -
  have e: "filter (\<lambda>g. eligible db' ctx g \<and> P g) (ad_grants db') = filter (\<lambda>g. eligible db ctx g \<and> P g) (ad_grants db)" for P
    unfolding eligible_filter a granted_to_tables[OF t] ..
  show level: "project_level db' ctx = project_level db ctx"
    unfolding project_level_def e same_tables_simps[OF t] ..
  then show perm: "project_permission db' ctx = project_permission db ctx" by (simp add: project_permission_def)
  show "tag_permission db' ctx = tag_permission db ctx"
  proof -
    have "eligible_grants db' ctx = eligible_grants db ctx" using e[of "\<lambda>_. True"] by (simp add: eligible_grants_def)
    then have "tag_permission db' ctx tag = tag_permission db ctx tag" for tag by (simp only: tag_permission_def perm)
    then show ?thesis by (simp add: fun_eq_iff)
  qed
  have p: "pipeline_level db' ctx n p = pipeline_level db ctx n p" if "pl_project p = ax_project ctx" for n p
    unfolding pipeline_level_def applicable_filter[OF that] applicable_exists that a
    by (simp add: granted_to_tables[OF t])
  show "pipeline_access db' ctx = pipeline_access db ctx"
    by (auto simp: pipeline_access_def validate_visibility_def level same_tables_simps[OF t] Let_def p cong: option.case_cong
        intro!: arg_cong[where f = "bind_err _"] split: option.split)
qed

section \<open>What a request writes\<close>

text \<open>The securable of a row, and who may manage it.\<close>

definition may_manage :: "access_db \<Rightarrow> access_context \<Rightarrow> int \<Rightarrow> string option \<Rightarrow> string option \<Rightarrow> bool" where
  "may_manage db ctx project pipeline tag \<longleftrightarrow> ax_role ctx = Some RoleAdmin
     \<or> (let scoped = ctx\<lparr>ax_project := project\<rparr> in
          project_permission db scoped = Some CanManage
          \<or> project_permission db scoped \<noteq> None
            \<and> (case (pipeline, tag) of
                (Some code, _) \<Rightarrow> (case pipeline_access db scoped of Inl _ \<Rightarrow> False | Inr acc \<Rightarrow> access_level acc code = Some CanManage)
              | (None, Some t) \<Rightarrow> tag_permission db scoped t = Some CanManage
              | (None, None) \<Rightarrow> False))"

lemma authorize_manages:
  assumes "authorize db ctx row = Inr ()"
  shows "may_manage db ctx (v_project_id row) (or_none (v_pipeline row)) (or_none (v_tag row))"
  using assms by (auto simp: authorize_def may_manage_def or_none_def require_project_def Let_def err_simps
      split: if_splits option.splits)

text \<open>The tables after a row: unchanged, one grant more, or one grant with a new permission or state.\<close>

definition grant_identity :: "grant_row \<Rightarrow> int \<times> int option \<times> int option \<times> string option \<times> string option \<times> string option" where
  "grant_identity g = (g_project g, g_group g, g_account g, g_role g, g_pipeline g, g_tag g)"

definition access_inv :: "access_db \<Rightarrow> bool" where
  "access_inv db \<longleftrightarrow> distinct (map g_id (ad_grants db)) \<and> (\<forall>g \<in> set (ad_grants db). g_id g < ad_next db)
     \<and> distinct (map pj_id (ad_projects db)) \<and> distinct (map pj_code (ad_projects db))"

lemma publish_known:
  assumes "find (same_identity db row) (ad_grants db) = Some g" and "publish q row db = Inr (d, db')"
  shows "db' = db \<and> (w_dry_run q \<or> df_change d = AccessUnchanged)
    \<or> (\<not> w_dry_run q \<and> df_change d \<noteq> AccessUnchanged
        \<and> (df_change d = AccessAdded) = (v_action row = ''GRANT'' \<and> \<not> g_active g)
        \<and> (\<exists>p. db' = db\<lparr>ad_grants := map (set_grant row (g_id g) p (v_action row = ''GRANT'')) (ad_grants db)\<rparr>))"
  using assms by (auto simp: publish_def Let_def change_of_def split: if_splits option.splits)

lemma publish_cases:
  assumes "publish q row db = Inr (d, db')"
  obtains "db' = db" "w_dry_run q \<or> df_change d = AccessUnchanged"
  | p where "\<not> w_dry_run q" "find (same_identity db row) (ad_grants db) = None" "df_change d = AccessAdded"
      "v_action row = ''GRANT''" "db' = db\<lparr>ad_grants := ad_grants db @ [new_grant db row p], ad_next := ad_next db + 1\<rparr>"
  | g p where "\<not> w_dry_run q" "find (same_identity db row) (ad_grants db) = Some g" "df_change d \<noteq> AccessUnchanged"
      "df_change d = AccessAdded \<longleftrightarrow> v_action row = ''GRANT'' \<and> \<not> g_active g"
      "db' = db\<lparr>ad_grants := map (set_grant row (g_id g) p (v_action row = ''GRANT'')) (ad_grants db)\<rparr>"
proof (cases "w_dry_run q \<or> df_change d = AccessUnchanged")
  case True
  with assms that(1) show ?thesis by (auto simp: publish_def Let_def change_of_def split: if_splits option.splits)
next
  case False
  show ?thesis
  proof (cases "find (same_identity db row) (ad_grants db)")
    case None
    then show ?thesis
      using assms False that(2) by (auto simp: publish_def Let_def change_of_def split: if_splits option.splits)
  next
    case (Some g)
    then show ?thesis
      using publish_known[OF Some assms] False that(3)[of g] by blast
  qed
qed

lemma publish_tables: "publish q row db = Inr (d, db') \<Longrightarrow> same_tables db db'"
  by (erule publish_cases) (simp_all add: same_tables_def)

text \<open>What each row keeps, and where a row that is new to the table belongs.\<close>

definition within_row :: "validated \<Rightarrow> grant_row \<Rightarrow> bool" where
  "within_row row g \<longleftrightarrow> g_project g = v_project_id row \<and> g_pipeline g = or_none (v_pipeline row) \<and> g_tag g = or_none (v_tag row)"

lemma new_grant_within: "within_row row (new_grant db row p)"
  by (simp add: within_row_def new_grant_def)

lemma set_grant_keeps: "g_id (set_grant row k p a g) = g_id g" "grant_identity (set_grant row k p a g) = grant_identity g"
  by (auto simp: set_grant_def grant_identity_def)

lemma set_grant_within:
  assumes "access_inv db" and "find (same_identity db row) (ad_grants db) = Some x" and "g \<in> set (ad_grants db)"
  shows "set_grant row (g_id x) p a g = g \<or> within_row row (set_grant row (g_id x) p a g)"
proof (cases "g_id g = g_id x \<and> g_project g = v_project_id row")
  case True
  have x: "x \<in> set (ad_grants db)" "same_identity db row x" using find_SomeD[OF assms(2)] by auto
  with True assms(1,3) have "g = x" unfolding access_inv_def by (metis distinct_map inj_onD)
  with True x(2) show ?thesis by (simp add: within_row_def set_grant_def same_identity_def)
qed (auto simp: set_grant_def)

lemma publish_rows:
  assumes "publish q row db = Inr (d, db')" and "access_inv db"
  shows "g' \<in> set (ad_grants db') \<Longrightarrow> g' \<in> set (ad_grants db) \<or> within_row row g'"
    and "g \<in> set (ad_grants db) \<Longrightarrow> \<exists>g' \<in> set (ad_grants db'). g_id g' = g_id g \<and> grant_identity g' = grant_identity g"
    and "access_inv db'"
proof -
  have all: "(\<forall>g' \<in> set (ad_grants db'). g' \<in> set (ad_grants db) \<or> within_row row g')
     \<and> (\<forall>g \<in> set (ad_grants db). \<exists>g' \<in> set (ad_grants db'). g_id g' = g_id g \<and> grant_identity g' = grant_identity g)
     \<and> access_inv db'"
    using assms(1)
  proof (cases rule: publish_cases)
    case 1
    with assms(2) show ?thesis by auto
  next
    case (2 p)
    have "access_inv db'" using assms(2) unfolding 2(5) access_inv_def by (force simp: new_grant_def)
    then show ?thesis using new_grant_within[of row db p] unfolding 2(5) by auto
  next
    case (3 g p)
    let ?f = "set_grant row (g_id g) p (v_action row = ''GRANT'')"
    have "g_id \<circ> ?f = g_id" by (simp add: fun_eq_iff set_grant_keeps)
    then have "access_inv db'" using assms(2) unfolding 3(5) access_inv_def by (simp add: set_grant_keeps)
    moreover have "g' \<in> set (ad_grants db) \<or> within_row row g'" if "g' \<in> set (ad_grants db')" for g'
    proof -
      from that obtain x where x: "x \<in> set (ad_grants db)" "g' = ?f x" unfolding 3(5) by auto
      from set_grant_within[OF assms(2) 3(2) x(1)] x show ?thesis by metis
    qed
    ultimately show ?thesis unfolding 3(5) by (auto simp: set_grant_keeps)
  qed
  from all show "g' \<in> set (ad_grants db') \<Longrightarrow> g' \<in> set (ad_grants db) \<or> within_row row g'" by blast
  from all show "g \<in> set (ad_grants db) \<Longrightarrow> \<exists>g' \<in> set (ad_grants db'). g_id g' = g_id g \<and> grant_identity g' = grant_identity g" by blast
  from all show "access_inv db'" by blast
qed

lemma publish_all_rows:
  assumes "publish_all q rows db = Inr (ds, db')" and "access_inv db"
  shows "same_tables db db' \<and> access_inv db' \<and> (w_dry_run q \<longrightarrow> db' = db)
    \<and> (\<forall>g' \<in> set (ad_grants db'). g' \<in> set (ad_grants db) \<or> (\<exists>row \<in> set rows. within_row row g'))
    \<and> (\<forall>g \<in> set (ad_grants db). \<exists>g' \<in> set (ad_grants db'). g_id g' = g_id g \<and> grant_identity g' = grant_identity g)"
  using assms
proof (induction rows arbitrary: db ds)
  case (Cons row rows)
  then obtain d db1 ds' where one: "publish q row db = Inr (d, db1)" and rest: "publish_all q rows db1 = Inr (ds', db')"
    by (auto simp: err_simps)
  note rows = publish_rows[OF one Cons.prems(2)]
  note tail = Cons.IH[OF rest rows(3)]
  have "w_dry_run q \<longrightarrow> db1 = db" using one by (auto elim: publish_cases)
  with tail have "w_dry_run q \<longrightarrow> db' = db" by blast
  moreover have "same_tables db db'" using publish_tables[OF one] tail same_tables_trans by blast
  moreover have "\<exists>g' \<in> set (ad_grants db'). g_id g' = g_id g \<and> grant_identity g' = grant_identity g"
    if "g \<in> set (ad_grants db)" for g using rows(2)[OF that] tail by metis
  moreover have "g' \<in> set (ad_grants db) \<or> (\<exists>r \<in> set (row # rows). within_row r g')" if "g' \<in> set (ad_grants db')" for g'
    using tail that rows(1) by (metis list.set_intros)
  ultimately show ?case using tail by blast
qed auto

lemma map_err_all: "map_err f xs = Inr ys \<Longrightarrow> x \<in> set xs \<Longrightarrow> \<exists>y. f x = Inr y"
  by (induction xs arbitrary: ys) (auto simp: err_simps)

lemma change_written:
  assumes "apply_changes ctx q intent db = Inr (ds, db')" and "access_inv db"
  shows "same_tables db db' \<and> access_inv db' \<and> (w_dry_run q \<longrightarrow> db' = db)
    \<and> (\<forall>g' \<in> set (ad_grants db'). g' \<in> set (ad_grants db) \<or> may_manage db ctx (g_project g') (g_pipeline g') (g_tag g'))
    \<and> (\<forall>g \<in> set (ad_grants db). \<exists>g' \<in> set (ad_grants db'). g_id g' = g_id g \<and> grant_identity g' = grant_identity g)"
proof -
  from assms(1) obtain checked us where auth: "map_err (authorize db ctx) checked = Inr us"
    and pub: "publish_all q checked db = Inr (ds, db')"
    by (auto simp: apply_changes_def err_simps split: if_splits)
  have "may_manage db ctx (g_project g) (g_pipeline g) (g_tag g)" if "row \<in> set checked" "within_row row g" for row g
  proof -
    from map_err_all[OF auth that(1)] have "authorize db ctx row = Inr ()" by simp
    from authorize_manages[OF this] that(2) show ?thesis by (simp add: within_row_def)
  qed
  with publish_all_rows[OF pub assms(2)] show ?thesis by blast
qed

lemma changes_are_applied:
  "grant_access ctx q db = Inr (ds, db') \<or> revoke_access ctx q db = Inr (ds, db') \<Longrightarrow>
    \<exists>intent. apply_changes ctx q intent db = Inr (ds, db')"
  by (auto simp: grant_access_def revoke_access_def split: if_splits)

section \<open>Authorized changes\<close>

text \<open>
  C10. Whatever a request asks for, single or bulk, grant or revocation: what it writes lies in a
  project, pipeline or tag that the caller may manage in the state the request found (an
  administrator, a holder of CAN_MANAGE on the project, or a caller who sees the project and holds
  CAN_MANAGE on that pipeline or tag). A dry run writes nothing, nothing but grants is written, and
  a grant is never deleted or moved to another principal or target.
\<close>

theorem access_changes_authorized:
  assumes "access_inv db"
    and "grant_access ctx q db = Inr (ds, db') \<or> revoke_access ctx q db = Inr (ds, db')"
  shows "same_tables db db' \<and> access_inv db' \<and> (w_dry_run q \<longrightarrow> db' = db)
    \<and> (\<forall>g' \<in> set (ad_grants db'). g' \<in> set (ad_grants db) \<or> may_manage db ctx (g_project g') (g_pipeline g') (g_tag g'))
    \<and> (\<forall>g \<in> set (ad_grants db). \<exists>g' \<in> set (ad_grants db'). g_id g' = g_id g \<and> grant_identity g' = grant_identity g)"
  using changes_are_applied[OF assms(2)] change_written[OF _ assms(1)] by blast

section \<open>No escalation\<close>

text \<open>An active grant of the project that lets one of the caller's principals manage something in it.\<close>

definition holds_manage :: "access_db \<Rightarrow> access_context \<Rightarrow> int \<Rightarrow> bool" where
  "holds_manage db ctx k \<longleftrightarrow> (\<exists>g \<in> set (active_in db k). g_permission g = CanManage \<and> granted_to db ctx g)"

lemma highest_4: "highest gs = 4 \<Longrightarrow> \<exists>g \<in> set gs. g_permission g = CanManage"
proof -
  have "fold (\<lambda>g n. max (permission_rank (g_permission g)) n) gs m = 4 \<Longrightarrow> m < 4 \<Longrightarrow> \<exists>g \<in> set gs. g_permission g = CanManage" for m
  proof (induction gs arbitrary: m)
    case (Cons g gs)
    show ?case
    proof (cases "g_permission g = CanManage")
      case False
      then have "max (permission_rank (g_permission g)) m < 4" using Cons.prems(2)
        by (cases "g_permission g") (simp_all add: permission_rank_def)
      with Cons.IH[of "max (permission_rank (g_permission g)) m"] Cons.prems(1) show ?thesis by simp
    qed simp
  qed simp
  then show "highest gs = 4 \<Longrightarrow> ?thesis" by (simp add: highest_def)
qed

lemma highest_le: "highest gs \<le> 4"
proof -
  have "fold (\<lambda>g n. max (permission_rank (g_permission g)) n) gs m \<le> 4" if "m \<le> 4" for m
    using that by (induction gs arbitrary: m) (auto simp: permission_rank_def split: permission.split)
  then show ?thesis by (simp add: highest_def)
qed

lemma manage_level: "level_permission n = Some CanManage \<Longrightarrow> n \<le> 4 \<Longrightarrow> n = 4"
  by (cases n; cases "n - 1"; cases "n - 2"; cases "n - 3") (auto simp: level_permission_def permissions_def)

lemma scoped_granted: "granted_to db (ctx\<lparr>ax_project := k\<rparr>) g = granted_to db ctx g"
  by (simp add: granted_to_def in_group_def cong: option.case_cong)

lemma project_level_le: "project_level db ctx = Some n \<Longrightarrow> n \<le> 4"
  using highest_le by (auto simp: project_level_def Let_def split: option.splits if_splits)

lemma project_level_4:
  assumes "project_level db (ctx\<lparr>ax_project := k\<rparr>) = Some 4" and "ax_role ctx \<noteq> Some RoleAdmin"
  shows "holds_manage db ctx k"
proof -
  let ?c = "ctx\<lparr>ax_project := k\<rparr>"
  from assms have "highest (filter (\<lambda>g. eligible db ?c g \<and> g_pipeline g = None \<and> g_tag g = None) (ad_grants db)) = 4"
    by (auto simp: project_level_def Let_def split: option.splits if_splits)
  from highest_4[OF this] show ?thesis
    by (auto simp: holds_manage_def active_in_def eligible_def scoped_granted)
qed

lemma manager_holds_manage:
  assumes "may_manage db ctx k pipeline tag" and "ax_role ctx \<noteq> Some RoleAdmin"
  shows "holds_manage db ctx k"
proof -
  let ?c = "ctx\<lparr>ax_project := k\<rparr>"
  have held: "holds_manage db ctx k" if "g \<in> set (ad_grants db)" "eligible db ?c g" "g_permission g = CanManage" for g
    using that by (auto simp: holds_manage_def active_in_def eligible_def scoped_granted)
  have project: "holds_manage db ctx k" if "project_permission db ?c = Some CanManage"
  proof -
    from that obtain n where n: "project_level db ?c = Some n" "level_permission n = Some CanManage"
      by (auto simp: project_permission_def split: if_splits option.splits)
    with manage_level project_level_le have "n = 4" by blast
    with n project_level_4 assms(2) show ?thesis by blast
  qed
  from assms consider "project_permission db ?c = Some CanManage"
    | code acc where "pipeline_access db ?c = Inr acc" "access_level acc code = Some CanManage"
    | t where "project_permission db ?c \<noteq> Some CanManage" "tag_permission db ?c t = Some CanManage"
    by (auto simp: may_manage_def Let_def split: option.splits sum.splits)
  then show ?thesis
  proof cases
    case 1
    then show ?thesis by (rule project)
  next
    case (2 code acc)
    from 2(2) obtain r where "(code, Some CanManage, r) \<in> set acc"
      by (auto simp: access_level_def split: option.splits dest!: map_of_SomeD)
    with 2(1) obtain n p where n: "project_level db ?c = Some n"
      and p: "pl_project p = k" "level_permission (pipeline_level db ?c n p) = Some CanManage"
      by (auto simp: pipeline_access_def Let_def err_simps split: option.splits)
    have "pipeline_level db ?c n p = 4"
      by (rule manage_level[OF p(2)]) (use project_level_le[OF n] highest_le in \<open>simp add: pipeline_level_def\<close>)
    then consider "n = 4" | "highest (filter (\<lambda>g. applicable p g \<and> eligible db ?c g) (ad_grants db)) = 4"
      by (auto simp: pipeline_level_def split: if_splits)
    then show ?thesis
    proof cases
      case 1
      with n project_level_4 assms(2) show ?thesis by blast
    next
      case 2
      from highest_4[OF this] held show ?thesis by auto
    qed
  next
    case (3 t)
    then have "CanManage \<in> g_permission ` set (eligible_grants db ?c)"
      by (auto simp: tag_permission_def strongest_def split: option.splits if_splits dest!: find_SomeD)
    then show ?thesis using held by (auto simp: eligible_grants_def split: if_splits)
  qed
qed

text \<open>The grants of a project only change with a row of that project.\<close>

definition grants_of :: "access_db \<Rightarrow> int \<Rightarrow> grant_row list" where
  "grants_of db k = filter (\<lambda>g. g_project g = k) (ad_grants db)"

lemma publish_other_project:
  assumes "publish q row db = Inr (d, db')" and "v_project_id row \<noteq> k"
  shows "grants_of db' k = grants_of db k"
  using assms(1)
proof (cases rule: publish_cases)
  case (3 g p)
  have "filter (\<lambda>g. g_project g = k) (map (set_grant row i p a) gs) = filter (\<lambda>g. g_project g = k) gs" for i a gs
    by (induction gs) (use assms(2) in \<open>auto simp: set_grant_def\<close>)
  then show ?thesis by (simp add: grants_of_def 3(5))
qed (use assms(2) in \<open>auto simp: grants_of_def new_grant_def\<close>)

lemma publish_all_other_project:
  "publish_all q rows db = Inr (ds, db') \<Longrightarrow> \<forall>row \<in> set rows. v_project_id row \<noteq> k \<Longrightarrow> grants_of db' k = grants_of db k"
  by (induction rows arbitrary: db ds) (auto simp: err_simps publish_other_project)

text \<open>One accepted request of one of the callers.\<close>

inductive access_step :: "access_context set \<Rightarrow> access_db \<Rightarrow> access_db \<Rightarrow> bool" for callers where
  "ctx \<in> callers \<Longrightarrow> grant_access ctx q db = Inr (ds, db') \<Longrightarrow> access_step callers db db'"
| "ctx \<in> callers \<Longrightarrow> revoke_access ctx q db = Inr (ds, db') \<Longrightarrow> access_step callers db db'"

definition powerless :: "access_context set \<Rightarrow> int \<Rightarrow> access_db \<Rightarrow> bool" where
  "powerless callers k db \<longleftrightarrow> (\<forall>ctx \<in> callers. ax_role ctx \<noteq> Some RoleAdmin \<and> \<not> holds_manage db ctx k)"

lemma access_step_applies:
  "access_step callers db db' \<Longrightarrow> \<exists>ctx q ds intent. ctx \<in> callers \<and> apply_changes ctx q intent db = Inr (ds, db')"
  by (induction rule: access_step.induct) (metis changes_are_applied)+

lemma powerless_step:
  assumes "access_step callers db db'" and "powerless callers k db"
  shows "grants_of db' k = grants_of db k \<and> same_tables db db'"
proof -
  from access_step_applies[OF assms(1)] obtain ctx q ds intent where c: "ctx \<in> callers"
    and ap: "apply_changes ctx q intent db = Inr (ds, db')" by blast
  from ap obtain checked us where auth: "map_err (authorize db ctx) checked = Inr us"
    and pub: "publish_all q checked db = Inr (ds, db')"
    by (auto simp: apply_changes_def err_simps split: if_splits)
  have "v_project_id row \<noteq> k" if "row \<in> set checked" for row
  proof -
    from map_err_all[OF auth that] have "authorize db ctx row = Inr ()" by simp
    from manager_holds_manage[OF authorize_manages[OF this]] assms(2) c show ?thesis by (auto simp: powerless_def)
  qed
  then have "grants_of db' k = grants_of db k" using publish_all_other_project[OF pub] by blast
  moreover have "same_tables db db'" using pub
    by (induction checked arbitrary: db ds) (auto simp: err_simps dest!: publish_tables intro: same_tables_trans)
  ultimately show ?thesis ..
qed

lemma active_in_grants: "active_in db k = filter g_active (grants_of db k)"
  unfolding active_in_def grants_of_def filter_filter by (rule filter_cong) auto

text \<open>
  C11. Delegation does not escalate: callers of whom none is an administrator and none holds a
  CAN_MANAGE grant on the project or anything in it never change a grant of the project, in any
  number of requests and whatever they do elsewhere, so that the levels of every account on the
  project, its pipelines and its tags stay what they were.
\<close>

theorem no_escalation:
  assumes "powerless callers k db" and "(access_step callers)\<^sup>*\<^sup>* db db'"
  shows "grants_of db' k = grants_of db k
    \<and> (\<forall>ctx. ax_project ctx = k \<longrightarrow> project_permission db' ctx = project_permission db ctx
         \<and> pipeline_access db' ctx = pipeline_access db ctx \<and> tag_permission db' ctx = tag_permission db ctx)"
proof -
  from assms(2) have all: "grants_of db' k = grants_of db k \<and> same_tables db db'"
  proof induction
    case (step y z)
    then have same: "grants_of y k = grants_of db k" "same_tables db y" by auto
    then have "holds_manage y ctx k = holds_manage db ctx k" for ctx
      by (simp add: holds_manage_def active_in_grants granted_to_tables)
    with assms(1) have "powerless callers k y" by (simp add: powerless_def)
    from powerless_step[OF step(2) this] same show ?case using same_tables_trans by metis
  qed simp
  then have "active_in db' k = active_in db k" by (simp add: active_in_grants)
  with all levels_same show ?thesis by blast
qed

section \<open>Grant and revoke\<close>

text \<open>Names and identities of the tables as their indexes keep them.\<close>

definition named_tables :: "access_db \<Rightarrow> bool" where
  "named_tables db \<longleftrightarrow> distinct (map gr_id (ad_groups db)) \<and> distinct (map ac_id (ad_accounts db))
     \<and> [] \<notin> gr_name ` set (ad_groups db) \<and> [] \<notin> ac_name ` set (ad_accounts db)"

text \<open>The submitted identity of a single request.\<close>

definition submitted :: "string option \<Rightarrow> string" where
  "submitted v = strip (case v of None \<Rightarrow> [] | Some s \<Rightarrow> s)"

definition target_of :: "access_write \<Rightarrow> string list" where
  "target_of q = map submitted [w_project q, w_group q, w_role q, w_account q, w_pipeline q, w_tag q]"

definition single_row :: "access_db \<Rightarrow> access_write \<Rightarrow> access_intent \<Rightarrow> validated \<Rightarrow> bool" where
  "single_row db q intent row \<longleftrightarrow>
     [v_project row, v_group row, v_role row, v_account row, v_pipeline row, v_tag row] = target_of q
     \<and> v_action row = intent_value intent \<and> project_of_code db (v_project row) = Inr (v_project_id row)
     \<and> v_group_id row = group_id_of db (v_group row) \<and> (v_group row \<noteq> [] \<longrightarrow> v_group_id row \<noteq> None)
     \<and> v_account_id row = map_option ac_id (account_of db (v_account row)) \<and> (v_account row \<noteq> [] \<longrightarrow> v_account_id row \<noteq> None)"

lemma strip_intent: "strip (intent_value intent) = intent_value intent"
  by (cases intent) (simp_all add: intent_value_def, code_simp+)

lemma flag_Nil: "(if b then [x] else []) = [] \<longleftrightarrow> \<not> b"
  by simp

lemma checked_row:
  assumes "row_problems db q r = Inr (Some row, bad)"
  shows "\<exists>k. project_of_code db (cell r ''PROJECT'') = Inr k
    \<and> (cell r ''GROUP_NAME'' \<noteq> [] \<longrightarrow> group_id_of db (cell r ''GROUP_NAME'') \<noteq> None)
    \<and> (cell r ''ACCOUNT'' \<noteq> [] \<longrightarrow> account_of db (cell r ''ACCOUNT'') \<noteq> None)
    \<and> row = \<lparr>v_line = in_line r, v_project = cell r ''PROJECT'', v_group = cell r ''GROUP_NAME'', v_role = cell r ''ROLE'',
        v_pipeline = cell r ''PIPELINE_CODE'', v_tag = cell r ''TAG'', v_permission = cell r ''PERMISSION'',
        v_action = cell r ''ACTION'', v_account = cell r ''ACCOUNT'', v_project_id = k,
        v_group_id = group_id_of db (cell r ''GROUP_NAME''), v_account_id = map_option ac_id (account_of db (cell r ''ACCOUNT''))\<rparr>"
proof -
  from assms obtain targets where noted: "row_notes db q r targets = []"
    by (auto simp: row_problems_def Let_def err_simps split: if_splits)
  then obtain k where k: "project_of_code db (cell r ''PROJECT'') = Inr k"
    by (auto simp: row_notes_def Let_def split: sum.splits)
  from noted have "cell r ''GROUP_NAME'' \<noteq> [] \<longrightarrow> group_id_of db (cell r ''GROUP_NAME'') \<noteq> None"
    "cell r ''ACCOUNT'' \<noteq> [] \<longrightarrow> account_of db (cell r ''ACCOUNT'') \<noteq> None"
    unfolding row_notes_def Let_def append_is_Nil_conv flag_Nil by force+
  with assms k show ?thesis by (auto simp: row_problems_def Let_def err_simps split: if_splits)
qed

lemma refused_row: "row_problems db q r = Inr (None, bad) \<Longrightarrow> bad \<noteq> []"
  by (auto simp: row_problems_def Let_def err_simps split: if_splits)

lemma single_request:
  assumes "w_content q = None" and "apply_changes ctx q intent db = Inr (ds, db')"
  obtains row d where "ds = [d]" and "publish q row db = Inr (d, db')" and "single_row db q intent row"
proof -
  let ?r = "\<lparr>in_line = 1, in_values = [(''PROJECT'', w_project q), (''GROUP_NAME'', w_group q), (''ROLE'', w_role q),
         (''PIPELINE_CODE'', w_pipeline q), (''TAG'', w_tag q), (''PERMISSION'', w_permission q),
         (''ACTION'', Some (intent_value intent)), (''ACCOUNT'', w_account q)], in_well_formed = True\<rparr>"
  from assms(2) obtain checked where v: "validate_rows db q [?r] [] [] [] = Inr checked"
    and pub: "publish_all q checked db = Inr (ds, db')"
    using assms(1) by (auto simp: apply_changes_def inputs_def err_simps split: if_splits)
  from v obtain row where rp: "row_problems db q ?r = Inr (Some row, [])" and checked: "checked = [row]"
    by (cases "row_problems db q ?r") (auto simp: Let_def dest: refused_row split: if_splits option.splits)
  have cells: "cell ?r ''PROJECT'' = submitted (w_project q)" "cell ?r ''GROUP_NAME'' = submitted (w_group q)"
    "cell ?r ''ROLE'' = submitted (w_role q)" "cell ?r ''PIPELINE_CODE'' = submitted (w_pipeline q)"
    "cell ?r ''TAG'' = submitted (w_tag q)" "cell ?r ''ACCOUNT'' = submitted (w_account q)"
    "cell ?r ''ACTION'' = intent_value intent"
    by (simp_all add: cell_def submitted_def strip_intent split: option.split)
  have "single_row db q intent row"
    using checked_row[OF rp] unfolding cells by (auto simp: single_row_def target_of_def)
  moreover from pub checked obtain d where "ds = [d]" "publish q row db = Inr (d, db')" by (auto simp: err_simps)
  ultimately show thesis using that by blast
qed

lemma same_tables_lookup:
  assumes "same_tables db db'"
  shows "project_of_code db' = project_of_code db" "group_id_of db' = group_id_of db" "account_of db' = account_of db"
    "same_identity db' = same_identity db"
  using same_tables_simps[OF assms]
  by (simp_all add: project_of_code_def group_id_of_def account_of_def same_identity_def project_has_code_def
      group_name_of_def account_name_of_def fun_eq_iff)

lemma find_unique: "distinct (map f xs) \<Longrightarrow> x \<in> set xs \<Longrightarrow> find (\<lambda>y. Some (f y) = Some (f x)) xs = Some x"
  by (induction xs) auto

lemma group_round:
  assumes "named_tables db" and "name \<noteq> [] \<longrightarrow> group_id_of db name \<noteq> None"
  shows "group_name_of db (group_id_of db name) = or_none name"
proof (cases "group_id_of db name")
  case None
  moreover have "find (\<lambda>g. Some (gr_id g) = None) (ad_groups db) = None" by (simp only: find_None_iff) simp
  ultimately show ?thesis using assms(2) by (simp add: group_name_of_def or_none_def)
next
  case (Some k)
  then obtain g where g: "g \<in> set (ad_groups db)" "gr_name g = name" "gr_id g = k"
    by (auto simp: group_id_of_def dest!: map_of_SomeD)
  have "find (\<lambda>x. Some (gr_id x) = Some (gr_id g)) (ad_groups db) = Some g"
    by (rule find_unique) (use assms(1) g(1) in \<open>auto simp: named_tables_def\<close>)
  moreover have "name \<noteq> []" using assms(1) g by (force simp: named_tables_def image_iff)
  ultimately show ?thesis using g Some by (simp add: group_name_of_def or_none_def)
qed

lemma account_round:
  assumes "named_tables db" and "name \<noteq> [] \<longrightarrow> account_of db name \<noteq> None"
  shows "account_name_of db (map_option ac_id (account_of db name)) = or_none name"
proof (cases "account_of db name")
  case None
  moreover have "find (\<lambda>a. Some (ac_id a) = None) (ad_accounts db) = None" by (simp only: find_None_iff) simp
  ultimately show ?thesis using assms(2) by (simp add: account_name_of_def or_none_def)
next
  case (Some a)
  then have a: "a \<in> set (ad_accounts db)" "ac_name a = name"
    by (auto simp: account_of_def dest!: map_of_SomeD)
  have "find (\<lambda>x. Some (ac_id x) = Some (ac_id a)) (ad_accounts db) = Some a"
    by (rule find_unique) (use assms(1) a(1) in \<open>auto simp: named_tables_def\<close>)
  moreover have "name \<noteq> []" using assms(1) a by (force simp: named_tables_def image_iff)
  ultimately show ?thesis using a Some by (simp add: account_name_of_def or_none_def)
qed

lemma new_grant_identity:
  assumes "named_tables db" and "single_row db q intent row"
  shows "same_identity db row (new_grant db row p)"
proof -
  have "project_has_code db (v_project_id row) (v_project row)"
    using assms(2) by (auto simp: single_row_def project_of_code_def project_has_code_def list_ex_iff
        split: if_splits option.splits dest!: find_SomeD)
  moreover have "group_name_of db (v_group_id row) = or_none (v_group row)"
    using group_round[OF assms(1), of "v_group row"] assms(2) unfolding single_row_def by (elim conjE) metis
  moreover have "account_name_of db (v_account_id row) = or_none (v_account row)"
    using account_round[OF assms(1), of "v_account row"] assms(2) unfolding single_row_def
    by (elim conjE) (metis option.map_disc_iff)
  ultimately show ?thesis by (simp add: same_identity_def new_grant_def)
qed

lemma same_identity_fields:
  assumes "single_row db q i row" and "single_row db' q' i' row'" and "target_of q' = target_of q" and "same_tables db db'"
  shows "same_identity db' row' = same_identity db row" "v_project_id row' = v_project_id row"
proof -
  have f: "v_project row' = v_project row" "v_group row' = v_group row" "v_role row' = v_role row"
    "v_account row' = v_account row" "v_pipeline row' = v_pipeline row" "v_tag row' = v_tag row"
  proof -
    have "[v_project row', v_group row', v_role row', v_account row', v_pipeline row', v_tag row']
        = [v_project row, v_group row, v_role row, v_account row, v_pipeline row, v_tag row]"
      using assms(1-3) unfolding single_row_def by argo
    then show "v_project row' = v_project row" "v_group row' = v_group row" "v_role row' = v_role row"
      "v_account row' = v_account row" "v_pipeline row' = v_pipeline row" "v_tag row' = v_tag row" by simp_all
  qed
  show "v_project_id row' = v_project_id row"
    using assms(1,2) same_tables_lookup(1)[OF assms(4)] f by (simp add: single_row_def)
  show "same_identity db' row' = same_identity db row"
    unfolding same_tables_lookup(4)[OF assms(4)] by (simp add: same_identity_def f fun_eq_iff)
qed

lemma find_map_same: "(\<And>x. P (f x) = P x) \<Longrightarrow> find P (map f xs) = map_option f (find P xs)"
  by (induction xs) auto

lemma publish_change:
  "publish q row db = Inr (d, db') \<Longrightarrow>
     \<exists>p. df_change d = change_of (v_action row = ''GRANT'') (find (same_identity db row) (ad_grants db)) p"
  by (auto simp: publish_def Let_def split: if_splits option.splits) metis+

text \<open>A row at the place of \<open>g\<close> or not, and the active rows that are not.\<close>

definition elsewhere :: "grant_row \<Rightarrow> int \<Rightarrow> grant_row \<Rightarrow> bool" where
  "elsewhere g project x \<longleftrightarrow> \<not> (g_id x = g_id g \<and> g_project x = project)"

lemma inactive_elsewhere:
  assumes "access_inv db" and "g \<in> set (ad_grants db)" and "\<not> g_active g"
  shows "filter (elsewhere g project) (active_in db k) = active_in db k"
proof (rule filter_True, rule ballI)
  fix x assume "x \<in> set (active_in db k)"
  then have x: "x \<in> set (ad_grants db)" "g_active x" by (auto simp: active_in_def)
  have "g_id x \<noteq> g_id g"
  proof
    assume "g_id x = g_id g"
    with assms(1,2) x(1) have "x = g" unfolding access_inv_def by (metis distinct_map inj_onD)
    with assms(3) x(2) show False by simp
  qed
  then show "elsewhere g project x" by (simp add: elsewhere_def)
qed

lemma grant_elsewhere:
  "elsewhere g (v_project_id row) x \<Longrightarrow> set_grant row (g_id g) p a x = x"
  "elsewhere g k (set_grant row i p a x) = elsewhere g k x"
  "\<not> elsewhere g (v_project_id row) x \<Longrightarrow> \<not> g_active (set_grant row (g_id g) p False x)"
  unfolding elsewhere_def set_grant_def by auto

lemma set_grant_elsewhere:
  "filter (elsewhere g (v_project_id row)) (filter (\<lambda>g. g_active g \<and> g_project g = k) (map (set_grant row (g_id g) p a) xs))
   = filter (elsewhere g (v_project_id row)) (filter (\<lambda>g. g_active g \<and> g_project g = k) xs)"
proof (induction xs)
  case (Cons x xs)
  then show ?case
    by (cases "elsewhere g (v_project_id row) x") (simp_all add: grant_elsewhere)
qed simp

lemma revoked_elsewhere:
  "filter (\<lambda>g. g_active g \<and> g_project g = k) (map (set_grant row (g_id g) p False) xs)
   = filter (elsewhere g (v_project_id row)) (filter (\<lambda>g. g_active g \<and> g_project g = k) xs)"
proof (induction xs)
  case (Cons x xs)
  then show ?case
    by (cases "elsewhere g (v_project_id row) x") (simp_all add: grant_elsewhere)
qed simp

lemma revoke_active:
  assumes "access_inv db" and "find (same_identity db row) (ad_grants db) = Some g"
    and "publish q row db = Inr (d, db')" and "v_action row \<noteq> ''GRANT''" and "\<not> w_dry_run q"
  shows "active_in db' k = filter (elsewhere g (v_project_id row)) (active_in db k)"
proof -
  have g: "g \<in> set (ad_grants db)" using find_SomeD[OF assms(2)] by blast
  from publish_known[OF assms(2,3)] assms(4,5) consider "db' = db" "df_change d = AccessUnchanged"
    | p where "db' = db\<lparr>ad_grants := map (set_grant row (g_id g) p False) (ad_grants db)\<rparr>" by auto
  then show ?thesis
  proof cases
    case 1
    with publish_change[OF assms(3)] assms(2,4) have "\<not> g_active g" by (auto simp: change_of_def split: if_splits)
    with inactive_elsewhere[OF assms(1) g] 1 show ?thesis by simp
  next
    case 2
    then show ?thesis by (simp add: active_in_def revoked_elsewhere)
  qed
qed

text \<open>After the revocation of a row that a grant activated, the same grants are active as before.\<close>

lemma revoke_restores:
  assumes inv: "access_inv db" and named: "named_tables db"
    and row: "single_row db q IntentGrant row" and row': "single_row db1 q' IntentRevoke row'" and same: "target_of q' = target_of q"
    and pub: "publish q row db = Inr (d, db1)" and added: "df_change d = AccessAdded"
    and pub': "publish q' row' db1 = Inr (d', db2)" and wet: "\<not> w_dry_run q'"
  shows "active_in db2 k = active_in db k"
proof -
  have acts: "v_action row = ''GRANT''" "v_action row' \<noteq> ''GRANT''"
    using row row' by (simp_all add: single_row_def intent_value_def)
  note id = same_identity_fields[OF row row' same publish_tables[OF pub]]
  note inv1 = publish_rows(3)[OF pub inv]
  have old: "\<not> g_active g" if "find (same_identity db row) (ad_grants db) = Some g" for g
    using publish_change[OF pub] added that by (auto simp: change_of_def split: if_splits)
  have undone: "active_in db2 k = filter (elsewhere g (v_project_id row)) (active_in db1 k)"
    if "find (same_identity db row) (ad_grants db1) = Some g" for g
    using revoke_active[OF inv1 _ pub' acts(2) wet, of g k] that by (simp add: id)
  from pub show ?thesis
  proof (cases rule: publish_cases)
    case 1
    show ?thesis
    proof (cases "find (same_identity db row) (ad_grants db)")
      case None
      then have "find (same_identity db1 row') (ad_grants db1) = None" unfolding id by (simp add: 1)
      with pub' acts(2) have "db2 = db1" by (cases rule: publish_cases) auto
      with 1 show ?thesis by simp
    next
      case (Some g)
      with undone[of g] inactive_elsewhere[OF inv _ old[OF Some]] find_SomeD[OF Some] show ?thesis by (simp add: 1)
    qed
  next
    case (2 p)
    let ?new = "new_grant db row p"
    have "find P (xs @ [x]) = Some x" if "find P xs = None" "P x" for P xs and x :: grant_row
      using that by (induction xs) (auto split: if_splits)
    from this[OF 2(2) new_grant_identity[OF named row, of p]]
    have "active_in db2 k = filter (elsewhere ?new (v_project_id row)) (active_in db1 k)"
      by (intro undone) (simp add: 2(5))
    moreover have "filter (elsewhere ?new (v_project_id row)) (active_in db k) = active_in db k"
      by (rule filter_True) (use inv in \<open>auto simp: elsewhere_def new_grant_def active_in_def access_inv_def\<close>)
    moreover have "\<not> elsewhere ?new (v_project_id row) ?new" by (simp add: elsewhere_def new_grant_def)
    ultimately show ?thesis by (simp add: 2(5) active_in_def)
  next
    case (3 g p)
    have g: "g \<in> set (ad_grants db)" using find_SomeD[OF 3(2)] by blast
    have "same_identity db row (set_grant row i p a x) = same_identity db row x" for i p a x
      by (simp add: same_identity_def set_grant_def)
    then have "find (same_identity db row) (ad_grants db1) = Some (set_grant row (g_id g) p True g)"
      using 3(2) acts(1) by (simp add: 3(5) find_map_same)
    moreover have "elsewhere (set_grant row i p' a g) = elsewhere g" for i p' a
      by (simp add: elsewhere_def set_grant_keeps fun_eq_iff)
    ultimately have "active_in db2 k = filter (elsewhere g (v_project_id row)) (active_in db1 k)"
      using undone by metis
    also have "\<dots> = filter (elsewhere g (v_project_id row)) (active_in db k)"
      by (simp add: 3(5) acts(1) active_in_def set_grant_elsewhere del: filter_filter)
    also have "\<dots> = active_in db k" by (rule inactive_elsewhere[OF inv g old[OF 3(2)]])
    finally show ?thesis .
  qed
qed


section \<open>Two accounts at work\<close>

text \<open>A project that both accounts may view, one pipeline tagged \<open>eu\<close>, which \<open>ann\<close> manages.\<close>

definition office_grant :: "int \<Rightarrow> int option \<Rightarrow> string option \<Rightarrow> string option \<Rightarrow> string option \<Rightarrow> permission \<Rightarrow> grant_row" where
  "office_grant k acct role pipeline tag p = \<lparr>g_id = k, g_project = 1, g_group = None, g_account = acct, g_role = role,
     g_pipeline = pipeline, g_tag = tag, g_permission = p, g_active = True\<rparr>"

definition office :: access_db where
  "office = \<lparr>ad_accounts = [\<lparr>ac_id = 1, ac_name = ''ann'', ac_active = True\<rparr>, \<lparr>ac_id = 2, ac_name = ''bob'', ac_active = True\<rparr>],
     ad_groups = [], ad_members = [], ad_projects = [\<lparr>pj_id = 1, pj_code = ''P'', pj_active = True\<rparr>],
     ad_pipelines = [\<lparr>pl_project = 1, pl_code = ''SALES'', pl_active = True, pl_tags = TagList [Some ''eu'']\<rparr>],
     ad_grants = [office_grant 1 None (Some ''viewer'') None None CanView, office_grant 2 (Some 1) None None (Some ''eu'') CanManage],
     ad_next = 3\<rparr>"

definition viewer_called :: "string \<Rightarrow> access_context" where
  "viewer_called name = \<lparr>ax_account = name, ax_role = Some RoleViewer, ax_sso = [], ax_project = 1\<rparr>"

definition run_for_bob :: access_write where
  "run_for_bob = \<lparr>w_project = Some ''P'', w_group = None, w_account = Some ''bob'', w_role = None, w_pipeline = Some ''SALES'',
     w_tag = None, w_permission = Some ''CAN_RUN'', w_reason = ''cover'', w_content = None, w_dry_run = False\<rparr>"

definition office_granted :: access_db where
  "office_granted = office\<lparr>ad_grants := ad_grants office @ [office_grant 3 (Some 2) None (Some ''SALES'') None CanRun], ad_next := 4\<rparr>"

lemma office_inv: "access_inv office" "named_tables office"
  by (simp_all add: access_inv_def named_tables_def office_def office_grant_def)

lemma office_history:
  "(case grant_access (viewer_called ''ann'') run_for_bob office of
      Inr (ds, db) \<Rightarrow> map df_change ds = [AccessAdded] \<and> db = office_granted | Inl _ \<Rightarrow> False)
   \<and> (case grant_access (viewer_called ''bob'') run_for_bob office of Inl (PipelineHidden _) \<Rightarrow> True | _ \<Rightarrow> False)"
  by code_simp

lemma office_steps:
  obtains ds ds' db2 where "grant_access (viewer_called ''ann'') run_for_bob office = Inr (ds, office_granted)"
    and "map df_change ds = [AccessAdded]"
    and "revoke_access (viewer_called ''ann'') run_for_bob office_granted = Inr (ds', db2)"
proof -
  have "case revoke_access (viewer_called ''ann'') run_for_bob office_granted of Inr _ \<Rightarrow> True | Inl _ \<Rightarrow> False" by code_simp
  with office_history that show ?thesis by (auto split: sum.splits prod.splits)
qed

theorem access_changes_authorized_witness:
  "access_inv office_granted \<and> may_manage office (viewer_called ''ann'') 1 (Some ''SALES'') None
   \<and> is_err (grant_access (viewer_called ''bob'') run_for_bob office)"
proof -
  obtain ds ds' db2 where g: "grant_access (viewer_called ''ann'') run_for_bob office = Inr (ds, office_granted)"
    and "map df_change ds = [AccessAdded]" and "revoke_access (viewer_called ''ann'') run_for_bob office_granted = Inr (ds', db2)"
    by (rule office_steps)
  note all = access_changes_authorized[OF office_inv(1) disjI1[OF g]]
  have "office_grant 3 (Some 2) None (Some ''SALES'') None CanRun \<in> set (ad_grants office_granted)"
    "office_grant 3 (Some 2) None (Some ''SALES'') None CanRun \<notin> set (ad_grants office)"
    by (simp_all add: office_granted_def office_def office_grant_def)
  with all have "let g = office_grant 3 (Some 2) None (Some ''SALES'') None CanRun in
      may_manage office (viewer_called ''ann'') (g_project g) (g_pipeline g) (g_tag g)" unfolding Let_def by blast
  then have "may_manage office (viewer_called ''ann'') 1 (Some ''SALES'') None" by (simp add: office_grant_def)
  moreover have "is_err (grant_access (viewer_called ''bob'') run_for_bob office)"
    using office_history by (auto simp: is_err_def split: sum.splits)
  ultimately show ?thesis using all by blast
qed

theorem no_escalation_witness:
  "powerless {viewer_called ''bob''} 1 office \<and> grants_of office 1 = ad_grants office
   \<and> \<not> powerless {viewer_called ''ann''} 1 office"
proof -
  have held: "powerless {viewer_called ''bob''} 1 office" "\<not> powerless {viewer_called ''ann''} 1 office"
    by (auto simp: powerless_def holds_manage_def active_in_def granted_to_def active_account_def in_group_def viewer_called_def
        office_def office_grant_def)
  have "grants_of office 1 = ad_grants office" by (simp add: grants_of_def office_def office_grant_def)
  with held no_escalation[OF held(1) rtranclp.rtrancl_refl] show ?thesis by blast
qed


end
