(* ===== verification/Spec2Isabelle.thy ===== *)
theory Spec2Isabelle
  imports Graph_Waves Graph_Ready Code_Cycles Lifecycle_Theorems Lifecycle_Claims Standing_Pauses
    Sql_Claims Gate_Claims Resource_Locks Restart Retries Catch_Up Window_Claims Control_Claims Item_Claims Budget Fan_Claims
    Scheduler_Claims Access_Claims
begin

text \<open>
  etl-craft is a metadata-driven ETL engine: pipelines, their tasks and the dependencies between
  them are rows of an Engine DB (SQLite or PostgreSQL), and processes on one or more hosts (the
  command line, a controller, agents) run the tasks and record what happened in the same database.
  Nothing but guarded statements on its tables keeps these processes apart. This library models
  that core: what the operations on the tables do, on every branch, and what the guards promise.
  Paths below are relative to \<^verbatim>\<open>src/src/etl_craft/\<close>.

  \<^bold>\<open>How the parts interact.\<close> A schedule (\<^verbatim>\<open>core/cron.py\<close>, \<^verbatim>\<open>core/calendars.py\<close>,
  \<^verbatim>\<open>controller/schedules.py\<close>) or a restart condition creates a run. The run's scheduler asks the
  dependency graph which tasks are ready, the gates whether the upstream pipelines are, the
  controls and standing pauses whether a task may start, and queues an attempt through the
  lifecycle. A worker claims the attempt, which takes resource locks, admits a timestamp window or
  fans out over items while its lease lives; ending the attempt releases what it held and lets the
  retries, the controls and the run itself advance.

  \<^bold>\<open>How code becomes definitions.\<close> A dataclass or a row is a \<open>record\<close>, an enumeration a
  \<open>datatype\<close>; a table is a list of rows in the order of its key. A function that may raise returns
  a sum whose left side names the error and carries the values of its message; a statement whose
  guard selects no row is the error its caller raises. A loop that waits is a step function with
  its state, an operation on the Engine DB is a function from state to state, and what several
  processes do is an \<open>inductive\<close> relation with one rule per operation, so that a property of every
  reachable state holds for every interleaving. Instants are integers of microseconds, strings
  lists of code points below 256.

  \<^bold>\<open>Theories.\<close>
  \<^item> \<open>Prelude\<close>: errors, loops that stop at the first error, Python's string operations, the locales
    \<open>safe_system\<close> (an invariant every step keeps) and others the components interpret.
    \<open>Enums\<close>: statuses and policies of \<^verbatim>\<open>core/enums.py\<close>. \<open>Store\<close>: tables and compare-and-set.
    \<open>Py_Numbers\<close>: reading numbers.
  \<^item> \<open>Graph\<close> models \<^verbatim>\<open>core/graph.py\<close>; \<open>Graph_Build\<close>, \<open>Graph_Order\<close>, \<open>Graph_Waves\<close> and
    \<open>Graph_Ready\<close> show that the validation accepts exactly the sound definitions, that waves end,
    that readiness is what the rows mean, that a dead end stays one and that a run never stalls.
    \<open>Code_Cycles\<close>: the listing of cycles is exactly the set of elementary cycles.
  \<^item> \<open>Lifecycle\<close> models \<^verbatim>\<open>engine/transitions.py\<close>, \<^verbatim>\<open>engine/attempts.py\<close>,
    \<^verbatim>\<open>engine/agent_transitions.py\<close>, \<^verbatim>\<open>engine/run_creation.py\<close>, \<^verbatim>\<open>engine/runlog.py\<close> and the
    statements \<^verbatim>\<open>transition_*.sql\<close>. \<open>Lifecycle_Inv\<close> (unique indexes, at most one live attempt of
    a task run), \<open>Lifecycle_Steps\<close>, \<open>Lifecycle_Props\<close>, \<open>Lifecycle_Theorems\<close> and
    \<open>Lifecycle_Claims\<close> (state machine of attempts, exact conditions of endings).
  \<^item> \<open>Standing_Pauses\<close>: \<^verbatim>\<open>engine/standing_pauses.py\<close>. \<open>Controls\<close>, \<open>Control_Inv\<close> and
    \<open>Control_Claims\<close>: holds, stops, aborts and releases of \<^verbatim>\<open>engine/controls.py\<close>,
    \<^verbatim>\<open>execution/control_flow.py\<close> and \<^verbatim>\<open>services/operations/controls.py\<close>; a completed stop is quiet.
    \<open>Retries\<close>: \<^verbatim>\<open>execution/retries.py\<close>.
  \<^item> \<open>Gates\<close>, \<open>Gate_Claims\<close>: \<^verbatim>\<open>execution/gates.py\<close> and \<^verbatim>\<open>engine/repository/trackers.py\<close>.
    \<open>Resource_Locks\<close>: \<^verbatim>\<open>engine/resource_locks.py\<close>, as a refinement of an abstract lock service.
    \<open>Windows\<close>, \<open>Window_Claims\<close>: \<^verbatim>\<open>engine/timestamp_windows.py\<close> and
    \<^verbatim>\<open>engine/repository/offsets.py\<close>; committed windows tile the time of a task.
  \<^item> \<open>Items\<close>, \<open>Item_Inv\<close>, \<open>Item_Claims\<close>: item evidence of \<^verbatim>\<open>engine/items.py\<close>, the fenced store of
    \<^verbatim>\<open>engine/task_store.py\<close> and the decisions of \<^verbatim>\<open>services/operations/items.py\<close>. \<open>Fan_Out\<close>,
    \<open>Fan_Claims\<close>: the loop of \<^verbatim>\<open>fan_out.py\<close>, proved over the interface \<open>item_store\<close>, which the
    store of \<open>Items\<close> provides.
  \<^item> \<open>Scheduler\<close>, \<open>Scheduler_Claims\<close>: a step of \<^verbatim>\<open>execution/scheduler.py\<close> as an action that may raise
    at any call and keeps what it changed before; what it submits, how often, in which order, and
    when a run is over. \<open>loop_invariant\<close> and \<open>scheduler_invariant\<close> are the contracts that make a
    property of the scheduler survive the loop and every step.
  \<^item> \<open>Access\<close>, \<open>Access_Claims\<close>: pipeline grants of \<^verbatim>\<open>services/operations/permissions.py\<close> and
    \<^verbatim>\<open>services/operations/access.py\<close>; changes are authorized, delegation does not escalate, and a
    revocation undoes a grant for everyone.
  \<^item> \<open>Cron\<close>, \<open>Calendars\<close>, \<open>Tick_Order\<close>: the next tick is the earliest one, through gaps and
    overlaps of a time zone. \<open>Run_Keys\<close>, \<open>Schedules\<close>, \<open>Catch_Up\<close>: every due tick is recorded
    once. \<open>Restart\<close>: restart conditions.
  \<^item> \<open>Sql_Scan\<close>, \<open>Sql_Text\<close>, \<open>Sql_Claims\<close>: the SQL scanner and the text routines of
    \<^verbatim>\<open>core/text.py\<close>. \<open>Budget\<close>: \<^verbatim>\<open>engine/connection_budget.py\<close>.

  \<^bold>\<open>Parameters.\<close> What the code reads from outside \<^verbatim>\<open>src\<close> is an argument: the offsets of a time zone
  (\<open>regular_zone\<close> of \<open>Tick_Order\<close> states what is assumed of them), \<^verbatim>\<open>datetime.fromisoformat\<close>,
  the rows a gate or a controller query returns, the capacity of a host, the masking of secrets in
  error texts, what a scheduler step is answered by the database, the pool and the clock, the
  confirmation that a lock holder is gone, the takeover of a probe, the values of
  \<^verbatim>\<open>uuid4()\<close>, and what the user's functions return and when.

  \<^bold>\<open>Bounds and termination.\<close> Loops are structural or have a measure. The search for a tick looks
  at most \<open>search_days\<close> (\<open>366 * 8 + 1\<close> days, as the code does) ahead; a durable wait looks at
  most thirty times; a fan-out's own steps are bounded by its keys and retries. \<open>waves\<close> is a
  partial function whose termination on accepted graphs is a theorem.

  \<^bold>\<open>Not modelled.\<close> Operating-system effects (child processes, signals, threads, files, HTTP), the
  third-party drivers and SQL parsers behind the task handlers and warehouse dialects, migrations,
  and the services that only read, validate and render rows. Of the modelled parts, attribution
  columns, log texts, metrics and notifications are left out, and Unicode case mappings beyond
  ASCII. \<^verbatim>\<open>PROJECT.json\<close> lists every part with its status.
\<close>

end
